(* ===== verification/Prelude.thy ===== *)
theory Prelude
  imports Main "HOL-Library.Word" "HOL-Library.Signed_Division"
begin

text \<open>
  Shared vocabulary of the development: faults and results of C code, the 32-bit signed
  \<open>int\<close> of the i386 target with its wrap-around and its trapping division, and the generic
  lemmas the component theories rely on.

  \<^item> \<open>fault\<close> lists the ways the compiled C can go wrong at run time; \<open>'a res\<close> is a result or
    a fault, and \<open>rbind\<close> sequences two computations, stopping at the first fault.
  \<^item> \<open>cint\<close> reduces a mathematical integer to the value a 32-bit two's complement \<open>int\<close> holds.
  \<^item> \<open>cdiv\<close> and \<open>cmod\<close> are the \<open>/\<close> and \<open>%\<close> of C, truncating towards zero; the \<open>idiv\<close>
    instruction traps on a zero divisor and on \<open>INT_MIN / -1\<close>.
\<close>

named_theorems result_simps \<open>equations that take results of C code apart\<close>
named_theorems arith32 \<open>facts on 32-bit signed arithmetic in range\<close>

section \<open>Faults and results\<close>

datatype fault =
    NullDeref    \<comment> \<open>a null pointer is dereferenced\<close>
  | BadPointer   \<comment> \<open>a pointer to freed memory or to an object of another type\<close>
  | BadFree      \<comment> \<open>a block is freed twice\<close>
  | OutOfBounds  \<comment> \<open>an access past the end of a block\<close>
  | Uninit       \<comment> \<open>a byte is read before it was written\<close>
  | DivError     \<comment> \<open>the divide error trap of the processor\<close>

type_synonym 'a res = "fault + 'a"

definition rbind :: "'a res \<Rightarrow> ('a \<Rightarrow> 'b res) \<Rightarrow> 'b res" where
  "rbind m f = (case m of Inl e \<Rightarrow> Inl e | Inr x \<Rightarrow> f x)"

lemma rbind_Inl [simp]: "rbind (Inl e) f = Inl e"
  by (simp add: rbind_def)

lemma rbind_Inr [simp]: "rbind (Inr x) f = f x"
  by (simp add: rbind_def)

lemma rbind_eq_Inr [result_simps]: "rbind m f = Inr y \<longleftrightarrow> (\<exists>x. m = Inr x \<and> f x = Inr y)"
  by (cases m) auto

lemma rbind_eq_Inl [result_simps]:
  "rbind m f = Inl e \<longleftrightarrow> m = Inl e \<or> (\<exists>x. m = Inr x \<and> f x = Inl e)"
  by (cases m) auto

lemma rbind_assoc: "rbind (rbind m f) g = rbind m (\<lambda>x. rbind (f x) g)"
  by (cases m) auto

lemma rbind_cong [fundef_cong]:
  "m = m' \<Longrightarrow> (\<And>x. m' = Inr x \<Longrightarrow> f x = f' x) \<Longrightarrow> rbind m f = rbind m' f'"
  by (cases m') auto

section \<open>32-bit signed integers\<close>

abbreviation INT_MAX :: int where "INT_MAX \<equiv> 2147483647"
abbreviation INT_MIN :: int where "INT_MIN \<equiv> - 2147483648"

definition cint :: "int \<Rightarrow> int" where
  "cint x = signed_take_bit 31 x"

lemma cint_id [simp]: "INT_MIN \<le> x \<Longrightarrow> x \<le> INT_MAX \<Longrightarrow> cint x = x"
  by (simp add: cint_def signed_take_bit_int_eq_self)

lemma cint_range: "INT_MIN \<le> cint x \<and> cint x \<le> INT_MAX"
  using signed_take_bit_int_greater_eq_minus_exp [of 31 x] signed_take_bit_int_less_exp [of 31 x]
  by (simp add: cint_def)

lemma cint_mod: "cint x mod 4294967296 = x mod 4294967296"
  using take_bit_signed_take_bit [of 32 31 x] by (simp add: cint_def take_bit_eq_mod)

lemma cint_eq_iff: "cint x = cint y \<longleftrightarrow> x mod 4294967296 = y mod 4294967296"
  using signed_take_bit_eq_iff_take_bit_eq [of 31 x y] by (simp add: cint_def take_bit_eq_mod)

lemma cint_cint_add [simp]: "cint (cint x + y) = cint (x + y)"
  by (simp add: cint_eq_iff) (metis cint_mod mod_add_left_eq)

lemma cint_add_cint [simp]: "cint (x + cint y) = cint (x + y)"
  by (simp add: add.commute [of x])

lemma cint_cint_diff [simp]: "cint (cint x - y) = cint (x - y)"
  by (simp add: cint_eq_iff) (metis cint_mod mod_diff_left_eq)

definition cdiv :: "int \<Rightarrow> int \<Rightarrow> int res" where
  "cdiv a b = (if b = 0 \<or> (a = INT_MIN \<and> b = -1) then Inl DivError else Inr (a sdiv b))"

definition cmod :: "int \<Rightarrow> int \<Rightarrow> int res" where
  "cmod a b = (if b = 0 \<or> (a = INT_MIN \<and> b = -1) then Inl DivError else Inr (a smod b))"

lemma sdiv_nonneg: "0 \<le> a \<Longrightarrow> 0 < b \<Longrightarrow> (a::int) sdiv b = a div b"
  by (cases "a = 0") (simp_all add: signed_divide_int_def)

lemma smod_nonneg: "0 \<le> a \<Longrightarrow> 0 < b \<Longrightarrow> (a::int) smod b = a mod b"
  by (cases "a = 0") (simp_all add: signed_modulo_int_def)

lemma cdiv_pos [arith32]: "0 \<le> a \<Longrightarrow> 0 < b \<Longrightarrow> cdiv a b = Inr (a div b)"
  by (simp add: cdiv_def sdiv_nonneg)

lemma cmod_pos [arith32]: "0 \<le> a \<Longrightarrow> 0 < b \<Longrightarrow> cmod a b = Inr (a mod b)"
  by (simp add: cmod_def smod_nonneg)

lemma cdiv_zero [simp]: "cdiv a 0 = Inl DivError"
  by (simp add: cdiv_def)

lemma cmod_zero [simp]: "cmod a 0 = Inl DivError"
  by (simp add: cmod_def)

section \<open>Characters\<close>

text \<open>\<open>isspace\<close> of the C locale.\<close>

definition isspace :: "char \<Rightarrow> bool" where
  "isspace c \<longleftrightarrow> of_char c \<in> {9, 10, 11, 12, 13, 32 :: nat}"

end
