(* ===== verification/CMem.thy ===== *)
theory CMem
  imports Prelude
begin

text \<open>
  The memory of the C programs: a heap of typed objects, the allocator as a parameter, and the
  string functions the sources call (\<open>strlen\<close>, \<open>strcpy\<close>, \<open>strcmp\<close>).

  \<^item> A pointer is \<open>None\<close> (NULL) or \<open>Some a\<close>; an object is a list node (\<open>struct kb_node\<close> of
    Module/kbuf.h and \<open>struct wbe_struct\<close> of Writer/buffer.h and Reader/buffer.h have the
    same two fields), an array of \<open>char\<close> or an array of \<open>int\<close>. A byte that was allocated and
    not yet written is \<open>None\<close>.
  \<^item> \<open>kmalloc\<close>, \<open>malloc\<close> and \<open>calloc\<close> are not part of the sources: they are one parameter
    \<open>alloc\<close>, which picks an address for a block or fails. The locale \<open>allocator\<close> states what
    the code relies on, that a block handed out is not in use; \<open>first_fit\<close> is an instance.
\<close>

section \<open>Objects, pointers and the heap\<close>

type_synonym byte = "8 word"
type_synonym addr = nat
type_synonym ptr = "addr option"

abbreviation NULL :: ptr where "NULL \<equiv> None"

datatype obj =
    Node ptr ptr
  | Chars "byte option list"
  | Ints "int option list"

type_synonym heap = "addr \<rightharpoonup> obj"
type_synonym alloc_fn = "nat \<Rightarrow> heap \<Rightarrow> addr option"

definition new_obj :: "alloc_fn \<Rightarrow> nat \<Rightarrow> obj \<Rightarrow> heap \<Rightarrow> ptr \<times> heap" where
  "new_obj alloc n ob h =
     (case alloc n h of None \<Rightarrow> (NULL, h) | Some a \<Rightarrow> (Some a, h(a \<mapsto> ob)))"

definition new_chars :: "alloc_fn \<Rightarrow> nat \<Rightarrow> heap \<Rightarrow> ptr \<times> heap" where
  "new_chars alloc n h = new_obj alloc n (Chars (replicate n None)) h"

definition new_node :: "alloc_fn \<Rightarrow> heap \<Rightarrow> ptr \<times> heap" where
  "new_node alloc h = new_obj alloc 8 (Node NULL NULL) h"

definition new_ints :: "alloc_fn \<Rightarrow> nat \<Rightarrow> heap \<Rightarrow> ptr \<times> heap" where
  "new_ints alloc n h = new_obj alloc (4 * n) (Ints (replicate n None)) h"

definition free_ptr :: "ptr \<Rightarrow> heap \<Rightarrow> heap res" where
  "free_ptr p h =
     (case p of None \<Rightarrow> Inr h
      | Some a \<Rightarrow> if h a = None then Inl BadFree else Inr (h(a := None)))"

section \<open>Typed accesses\<close>

definition get_node :: "ptr \<Rightarrow> heap \<Rightarrow> (ptr \<times> ptr) res" where
  "get_node p h =
     (case p of None \<Rightarrow> Inl NullDeref
      | Some a \<Rightarrow> (case h a of Some (Node d n) \<Rightarrow> Inr (d, n) | _ \<Rightarrow> Inl BadPointer))"

definition set_node_data :: "ptr \<Rightarrow> ptr \<Rightarrow> heap \<Rightarrow> heap res" where
  "set_node_data p v h = rbind (get_node p h) (\<lambda>(d, n). Inr (h(the p \<mapsto> Node v n)))"

definition set_node_next :: "ptr \<Rightarrow> ptr \<Rightarrow> heap \<Rightarrow> heap res" where
  "set_node_next p v h = rbind (get_node p h) (\<lambda>(d, n). Inr (h(the p \<mapsto> Node d v)))"

definition get_chars :: "ptr \<Rightarrow> heap \<Rightarrow> byte option list res" where
  "get_chars p h =
     (case p of None \<Rightarrow> Inl NullDeref
      | Some a \<Rightarrow> (case h a of Some (Chars cs) \<Rightarrow> Inr cs | _ \<Rightarrow> Inl BadPointer))"

definition get_ints :: "ptr \<Rightarrow> heap \<Rightarrow> int option list res" where
  "get_ints p h =
     (case p of None \<Rightarrow> Inl NullDeref
      | Some a \<Rightarrow> (case h a of Some (Ints xs) \<Rightarrow> Inr xs | _ \<Rightarrow> Inl BadPointer))"

definition set_int :: "ptr \<Rightarrow> nat \<Rightarrow> int \<Rightarrow> heap \<Rightarrow> heap res" where
  "set_int p i v h = rbind (get_ints p h) (\<lambda>xs.
     if i < length xs then Inr (h(the p \<mapsto> Ints (xs[i := Some v]))) else Inl OutOfBounds)"

definition get_int :: "ptr \<Rightarrow> nat \<Rightarrow> heap \<Rightarrow> int res" where
  "get_int p i h = rbind (get_ints p h) (\<lambda>xs.
     if i < length xs then (case xs ! i of None \<Rightarrow> Inl Uninit | Some v \<Rightarrow> Inr v)
     else Inl OutOfBounds)"

section \<open>C strings\<close>

text \<open>The bytes of a string up to its terminator; reading stops with a fault at the end of the
  block or at a byte that was never written.\<close>

fun read_cells :: "byte option list \<Rightarrow> byte list res" where
  "read_cells [] = Inl OutOfBounds"
| "read_cells (None # cs) = Inl Uninit"
| "read_cells (Some c # cs) =
     (if c = 0 then Inr [] else rbind (read_cells cs) (\<lambda>s. Inr (c # s)))"

definition read_str :: "ptr \<Rightarrow> heap \<Rightarrow> byte list res" where
  "read_str p h = rbind (get_chars p h) read_cells"

definition strlen :: "ptr \<Rightarrow> heap \<Rightarrow> nat res" where
  "strlen p h = rbind (read_str p h) (\<lambda>s. Inr (length s))"

definition strcpy :: "ptr \<Rightarrow> ptr \<Rightarrow> heap \<Rightarrow> heap res" where
  "strcpy dst src h = rbind (read_str src h) (\<lambda>s. rbind (get_chars dst h) (\<lambda>cs.
     if length s < length cs
     then Inr (h(the dst \<mapsto> Chars (map Some s @ Some 0 # drop (Suc (length s)) cs)))
     else Inl OutOfBounds))"

definition strcmp_eq :: "ptr \<Rightarrow> byte list \<Rightarrow> heap \<Rightarrow> bool res" where
  "strcmp_eq p lit h = rbind (read_str p h) (\<lambda>s. Inr (s = lit))"

text \<open>A block that holds the string \<open>s\<close> and nothing after its terminator.\<close>

definition cstr :: "byte list \<Rightarrow> byte option list" where
  "cstr s = map Some s @ [Some 0]"

lemma read_cells_string [simp]:
  "0 \<notin> set s \<Longrightarrow> read_cells (map Some s @ Some 0 # rest) = Inr s"
  by (induction s) auto

lemma read_cells_cstr [simp]: "0 \<notin> set s \<Longrightarrow> read_cells (cstr s) = Inr s"
  by (simp add: cstr_def)

lemma read_cells_InrD:
  "read_cells cs = Inr s \<Longrightarrow> 0 \<notin> set s \<and> (\<exists>rest. cs = map Some s @ Some 0 # rest)"
proof (induction cs arbitrary: s rule: read_cells.induct)
  case (3 c cs)
  then show ?case by (cases "c = 0") (auto simp: result_simps)
qed auto

lemma read_cells_Inr_iff:
  "read_cells cs = Inr s \<longleftrightarrow> 0 \<notin> set s \<and> (\<exists>rest. cs = map Some s @ Some 0 # rest)"
  by (metis read_cells_InrD read_cells_string)

text \<open>Bytes without a terminator make every string function run off the block.\<close>

lemma read_cells_unterminated:
  "0 \<notin> set bs \<Longrightarrow> read_cells (map Some bs) = Inl OutOfBounds"
  by (induction bs) auto

lemma length_cstr [simp]: "length (cstr s) = Suc (length s)"
  by (simp add: cstr_def)

section \<open>The allocator\<close>

locale allocator =
  fixes alloc :: alloc_fn
  assumes fresh: "alloc n h = Some a \<Longrightarrow> h a = None"
begin

lemma new_obj_cases:
  obtains (oom) "new_obj alloc n ob h = (NULL, h)"
  | (ok) a where "new_obj alloc n ob h = (Some a, h(a \<mapsto> ob))" "h a = None"
  by (cases "alloc n h") (auto simp: new_obj_def dest: fresh)

lemma new_obj_Some:
  "new_obj alloc n ob h = (Some a, h') \<Longrightarrow> h a = None \<and> h' = h(a \<mapsto> ob)"
  by (auto simp: new_obj_def dest: fresh split: option.splits)

end

text \<open>The kernel's allocator in a 32-bit address space: a single request is at most 128 KB and,
  with blocks of at least 32 bytes, there are fewer than \<open>2 ^ 27\<close> of them.\<close>

abbreviation KMALLOC_MAX :: nat where "KMALLOC_MAX \<equiv> 131072"
abbreviation MAX_BLOCKS :: nat where "MAX_BLOCKS \<equiv> 134217728"

locale kernel_allocator = allocator +
  assumes size_limit: "alloc n h = Some a \<Longrightarrow> n \<le> KMALLOC_MAX"
    and block_limit: "alloc n h = Some a \<Longrightarrow> a < MAX_BLOCKS"

text \<open>An arena of \<open>m\<close> blocks, handed out lowest address first.\<close>

definition first_fit :: "nat \<Rightarrow> alloc_fn" where
  "first_fit m n h =
     (if n \<le> KMALLOC_MAX then List.find (\<lambda>a. h a = None) [0..<m] else None)"

interpretation ff: allocator "first_fit m" for m
  by unfold_locales (auto simp: first_fit_def find_Some_iff split: if_splits)

interpretation kff: kernel_allocator "first_fit 64"
  by unfold_locales (auto simp: first_fit_def find_Some_iff split: if_splits)

lemma new_obj_None: "new_obj alloc n ob h = (NULL, h') \<Longrightarrow> h' = h"
  by (auto simp: new_obj_def split: option.splits)

section \<open>Reading through updates\<close>

lemma get_node_upd:
  "get_node (Some a) (h(b \<mapsto> Node d n)) = (if a = b then Inr (d, n) else get_node (Some a) h)"
  by (simp add: get_node_def)

lemma get_node_Node [simp]: "h a = Some (Node d n) \<Longrightarrow> get_node (Some a) h = Inr (d, n)"
  by (simp add: get_node_def)

lemma get_chars_Chars [simp]: "h a = Some (Chars cs) \<Longrightarrow> get_chars (Some a) h = Inr cs"
  by (simp add: get_chars_def)

lemma get_ints_Ints [simp]: "h a = Some (Ints xs) \<Longrightarrow> get_ints (Some a) h = Inr xs"
  by (simp add: get_ints_def)

lemma get_node_NULL [simp]: "get_node NULL h = Inl NullDeref"
  by (simp add: get_node_def)

lemma get_chars_NULL [simp]: "get_chars NULL h = Inl NullDeref"
  by (simp add: get_chars_def)

lemma get_node_InrD:
  "get_node p h = Inr (d, n) \<Longrightarrow> \<exists>a. p = Some a \<and> h a = Some (Node d n)"
  by (auto simp: get_node_def split: option.splits obj.splits)

lemma get_chars_InrD: "get_chars p h = Inr cs \<Longrightarrow> \<exists>a. p = Some a \<and> h a = Some (Chars cs)"
  by (auto simp: get_chars_def split: option.splits obj.splits)

lemma read_str_cstr [simp]:
  "h a = Some (Chars (cstr s)) \<Longrightarrow> 0 \<notin> set s \<Longrightarrow> read_str (Some a) h = Inr s"
  by (simp add: read_str_def)

lemma read_str_InrD:
  "read_str p h = Inr s \<Longrightarrow> \<exists>a rest. p = Some a \<and> h a = Some (Chars (map Some s @ Some 0 # rest)) \<and> 0 \<notin> set s"
  by (auto simp: read_str_def result_simps dest!: get_chars_InrD read_cells_InrD)

lemma read_str_frame: "p = Some a \<Longrightarrow> h' a = h a \<Longrightarrow> read_str p h' = read_str p h"
  by (simp add: read_str_def get_chars_def)

lemma strlen_eq: "read_str p h = Inr s \<Longrightarrow> strlen p h = Inr (length s)"
  by (simp add: strlen_def)

lemma strcpy_fresh:
  assumes "read_str src h = Inr s" and "h a = Some (Chars (replicate (Suc (length s)) None))"
  shows "strcpy (Some a) src h = Inr (h(a \<mapsto> Chars (cstr s)))"
  using assms by (simp add: strcpy_def cstr_def)

lemma strcpy_into:
  assumes "read_str src h = Inr s" and "h a = Some (Chars cs)" and "length s < length cs"
  shows "strcpy (Some a) src h =
    Inr (h(a \<mapsto> Chars (map Some s @ Some 0 # drop (Suc (length s)) cs)))"
  using assms by (simp add: strcpy_def)

lemma strcpy_overflow:
  assumes "read_str src h = Inr s" and "h a = Some (Chars cs)" and "length cs \<le> length s"
  shows "strcpy (Some a) src h = Inl OutOfBounds"
  using assms by (simp add: strcpy_def)

end
