(* ===== verification/Chain.thy ===== *)
theory Chain
  imports CMem
begin

text \<open>
  Singly linked lists of strings in the heap, the representation that the device buffer
  (Module/kbuf.c) and the buffers of the two programs (Writer/buffer.c, Reader/buffer.c)
  share. An entry \<open>(a, d, s)\<close> is a node at address \<open>a\<close> whose \<open>data\<close> points to a block at
  \<open>d\<close> holding exactly the string \<open>s\<close>. \<open>seg h p es q\<close> says that following \<open>next\<close> from \<open>p\<close>
  visits the entries \<open>es\<close> and stops at \<open>q\<close>; \<open>buf_rep\<close> is the representation of a whole
  buffer, with its head and tail pointers and its count.
\<close>

type_synonym entry = "addr \<times> addr \<times> byte list"

abbreviation node_of :: "entry \<Rightarrow> addr" where "node_of e \<equiv> fst e"
abbreviation str_of :: "entry \<Rightarrow> byte list" where "str_of e \<equiv> snd (snd e)"

fun cells :: "entry list \<Rightarrow> addr list" where
  "cells [] = []"
| "cells ((a, d, s) # es) = a # d # cells es"

fun seg :: "heap \<Rightarrow> ptr \<Rightarrow> entry list \<Rightarrow> ptr \<Rightarrow> bool" where
  "seg h p [] q \<longleftrightarrow> p = q"
| "seg h p ((a, d, s) # es) q \<longleftrightarrow>
     p = Some a \<and> h d = Some (Chars (cstr s)) \<and> 0 \<notin> set s \<and>
     (\<exists>n. h a = Some (Node (Some d) n) \<and> seg h n es q)"

definition buf_rep :: "heap \<Rightarrow> ptr \<Rightarrow> ptr \<Rightarrow> int \<Rightarrow> entry list \<Rightarrow> bool" where
  "buf_rep h hp tp n es \<longleftrightarrow>
     seg h hp es NULL \<and> distinct (cells es) \<and> n = cint (int (length es)) \<and>
     (es \<noteq> [] \<longrightarrow> tp = Some (node_of (last es)))"

lemma cells_append [simp]: "cells (xs @ ys) = cells xs @ cells ys"
  by (induction xs rule: cells.induct) auto

lemma cells_node: "e \<in> set es \<Longrightarrow> node_of e \<in> set (cells es)"
  by (induction es rule: cells.induct) auto

lemma seg_append: "seg h p (xs @ ys) q \<longleftrightarrow> (\<exists>r. seg h p xs r \<and> seg h r ys q)"
  by (induction xs arbitrary: p rule: cells.induct) auto

lemma seg_cong: "(\<And>a. a \<in> set (cells es) \<Longrightarrow> h' a = h a) \<Longrightarrow> seg h' p es q = seg h p es q"
  by (induction es arbitrary: p rule: cells.induct) auto

lemma seg_frame [simp]: "a \<notin> set (cells es) \<Longrightarrow> seg (h(a := v)) p es q = seg h p es q"
  by (rule seg_cong) auto

lemma seg_cells_dom: "seg h p es q \<Longrightarrow> a \<in> set (cells es) \<Longrightarrow> h a \<noteq> None"
  by (induction es arbitrary: p rule: cells.induct) auto

lemma seg_strings: "seg h p es q \<Longrightarrow> e \<in> set es \<Longrightarrow> 0 \<notin> set (str_of e)"
  by (induction es arbitrary: p rule: cells.induct) auto

lemma buf_rep_cong:
  "buf_rep h hp tp n es \<Longrightarrow> (\<And>a. a \<in> set (cells es) \<Longrightarrow> h' a = h a) \<Longrightarrow> buf_rep h' hp tp n es"
  using seg_cong [of es h' h] by (simp add: buf_rep_def)

lemma buf_rep_frame:
  "buf_rep h hp tp n es \<Longrightarrow> a \<notin> set (cells es) \<Longrightarrow> buf_rep (h(a := v)) hp tp n es"
  by (simp add: buf_rep_def)

lemma buf_rep_dom: "buf_rep h hp tp n es \<Longrightarrow> a \<in> set (cells es) \<Longrightarrow> h a \<noteq> None"
  by (auto simp: buf_rep_def dest: seg_cells_dom)

lemma buf_rep_fresh: "buf_rep h hp tp n es \<Longrightarrow> h a = None \<Longrightarrow> a \<notin> set (cells es)"
  using buf_rep_dom by blast

lemma buf_rep_Nil [simp]: "buf_rep h hp tp n [] \<longleftrightarrow> hp = NULL \<and> n = 0"
  by (auto simp: buf_rep_def)

lemma buf_rep_head: "buf_rep h hp tp n es \<Longrightarrow> hp = NULL \<longleftrightarrow> es = []"
  by (cases es rule: cells.cases) (auto simp: buf_rep_def)

section \<open>Linking a node at the tail\<close>

text \<open>The empty buffer takes the new node as head and tail; otherwise the \<open>next\<close> field of the
  old tail is redirected to it.\<close>

lemma buf_rep_link_first:
  "buf_rep h NULL tp n es \<Longrightarrow> h a = Some (Node (Some d) NULL) \<Longrightarrow> h d = Some (Chars (cstr s))
   \<Longrightarrow> 0 \<notin> set s \<Longrightarrow> es = [] \<and> buf_rep h (Some a) (Some a) (cint (n + 1)) [(a, d, s)]"
  using buf_rep_head [of h NULL tp n es] by (auto simp: buf_rep_def)

lemma seg_snocE:
  assumes "seg h p es NULL" and "es \<noteq> []" and "distinct (cells es)"
  obtains es' t d s where "es = es' @ [(t, d, s)]" and "seg h p es' (Some t)"
    and "h t = Some (Node (Some d) NULL)" and "h d = Some (Chars (cstr s))"
    and "t \<noteq> d" and "t \<notin> set (cells es')" and "d \<notin> set (cells es')" and "0 \<notin> set s"
proof -
  from assms(2) obtain es' t d s where es: "es = es' @ [(t, d, s)]"
    by (metis append_butlast_last_id prod_cases3)
  with assms(1,3) show thesis
    by (intro that [of es' t d s]) (auto simp: seg_append)
qed

lemma buf_rep_link:
  assumes rep: "buf_rep h hp tp n es" and ne: "es \<noteq> []"
    and a: "h a = Some (Node (Some d) NULL)" "a \<notin> set (cells es)"
    and d: "h d = Some (Chars (cstr s))" "d \<notin> set (cells es)" and s: "0 \<notin> set s"
  obtains t dt where "tp = Some t" and "h t = Some (Node dt NULL)" and "t \<in> set (cells es)"
    and "buf_rep (h(t \<mapsto> Node dt (Some a))) hp (Some a) (cint (n + 1)) (es @ [(a, d, s)])"
proof -
  from rep ne have sg: "seg h hp es NULL" and dist: "distinct (cells es)"
    and n: "n = cint (int (length es))" and tp: "tp = Some (node_of (last es))"
    by (auto simp: buf_rep_def)
  from sg ne dist obtain es' t dt st where es: "es = es' @ [(t, dt, st)]"
    and t: "h t = Some (Node (Some dt) NULL)" and sg': "seg h hp es' (Some t)"
    and nt: "t \<notin> set (cells es')" "dt \<notin> set (cells es')" "t \<noteq> dt"
    and dt: "h dt = Some (Chars (cstr st))" "0 \<notin> set st"
    by (rule seg_snocE)
  have ad: "a \<noteq> d" using a d by auto
  have ne': "a \<noteq> t" "d \<noteq> t" using a(2) d(2) es by auto
  have "seg (h(t \<mapsto> Node (Some dt) (Some a))) hp (es @ [(a, d, s)]) NULL"
    using sg' nt dt a d s ne' es by (auto simp: seg_append)
  moreover have "distinct (cells (es @ [(a, d, s)]))"
    using dist a(2) d(2) ad by auto
  moreover have "cint (n + 1) = cint (int (length (es @ [(a, d, s)])))"
    using n by (simp add: add.commute)
  ultimately have rep': "buf_rep (h(t \<mapsto> Node (Some dt) (Some a))) hp (Some a) (cint (n + 1)) (es @ [(a, d, s)])"
    by (simp add: buf_rep_def)
  show thesis
  proof (rule that)
    show "tp = Some t" using tp es by simp
    show "h t = Some (Node (Some dt) NULL)" by (rule t)
    show "t \<in> set (cells es)" using es by simp
    show "buf_rep (h(t \<mapsto> Node (Some dt) (Some a))) hp (Some a) (cint (n + 1)) (es @ [(a, d, s)])"
      by (rule rep')
  qed
qed

section \<open>Unlinking the head node\<close>

lemma buf_rep_unlink:
  assumes rep: "buf_rep h hp tp n ((a, d, s) # es)"
  obtains nx where "hp = Some a" and "h a = Some (Node (Some d) nx)"
    and "h d = Some (Chars (cstr s))" and "0 \<notin> set s" and "a \<noteq> d"
    and "a \<notin> set (cells es)" and "d \<notin> set (cells es)"
    and "buf_rep h nx (if nx = NULL then NULL else tp) (cint (n - 1)) es"
proof -
  from rep obtain nx where a: "hp = Some a" "h a = Some (Node (Some d) nx)"
    and d: "h d = Some (Chars (cstr s))" "0 \<notin> set s"
    and sg: "seg h nx es NULL" and dist: "distinct (a # d # cells es)"
    and n: "n = cint (int (Suc (length es)))" and tp: "tp = Some (node_of (last ((a, d, s) # es)))"
    by (auto simp: buf_rep_def)
  have "nx = NULL \<longleftrightarrow> es = []"
    using sg by (cases es rule: cells.cases) auto
  with sg dist n tp have "buf_rep h nx (if nx = NULL then NULL else tp) (cint (n - 1)) es"
    by (auto simp: buf_rep_def)
  with a d dist show thesis by (intro that [of nx]) auto
qed

end
