(* ===== verification/Fifo.thy ===== *)
theory Fifo
  imports Chain
begin

text \<open>
  The contract of a string buffer as its clients see it. A buffer of type \<open>'q\<close> in the heap
  represents a list of entries; \<open>ins\<close> appends the string its pointer argument designates and
  \<open>ext\<close> removes the first string and leaves it where the returned pointer points. The laws
  also say what an operation leaves alone, so that a client can keep other objects in the same
  heap, and that running out of memory is the only way an insertion fails.

  The device buffer and the buffers of Writer and Reader are instances. The lemma
  \<open>exec_fifo\<close> is proved once for all of them: over any sequence of operations the strings come
  out in the order in which they went in.
\<close>

datatype 'x buf_op = Ins ptr | Ext 'x

definition ptr_outside :: "ptr \<Rightarrow> addr set \<Rightarrow> bool" where
  "ptr_outside p A \<longleftrightarrow> (case p of None \<Rightarrow> True | Some b \<Rightarrow> b \<notin> A)"

locale linked_fifo =
  fixes rep :: "heap \<Rightarrow> 'q \<Rightarrow> entry list \<Rightarrow> bool"
    and ins :: "ptr \<Rightarrow> 'q \<Rightarrow> heap \<Rightarrow> ('q \<times> heap) res"
    and ext :: "'x \<Rightarrow> 'q \<Rightarrow> heap \<Rightarrow> (ptr \<times> 'q \<times> heap) res"
    and outside :: "'x \<Rightarrow> addr set \<Rightarrow> bool"
  assumes rep_cong: "rep h q es \<Longrightarrow> (\<And>a. a \<in> set (cells es) \<Longrightarrow> h' a = h a) \<Longrightarrow> rep h' q es"
    and ins_ok: "rep h q es \<Longrightarrow> ptr_outside p (set (cells es)) \<Longrightarrow> read_str p h = Inr s \<Longrightarrow>
      ins p q h = Inr (q', h') \<Longrightarrow> \<exists>a d. h a = None \<and> h d = None \<and> rep h' q' (es @ [(a, d, s)])"
    and ins_fault: "rep h q es \<Longrightarrow> ptr_outside p (set (cells es)) \<Longrightarrow> read_str p h = Inr s \<Longrightarrow>
      ins p q h = Inl e \<Longrightarrow> e = NullDeref"
    and ext_ok: "rep h q ((a, d, s) # es) \<Longrightarrow> outside x (set (cells ((a, d, s) # es))) \<Longrightarrow>
      ext x q h = Inr (p, q', h') \<Longrightarrow> rep h' q' es \<and> read_str p h' = Inr s"
begin

text \<open>A run of the buffer: the strings inserted, the strings extracted, and the final state.
  A client extracts only from a buffer that represents a non-empty list.\<close>

inductive exec :: "'x buf_op list \<Rightarrow> 'q \<Rightarrow> heap \<Rightarrow> byte list list \<Rightarrow> byte list list \<Rightarrow> 'q \<Rightarrow> heap \<Rightarrow> bool"
  where
    exec_Nil: "exec [] q h [] [] q h"
  | exec_Ins: "(\<And>es. rep h q es \<Longrightarrow> ptr_outside p (set (cells es))) \<Longrightarrow> read_str p h = Inr s \<Longrightarrow>
      ins p q h = Inr (q', h') \<Longrightarrow>
      exec ops q' h' is os q'' h'' \<Longrightarrow> exec (Ins p # ops) q h (s # is) os q'' h''"
  | exec_Ext: "rep h q (e # es) \<Longrightarrow> outside x (set (cells (e # es))) \<Longrightarrow>
      ext x q h = Inr (p, q', h') \<Longrightarrow> read_str p h' = Inr s \<Longrightarrow>
      exec ops q' h' is os q'' h'' \<Longrightarrow> exec (Ext x # ops) q h is (s # os) q'' h''"

lemma exec_fifo:
  assumes "exec ops q h is os q' h'" and "rep h q es"
    and unique: "\<And>h q es es'. rep h q es \<Longrightarrow> rep h q es' \<Longrightarrow> map str_of es = map str_of es'"
  shows "\<exists>es'. rep h' q' es' \<and> map str_of es @ is = os @ map str_of es'"
  using assms(1,2)
proof (induction arbitrary: es rule: exec.induct)
  case (exec_Nil q h)
  then show ?case by (intro exI [of _ es]) simp
next
  case (exec_Ins h q p s q' h' ops "is" os q'' h'')
  from ins_ok [OF exec_Ins.prems exec_Ins.hyps(1) [OF exec_Ins.prems] exec_Ins.hyps(2,3)]
  obtain a d where "rep h' q' (es @ [(a, d, s)])" by auto
  from exec_Ins.IH [OF this] show ?case by simp
next
  case (exec_Ext h q e es0 x p q' h' s ops "is" os q'' h'')
  obtain a d t where e: "e = (a, d, t)" by (cases e)
  from ext_ok [OF exec_Ext.hyps(1-3) [unfolded e]]
  have "rep h' q' es0" and "read_str p h' = Inr t" by simp_all
  moreover from unique [OF exec_Ext.prems exec_Ext.hyps(1)] e
  have "map str_of es = t # map str_of es0" by simp
  moreover from exec_Ext.IH [OF \<open>rep h' q' es0\<close>]
  obtain es' where "rep h'' q'' es'" and "map str_of es0 @ is = os @ map str_of es'" by auto
  ultimately show ?case
    using exec_Ext.hyps(4) by (intro exI [of _ es']) simp
qed

end

lemma seg_unique: "seg h p es NULL \<Longrightarrow> seg h p es' NULL \<Longrightarrow> map str_of es = map str_of es'"
proof (induction es arbitrary: p es' rule: cells.induct)
  case 1
  then show ?case by (cases es' rule: cells.cases) auto
next
  case (2 a d s es)
  then obtain n where n: "h a = Some (Node (Some d) n)" "seg h n es NULL"
    and p: "p = Some a" and d: "h d = Some (Chars (cstr s))" by auto
  from "2.prems"(2) p n(1) d obtain s' es'' where es': "es' = (a, d, s') # es''"
    and es'': "seg h n es'' NULL" and "cstr s' = cstr s"
    by (cases es' rule: cells.cases) auto
  with "2.IH" [OF n(2) es''] show ?case by (simp add: cstr_def)
qed

lemma buf_rep_unique:
  "buf_rep h p t n es \<Longrightarrow> buf_rep h p t' n' es' \<Longrightarrow> map str_of es = map str_of es'"
  by (auto simp: buf_rep_def dest: seg_unique)

end
