(* ===== verification/Kbuf.thy ===== *)
theory Kbuf
  imports Fifo
begin

text \<open>
  Module/kbuf.h and Module/kbuf.c: the linked list of strings behind the device.
  \<open>kb_rep h kb es\<close> relates the structure to the entries it holds. Every operation of the file
  is a definition over the explicit heap; \<open>kmalloc\<close> is the parameter \<open>alloc\<close>.
\<close>

section \<open>The structure and its operations\<close>

record kb =
  kb_head :: ptr
  kb_tail :: ptr
  kb_count :: int

definition kb_init :: "kb \<Rightarrow> int \<times> kb" where
  "kb_init kbuf = (0, kbuf\<lparr>kb_head := NULL, kb_tail := NULL, kb_count := 0\<rparr>)"

definition kb_isempty :: "kb \<Rightarrow> int" where
  "kb_isempty kbuf = (if kb_head kbuf = NULL then 1 else 0)"

definition kb_isfull :: "kb \<Rightarrow> int \<Rightarrow> int" where
  "kb_isfull kbuf kmax = (if kb_count kbuf < kmax then 0 else 1)"

definition kb_push :: "alloc_fn \<Rightarrow> ptr \<Rightarrow> kb \<Rightarrow> heap \<Rightarrow> (int \<times> kb \<times> heap) res" where
  "kb_push alloc data kbuf h =
     (let (node, h1) = new_node alloc h in
      rbind (strlen data h1) (\<lambda>len.
      let (blk, h2) = new_chars alloc (len + 1) h1 in
      rbind (set_node_data node blk h2) (\<lambda>h3.
      rbind (get_node node h3) (\<lambda>(node_data, _).
      rbind (strcpy node_data data h3) (\<lambda>h4.
      rbind (set_node_next node NULL h4) (\<lambda>h5.
      rbind (if kb_head kbuf = NULL then Inr (kbuf\<lparr>kb_head := node\<rparr>, h5)
             else rbind (set_node_next (kb_tail kbuf) node h5) (\<lambda>h6. Inr (kbuf, h6)))
      (\<lambda>(kbuf1, h6).
      Inr (0, kbuf1\<lparr>kb_tail := node, kb_count := cint (kb_count kbuf1 + 1)\<rparr>, h6))))))))"

definition kb_pop :: "ptr \<Rightarrow> kb \<Rightarrow> heap \<Rightarrow> (int \<times> kb \<times> heap) res" where
  "kb_pop data kbuf h =
     (if kb_head kbuf = NULL then Inr (1, kbuf, h)
      else
        let node = kb_head kbuf in
        rbind (get_node node h) (\<lambda>(_, node_next).
        let kbuf1 = kbuf\<lparr>kb_head := node_next\<rparr>;
            kbuf2 = (if kb_head kbuf1 = NULL then kbuf1\<lparr>kb_tail := NULL\<rparr> else kbuf1);
            kbuf3 = kbuf2\<lparr>kb_count := cint (kb_count kbuf2 - 1)\<rparr> in
        rbind (get_node node h) (\<lambda>(node_data, _).
        rbind (strcpy data node_data h) (\<lambda>h1.
        rbind (get_node node h1) (\<lambda>(node_data', _).
        rbind (free_ptr node_data' h1) (\<lambda>h2.
        rbind (free_ptr node h2) (\<lambda>h3.
        Inr (0, kbuf3, h3))))))))"

text \<open>The loop of \<open>kb_scan\<close> ends when the list does; it does not return on a cyclic list.\<close>

partial_function (option) kb_scan_loop :: "ptr \<Rightarrow> nat \<Rightarrow> ptr \<Rightarrow> heap \<Rightarrow> heap res option" where
  "kb_scan_loop data i p h =
     (if p = NULL then Some (Inr h)
      else case rbind (get_node p h) (\<lambda>(d, _). rbind (strlen d h) (\<lambda>len.
                rbind (set_int data i (cint (int len)) h) (\<lambda>h'.
                rbind (get_node p h') (\<lambda>(_, n). Inr (n, h'))))) of
        Inl e \<Rightarrow> Some (Inl e)
      | Inr r \<Rightarrow> kb_scan_loop data (i + 1) (fst r) (snd r))"

declare kb_scan_loop.simps [code]

definition kb_scan :: "ptr \<Rightarrow> kb \<Rightarrow> heap \<Rightarrow> heap res option" where
  "kb_scan data kbuf h = kb_scan_loop data 0 (kb_head kbuf) h"

section \<open>The representation\<close>

definition kb_rep :: "heap \<Rightarrow> kb \<Rightarrow> entry list \<Rightarrow> bool" where
  "kb_rep h kbuf es \<longleftrightarrow> buf_rep h (kb_head kbuf) (kb_tail kbuf) (kb_count kbuf) es"

lemma kb_rep_cong:
  "kb_rep h q es \<Longrightarrow> (\<And>a. a \<in> set (cells es) \<Longrightarrow> h' a = h a) \<Longrightarrow> kb_rep h' q es"
  unfolding kb_rep_def by (rule buf_rep_cong)

lemma kb_rep_frame: "kb_rep h q es \<Longrightarrow> a \<notin> set (cells es) \<Longrightarrow> kb_rep (h(a := v)) q es"
  unfolding kb_rep_def by (rule buf_rep_frame)

lemma kb_rep_fresh: "kb_rep h q es \<Longrightarrow> h a = None \<Longrightarrow> a \<notin> set (cells es)"
  unfolding kb_rep_def by (rule buf_rep_fresh)

lemma kb_init_rep: "kb_rep h (snd (kb_init q)) []"
  by (simp add: kb_rep_def kb_init_def)

lemma kb_isempty_rep: "kb_rep h q es \<Longrightarrow> kb_isempty q = (if es = [] then 1 else 0)"
  by (auto simp: kb_rep_def kb_isempty_def dest: buf_rep_head)

lemma kb_count_rep: "kb_rep h q es \<Longrightarrow> kb_count q = cint (int (length es))"
  by (simp add: kb_rep_def buf_rep_def)

section \<open>Insertion\<close>

text \<open>When either allocation fails the code dereferences the null pointer it got.\<close>

lemma kb_push_oom_node:
  assumes "alloc 8 h = None" and "read_str data h = Inr s"
  shows "kb_push alloc data q h = Inl NullDeref"
  using assms
  by (simp add: kb_push_def new_node_def new_obj_def strlen_eq set_node_data_def split: prod.splits)

context allocator
begin

lemma kb_push_oom_data:
  assumes "alloc 8 h = Some a" and "read_str data h = Inr s"
    and "alloc (length s + 1) (h(a \<mapsto> Node NULL NULL)) = None"
  shows "kb_push alloc data q h = Inl NullDeref"
proof -
  have "read_str data (h(a \<mapsto> Node NULL NULL)) = Inr s"
    using assms(2) fresh [OF assms(1)] read_str_InrD [OF assms(2)]
    by (auto simp: read_str_def get_chars_def)
  then show ?thesis
    using assms
    by (simp add: kb_push_def new_node_def new_chars_def new_obj_def strlen_eq set_node_data_def
        strcpy_def)
qed

lemma kb_push_ok:
  assumes rep: "kb_rep h q es" and s: "read_str data h = Inr s"
    and a: "alloc 8 h = Some a"
    and d: "alloc (length s + 1) (h(a \<mapsto> Node NULL NULL)) = Some d"
  shows "\<exists>q' h'. kb_push alloc data q h = Inr (0, q', h') \<and> kb_rep h' q' (es @ [(a, d, s)]) \<and>
    h a = None \<and> h d = None \<and> a \<noteq> d \<and> (\<forall>x. x \<notin> set (cells es) \<union> {a, d} \<longrightarrow> h' x = h x)"
proof -
  from a have ha: "h a = None" by (rule fresh)
  from d have "(h(a \<mapsto> Node NULL NULL)) d = None" by (rule fresh)
  then have hd: "h d = None" and ad: "a \<noteq> d" by (auto split: if_splits)
  from s obtain b rest where b: "data = Some b" "h b = Some (Chars (map Some s @ Some 0 # rest))"
    and s0: "0 \<notin> set s" by (auto dest: read_str_InrD)
  then have ba: "b \<noteq> a" "b \<noteq> d" using ha hd by auto
  define h3 where "h3 = h(a \<mapsto> Node (Some d) NULL, d \<mapsto> Chars (cstr s))"
  have step: "kb_push alloc data q h =
    rbind (if kb_head q = NULL then Inr (q\<lparr>kb_head := Some a\<rparr>, h3)
           else rbind (set_node_next (kb_tail q) (Some a) h3) (\<lambda>h6. Inr (q, h6)))
      (\<lambda>(q1, h6). Inr (0, q1\<lparr>kb_tail := Some a, kb_count := cint (kb_count q1 + 1)\<rparr>, h6))"
    using a d b ba s0 ad
    by (simp add: kb_push_def new_node_def new_chars_def new_obj_def strlen_def read_str_def
        get_chars_def set_node_data_def set_node_next_def strcpy_def cstr_def h3_def get_node_def
        fun_upd_twist)
  have rep3: "kb_rep h3 q es"
    using rep kb_rep_fresh [OF rep ha] kb_rep_fresh [OF rep hd]
    by (auto simp: h3_def intro!: kb_rep_frame)
  have nodes: "h3 a = Some (Node (Some d) NULL)" "h3 d = Some (Chars (cstr s))"
    using ad by (auto simp: h3_def)
  have frame3: "\<forall>x. x \<notin> {a, d} \<longrightarrow> h3 x = h x" by (simp add: h3_def)
  show ?thesis
  proof (cases "kb_head q = NULL")
    case True
    with rep3 nodes s0 have es: "es = []"
      and rep': "buf_rep h3 (Some a) (Some a) (cint (kb_count q + 1)) [(a, d, s)]"
      using buf_rep_link_first [of h3 "kb_tail q" "kb_count q" es a d s] by (auto simp: kb_rep_def)
    with True step ha hd ad frame3 show ?thesis by (auto simp: kb_rep_def)
  next
    case False
    with rep3 have ne: "es \<noteq> []" by (auto simp: kb_rep_def)
    from rep3 ne nodes(1) kb_rep_fresh [OF rep ha] nodes(2) kb_rep_fresh [OF rep hd] s0
    obtain t dt where t: "kb_tail q = Some t" "h3 t = Some (Node dt NULL)" "t \<in> set (cells es)"
      and rep': "buf_rep (h3(t \<mapsto> Node dt (Some a))) (kb_head q) (Some a) (cint (kb_count q + 1))
        (es @ [(a, d, s)])"
      unfolding kb_rep_def by (rule buf_rep_link)
    with False step ha hd ad frame3 show ?thesis
      by (auto simp: kb_rep_def set_node_next_def)
  qed
qed

lemma kb_push_cases:
  assumes "kb_rep h q es" and "read_str data h = Inr s"
  obtains (oom) "kb_push alloc data q h = Inl NullDeref"
  | (ok) a d q' h' where "kb_push alloc data q h = Inr (0, q', h')"
      and "kb_rep h' q' (es @ [(a, d, s)])" and "h a = None" and "h d = None" and "a \<noteq> d"
      and "\<forall>x. x \<notin> set (cells es) \<union> {a, d} \<longrightarrow> h' x = h x"
  using kb_push_oom_node [of alloc h data s q] kb_push_oom_data [of h _ data s q]
    kb_push_ok [OF assms] assms(2)
  by (metis option.exhaust)

end

section \<open>Extraction\<close>

lemma kb_pop_empty: "kb_rep h q [] \<Longrightarrow> kb_pop data q h = Inr (1, q, h)"
  by (simp add: kb_rep_def kb_pop_def)

text \<open>The string is copied into a block outside the list that is large enough, and both blocks
  of the node are released; the rest of the heap keeps its contents.\<close>

lemma kb_pop_ok:
  assumes rep: "kb_rep h q ((a, d, s) # es)" and b: "h b = Some (Chars cs)"
    and fits: "length s < length cs" and out: "b \<notin> set (cells ((a, d, s) # es))"
  shows "\<exists>q'. kb_pop (Some b) q h = Inr (0, q',
      h(b \<mapsto> Chars (map Some s @ Some 0 # drop (Suc (length s)) cs), d := None, a := None)) \<and>
    kb_rep (h(b \<mapsto> Chars (map Some s @ Some 0 # drop (Suc (length s)) cs), d := None, a := None)) q' es"
proof -
  let ?h = "h(b \<mapsto> Chars (map Some s @ Some 0 # drop (Suc (length s)) cs), d := None, a := None)"
  from rep obtain nx where hp: "kb_head q = Some a" "h a = Some (Node (Some d) nx)"
    and d: "h d = Some (Chars (cstr s))" "0 \<notin> set s" "a \<noteq> d"
    and fr: "a \<notin> set (cells es)" "d \<notin> set (cells es)"
    and rep': "buf_rep h nx (if nx = NULL then NULL else kb_tail q) (cint (kb_count q - 1)) es"
    unfolding kb_rep_def by (rule buf_rep_unlink)
  let ?q = "q\<lparr>kb_head := nx, kb_tail := (if nx = NULL then NULL else kb_tail q),
    kb_count := cint (kb_count q - 1)\<rparr>"
  have ne: "b \<noteq> a" "b \<noteq> d" using out by auto
  then have "strcpy (Some b) (Some d) h =
      Inr (h(b \<mapsto> Chars (map Some s @ Some 0 # drop (Suc (length s)) cs)))"
    using b fits d by (intro strcpy_into) auto
  then have "kb_pop (Some b) q h = Inr (0, ?q, ?h)"
    using hp d ne by (simp add: kb_pop_def free_ptr_def Let_def)
  moreover have "kb_rep ?h ?q es"
    using rep' fr out by (auto simp: kb_rep_def intro!: buf_rep_frame)
  ultimately show ?thesis by blast
qed

lemma kb_pop_overflow:
  assumes rep: "kb_rep h q ((a, d, s) # es)" and b: "h b = Some (Chars cs)"
    and small: "length cs \<le> length s"
  shows "kb_pop (Some b) q h = Inl OutOfBounds"
proof -
  from rep obtain nx where hp: "kb_head q = Some a" "h a = Some (Node (Some d) nx)"
    and d: "h d = Some (Chars (cstr s))" "0 \<notin> set s"
    unfolding kb_rep_def by (rule buf_rep_unlink)
  then have "strcpy (Some b) (Some d) h = Inl OutOfBounds"
    using b small by (intro strcpy_overflow) auto
  with hp show ?thesis by (simp add: kb_pop_def)
qed

section \<open>The scan\<close>

lemma kb_scan_loop_ok:
  assumes "seg h p es NULL" and "b \<notin> set (cells es)" and "h b = Some (Ints xs)"
    and "i + length es \<le> length xs"
  shows "kb_scan_loop (Some b) i p h = Some (Inr (h(b \<mapsto>
    Ints (take i xs @ map (\<lambda>e. Some (cint (int (length (str_of e))))) es @ drop (i + length es) xs))))"
  using assms
proof (induction es arbitrary: h p i xs rule: cells.induct)
  case 1
  then show ?case by (simp add: kb_scan_loop.simps fun_upd_idem)
next
  case (2 a d s es)
  then obtain n where p: "p = Some a" "h a = Some (Node (Some d) n)" and sg: "seg h n es NULL"
    and d: "h d = Some (Chars (cstr s))" "0 \<notin> set s" by auto
  let ?xs = "xs[i := Some (cint (int (length s)))]"
  let ?h = "h(b \<mapsto> Ints ?xs)"
  have i: "i < length xs" using "2.prems"(4) by simp
  have "kb_scan_loop (Some b) i p h = kb_scan_loop (Some b) (i + 1) n ?h"
    using p d i "2.prems"(2,3)
    by (subst kb_scan_loop.simps) (simp add: strlen_def set_int_def get_node_def)
  also have "\<dots> = Some (Inr (?h(b \<mapsto> Ints (take (i + 1) ?xs @
      map (\<lambda>e. Some (cint (int (length (str_of e))))) es @ drop (i + 1 + length es) ?xs))))"
  proof (rule "2.IH")
    show "seg ?h n es NULL" using sg "2.prems"(2) by simp
  qed (use "2.prems" in auto)
  also have "take (i + 1) ?xs = take i xs @ [Some (cint (int (length s)))]"
    using i by (simp add: take_Suc_conv_app_nth)
  finally show ?case by (simp add: drop_update_cancel fun_eq_iff)
qed

lemma kb_scan_ok:
  assumes "kb_rep h q es" and "h b = Some (Ints xs)" and "b \<notin> set (cells es)"
    and "length xs = length es"
  shows "kb_scan (Some b) q h =
    Some (Inr (h(b \<mapsto> Ints (map (\<lambda>e. Some (cint (int (length (str_of e))))) es))))"
  using assms kb_scan_loop_ok [of h "kb_head q" es b xs 0]
  by (simp add: kb_scan_def kb_rep_def buf_rep_def)

section \<open>The contract\<close>

text \<open>The two operations in the form of the contract of \<open>Fifo\<close>: the return code is checked to
  be 0, and the extracted string lies in the block the caller passed.\<close>

definition kb_ins :: "alloc_fn \<Rightarrow> ptr \<Rightarrow> kb \<Rightarrow> heap \<Rightarrow> (kb \<times> heap) res" where
  "kb_ins alloc p q h = rbind (kb_push alloc p q h) (\<lambda>(_, q', h'). Inr (q', h'))"

definition kb_take :: "ptr \<Rightarrow> kb \<Rightarrow> heap \<Rightarrow> (ptr \<times> kb \<times> heap) res" where
  "kb_take b q h = rbind (kb_pop b q h) (\<lambda>(_, q', h'). Inr (b, q', h'))"

lemma kb_take_InrD:
  assumes rep: "kb_rep h q ((a, d, s) # es)" and out: "ptr_outside p (set (cells ((a, d, s) # es)))"
    and ok: "kb_take p q h = Inr (p', q', h')"
  shows "kb_rep h' q' es \<and> read_str p' h' = Inr s"
proof -
  from rep obtain nx where hp: "kb_head q = Some a" "h a = Some (Node (Some d) nx)"
    and d: "h d = Some (Chars (cstr s))" "0 \<notin> set s"
    unfolding kb_rep_def by (rule buf_rep_unlink)
  from ok hp d obtain b cs where p: "p = Some b" "h b = Some (Chars cs)" "p' = p"
    by (auto simp: kb_take_def kb_pop_def strcpy_def Let_def result_simps dest!: get_chars_InrD)
  have "length s < length cs"
    using kb_pop_overflow [OF rep p(2)] ok p(1) by (force simp: kb_take_def result_simps)
  moreover have "b \<notin> set (cells ((a, d, s) # es))" using out p(1) by (simp add: ptr_outside_def)
  ultimately show ?thesis
    using kb_pop_ok [OF rep p(2)] ok p d(2)
    by (auto simp: kb_take_def read_str_def get_chars_def)
qed

lemma kb_linked_fifo: "allocator alloc \<Longrightarrow> linked_fifo kb_rep (kb_ins alloc) kb_take ptr_outside"
proof (unfold_locales, goal_cases)
  case (1 h q es h')
  then show ?case by (metis kb_rep_cong)
next
  case (2 h q es p s q' h')
  show ?case
    by (rule allocator.kb_push_cases [OF 2(1,2,4)]) (use 2(5) in \<open>auto simp: kb_ins_def result_simps\<close>)
next
  case (3 h q es p s e)
  show ?case
    by (rule allocator.kb_push_cases [OF 3(1,2,4)]) (use 3(5) in \<open>auto simp: kb_ins_def result_simps\<close>)
next
  case (4 h q a d s es x p q' h')
  then show ?case by (metis kb_take_InrD)
qed

sublocale allocator \<subseteq> kbq: linked_fifo kb_rep "kb_ins alloc" kb_take ptr_outside
  by (rule kb_linked_fifo) unfold_locales

end
