(* ===== verification/Stat.thy ===== *)
theory Stat
  imports Kbuf
begin

text \<open>
  Module/stat.h and Module/stat.c: the statistics the kernel threads of the device keep. The
  structure \<open>ds\<close> has a section for a snapshot of the string lengths in the buffer and a
  section from which the reallocation thread derives the maximal size of the buffer.
\<close>

section \<open>The structure and its operations\<close>

abbreviation KB_OCC :: int where "KB_OCC \<equiv> 75"

record ds =
  ds_dim :: int
  ds_list :: ptr
  ds_kb_dim :: int
  ds_kb_max :: int
  ds_kb_sum :: int

definition my_div :: "int \<Rightarrow> int \<Rightarrow> int res" where
  "my_div a b =
     rbind (cmod a b) (\<lambda>r.
     rbind (cdiv a b) (\<lambda>m.
     rbind (cdiv b 2) (\<lambda>half.
     Inr (if r \<ge> half then cint (m + 1) else m))))"

definition calculate_per :: "int \<Rightarrow> int \<Rightarrow> int res" where
  "calculate_per a b = my_div (cint (a * 100)) b"

definition ds_init_stat :: "alloc_fn \<Rightarrow> ds \<Rightarrow> int \<Rightarrow> heap \<Rightarrow> ds \<times> heap" where
  "ds_init_stat alloc dsv dim h =
     (let (p, h') = new_ints alloc (nat ((4 * dim) mod 4294967296 div 4)) h
      in (dsv\<lparr>ds_dim := dim, ds_list := p\<rparr>, h'))"

definition ds_init_alloc :: "ds \<Rightarrow> int \<Rightarrow> ds" where
  "ds_init_alloc dsv kmax = dsv\<lparr>ds_kb_dim := 0, ds_kb_sum := 0, ds_kb_max := kmax\<rparr>"

definition ds_reset_stat :: "ds \<Rightarrow> heap \<Rightarrow> (ds \<times> heap) res" where
  "ds_reset_stat dsv h = rbind (free_ptr (ds_list dsv) h) (\<lambda>h'. Inr (dsv\<lparr>ds_dim := 0\<rparr>, h'))"

definition ds_reset_alloc :: "ds \<Rightarrow> ds" where
  "ds_reset_alloc dsv = dsv\<lparr>ds_kb_dim := 0, ds_kb_sum := 0\<rparr>"

definition ds_add_kb_value :: "ds \<Rightarrow> int \<Rightarrow> ds" where
  "ds_add_kb_value dsv v =
     dsv\<lparr>ds_kb_dim := cint (ds_kb_dim dsv + 1), ds_kb_sum := cint (ds_kb_sum dsv + v)\<rparr>"

definition ds_get_kb_occupation :: "ds \<Rightarrow> int res" where
  "ds_get_kb_occupation dsv =
     rbind (my_div (ds_kb_sum dsv) (ds_kb_dim dsv)) (\<lambda>a. calculate_per a (ds_kb_max dsv))"

definition ds_set_kb_occupation :: "ds \<Rightarrow> int \<Rightarrow> ds res" where
  "ds_set_kb_occupation dsv v =
     (if v \<le> 1 then Inr (dsv\<lparr>ds_kb_max := 2\<rparr>)
      else rbind (my_div (cint (v * 100)) KB_OCC) (\<lambda>m. Inr (dsv\<lparr>ds_kb_max := m\<rparr>)))"

definition ds_populate :: "alloc_fn \<Rightarrow> ds \<Rightarrow> kb \<Rightarrow> heap \<Rightarrow> (int \<times> ds \<times> heap) res option" where
  "ds_populate alloc dsv kbv h =
     (let len = kb_count kbv in
      if len \<noteq> 0
      then let (dsv', h1) = ds_init_stat alloc dsv len h in
           map_option (\<lambda>r. rbind r (\<lambda>h2. Inr (len, dsv', h2))) (kb_scan (ds_list dsv') kbv h1)
      else Some (Inr (len, dsv, h)))"

text \<open>The three loops \<open>for (i = 0; i < ds_dim; i++)\<close> over \<open>ds_list\<close> differ in the update of
  \<open>tmp\<close> only.\<close>

function ds_for :: "(int \<Rightarrow> int \<Rightarrow> int) \<Rightarrow> ds \<Rightarrow> nat \<Rightarrow> int \<Rightarrow> heap \<Rightarrow> int res" where
  "ds_for f dsv i tmp h =
     (if int i < ds_dim dsv
      then rbind (get_int (ds_list dsv) i h) (\<lambda>x. ds_for f dsv (i + 1) (f tmp x) h)
      else Inr tmp)"
  by pat_completeness auto
termination
  by (relation "measure (\<lambda>(f, dsv, i, tmp, h). nat (ds_dim dsv) - i)") auto

declare ds_for.simps [simp del]

definition ds_med :: "ds \<Rightarrow> heap \<Rightarrow> int res" where
  "ds_med dsv h =
     rbind (ds_for (\<lambda>tmp x. cint (tmp + x)) dsv 0 0 h) (\<lambda>tmp. cdiv tmp (ds_dim dsv))"

definition ds_max :: "ds \<Rightarrow> heap \<Rightarrow> int res" where
  "ds_max dsv h = ds_for (\<lambda>tmp x. if tmp < x then x else tmp) dsv 0 0 h"

definition ds_min :: "ds \<Rightarrow> int \<Rightarrow> heap \<Rightarrow> int res" where
  "ds_min dsv kmax h =
     (if kmax = 0 then Inr 0
      else ds_for (\<lambda>tmp x. if tmp > x then x else tmp) dsv 0 kmax h)"

section \<open>Rounding division\<close>

text \<open>The exact value of \<open>my_div\<close> on the arguments the module uses: the quotient is rounded up
  as soon as the remainder reaches \<open>b div 2\<close>.\<close>

lemma round_up_div:
  fixes a b :: int
  assumes "0 < b"
  shows "(a + (b - b div 2)) div b = (if a mod b \<ge> b div 2 then a div b + 1 else a div b)"
proof -
  have r: "0 \<le> a mod b" "a mod b < b" using assms by simp_all
  have h: "0 \<le> b div 2" "b div 2 < b" using assms by simp_all
  have "a + (b - b div 2) = (a mod b + (b - b div 2)) + b * (a div b)"
    by simp
  then have "(a + (b - b div 2)) div b = a div b + (a mod b + (b - b div 2)) div b"
    using assms by (simp only: div_mult_self2)
  moreover have "(a mod b + (b - b div 2)) div b = (if a mod b \<ge> b div 2 then 1 else 0)"
  proof (cases "a mod b \<ge> b div 2")
    case True
    then have "(a mod b + (b - b div 2)) div b = 1"
      using r(2) h by (intro int_div_pos_eq [where r = "a mod b - b div 2"]) linarith+
    with True show ?thesis by simp
  next
    case False
    then have "0 \<le> a mod b + (b - b div 2)" and "a mod b + (b - b div 2) < b"
      using r(1) h by linarith+
    with False show ?thesis by simp
  qed
  ultimately show ?thesis by simp
qed

lemma my_div_value:
  assumes "0 \<le> a" and "a < INT_MAX" and "0 < b"
  shows "my_div a b = Inr ((a + (b - b div 2)) div b)"
proof -
  have "0 \<le> a div b" and "a div b \<le> a"
    using assms zdiv_mono2 [of a 1 b] by (simp_all add: pos_imp_zdiv_nonneg_iff)
  then have "cint (a div b + 1) = a div b + 1"
    using assms(2) by (intro cint_id) auto
  then show ?thesis
    using assms by (simp add: my_div_def cdiv_pos cmod_pos round_up_div)
qed

lemma my_div_zero [simp]: "my_div a 0 = Inl DivError"
  by (simp add: my_div_def)

section \<open>The loops over the snapshot\<close>

lemma ds_for_foldl:
  assumes "get_ints (ds_list dsv) h = Inr (map Some xs)" and "ds_dim dsv = int (length xs)"
    and "i \<le> length xs"
  shows "ds_for f dsv i tmp h = Inr (foldl f tmp (drop i xs))"
  using assms(3)
proof (induction "length xs - i" arbitrary: i tmp)
  case 0
  then show ?case using assms(2) by (simp add: ds_for.simps [of _ _ i])
next
  case (Suc n)
  then have i: "i < length xs" by simp
  then have "get_int (ds_list dsv) i h = Inr (xs ! i)"
    using assms(1) by (simp add: get_int_def)
  then have "ds_for f dsv i tmp h = ds_for f dsv (i + 1) (f tmp (xs ! i)) h"
    using i assms(2) by (simp add: ds_for.simps [of _ _ i])
  also have "\<dots> = Inr (foldl f (f tmp (xs ! i)) (drop (i + 1) xs))"
    using Suc.hyps(2) i by (intro Suc.hyps(1)) auto
  finally show ?case using i by (simp add: Cons_nth_drop_Suc [symmetric])
qed

lemma foldl_cint_sum: "foldl (\<lambda>t x. cint (t + x)) (cint t) xs = cint (t + sum_list xs)"
  by (induction xs arbitrary: t) (simp_all add: add.assoc)

lemma foldl_cint_sum0: "foldl (\<lambda>t x. cint (t + x)) 0 xs = cint (sum_list xs)"
  using foldl_cint_sum [of 0 xs] by simp

lemma foldl_max: "foldl (\<lambda>t x. if t < x then x else t) t xs = (Max (insert t (set xs)) :: int)"
proof (induction xs arbitrary: t)
  case (Cons x xs)
  have "Max (insert t (insert x (set xs))) = Max (insert (max t x) (set xs))"
    by (cases "xs = []") (simp_all add: max.assoc)
  with Cons show ?case by (simp add: max_def)
qed simp

lemma foldl_min: "foldl (\<lambda>t x. if t > x then x else t) t xs = (Min (insert t (set xs)) :: int)"
proof (induction xs arbitrary: t)
  case (Cons x xs)
  have "Min (insert t (insert x (set xs))) = Min (insert (min t x) (set xs))"
    by (cases "xs = []") (simp_all add: min.assoc)
  with Cons show ?case by (simp add: min_def)
qed simp

section \<open>Properties of the arithmetic\<close>

text \<open>For an even positive divisor \<open>my_div\<close> rounds to the nearest integer: the result
  differs from the exact quotient by at most one half.\<close>

theorem my_div_nearest:
  assumes "0 \<le> a" and "a < INT_MAX" and "0 < b" and "even b"
  shows "\<exists>r. my_div a b = Inr r \<and> 2 * \<bar>r * b - a\<bar> \<le> b"
proof -
  from assms(4) obtain k where b: "b = 2 * k" by (elim evenE)
  let ?r = "(a + (b - b div 2)) div b"
  have "?r * b = a + k - (a + k) mod b"
    using b div_mult_mod_eq [of "a + k" b] by simp
  moreover have "0 \<le> (a + k) mod b" and "(a + k) mod b < b" using assms(3) by simp_all
  ultimately have "?r * b - a \<le> k" and "a - ?r * b \<le> k" using b by linarith+
  then have "\<bar>?r * b - a\<bar> \<le> k" by (simp add: abs_le_iff)
  then have "2 * \<bar>?r * b - a\<bar> \<le> b" using b by simp
  with my_div_value [OF assms(1-3)] show ?thesis by blast
qed

theorem my_div_nearest_witness: "\<exists>r. my_div 7 4 = Inr r \<and> 2 * \<bar>r * 4 - 7\<bar> \<le> 4"
  using my_div_nearest [of 7 4] by simp

text \<open>Dividing by one does not return the dividend: the remainder 0 already reaches the
  threshold \<open>1 / 2 = 0\<close>, so \<open>my_div a 1\<close> is \<open>a + 1\<close>. The average over a single sample is
  therefore one too high.\<close>

theorem my_div_by_one:
  assumes "0 \<le> a" and "a < INT_MAX"
  shows "my_div a 1 = Inr (a + 1)"
  using my_div_value [OF assms] by simp

theorem my_div_by_one_witness: "my_div 3 1 = Inr 4"
  using my_div_by_one [of 3] by simp

text \<open>The size chosen for an average occupation \<open>v\<close> keeps the occupation at 75 per cent up
  to rounding, is at least 2, and leaves room above the average.\<close>

theorem ds_set_kb_occupation_bounds:
  assumes "0 \<le> v" and "v \<le> 21474836"
  shows "\<exists>m. ds_set_kb_occupation dsv v = Inr (dsv\<lparr>ds_kb_max := m\<rparr>) \<and> 2 \<le> m \<and> v < m \<and>
    (1 < v \<longrightarrow> 100 * v - 37 \<le> 75 * m \<and> 75 * m \<le> 100 * v + 38)"
proof (cases "v \<le> 1")
  case True
  then show ?thesis by (intro exI [of _ 2]) (simp add: ds_set_kb_occupation_def)
next
  case False
  let ?m = "(100 * v + 38) div 75"
  have "cint (v * 100) = v * 100" using assms by (intro cint_id) auto
  then have "ds_set_kb_occupation dsv v = Inr (dsv\<lparr>ds_kb_max := ?m\<rparr>)"
    using False assms my_div_value [of "v * 100" 75]
    by (simp add: ds_set_kb_occupation_def mult.commute)
  moreover have "75 * ?m = 100 * v + 38 - (100 * v + 38) mod 75"
    by (simp add: minus_mod_eq_mult_div)
  moreover have "0 \<le> (100 * v + 38) mod 75" and "(100 * v + 38) mod 75 < 75" by simp_all
  ultimately show ?thesis using False by (intro exI [of _ ?m]) auto
qed

theorem ds_set_kb_occupation_bounds_witness:
  "\<exists>m. ds_set_kb_occupation \<lparr>ds_dim = 0, ds_list = NULL, ds_kb_dim = 3, ds_kb_max = 5, ds_kb_sum = 9\<rparr> 3
      = Inr (\<lparr>ds_dim = 0, ds_list = NULL, ds_kb_dim = 3, ds_kb_max = 5, ds_kb_sum = 9\<rparr>\<lparr>ds_kb_max := m\<rparr>)
    \<and> 2 \<le> m \<and> 3 < m"
  using ds_set_kb_occupation_bounds
    [of 3 "\<lparr>ds_dim = 0, ds_list = NULL, ds_kb_dim = 3, ds_kb_max = 5, ds_kb_sum = 9\<rparr>"] by auto

section \<open>The snapshot\<close>

definition lens :: "entry list \<Rightarrow> int list" where
  "lens es = map (\<lambda>e. int (length (str_of e))) es"

lemma length_lens [simp]: "length (lens es) = length es"
  by (simp add: lens_def)

lemma lens_nonneg: "x \<in> set (lens es) \<Longrightarrow> 0 \<le> x"
  by (auto simp: lens_def)

lemma lens_le_sum: "x \<in> set (lens es) \<Longrightarrow> x \<le> sum_list (lens es)"
  by (rule member_le_sum_list) (auto intro: lens_nonneg)

context allocator
begin

lemma ds_populate_empty:
  "kb_rep h q [] \<Longrightarrow> ds_populate alloc dsv q h = Some (Inr (0, dsv, h))"
  by (simp add: ds_populate_def kb_count_rep)

lemma ds_populate_oom:
  assumes "kb_rep h q es" and "es \<noteq> []" and "length es < 2 ^ 30" and "alloc (4 * length es) h = None"
  shows "ds_populate alloc dsv q h = Some (Inl NullDeref)"
proof -
  from assms(2) obtain a d s es' where es: "es = (a, d, s) # es'"
    by (cases es rule: cells.cases) auto
  have "kb_scan NULL q h = Some (Inl NullDeref)"
    using assms(1) es
    by (auto simp: kb_scan_def kb_scan_loop.simps kb_rep_def buf_rep_def strlen_def set_int_def
        get_ints_def)
  then show ?thesis
    using assms kb_count_rep [OF assms(1)]
    by (simp add: ds_populate_def ds_init_stat_def new_ints_def new_obj_def nat_mult_distrib)
qed

lemma ds_populate_ok:
  assumes rep: "kb_rep h q es" and ne: "es \<noteq> []" and len: "length es < 2 ^ 30"
    and b: "alloc (4 * length es) h = Some b"
    and short: "\<forall>x \<in> set (lens es). x \<le> INT_MAX"
  shows "ds_populate alloc dsv q h = Some (Inr (int (length es),
    dsv\<lparr>ds_dim := int (length es), ds_list := Some b\<rparr>, h(b \<mapsto> Ints (map Some (lens es)))))"
    and "h b = None"
proof -
  show hb: "h b = None" using b by (rule fresh)
  let ?h = "h(b \<mapsto> Ints (replicate (length es) None))"
  have out: "b \<notin> set (cells es)" using rep hb by (rule kb_rep_fresh)
  have "kb_scan (Some b) q ?h = Some (Inr (?h(b \<mapsto> Ints (map (\<lambda>e. Some (cint (int (length (str_of e))))) es))))"
    using rep out by (intro kb_scan_ok kb_rep_frame) auto
  moreover have "map (\<lambda>e. Some (cint (int (length (str_of e))))) es = map Some (lens es)"
    using short by (auto simp: lens_def)
  ultimately show "ds_populate alloc dsv q h = Some (Inr (int (length es),
    dsv\<lparr>ds_dim := int (length es), ds_list := Some b\<rparr>, h(b \<mapsto> Ints (map Some (lens es)))))"
    using ne len b kb_count_rep [OF rep]
    by (simp add: ds_populate_def ds_init_stat_def new_ints_def new_obj_def nat_mult_distrib Let_def)
qed

end

lemma ds_snapshot_extrema:
  assumes "h b = Some (Ints (map Some xs))" and "xs \<noteq> []" and "\<forall>x \<in> set xs. 0 \<le> x"
    and "ds_list dsv = Some b" and "ds_dim dsv = int (length xs)"
  shows "ds_max dsv h = Inr (Max (set xs))"
    and "ds_min dsv (Max (set xs)) h = Inr (Min (set xs))"
proof -
  have for_eq: "ds_for f dsv 0 tmp h = Inr (foldl f tmp xs)" for f tmp
    using ds_for_foldl [of dsv h xs 0 f tmp] assms by simp
  have fin: "finite (set xs)" "set xs \<noteq> {}" using assms(2) by auto
  have "0 \<le> Max (set xs)" using assms(3) fin by (meson Max_in)
  then show "ds_max dsv h = Inr (Max (set xs))"
    using fin by (simp add: ds_max_def for_eq foldl_max max_def)
  have le: "Min (set xs) \<le> Max (set xs)" using fin by (meson Max_in Min_le)
  have "Min (set xs) = 0" if "Max (set xs) = 0"
    using that le assms(3) fin by (metis Min_in order_antisym)
  moreover have "Min (insert (Max (set xs)) (set xs)) = Min (set xs)"
    using fin le by simp
  ultimately show "ds_min dsv (Max (set xs)) h = Inr (Min (set xs))"
    by (auto simp: ds_min_def for_eq foldl_min)
qed

lemma ds_snapshot_med:
  assumes "h b = Some (Ints (map Some xs))" and "xs \<noteq> []" and "\<forall>x \<in> set xs. 0 \<le> x"
    and "ds_list dsv = Some b" and "ds_dim dsv = int (length xs)"
  shows "\<exists>med. ds_med dsv h = Inr med \<and>
    (sum_list xs \<le> INT_MAX \<longrightarrow> med = sum_list xs div int (length xs))"
proof -
  have "ds_for f dsv 0 tmp h = Inr (foldl f tmp xs)" for f tmp
    using ds_for_foldl [of dsv h xs 0 f tmp] assms by simp
  moreover have "0 \<le> sum_list xs" using assms(3) by (simp add: sum_list_nonneg)
  ultimately show ?thesis
    using assms(2,5) by (simp add: ds_med_def foldl_cint_sum0 cdiv_def sdiv_nonneg)
qed

text \<open>C39: the snapshot of a non-empty buffer yields the number of strings and the average,
  maximal and minimal string length, and releasing it gives the heap back as it was.\<close>

theorem ds_snapshot:
  assumes "allocator alloc" and "kb_rep h q es" and "es \<noteq> []" and "length es < 2 ^ 30"
    and "alloc (4 * length es) h = Some b" and "sum_list (lens es) \<le> INT_MAX"
  shows "\<exists>dsv' h'. ds_populate alloc dsv q h = Some (Inr (int (length es), dsv', h')) \<and>
    ds_med dsv' h' = Inr (sum_list (lens es) div int (length es)) \<and>
    ds_max dsv' h' = Inr (Max (set (lens es))) \<and>
    ds_min dsv' (Max (set (lens es))) h' = Inr (Min (set (lens es))) \<and>
    ds_reset_stat dsv' h' = Inr (dsv'\<lparr>ds_dim := 0\<rparr>, h)"
proof -
  let ?d = "dsv\<lparr>ds_dim := int (length es), ds_list := Some b\<rparr>"
  let ?h = "h(b \<mapsto> Ints (map Some (lens es)))"
  have short: "\<forall>x \<in> set (lens es). x \<le> INT_MAX"
    using lens_le_sum assms(6) by (meson order_trans)
  note pop = allocator.ds_populate_ok [OF assms(1-5) short]
  have "lens es \<noteq> []" using assms(3) by (simp add: lens_def)
  note vals = ds_snapshot_extrema [of ?h b "lens es" ?d, OF _ this]
    ds_snapshot_med [of ?h b "lens es" ?d, OF _ this]
  have "?h(b := None) = h" using pop(2) by (simp add: fun_eq_iff)
  then have "ds_reset_stat ?d ?h = Inr (?d\<lparr>ds_dim := 0\<rparr>, h)"
    by (simp add: ds_reset_stat_def free_ptr_def)
  with pop(1) vals lens_nonneg assms(6) show ?thesis
    by (intro exI [of _ ?d] exI [of _ ?h]) auto
qed

text \<open>A buffer with the two strings \<open>"ab"\<close> and \<open>"c"\<close>, for the examples.\<close>

definition two_heap :: heap where
  "two_heap = [0 \<mapsto> Node (Some 1) (Some 2), 1 \<mapsto> Chars (cstr [97, 98]),
               2 \<mapsto> Node (Some 3) NULL, 3 \<mapsto> Chars (cstr [99])]"

definition two_kb :: kb where
  "two_kb = \<lparr>kb_head = Some 0, kb_tail = Some 2, kb_count = 2\<rparr>"

lemma two_kb_rep: "kb_rep two_heap two_kb [(0, 1, [97, 98]), (2, 3, [99])]"
  by (simp add: kb_rep_def buf_rep_def two_heap_def two_kb_def)

theorem ds_snapshot_witness:
  "\<exists>dsv' h'. ds_populate (first_fit 9) \<lparr>ds_dim = 0, ds_list = NULL, ds_kb_dim = 0, ds_kb_max = 5, ds_kb_sum = 0\<rparr>
       two_kb two_heap = Some (Inr (2, dsv', h')) \<and>
     ds_med dsv' h' = Inr 1 \<and> ds_max dsv' h' = Inr 2 \<and> ds_min dsv' 2 h' = Inr 1"
proof -
  have fit: "first_fit 9 (4 * length [(0::nat, 1::nat, [97, 98 :: byte]), (2, 3, [99])]) two_heap = Some 4"
    by (simp add: first_fit_def two_heap_def upt_rec)
  show ?thesis
    using ds_snapshot [OF ff.allocator_axioms two_kb_rep _ _ fit,
      of "\<lparr>ds_dim = 0, ds_list = NULL, ds_kb_dim = 0, ds_kb_max = 5, ds_kb_sum = 0\<rparr>"]
    by (auto simp: lens_def)
qed

end
