(* ===== verification/Device.thy ===== *)
theory Device
  imports Stat
begin

text \<open>
  Module/main.c, the device itself. The file's global variables are the record \<open>dev\<close>; what its
  functions do between \<open>mutex_lock\<close> and \<open>mutex_unlock\<close> is one definition per function,
  with every early exit. The output of \<open>printk\<close> is kept as a list of messages.

  Parameters of the model: \<open>alloc\<close> for \<open>kmalloc\<close>, and \<open>nr\<close>, the number of bytes that
  \<open>copy_to_user\<close> or \<open>copy_from_user\<close> could not copy.
\<close>

section \<open>State and messages\<close>

abbreviation START_KB_DIM :: int where "START_KB_DIM \<equiv> 5"
abbreviation EFAULT :: int where "EFAULT \<equiv> 14"

datatype kmsg =
    MStat int int int int        \<comment> \<open>number of nodes, average, maximal, minimal length\<close>
  | MEmptyDevice | MStatIdle
  | MRealloc int int             \<comment> \<open>occupation, new size\<close>
  | MNoRealloc | MReallocIdle
  | MOpen | MClose
  | MAllocError | MPopError | MCopyToError | MCopyFromError
  | MReaderWaiting | MWriterWaiting
  | MRead nat "byte list" | MWrite nat "byte list"
  | MInit | MDeviceError int | MThreadError | MExit

record dev =
  mem :: heap
  kb_fifo :: kb
  dev_stat :: ds
  dev_run :: int
  klog :: "kmsg list"

definition printk :: "kmsg \<Rightarrow> dev \<Rightarrow> dev" where
  "printk m d = d\<lparr>klog := klog d @ [m]\<rparr>"

section \<open>The kernel threads\<close>

text \<open>One round of \<open>kt_stat\<close>; the flag says whether the thread goes on to
  \<open>schedule_timeout\<close> or to \<open>schedule\<close>.\<close>

definition kt_stat :: "alloc_fn \<Rightarrow> dev \<Rightarrow> (bool \<times> dev) res option" where
  "kt_stat alloc d =
     (if dev_run d \<noteq> 0
      then map_option (\<lambda>r. rbind r (\<lambda>(dim, st, m).
             rbind (if dim \<noteq> 0
                    then rbind (ds_med st m) (\<lambda>med.
                         rbind (ds_max st m) (\<lambda>mx.
                         rbind (ds_min st mx m) (\<lambda>mn.
                         rbind (ds_reset_stat st m) (\<lambda>(st', m').
                         Inr (MStat dim med mx mn, st', m')))))
                    else Inr (MEmptyDevice, st, m))
             (\<lambda>(msg, st', m').
             Inr (True, printk msg (d\<lparr>mem := m', dev_stat := ds_add_kb_value st' dim\<rparr>)))))
           (ds_populate alloc (dev_stat d) (kb_fifo d) (mem d))
      else Some (Inr (False, printk MStatIdle d)))"

definition kt_realloc :: "dev \<Rightarrow> (bool \<times> dev) res" where
  "kt_realloc d =
     (if dev_run d \<noteq> 0
      then rbind (ds_get_kb_occupation (dev_stat d)) (\<lambda>per.
           rbind (my_div (ds_kb_sum (dev_stat d)) (ds_kb_dim (dev_stat d))) (\<lambda>med_occ.
           rbind (if per \<noteq> KB_OCC
                  then rbind (ds_set_kb_occupation (dev_stat d) med_occ) (\<lambda>st.
                       Inr (MRealloc per (ds_kb_max st), ds_reset_alloc st))
                  else Inr (MNoRealloc, ds_reset_alloc (dev_stat d)))
           (\<lambda>(msg, st). Inr (True, printk msg (d\<lparr>dev_stat := st\<rparr>)))))
      else Inr (False, printk MReallocIdle d))"

section \<open>Opening and closing\<close>

text \<open>\<open>my_open\<close> wakes both threads when the device is opened by its first user.\<close>

definition my_open :: "dev \<Rightarrow> bool \<times> dev" where
  "my_open d =
     (let d' = (printk MOpen d)\<lparr>dev_run := cint (dev_run d + 1)\<rparr> in (dev_run d' = 1, d'))"

definition my_close :: "dev \<Rightarrow> dev" where
  "my_close d = (printk MClose d)\<lparr>dev_run := cint (dev_run d - 1)\<rparr>"

section \<open>Reading and writing\<close>

text \<open>
  A critical section of \<open>my_read\<close> or \<open>my_write\<close> ends in a return, with the code and, for a
  read, the bytes that reached the caller, or in a wait for the buffer with the block
  \<open>value\<close> kept. The flag of a return says that the other side's wait queue is woken.
\<close>

datatype rw_end = Return int "byte option list" bool | WaitOn ptr

definition my_read_locked :: "int \<Rightarrow> ptr \<Rightarrow> nat \<Rightarrow> dev \<Rightarrow> (rw_end \<times> dev) res" where
  "my_read_locked nr val dim d =
     (if kb_isempty (kb_fifo d) \<noteq> 0
      then Inr (WaitOn val, printk MReaderWaiting d)
      else rbind (kb_pop val (kb_fifo d) (mem d)) (\<lambda>(r, q, m).
           let d1 = d\<lparr>kb_fifo := q, mem := m\<rparr> in
           if r \<noteq> 0 then Inr (Return r [] False, printk MPopError d1)
           else rbind (get_chars val m) (\<lambda>cs.
           if nr \<noteq> 0 then Inr (Return (- EFAULT) [] False, printk MCopyToError d1)
           else rbind (read_str val m) (\<lambda>s.
           Inr (Return 0 (take dim cs) True, printk (MRead dim s) d1)))))"

definition my_read :: "alloc_fn \<Rightarrow> int \<Rightarrow> nat \<Rightarrow> dev \<Rightarrow> (rw_end \<times> dev) res" where
  "my_read alloc nr dim d =
     (let (val, m) = new_chars alloc dim (mem d) in
      if val = NULL then Inr (Return 1 [] False, printk MAllocError d)
      else my_read_locked nr val dim (d\<lparr>mem := m\<rparr>))"

definition my_write_locked :: "alloc_fn \<Rightarrow> int \<Rightarrow> ptr \<Rightarrow> byte list \<Rightarrow> dev \<Rightarrow> (rw_end \<times> dev) res" where
  "my_write_locked alloc nr val buf d =
     (if kb_isfull (kb_fifo d) (ds_kb_max (dev_stat d)) \<noteq> 0
      then Inr (WaitOn val, printk MWriterWaiting d)
      else if nr \<noteq> 0
      then rbind (free_ptr val (mem d)) (\<lambda>m.
           Inr (Return (- EFAULT) [] False, printk MCopyFromError (d\<lparr>mem := m\<rparr>)))
      else rbind (get_chars val (mem d)) (\<lambda>_.
           let m0 = (mem d)(the val \<mapsto> Chars (map Some buf)) in
           rbind (kb_push alloc val (kb_fifo d) m0) (\<lambda>(r, q, m1).
           rbind (read_str val m1) (\<lambda>s.
           rbind (free_ptr val m1) (\<lambda>m2.
           Inr (Return r [] True,
                printk (MWrite (length buf) s) (d\<lparr>kb_fifo := q, mem := m2\<rparr>)))))))"

definition my_write :: "alloc_fn \<Rightarrow> int \<Rightarrow> byte list \<Rightarrow> dev \<Rightarrow> (rw_end \<times> dev) res" where
  "my_write alloc nr buf d =
     (let (val, m) = new_chars alloc (length buf) (mem d) in
      if val = NULL then Inr (Return 1 [] False, printk MAllocError d)
      else my_write_locked alloc nr val buf (d\<lparr>mem := m\<rparr>))"

section \<open>What a read does\<close>

lemma printk_simps [simp]:
  "mem (printk m d) = mem d" "kb_fifo (printk m d) = kb_fifo d"
  "dev_stat (printk m d) = dev_stat d" "dev_run (printk m d) = dev_run d"
  "klog (printk m d) = klog d @ [m]"
  by (simp_all add: printk_def)

lemma my_read_locked_empty:
  "kb_rep (mem d) (kb_fifo d) [] \<Longrightarrow>
   my_read_locked nr val dim d = Inr (WaitOn val, printk MReaderWaiting d)"
  by (simp add: my_read_locked_def kb_isempty_rep)

lemma my_read_locked_overflow:
  assumes "kb_rep (mem d) (kb_fifo d) ((a, b, s) # es)" and "mem d v = Some (Chars cs)"
    and "length cs \<le> length s"
  shows "my_read_locked nr (Some v) dim d = Inl OutOfBounds"
  using assms by (simp add: my_read_locked_def kb_isempty_rep kb_pop_overflow)

lemma my_read_locked_ok:
  assumes rep: "kb_rep (mem d) (kb_fifo d) ((a, b, s) # es)"
    and v: "mem d v = Some (Chars (replicate dim None))" "v \<notin> set (cells ((a, b, s) # es))"
    and fits: "length s < dim"
  obtains q' where
    "my_read_locked nr (Some v) dim d =
       Inr (if nr = 0
            then (Return 0 (map Some s @ Some 0 # replicate (dim - Suc (length s)) None) True,
                  printk (MRead dim s) (d\<lparr>kb_fifo := q', mem := (mem d)(v \<mapsto> Chars (map Some s @
                    Some 0 # replicate (dim - Suc (length s)) None), b := None, a := None)\<rparr>))
            else (Return (- EFAULT) [] False,
                  printk MCopyToError (d\<lparr>kb_fifo := q', mem := (mem d)(v \<mapsto> Chars (map Some s @
                    Some 0 # replicate (dim - Suc (length s)) None), b := None, a := None)\<rparr>)))"
    and "kb_rep ((mem d)(v \<mapsto> Chars (map Some s @ Some 0 # replicate (dim - Suc (length s)) None),
      b := None, a := None)) q' es"
proof -
  have s0: "0 \<notin> set s" using rep by (auto simp: kb_rep_def buf_rep_def)
  have ne: "v \<noteq> a" "v \<noteq> b" using v(2) by auto
  from kb_pop_ok [OF rep v(1) _ v(2)] fits
  obtain q' where pop: "kb_pop (Some v) (kb_fifo d) (mem d) = Inr (0, q', (mem d)(v \<mapsto> Chars
      (map Some s @ Some 0 # replicate (dim - Suc (length s)) None), b := None, a := None))"
    and rep': "kb_rep ((mem d)(v \<mapsto> Chars (map Some s @ Some 0 # replicate (dim - Suc (length s)) None),
      b := None, a := None)) q' es"
    by auto
  show thesis
  proof (rule that)
    show "kb_rep ((mem d)(v \<mapsto> Chars (map Some s @ Some 0 # replicate (dim - Suc (length s)) None),
      b := None, a := None)) q' es" by (rule rep')
  qed (use rep pop s0 ne fits in
      \<open>simp add: my_read_locked_def kb_isempty_rep get_chars_def read_str_def Let_def\<close>)
qed

section \<open>What a write does\<close>

lemma my_write_locked_full:
  "kb_isfull (kb_fifo d) (ds_kb_max (dev_stat d)) \<noteq> 0 \<Longrightarrow>
   my_write_locked alloc nr val buf d = Inr (WaitOn val, printk MWriterWaiting d)"
  by (simp add: my_write_locked_def)

lemma my_write_locked_nocopy:
  assumes "kb_isfull (kb_fifo d) (ds_kb_max (dev_stat d)) = 0" and "nr \<noteq> 0"
    and "mem d v = Some ob"
  shows "my_write_locked alloc nr (Some v) buf d =
    Inr (Return (- EFAULT) [] False, printk MCopyFromError (d\<lparr>mem := (mem d)(v := None)\<rparr>))"
  using assms by (simp add: my_write_locked_def free_ptr_def)

context allocator
begin

text \<open>Without a terminator in the caller's bytes \<open>strlen\<close> reads past the block.\<close>

lemma my_write_locked_unterminated:
  assumes "kb_isfull (kb_fifo d) (ds_kb_max (dev_stat d)) = 0" and "0 \<notin> set buf"
    and "mem d v = Some (Chars cs)"
  shows "my_write_locked alloc 0 (Some v) buf d = Inl OutOfBounds"
proof -
  let ?m = "(mem d)(v \<mapsto> Chars (map Some buf))"
  have "strlen (Some v) (snd (new_node alloc ?m)) = Inl OutOfBounds"
    using assms(2) read_cells_unterminated [of buf]
    by (cases "alloc 8 ?m")
      (auto simp: new_node_def new_obj_def strlen_def read_str_def get_chars_def dest: fresh)
  then have "kb_push alloc (Some v) (kb_fifo d) ?m = Inl OutOfBounds"
    by (auto simp: kb_push_def split: prod.splits)
  with assms(1,3) show ?thesis by (simp add: my_write_locked_def)
qed

lemma my_write_locked_cases:
  assumes room: "kb_isfull (kb_fifo d) (ds_kb_max (dev_stat d)) = 0"
    and rep: "kb_rep (mem d) (kb_fifo d) es"
    and v: "mem d v = Some (Chars cs)" "v \<notin> set (cells es)"
    and buf: "buf = s @ 0 # rest" "0 \<notin> set s"
  obtains (oom) "my_write_locked alloc 0 (Some v) buf d = Inl NullDeref"
  | (ok) a b q' m' where
      "my_write_locked alloc 0 (Some v) buf d =
         Inr (Return 0 [] True, printk (MWrite (length buf) s) (d\<lparr>kb_fifo := q', mem := m'\<rparr>))"
    and "kb_rep m' q' (es @ [(a, b, s)])" and "mem d a = None" and "mem d b = None"
    and "m' v = None" and "\<forall>x. x \<notin> set (cells es) \<union> {a, b, v} \<longrightarrow> m' x = mem d x"
    and "alloc (length s + 1) ((mem d)(v \<mapsto> Chars (map Some buf), a \<mapsto> Node NULL NULL)) = Some b"
    and "alloc 8 ((mem d)(v \<mapsto> Chars (map Some buf))) = Some a"
proof -
  let ?m = "(mem d)(v \<mapsto> Chars (map Some buf))"
  have rep0: "kb_rep ?m (kb_fifo d) es" using rep v(2) by (rule kb_rep_frame)
  have s: "read_str (Some v) ?m = Inr s"
    using buf by (simp add: read_str_def get_chars_def)
  consider (n) "alloc 8 ?m = None"
    | (m) a where "alloc 8 ?m = Some a" "alloc (length s + 1) (?m(a \<mapsto> Node NULL NULL)) = None"
    | (k) a b where "alloc 8 ?m = Some a" "alloc (length s + 1) (?m(a \<mapsto> Node NULL NULL)) = Some b"
    by (metis option.exhaust)
  then show thesis
  proof cases
    case n
    from kb_push_oom_node [of alloc ?m, OF n s] show thesis
      by (intro oom) (simp add: my_write_locked_def room v)
  next
    case (m a)
    from kb_push_oom_data [OF m(1) s m(2)] show thesis
      by (intro oom) (simp add: my_write_locked_def room v)
  next
    case (k a b)
    from kb_push_ok [OF rep0 s k] obtain q' h' where
      push: "kb_push alloc (Some v) (kb_fifo d) ?m = Inr (0, q', h')"
      and rep': "kb_rep h' q' (es @ [(a, b, s)])" and ab: "?m a = None" "?m b = None" "a \<noteq> b"
      and fr: "\<forall>x. x \<notin> set (cells es) \<union> {a, b} \<longrightarrow> h' x = ?m x" by blast
    have out: "v \<noteq> a" "v \<noteq> b" using ab by auto
    then have hv: "h' v = Some (Chars (map Some buf))" using fr v(2) by simp
    then have "read_str (Some v) h' = Inr s" using buf by (simp add: read_str_def get_chars_def)
    with push hv room v have "my_write_locked alloc 0 (Some v) buf d =
        Inr (Return 0 [] True, printk (MWrite (length buf) s) (d\<lparr>kb_fifo := q', mem := h'(v := None)\<rparr>))"
      by (simp add: my_write_locked_def free_ptr_def)
    moreover have "kb_rep (h'(v := None)) q' (es @ [(a, b, s)])"
      using rep' v(2) out by (intro kb_rep_frame) auto
    ultimately show thesis
      using ab out fr k by (intro ok [of "h'(v := None)" q' a b]) auto
  qed
qed

end

section \<open>What the kernel threads do\<close>

lemma my_div_pos_total: "0 < b \<Longrightarrow> \<exists>r. my_div a b = Inr r"
  by (simp add: my_div_def cdiv_def cmod_def)

lemma my_div_fault: "my_div a b = Inl f \<Longrightarrow> f = DivError"
  by (auto simp: my_div_def cdiv_def cmod_def result_simps split: if_splits)

lemma ds_set_kb_occupation_total: "\<exists>m. ds_set_kb_occupation dsv v = Inr (dsv\<lparr>ds_kb_max := m\<rparr>)"
  using my_div_pos_total [of KB_OCC "cint (v * 100)"]
  by (auto simp: ds_set_kb_occupation_def)

context allocator
begin

lemma kt_stat_empty:
  assumes "dev_run d \<noteq> 0" and "kb_rep (mem d) (kb_fifo d) []"
  shows "kt_stat alloc d =
    Some (Inr (True, printk MEmptyDevice (d\<lparr>dev_stat := ds_add_kb_value (dev_stat d) 0\<rparr>)))"
  using assms by (simp add: kt_stat_def ds_populate_empty)

lemma kt_stat_cases:
  assumes "dev_run d \<noteq> 0" and "kb_rep (mem d) (kb_fifo d) es" and "es \<noteq> []"
    and "length es < 2 ^ 30" and "\<forall>x \<in> set (lens es). x \<le> INT_MAX"
  obtains (oom) "kt_stat alloc d = Some (Inl NullDeref)"
  | (ok) med b where "kt_stat alloc d = Some (Inr (True,
      printk (MStat (int (length es)) med (Max (set (lens es))) (Min (set (lens es))))
        (d\<lparr>dev_stat := ds_add_kb_value ((dev_stat d)\<lparr>ds_list := Some b, ds_dim := 0\<rparr>) (int (length es))\<rparr>)))"
    and "sum_list (lens es) \<le> INT_MAX \<longrightarrow> med = sum_list (lens es) div int (length es)"
proof (cases "alloc (4 * length es) (mem d)")
  case None
  then show thesis
    using assms ds_populate_oom [OF assms(2-4), of "dev_stat d"]
    by (intro oom) (simp add: kt_stat_def)
next
  case (Some b)
  let ?st = "(dev_stat d)\<lparr>ds_dim := int (length es), ds_list := Some b\<rparr>"
  let ?m = "(mem d)(b \<mapsto> Ints (map Some (lens es)))"
  note pop = ds_populate_ok [OF assms(2-4) Some assms(5)]
  have xs: "lens es \<noteq> []" using assms(3) by (simp add: lens_def)
  obtain med where med: "ds_med ?st ?m = Inr med"
    and med_val: "sum_list (lens es) \<le> INT_MAX \<longrightarrow> med = sum_list (lens es) div int (length es)"
    using ds_snapshot_med [of ?m b "lens es" ?st] xs lens_nonneg by auto
  have mx: "ds_max ?st ?m = Inr (Max (set (lens es)))"
    and mn: "ds_min ?st (Max (set (lens es))) ?m = Inr (Min (set (lens es)))"
    using ds_snapshot_extrema [of ?m b "lens es" ?st] xs lens_nonneg by auto
  have "?m(b := None) = mem d" using pop(2) by (simp add: fun_eq_iff)
  then have "ds_reset_stat ?st ?m = Inr (?st\<lparr>ds_dim := 0\<rparr>, mem d)"
    by (simp add: ds_reset_stat_def free_ptr_def)
  with pop(1) med mx mn assms(1,3) med_val show thesis
    by (intro ok [of med b]) (simp_all add: kt_stat_def)
qed

end

lemma kt_realloc_InrD:
  assumes "kt_realloc d = Inr (tmo, d')"
  shows "mem d' = mem d \<and> kb_fifo d' = kb_fifo d \<and> dev_run d' = dev_run d \<and>
    (\<exists>msg. klog d' = klog d @ [msg] \<and> (\<forall>n s. msg \<noteq> MRead n s \<and> msg \<noteq> MWrite n s) \<and> msg \<noteq> MCopyToError)"
  using assms by (auto simp: kt_realloc_def result_simps split: if_splits)

lemma kt_realloc_fault: "kt_realloc d = Inl f \<Longrightarrow> f = DivError"
  using ds_set_kb_occupation_total [of "dev_stat d"]
  by (auto simp: kt_realloc_def ds_get_kb_occupation_def calculate_per_def result_simps
      dest: my_div_fault split: if_splits) (metis Inr_not_Inl)

end
