(* ===== verification/Device_Sys.thy ===== *)
theory Device_Sys
  imports Device "HOL-Library.Sublist"
begin

text \<open>
  Module/main.c as a concurrent system. Threads 0 and 1 are the kernel threads \<open>kt_stat\<close> and
  \<open>kt_realloc\<close>, the others are processes calling into the device. A thread waits for
  \<open>dev_mutex\<close> (\<open>Lock\<close>), runs a critical section (\<open>Crit\<close>), sleeps on one of the two wait
  queues or in the scheduler. One step of the system is one of: a call, taking the mutex,
  running a critical section and releasing the mutex, evaluating the condition of
  \<open>wait_event_interruptible\<close>, a signal, and the steps of the kernel threads and of unloading.

  A sleeping thread whose flag \<open>awake\<close> is set is about to evaluate its condition; a wake-up
  sets the flag. A fault inside a section stops the system (\<open>crashed\<close>).
\<close>

section \<open>States and steps\<close>

datatype sect =
    OpenS | CloseS
  | ReadS nat | ReadAgain ptr nat
  | WriteS "byte list" | WriteAgain ptr "byte list"
  | StatS | ReallocS

datatype pc =
    Idle
  | Lock sect
  | Crit sect
  | SleepR ptr nat
  | SleepW ptr "byte list"
  | Head sect        \<comment> \<open>at the test of \<open>kthread_should_stop\<close>\<close>
  | Timeout sect     \<comment> \<open>in \<open>schedule_timeout\<close>\<close>
  | Sched sect       \<comment> \<open>in \<open>schedule\<close>, until woken\<close>
  | Exited

record sys =
  devs :: dev
  dev_mutex :: "nat option"
  pcs :: "nat \<Rightarrow> pc"
  awake :: "nat \<Rightarrow> bool"
  should_stop :: "nat \<Rightarrow> bool"
  exiting :: nat
  registered :: bool
  crashed :: "fault option"
  results :: "(nat \<times> int \<times> byte option list) list"

fun user_call :: "sect \<Rightarrow> bool" where
  "user_call OpenS = True"
| "user_call CloseS = True"
| "user_call (ReadS _) = True"
| "user_call (WriteS _) = True"
| "user_call _ = False"

fun on_wait_r :: "pc \<Rightarrow> bool" where
  "on_wait_r (SleepR _ _) = True"
| "on_wait_r _ = False"

fun on_wait_w :: "pc \<Rightarrow> bool" where
  "on_wait_w (SleepW _ _) = True"
| "on_wait_w _ = False"

definition goto :: "nat \<Rightarrow> pc \<Rightarrow> sys \<Rightarrow> sys" where
  "goto t p s = s\<lparr>pcs := (pcs s)(t := p)\<rparr>"

text \<open>The end of a critical section: the new device state, the mutex released.\<close>

definition leave :: "nat \<Rightarrow> pc \<Rightarrow> dev \<Rightarrow> sys \<Rightarrow> sys" where
  "leave t p d s = (goto t p s)\<lparr>devs := d, dev_mutex := None\<rparr>"

definition crash :: "fault \<Rightarrow> sys \<Rightarrow> sys" where
  "crash f s = s\<lparr>crashed := Some f\<rparr>"

definition wake :: "(pc \<Rightarrow> bool) \<Rightarrow> sys \<Rightarrow> sys" where
  "wake P s = s\<lparr>awake := (\<lambda>u. awake s u \<or> P (pcs s u))\<rparr>"

text \<open>A section of \<open>my_read\<close> or \<open>my_write\<close> is over; \<open>Q\<close> is the wait queue that a success
  wakes and \<open>sleep\<close> the state in which the caller waits for the buffer.\<close>

definition end_rw ::
  "nat \<Rightarrow> (pc \<Rightarrow> bool) \<Rightarrow> (ptr \<Rightarrow> pc) \<Rightarrow> (rw_end \<times> dev) res \<Rightarrow> sys \<Rightarrow> sys" where
  "end_rw t Q sleep r s =
     (case r of
        Inl f \<Rightarrow> crash f s
      | Inr (WaitOn v, d) \<Rightarrow> (leave t (sleep v) d s)\<lparr>awake := (awake s)(t := True)\<rparr>
      | Inr (Return n bs w, d) \<Rightarrow>
          (let s1 = (leave t Idle d s)\<lparr>results := results s @ [(t, n, bs)]\<rparr>
           in if w then wake Q s1 else s1))"

definition end_kthread :: "nat \<Rightarrow> sect \<Rightarrow> (bool \<times> dev) res \<Rightarrow> sys \<Rightarrow> sys" where
  "end_kthread t k r s =
     (case r of
        Inl f \<Rightarrow> crash f s
      | Inr (tmo, d) \<Rightarrow>
          (leave t (if tmo then Timeout k else Sched k) d s)\<lparr>awake := (awake s)(t := False)\<rparr>)"

fun run_sect :: "alloc_fn \<Rightarrow> int \<Rightarrow> nat \<Rightarrow> sect \<Rightarrow> sys \<Rightarrow> sys option" where
  "run_sect alloc nr t OpenS s =
     (let (first, d) = my_open (devs s);
          s1 = (leave t Idle d s)\<lparr>results := results s @ [(t, 0, [])]\<rparr>
      in Some (if first then s1\<lparr>awake := (awake s)(0 := True, 1 := True)\<rparr> else s1))"
| "run_sect alloc nr t CloseS s =
     Some ((leave t Idle (my_close (devs s)) s)\<lparr>results := results s @ [(t, 0, [])]\<rparr>)"
| "run_sect alloc nr t (ReadS dim) s =
     Some (end_rw t on_wait_w (\<lambda>v. SleepR v dim) (my_read alloc nr dim (devs s)) s)"
| "run_sect alloc nr t (ReadAgain v dim) s =
     Some (end_rw t on_wait_w (\<lambda>v. SleepR v dim) (my_read_locked nr v dim (devs s)) s)"
| "run_sect alloc nr t (WriteS buf) s =
     Some (end_rw t on_wait_r (\<lambda>v. SleepW v buf) (my_write alloc nr buf (devs s)) s)"
| "run_sect alloc nr t (WriteAgain v buf) s =
     Some (end_rw t on_wait_r (\<lambda>v. SleepW v buf) (my_write_locked alloc nr v buf (devs s)) s)"
| "run_sect alloc nr t StatS s =
     map_option (\<lambda>r. end_kthread t StatS r s) (kt_stat alloc (devs s))"
| "run_sect alloc nr t ReallocS s = Some (end_kthread t ReallocS (kt_realloc (devs s)) s)"

datatype label =
    Call nat sect
  | Acquire nat
  | Run nat int
  | Check nat
  | Signal nat
  | KTest nat
  | KResume nat
  | Unload

definition check_wait :: "nat \<Rightarrow> sys \<Rightarrow> sys option" where
  "check_wait t s =
     (if \<not> awake s t then None
      else case pcs s t of
        SleepR v dim \<Rightarrow> Some (if kb_isempty (kb_fifo (devs s)) = 0
                               then goto t (Lock (ReadAgain v dim)) s
                               else s\<lparr>awake := (awake s)(t := False)\<rparr>)
      | SleepW v buf \<Rightarrow> Some (if kb_isfull (kb_fifo (devs s)) (ds_kb_max (dev_stat (devs s))) = 0
                               then goto t (Lock (WriteAgain v buf)) s
                               else s\<lparr>awake := (awake s)(t := False)\<rparr>)
      | _ \<Rightarrow> None)"

text \<open>Unloading: \<open>kthread_stop\<close> of the two threads, one after the other, then
  \<open>misc_deregister\<close>. \<open>mutex_destroy\<close> is empty in this kernel configuration.\<close>

definition my_module_exit :: "sys \<Rightarrow> sys option" where
  "my_module_exit s =
     (if exiting s = 0
      then Some (s\<lparr>should_stop := (should_stop s)(0 := True), awake := (awake s)(0 := True),
                   exiting := 1\<rparr>)
      else if exiting s = 1 \<and> pcs s 0 = Exited
      then Some (s\<lparr>should_stop := (should_stop s)(1 := True), awake := (awake s)(1 := True),
                   exiting := 2\<rparr>)
      else if exiting s = 2 \<and> pcs s 1 = Exited
      then Some (s\<lparr>registered := False, devs := printk MExit (devs s), exiting := 3\<rparr>)
      else None)"

definition sys_step :: "alloc_fn \<Rightarrow> label \<Rightarrow> sys \<Rightarrow> sys option" where
  "sys_step alloc l s =
     (if crashed s \<noteq> None then None
      else case l of
        Call t k \<Rightarrow> if 2 \<le> t \<and> pcs s t = Idle \<and> user_call k \<and> registered s
                     then Some (goto t (Lock k) s) else None
      | Acquire t \<Rightarrow> (case pcs s t of
            Lock k \<Rightarrow> if dev_mutex s = None
                       then Some ((goto t (Crit k) s)\<lparr>dev_mutex := Some t\<rparr>) else None
          | _ \<Rightarrow> None)
      | Run t nr \<Rightarrow> (case pcs s t of Crit k \<Rightarrow> run_sect alloc nr t k s | _ \<Rightarrow> None)
      | Check t \<Rightarrow> check_wait t s
      | Signal t \<Rightarrow> (case pcs s t of
            SleepR v dim \<Rightarrow> Some (goto t (Lock (ReadAgain v dim)) s)
          | SleepW v buf \<Rightarrow> Some (goto t (Lock (WriteAgain v buf)) s)
          | _ \<Rightarrow> None)
      | KTest t \<Rightarrow> (case pcs s t of
            Head k \<Rightarrow> Some (goto t (if should_stop s t then Exited else Lock k) s)
          | _ \<Rightarrow> None)
      | KResume t \<Rightarrow> (case pcs s t of
            Timeout k \<Rightarrow> Some (goto t (Head k) s)
          | Sched k \<Rightarrow> if awake s t then Some (goto t (Head k) s) else None
          | _ \<Rightarrow> None)
      | Unload \<Rightarrow> my_module_exit s)"

section \<open>Loading the module\<close>

text \<open>The static variables of the file start as zero.\<close>

definition static_dev :: dev where
  "static_dev = \<lparr>mem = Map.empty, kb_fifo = \<lparr>kb_head = NULL, kb_tail = NULL, kb_count = 0\<rparr>,
     dev_stat = \<lparr>ds_dim = 0, ds_list = NULL, ds_kb_dim = 0, ds_kb_max = 0, ds_kb_sum = 0\<rparr>,
     dev_run = 0, klog = []\<rparr>"

definition static_sys :: sys where
  "static_sys = \<lparr>devs = static_dev, dev_mutex = None, pcs = (\<lambda>_. Idle), awake = (\<lambda>_. False),
     should_stop = (\<lambda>_. False), exiting = 0, registered = False, crashed = None, results = []\<rparr>"

text \<open>The arguments are the results of \<open>misc_register\<close> and of the two \<open>kthread_run\<close>: 0 or an
  error code.\<close>

definition my_module_init :: "int \<Rightarrow> int \<Rightarrow> int \<Rightarrow> sys \<Rightarrow> int \<times> sys" where
  "my_module_init reg kt1 kt2 s =
     (if reg \<noteq> 0 then (reg, s\<lparr>devs := printk (MDeviceError reg) (devs s)\<rparr>)
      else
        let d1 = printk MInit (devs s);
            d2 = d1\<lparr>kb_fifo := snd (kb_init (kb_fifo d1))\<rparr>;
            s1 = s\<lparr>registered := True, dev_mutex := None, devs := d2\<rparr> in
        if kt1 \<noteq> 0 then (kt1, s1\<lparr>devs := printk MThreadError d2\<rparr>)
        else
          let s2 = goto 0 (Head StatS) s1 in
          if kt2 \<noteq> 0 then (kt2, s2\<lparr>devs := printk MThreadError d2\<rparr>)
          else
            let s3 = goto 1 (Head ReallocS) s2 in
            (0, s3\<lparr>devs := d2\<lparr>dev_stat := ds_init_alloc (dev_stat d2) START_KB_DIM, dev_run := 0\<rparr>\<rparr>))"

definition init_sys :: sys where
  "init_sys = snd (my_module_init 0 0 0 static_sys)"

text \<open>The states reached from a loaded module when its clients make only calls that satisfy
  \<open>ok\<close>.\<close>

inductive reach :: "alloc_fn \<Rightarrow> (sect \<Rightarrow> bool) \<Rightarrow> sys \<Rightarrow> bool" for alloc ok where
  reach_init: "reach alloc ok init_sys"
| reach_step: "reach alloc ok s \<Longrightarrow> sys_step alloc l s = Some s' \<Longrightarrow>
    (\<And>t k. l = Call t k \<Longrightarrow> ok k) \<Longrightarrow> reach alloc ok s'"

fun run_labels :: "alloc_fn \<Rightarrow> label list \<Rightarrow> sys \<Rightarrow> sys option" where
  "run_labels alloc [] s = Some s"
| "run_labels alloc (l # ls) s =
     (case sys_step alloc l s of None \<Rightarrow> None | Some s' \<Rightarrow> run_labels alloc ls s')"

section \<open>The abstract queue\<close>

text \<open>What the device promises: a queue of strings, to which a string is appended only while
  fewer than \<open>cap\<close> strings are in it, and from which the first string is taken.\<close>

inductive fifo_step :: "int \<Rightarrow> byte list list \<Rightarrow> byte list list \<Rightarrow> bool" for cap where
  stutter: "fifo_step cap q q"
| put: "int (length q) < cap \<Longrightarrow> fifo_step cap q (q @ [x])"
| get: "fifo_step cap (x # q) q"

section \<open>The invariant\<close>

text \<open>The strings that the log shows as written and as read.\<close>

fun written :: "kmsg list \<Rightarrow> byte list list" where
  "written [] = []"
| "written (MWrite n s # ms) = s # written ms"
| "written (_ # ms) = written ms"

fun read_out :: "kmsg list \<Rightarrow> byte list list" where
  "read_out [] = []"
| "read_out (MRead n s # ms) = s # read_out ms"
| "read_out (_ # ms) = read_out ms"

lemma written_append [simp]: "written (xs @ ys) = written xs @ written ys"
  by (induction xs rule: written.induct) auto

lemma read_out_append [simp]: "read_out (xs @ ys) = read_out xs @ read_out ys"
  by (induction xs rule: read_out.induct) auto

text \<open>The block a thread keeps across a wait, with its size.\<close>

fun sect_val :: "sect \<Rightarrow> (ptr \<times> nat) option" where
  "sect_val (ReadAgain v n) = Some (v, n)"
| "sect_val (WriteAgain v buf) = Some (v, length buf)"
| "sect_val _ = None"

fun pc_val :: "pc \<Rightarrow> (ptr \<times> nat) option" where
  "pc_val Idle = None"
| "pc_val Exited = None"
| "pc_val (Lock k) = sect_val k"
| "pc_val (Crit k) = sect_val k"
| "pc_val (Head k) = sect_val k"
| "pc_val (Timeout k) = sect_val k"
| "pc_val (Sched k) = sect_val k"
| "pc_val (SleepR v n) = Some (v, n)"
| "pc_val (SleepW v buf) = Some (v, length buf)"

definition vals_ok :: "heap \<Rightarrow> (nat \<Rightarrow> pc) \<Rightarrow> entry list \<Rightarrow> bool" where
  "vals_ok m P es \<longleftrightarrow>
     (\<forall>t p n. pc_val (P t) = Some (p, n) \<longrightarrow>
        (\<exists>b. p = Some b \<and> m b = Some (Chars (replicate n None)) \<and> b \<notin> set (cells es))) \<and>
     (\<forall>t u p n n'. pc_val (P t) = Some (p, n) \<longrightarrow> pc_val (P u) = Some (p, n') \<longrightarrow> t = u)"

definition limits :: "heap \<Rightarrow> entry list \<Rightarrow> bool" where
  "limits m es \<longleftrightarrow> (\<forall>a. m a \<noteq> None \<longrightarrow> a < MAX_BLOCKS) \<and>
     (\<forall>e \<in> set es. length (str_of e) < KMALLOC_MAX)"

definition history :: "kmsg list \<Rightarrow> entry list \<Rightarrow> bool" where
  "history log es \<longleftrightarrow> (\<exists>gone. written log = gone @ map str_of es \<and> subseq (read_out log) gone \<and>
     (MCopyToError \<notin> set log \<longrightarrow> gone = read_out log))"

definition heap_inv :: "dev \<Rightarrow> (nat \<Rightarrow> pc) \<Rightarrow> entry list \<Rightarrow> bool" where
  "heap_inv d P es \<longleftrightarrow> kb_rep (mem d) (kb_fifo d) es \<and> vals_ok (mem d) P es \<and>
     limits (mem d) es \<and> history (klog d) es"

definition mutex_inv :: "(nat \<Rightarrow> pc) \<Rightarrow> nat option \<Rightarrow> bool" where
  "mutex_inv P mtx \<longleftrightarrow> (\<forall>t. (\<exists>k. P t = Crit k) \<longleftrightarrow> mtx = Some t)"

definition sys_inv :: "sys \<Rightarrow> entry list \<Rightarrow> bool" where
  "sys_inv s es \<longleftrightarrow> mutex_inv (pcs s) (dev_mutex s) \<and> heap_inv (devs s) (pcs s) es \<and>
     (crashed s = None \<or> crashed s \<in> Some ` {NullDeref, DivError, OutOfBounds})"

subsection \<open>Steps that leave the heap alone\<close>

lemma vals_ok_goto: "vals_ok m P es \<Longrightarrow> pc_val p = pc_val (P t) \<Longrightarrow> vals_ok m (P(t := p)) es"
  by (auto simp: vals_ok_def)

lemma heap_inv_goto: "heap_inv d P es \<Longrightarrow> pc_val p = pc_val (P t) \<Longrightarrow> heap_inv d (P(t := p)) es"
  by (simp add: heap_inv_def vals_ok_goto)

lemma vals_ok_drop: "vals_ok m P es \<Longrightarrow> pc_val p = None \<Longrightarrow> vals_ok m (P(t := p)) es"
  by (auto simp: vals_ok_def)

definition quiet :: "kmsg \<Rightarrow> bool" where
  "quiet msg \<longleftrightarrow> written [msg] = [] \<and> read_out [msg] = []"

lemma history_quiet: "history log es \<Longrightarrow> quiet msg \<Longrightarrow> history (log @ [msg]) es"
  by (auto simp: history_def quiet_def)

lemma quiet_simps [simp]:
  "quiet (MStat a b c d)" "quiet MEmptyDevice" "quiet MStatIdle" "quiet (MRealloc x y)"
  "quiet MNoRealloc" "quiet MReallocIdle" "quiet MOpen" "quiet MClose" "quiet MAllocError"
  "quiet MPopError" "quiet MCopyToError" "quiet MCopyFromError" "quiet MReaderWaiting"
  "quiet MWriterWaiting" "quiet MExit" "quiet MThreadError" "quiet MInit" "quiet (MDeviceError x)"
  by (simp_all add: quiet_def)

lemma heap_inv_printk: "heap_inv d P es \<Longrightarrow> quiet msg \<Longrightarrow> heap_inv (printk msg d) P es"
  by (simp add: heap_inv_def history_quiet)

lemma heap_inv_dev:
  "heap_inv d P es \<Longrightarrow> mem d' = mem d \<Longrightarrow> kb_fifo d' = kb_fifo d \<Longrightarrow> klog d' = klog d \<Longrightarrow>
   heap_inv d' P es"
  by (simp add: heap_inv_def)

lemma mutex_inv_goto:
  "mutex_inv P mtx \<Longrightarrow> (\<forall>k. P t \<noteq> Crit k) \<Longrightarrow> (\<forall>k. p \<noteq> Crit k) \<Longrightarrow> mutex_inv (P(t := p)) mtx"
  by (auto simp: mutex_inv_def)

lemma mutex_inv_leave:
  "mutex_inv P mtx \<Longrightarrow> P t = Crit k \<Longrightarrow> (\<forall>k. p \<noteq> Crit k) \<Longrightarrow> mutex_inv (P(t := p)) None"
  by (auto simp: mutex_inv_def) (metis option.inject)

lemma length_cells [simp]: "length (cells es) = 2 * length es"
  by (induction es rule: cells.induct) auto

text \<open>The address space bounds the number of entries.\<close>

lemma entries_bound:
  assumes "kb_rep m q es" and "limits m es"
  shows "length es \<le> 67108864"
proof -
  have "set (cells es) \<subseteq> {..<MAX_BLOCKS}"
    using assms by (auto simp: limits_def kb_rep_def dest: buf_rep_dom)
  then have "card (set (cells es)) \<le> MAX_BLOCKS"
    using card_mono [of "{..<MAX_BLOCKS}"] by simp
  moreover have "card (set (cells es)) = 2 * length es"
    using assms(1) by (simp add: kb_rep_def buf_rep_def distinct_card)
  ultimately show ?thesis by simp
qed

subsection \<open>Sections that read\<close>

lemma vals_okD:
  assumes "vals_ok m P es" and "pc_val (P t) = Some (p, n)"
  obtains b where "p = Some b" and "m b = Some (Chars (replicate n None))" and "b \<notin> set (cells es)"
  using assms unfolding vals_ok_def by blast

text \<open>A thread that gives its block up: the blocks of the others survive a change of the heap
  that touches only the list, that block and unused addresses.\<close>

lemma vals_ok_change:
  assumes vals: "vals_ok m P es" and t: "pc_val (P t) = Some (Some v, n) \<or> pc_val (P t) = None"
    and p: "pc_val p = None"
    and frame: "\<And>x. m x \<noteq> None \<Longrightarrow> x \<notin> set (cells es) \<Longrightarrow> x \<noteq> v \<or> pc_val (P t) = None \<Longrightarrow> m' x = m x"
    and cells: "\<And>x. x \<in> set (cells es') \<Longrightarrow> x \<in> set (cells es) \<or> m x = None"
  shows "vals_ok m' (P(t := p)) es'"
proof -
  have "\<exists>b. q = Some b \<and> m' b = Some (Chars (replicate k None)) \<and> b \<notin> set (cells es')"
    if u: "u \<noteq> t" "pc_val (P u) = Some (q, k)" for u q k
  proof -
    from vals u(2) obtain b where b: "q = Some b" "m b = Some (Chars (replicate k None))"
      "b \<notin> set (cells es)" by (rule vals_okD)
    have "b \<noteq> v \<or> pc_val (P t) = None" using vals t u b by (auto simp: vals_ok_def)
    with b frame cells show ?thesis by (metis option.distinct(1))
  qed
  moreover have "t1 = u1" if "pc_val (P t1) = Some (q, k)" "pc_val (P u1) = Some (q, k')" for t1 u1 q k k'
    using vals that by (auto simp: vals_ok_def)
  ultimately show ?thesis using p by (auto simp: vals_ok_def split: if_splits)
qed

lemma history_read:
  assumes "history log ((a, b, s) # es)"
  shows "history (log @ [MRead n s]) es" and "history (log @ [MCopyToError]) es"
proof -
  from assms obtain gone where g: "written log = gone @ s # map str_of es"
    "subseq (read_out log) gone" "MCopyToError \<notin> set log \<longrightarrow> gone = read_out log"
    by (auto simp: history_def)
  then show "history (log @ [MRead n s]) es"
    by (auto simp: history_def intro!: exI [of _ "gone @ [s]"] list_emb_append_mono)
  from g show "history (log @ [MCopyToError]) es"
    by (auto simp: history_def intro!: exI [of _ "gone @ [s]"])
qed

lemma read_locked_inv:
  assumes inv: "heap_inv d P es" and t: "pc_val (P t) = Some (val, dim)"
    and r: "my_read_locked nr val dim d = Inr (e, d')"
  shows "(case e of WaitOn v \<Rightarrow> v = val \<and> heap_inv d' (P(t := SleepR val dim)) es
    | Return n bs w \<Rightarrow> \<exists>es'. heap_inv d' (P(t := Idle)) es' \<and> fifo_step cap (map str_of es) (map str_of es'))"
proof -
  from inv have rep: "kb_rep (mem d) (kb_fifo d) es" and vals: "vals_ok (mem d) P es"
    and lim: "limits (mem d) es" and hist: "history (klog d) es" by (auto simp: heap_inv_def)
  from vals t obtain v where v: "val = Some v" "mem d v = Some (Chars (replicate dim None))"
    "v \<notin> set (cells es)" by (rule vals_okD)
  show ?thesis
  proof (cases es rule: cells.cases)
    case 1
    with rep r have "e = WaitOn val" and "d' = printk MReaderWaiting d"
      by (auto simp: my_read_locked_empty)
    with inv t show ?thesis by (simp add: heap_inv_goto heap_inv_printk)
  next
    case (2 a b s es')
    have fits: "length s < dim"
      using r rep v 2 my_read_locked_overflow [of d a b s es' v "replicate dim None" nr dim] by force
    let ?m = "(mem d)(v \<mapsto> Chars (map Some s @ Some 0 # replicate (dim - Suc (length s)) None),
      b := None, a := None)"
    from my_read_locked_ok [OF rep [unfolded 2] v(2) v(3) [unfolded 2] fits]
    obtain q' where res: "my_read_locked nr val dim d = Inr (if nr = 0
        then (Return 0 (map Some s @ Some 0 # replicate (dim - Suc (length s)) None) True,
              printk (MRead dim s) (d\<lparr>kb_fifo := q', mem := ?m\<rparr>))
        else (Return (- EFAULT) [] False, printk MCopyToError (d\<lparr>kb_fifo := q', mem := ?m\<rparr>)))"
      and rep': "kb_rep ?m q' es'"
      unfolding v(1) by blast
    have "vals_ok ?m (P(t := Idle)) es'"
      by (rule vals_ok_change [OF vals, of t v dim]) (use t v 2 in auto)
    moreover have "limits ?m es'" using lim v(2) 2 by (auto simp: limits_def)
    ultimately have "heap_inv d' (P(t := Idle)) es' \<and> (\<exists>n bs w. e = Return n bs w)"
      using r res rep' history_read [OF hist [unfolded 2]]
      by (cases "nr = 0") (auto simp: heap_inv_def)
    then show ?thesis using 2 by (auto intro!: exI [of _ es'] fifo_step.get)
  qed
qed

lemma read_locked_fault:
  assumes inv: "heap_inv d P es" and t: "pc_val (P t) = Some (val, dim)"
    and r: "my_read_locked nr val dim d = Inl f"
  shows "f = OutOfBounds"
proof -
  from inv have rep: "kb_rep (mem d) (kb_fifo d) es" and vals: "vals_ok (mem d) P es"
    by (auto simp: heap_inv_def)
  from vals t obtain v where v: "val = Some v" "mem d v = Some (Chars (replicate dim None))"
    "v \<notin> set (cells es)" by (rule vals_okD)
  show ?thesis
  proof (cases es rule: cells.cases)
    case 1
    with rep r show ?thesis by (simp add: my_read_locked_empty)
  next
    case (2 a b s es')
    show ?thesis
    proof (cases "length s < dim")
      case True
      from my_read_locked_ok [OF rep [unfolded 2] v(2) v(3) [unfolded 2] True] r v(1)
      show ?thesis by (metis Inl_Inr_False)
    next
      case False
      with r rep v 2 my_read_locked_overflow [of d a b s es' v "replicate dim None" nr dim]
      show ?thesis by simp
    qed
  qed
qed

subsection \<open>Sections that write\<close>

lemma history_write:
  "history log es \<Longrightarrow> history (log @ [MWrite n s]) (es @ [(a, b, s)])"
  by (auto simp: history_def)

lemma terminated_cases:
  obtains "0 \<notin> set buf" | s rest where "buf = s @ (0::byte) # rest" and "0 \<notin> set s"
  by (cases "0 \<in> set buf") (auto dest: split_list_first)

context kernel_allocator
begin

lemma write_pushed_inv:
  assumes inv: "heap_inv d P es" and t: "pc_val (P t) = Some (Some v, n)"
    and v: "v \<notin> set (cells es)"
    and rep': "kb_rep m' q' (es @ [(a, b, s)])" and ab: "mem d a = None" "mem d b = None"
    and mv: "m' v = None" and fr: "\<forall>x. x \<notin> set (cells es) \<union> {a, b, v} \<longrightarrow> m' x = mem d x"
    and al: "alloc (length s + 1) h1 = Some b" "alloc 8 h2 = Some a"
  shows "heap_inv (printk (MWrite k s) (d\<lparr>kb_fifo := q', mem := m'\<rparr>)) (P(t := Idle)) (es @ [(a, b, s)])"
proof -
  from inv have rep: "kb_rep (mem d) (kb_fifo d) es" and vals: "vals_ok (mem d) P es"
    and lim: "limits (mem d) es" and hist: "history (klog d) es" by (auto simp: heap_inv_def)
  have fr': "m' x = mem d x" if "mem d x \<noteq> None" "x \<notin> set (cells es)" "x \<noteq> v" for x
    using fr ab that by (metis Un_iff insert_iff singletonD)
  have "vals_ok m' (P(t := Idle)) (es @ [(a, b, s)])"
    by (rule vals_ok_change [OF vals, of t v n]) (use t ab fr' in auto)
  moreover have "limits m' (es @ [(a, b, s)])"
  proof -
    have "x < MAX_BLOCKS" if "m' x \<noteq> None" for x
    proof (cases "x \<in> set (cells es) \<or> x \<notin> {a, b, v}")
      case True
      then have "mem d x \<noteq> None" using that fr rep buf_rep_dom by (auto simp: kb_rep_def)
      with lim show ?thesis by (simp add: limits_def)
    next
      case False
      with that mv block_limit [OF al(1)] block_limit [OF al(2)] show ?thesis by auto
    qed
    moreover have "length s < KMALLOC_MAX" using size_limit [OF al(1)] by simp
    ultimately show ?thesis using lim by (auto simp: limits_def)
  qed
  ultimately show ?thesis using rep' hist by (simp add: heap_inv_def history_write)
qed

lemma write_locked_inv:
  assumes inv: "heap_inv d P es" and t: "pc_val (P t) = Some (val, length buf)"
    and r: "my_write_locked alloc nr val buf d = Inr (e, d')"
  shows "(case e of WaitOn v \<Rightarrow> v = val \<and> heap_inv d' (P(t := SleepW val buf)) es
    | Return n bs w \<Rightarrow> \<exists>es'. heap_inv d' (P(t := Idle)) es' \<and> fifo_step (ds_kb_max (dev_stat d)) (map str_of es) (map str_of es'))"
proof -
  from inv have rep: "kb_rep (mem d) (kb_fifo d) es" and vals: "vals_ok (mem d) P es"
    and lim: "limits (mem d) es" and hist: "history (klog d) es" by (auto simp: heap_inv_def)
  from vals t obtain v where v: "val = Some v" "mem d v = Some (Chars (replicate (length buf) None))"
    "v \<notin> set (cells es)" by (rule vals_okD)
  consider (full) "kb_isfull (kb_fifo d) (ds_kb_max (dev_stat d)) \<noteq> 0"
    | (nocopy) "kb_isfull (kb_fifo d) (ds_kb_max (dev_stat d)) = 0" "nr \<noteq> 0"
    | (copy) "kb_isfull (kb_fifo d) (ds_kb_max (dev_stat d)) = 0" "nr = 0" by auto
  then show ?thesis
  proof cases
    case full
    with r have "e = WaitOn val" and "d' = printk MWriterWaiting d"
      by (auto simp: my_write_locked_full)
    with inv t show ?thesis by (simp add: heap_inv_goto heap_inv_printk)
  next
    case nocopy
    with r v have e: "e = Return (- EFAULT) [] False"
      and d': "d' = printk MCopyFromError (d\<lparr>mem := (mem d)(v := None)\<rparr>)"
      by (auto simp: my_write_locked_nocopy)
    have "vals_ok ((mem d)(v := None)) (P(t := Idle)) es"
      by (rule vals_ok_change [OF vals, of t v "length buf"]) (use t v in auto)
    moreover have "limits ((mem d)(v := None)) es" using lim by (simp add: limits_def)
    ultimately have "heap_inv d' (P(t := Idle)) es"
      using d' rep v(3) hist by (simp add: heap_inv_def kb_rep_frame history_quiet)
    with e show ?thesis by (auto intro!: exI [of _ es] fifo_step.stutter)
  next
    case copy
    have "\<not> 0 \<notin> set buf"
      using my_write_locked_unterminated [OF copy(1) _ v(2), of buf] r copy(2) v(1) by auto
    then obtain s rest where buf: "buf = s @ 0 # rest" "0 \<notin> set s" by (cases rule: terminated_cases) auto
    from copy(1) rep v(2,3) buf show ?thesis
    proof (cases rule: my_write_locked_cases)
      case oom
      with r copy(2) v(1) show ?thesis by simp
    next
      case (ok a b q' m')
      with r copy(2) v(1) have "e = Return 0 [] True"
        "d' = printk (MWrite (length buf) s) (d\<lparr>kb_fifo := q', mem := m'\<rparr>)" by auto
      moreover have "int (length (map str_of es)) < ds_kb_max (dev_stat d)"
        using copy(1) kb_count_rep [OF rep] entries_bound [OF rep lim]
        by (simp add: kb_isfull_def split: if_splits)
      ultimately show ?thesis
        using write_pushed_inv [OF inv t [unfolded v(1)] v(3) ok(2-8), of "length buf"]
        by (auto intro!: exI [of _ "es @ [(a, b, s)]"] fifo_step.put)
    qed
  qed
qed

lemma write_locked_fault:
  assumes inv: "heap_inv d P es" and t: "pc_val (P t) = Some (val, length buf)"
    and r: "my_write_locked alloc nr val buf d = Inl f"
  shows "f = NullDeref \<or> f = OutOfBounds"
proof -
  from inv have rep: "kb_rep (mem d) (kb_fifo d) es" and vals: "vals_ok (mem d) P es"
    by (auto simp: heap_inv_def)
  from vals t obtain v where v: "val = Some v" "mem d v = Some (Chars (replicate (length buf) None))"
    "v \<notin> set (cells es)" by (rule vals_okD)
  have room: "kb_isfull (kb_fifo d) (ds_kb_max (dev_stat d)) = 0"
    using r my_write_locked_full by (metis Inl_Inr_False)
  have nr: "nr = 0"
    using r v(1,2) my_write_locked_nocopy [OF room] by (metis Inl_Inr_False)
  show ?thesis
  proof (cases buf rule: terminated_cases)
    case 1
    with r room nr v show ?thesis by (simp add: my_write_locked_unterminated)
  next
    case (2 s rest)
    from room rep v(2,3) 2 show ?thesis
      by (cases rule: my_write_locked_cases) (use r nr v(1) in auto)
  qed
qed

subsection \<open>First sections of a read and of a write\<close>

lemma enter_val:
  assumes inv: "heap_inv d P es" and v: "alloc n (mem d) = Some v"
    and t: "pc_val (P t) = None" and p: "pc_val p = Some (Some v, n)"
  shows "heap_inv (d\<lparr>mem := (mem d)(v \<mapsto> Chars (replicate n None))\<rparr>) (P(t := p)) es"
proof -
  from inv have rep: "kb_rep (mem d) (kb_fifo d) es" and vals: "vals_ok (mem d) P es"
    and lim: "limits (mem d) es" and hist: "history (klog d) es" by (auto simp: heap_inv_def)
  have mv: "mem d v = None" using v by (rule fresh)
  then have out: "v \<notin> set (cells es)" using rep kb_rep_fresh by blast
  have others: "b \<noteq> v" if "pc_val (P u) = Some (Some b, k)" for u b k
    using vals that mv by (auto elim: vals_okD)
  have "vals_ok ((mem d)(v \<mapsto> Chars (replicate n None))) (P(t := p)) es"
    unfolding vals_ok_def
  proof (intro conjI allI impI)
    fix u q k
    assume u: "pc_val ((P(t := p)) u) = Some (q, k)"
    show "\<exists>b. q = Some b \<and> ((mem d)(v \<mapsto> Chars (replicate n None))) b = Some (Chars (replicate k None))
      \<and> b \<notin> set (cells es)"
    proof (cases "u = t")
      case True
      with u p out show ?thesis by auto
    next
      case False
      with u have pu: "pc_val (P u) = Some (q, k)" by simp
      with vals obtain b where "q = Some b" "mem d b = Some (Chars (replicate k None))"
        "b \<notin> set (cells es)" by (rule vals_okD)
      with others pu show ?thesis by auto
    qed
  next
    fix u u' q k k'
    assume "pc_val ((P(t := p)) u) = Some (q, k)" and "pc_val ((P(t := p)) u') = Some (q, k')"
    then show "u = u'"
      using vals others p by (auto simp: vals_ok_def split: if_splits)
  qed
  moreover have "limits ((mem d)(v \<mapsto> Chars (replicate n None))) es"
    using lim block_limit [OF v] by (auto simp: limits_def)
  ultimately show ?thesis using rep hist out by (simp add: heap_inv_def kb_rep_frame)
qed

lemma my_read_inv:
  assumes inv: "heap_inv d P es" and t: "pc_val (P t) = None"
    and r: "my_read alloc nr dim d = Inr (e, d')"
  shows "(case e of WaitOn v \<Rightarrow> heap_inv d' (P(t := SleepR v dim)) es
    | Return n bs w \<Rightarrow> \<exists>es'. heap_inv d' (P(t := Idle)) es' \<and> fifo_step cap (map str_of es) (map str_of es'))"
proof (cases "alloc dim (mem d)")
  case None
  with r have "e = Return 1 [] False" "d' = printk MAllocError d"
    by (auto simp: my_read_def new_chars_def new_obj_def)
  moreover have "heap_inv (printk MAllocError d) (P(t := Idle)) es"
    using inv t by (intro heap_inv_printk heap_inv_goto) simp_all
  ultimately show ?thesis by (auto intro!: exI [of _ es] fifo_step.stutter)
next
  case (Some v)
  let ?P = "P(t := Crit (ReadAgain (Some v) dim))"
  have inv': "heap_inv (d\<lparr>mem := (mem d)(v \<mapsto> Chars (replicate dim None))\<rparr>) ?P es"
    using inv Some t by (rule enter_val) simp
  have r': "my_read_locked nr (Some v) dim (d\<lparr>mem := (mem d)(v \<mapsto> Chars (replicate dim None))\<rparr>) = Inr (e, d')"
    using r Some by (simp add: my_read_def new_chars_def new_obj_def)
  from read_locked_inv [OF inv' _ r', of t] show ?thesis by (auto split: rw_end.splits)
qed

lemma my_write_inv:
  assumes inv: "heap_inv d P es" and t: "pc_val (P t) = None"
    and r: "my_write alloc nr buf d = Inr (e, d')"
  shows "(case e of WaitOn v \<Rightarrow> heap_inv d' (P(t := SleepW v buf)) es
    | Return n bs w \<Rightarrow> \<exists>es'. heap_inv d' (P(t := Idle)) es' \<and> fifo_step (ds_kb_max (dev_stat d)) (map str_of es) (map str_of es'))"
proof (cases "alloc (length buf) (mem d)")
  case None
  with r have "e = Return 1 [] False" "d' = printk MAllocError d"
    by (auto simp: my_write_def new_chars_def new_obj_def)
  moreover have "heap_inv (printk MAllocError d) (P(t := Idle)) es"
    using inv t by (intro heap_inv_printk heap_inv_goto) simp_all
  ultimately show ?thesis by (auto intro!: exI [of _ es] fifo_step.stutter)
next
  case (Some v)
  let ?P = "P(t := Crit (WriteAgain (Some v) buf))"
  have inv': "heap_inv (d\<lparr>mem := (mem d)(v \<mapsto> Chars (replicate (length buf) None))\<rparr>) ?P es"
    using inv Some t by (rule enter_val) simp
  have r': "my_write_locked alloc nr (Some v) buf
      (d\<lparr>mem := (mem d)(v \<mapsto> Chars (replicate (length buf) None))\<rparr>) = Inr (e, d')"
    using r Some by (simp add: my_write_def new_chars_def new_obj_def)
  from write_locked_inv [OF inv' _ r', of t] show ?thesis by (auto split: rw_end.splits)
qed

lemma my_read_fault:
  assumes inv: "heap_inv d P es" and t: "pc_val (P t) = None"
    and r: "my_read alloc nr dim d = Inl f"
  shows "f = OutOfBounds"
proof (cases "alloc dim (mem d)")
  case None
  with r show ?thesis by (simp add: my_read_def new_chars_def new_obj_def)
next
  case (Some v)
  have inv': "heap_inv (d\<lparr>mem := (mem d)(v \<mapsto> Chars (replicate dim None))\<rparr>)
      (P(t := Crit (ReadAgain (Some v) dim))) es"
    using inv Some t by (rule enter_val) simp
  have "my_read_locked nr (Some v) dim (d\<lparr>mem := (mem d)(v \<mapsto> Chars (replicate dim None))\<rparr>) = Inl f"
    using r Some by (simp add: my_read_def new_chars_def new_obj_def)
  from read_locked_fault [OF inv' _ this, of t] show ?thesis by simp
qed

lemma my_write_fault:
  assumes inv: "heap_inv d P es" and t: "pc_val (P t) = None"
    and r: "my_write alloc nr buf d = Inl f"
  shows "f = NullDeref \<or> f = OutOfBounds"
proof (cases "alloc (length buf) (mem d)")
  case None
  with r show ?thesis by (simp add: my_write_def new_chars_def new_obj_def)
next
  case (Some v)
  have inv': "heap_inv (d\<lparr>mem := (mem d)(v \<mapsto> Chars (replicate (length buf) None))\<rparr>)
      (P(t := Crit (WriteAgain (Some v) buf))) es"
    using inv Some t by (rule enter_val) simp
  have "my_write_locked alloc nr (Some v) buf
      (d\<lparr>mem := (mem d)(v \<mapsto> Chars (replicate (length buf) None))\<rparr>) = Inl f"
    using r Some by (simp add: my_write_def new_chars_def new_obj_def)
  from write_locked_fault [OF inv' _ this, of t] show ?thesis by simp
qed

subsection \<open>The statistics thread\<close>

text \<open>In a state that satisfies the invariant the scan of the list returns, without touching
  the list or leaving a block behind.\<close>

lemma kt_stat_inv:
  assumes inv: "heap_inv d P es"
  shows "kt_stat alloc d = Some (Inl NullDeref) \<or>
    (\<exists>tmo d'. kt_stat alloc d = Some (Inr (tmo, d')) \<and> heap_inv d' P es)"
proof (cases "dev_run d = 0")
  case True
  with inv show ?thesis by (auto simp: kt_stat_def heap_inv_printk)
next
  case False
  from inv have rep: "kb_rep (mem d) (kb_fifo d) es" and lim: "limits (mem d) es"
    by (auto simp: heap_inv_def)
  show ?thesis
  proof (cases "es = []")
    case True
    with kt_stat_empty [OF False] rep have "kt_stat alloc d =
        Some (Inr (True, printk MEmptyDevice (d\<lparr>dev_stat := ds_add_kb_value (dev_stat d) 0\<rparr>)))"
      by simp
    moreover have "heap_inv (printk MEmptyDevice (d\<lparr>dev_stat := ds_add_kb_value (dev_stat d) 0\<rparr>)) P es"
      by (rule heap_inv_printk, rule heap_inv_dev [OF inv]) simp_all
    ultimately show ?thesis by blast
  next
    case ne: False
    have len: "length es < 2 ^ 30" using entries_bound [OF rep lim] by simp
    have short: "\<forall>x \<in> set (lens es). x \<le> INT_MAX"
      using lim by (fastforce simp: limits_def lens_def)
    from False rep ne len short show ?thesis
    proof (cases rule: kt_stat_cases)
      case oom
      then show ?thesis by simp
    next
      case (ok med b)
      have "heap_inv (printk (MStat (int (length es)) med (Max (set (lens es))) (Min (set (lens es))))
        (d\<lparr>dev_stat := ds_add_kb_value ((dev_stat d)\<lparr>ds_list := Some b, ds_dim := 0\<rparr>) (int (length es))\<rparr>)) P es"
        by (rule heap_inv_printk, rule heap_inv_dev [OF inv]) simp_all
      with ok(1) show ?thesis by blast
    qed
  qed
qed

end

end
