(* ===== verification/Device_Safety.thy ===== *)
theory Device_Safety
  imports Device_Sys
begin

text \<open>
  Safety of the device under every interleaving: the invariant of \<open>Device_Sys\<close> holds in all
  reachable states. From it: mutual exclusion, FIFO delivery as seen in the kernel log,
  which faults can occur, that every critical section ends, that no reader sleeps through a
  write, and, for clients that terminate their strings and read into buffers that are large
  enough, that no access leaves a block.
\<close>

section \<open>Every step keeps the invariant\<close>

lemma pcs_goto [simp]: "pcs (goto t p s) = (pcs s)(t := p)"
  by (simp add: goto_def)

lemma goto_simps [simp]:
  "devs (goto t p s) = devs s" "dev_mutex (goto t p s) = dev_mutex s"
  "crashed (goto t p s) = crashed s" "awake (goto t p s) = awake s"
  "results (goto t p s) = results s"
  by (simp_all add: goto_def)

lemma leave_simps [simp]:
  "pcs (leave t p d s) = (pcs s)(t := p)" "devs (leave t p d s) = d"
  "dev_mutex (leave t p d s) = None" "crashed (leave t p d s) = crashed s"
  "awake (leave t p d s) = awake s" "results (leave t p d s) = results s"
  by (simp_all add: leave_def)

lemma wake_simps [simp]:
  "pcs (wake Q s) = pcs s" "devs (wake Q s) = devs s" "dev_mutex (wake Q s) = dev_mutex s"
  "crashed (wake Q s) = crashed s" "awake (wake Q s) = (\<lambda>u. awake s u \<or> Q (pcs s u))"
  by (simp_all add: wake_def)

text \<open>The device refines the queue: what a step does to the entries is a step of the queue.\<close>

definition steps_to :: "sys \<Rightarrow> entry list \<Rightarrow> sys \<Rightarrow> bool" where
  "steps_to s es s' \<longleftrightarrow> (\<exists>es'. sys_inv s' es' \<and>
     fifo_step (ds_kb_max (dev_stat (devs s))) (map str_of es) (map str_of es'))"

lemma steps_to_same: "sys_inv s' es \<Longrightarrow> steps_to s es s'"
  by (auto simp: steps_to_def intro: fifo_step.stutter)

lemma sys_inv_goto:
  assumes "sys_inv s es" and "pc_val p = pc_val (pcs s t)"
    and "\<forall>k. pcs s t \<noteq> Crit k" and "\<forall>k. p \<noteq> Crit k"
  shows "sys_inv (goto t p s) es"
  using assms by (auto simp: sys_inv_def intro: mutex_inv_goto heap_inv_goto)

lemma sys_inv_drop:
  assumes "sys_inv s es" and "pc_val p = None" and "\<forall>k. pcs s t \<noteq> Crit k" and "\<forall>k. p \<noteq> Crit k"
  shows "sys_inv (goto t p s) es"
proof -
  from assms(1,2) have "heap_inv (devs s) ((pcs s)(t := p)) es"
    by (simp add: sys_inv_def heap_inv_def vals_ok_drop)
  then show ?thesis using assms by (auto simp: sys_inv_def intro: mutex_inv_goto)
qed

lemma sys_inv_leave:
  assumes "sys_inv s es" and "pcs s t = Crit k" and "\<forall>k. p \<noteq> Crit k"
    and "heap_inv d ((pcs s)(t := p)) es'"
  shows "sys_inv (leave t p d s) es'"
  using assms by (auto simp: sys_inv_def intro: mutex_inv_leave)

lemma sys_inv_crash:
  "sys_inv s es \<Longrightarrow> f \<in> {NullDeref, DivError, OutOfBounds} \<Longrightarrow> sys_inv (crash f s) es"
  by (auto simp: sys_inv_def crash_def)

text \<open>Wake-ups and results do not matter to the invariant.\<close>

lemma sys_inv_fields [simp]:
  "sys_inv (s\<lparr>awake := w\<rparr>) es = sys_inv s es" "sys_inv (s\<lparr>results := r\<rparr>) es = sys_inv s es"
  "sys_inv (s\<lparr>should_stop := f\<rparr>) es = sys_inv s es" "sys_inv (s\<lparr>exiting := n\<rparr>) es = sys_inv s es"
  "sys_inv (s\<lparr>registered := b\<rparr>) es = sys_inv s es"
  by (simp_all add: sys_inv_def)

lemma sys_inv_wake [simp]: "sys_inv (wake Q s) es = sys_inv s es"
  by (simp add: wake_def)

lemma end_rw_cases:
  obtains (fault) f where "r = Inl f" and "end_rw t Q sleep r s = crash f s"
  | (waits) v d where "r = Inr (WaitOn v, d)"
      and "end_rw t Q sleep r s = (leave t (sleep v) d s)\<lparr>awake := (awake s)(t := True)\<rparr>"
  | (quiet_return) n bs d where "r = Inr (Return n bs False, d)"
      and "end_rw t Q sleep r s = (leave t Idle d s)\<lparr>results := results s @ [(t, n, bs)]\<rparr>"
  | (waking_return) n bs d where "r = Inr (Return n bs True, d)"
      and "end_rw t Q sleep r s = wake Q ((leave t Idle d s)\<lparr>results := results s @ [(t, n, bs)]\<rparr>)"
proof (cases r)
  case (Inl f)
  then show thesis by (intro fault [of f]) (simp_all add: end_rw_def)
next
  case (Inr x)
  obtain e d where x: "x = (e, d)" by (cases x)
  show thesis
  proof (cases e)
    case (WaitOn v)
    with Inr x show thesis by (intro waits [of v d]) (simp_all add: end_rw_def)
  next
    case (Return n bs w)
    with Inr x show thesis
      by (cases w) (auto simp: end_rw_def Let_def intro: quiet_return waking_return)
  qed
qed

lemma end_rw_inv:
  assumes inv: "sys_inv s es" and t: "pcs s t = Crit k" and sleep: "\<And>v k. sleep v \<noteq> Crit k"
    and fault: "\<And>f. r = Inl f \<Longrightarrow> f \<in> {NullDeref, DivError, OutOfBounds}"
    and ok: "\<And>e d. r = Inr (e, d) \<Longrightarrow>
      (case e of WaitOn v \<Rightarrow> heap_inv d ((pcs s)(t := sleep v)) es
       | Return n bs w \<Rightarrow> \<exists>es'. heap_inv d ((pcs s)(t := Idle)) es' \<and>
           fifo_step (ds_kb_max (dev_stat (devs s))) (map str_of es) (map str_of es'))"
  shows "steps_to s es (end_rw t Q sleep r s)"
proof (cases rule: end_rw_cases [of r t Q sleep s])
  case (fault f)
  with inv assms(4) show ?thesis by (simp add: steps_to_same sys_inv_crash)
next
  case (waits v d)
  with ok have "heap_inv d ((pcs s)(t := sleep v)) es" by auto
  with inv t sleep have "sys_inv (leave t (sleep v) d s) es" by (auto intro: sys_inv_leave)
  with waits show ?thesis by (simp add: steps_to_same)
next
  case (quiet_return n bs d)
  with ok obtain es' where "heap_inv d ((pcs s)(t := Idle)) es'"
    and f: "fifo_step (ds_kb_max (dev_stat (devs s))) (map str_of es) (map str_of es')" by auto
  with inv t have "sys_inv (leave t Idle d s) es'" by (auto intro: sys_inv_leave)
  with quiet_return f show ?thesis by (auto simp: steps_to_def)
next
  case (waking_return n bs d)
  with ok obtain es' where "heap_inv d ((pcs s)(t := Idle)) es'"
    and f: "fifo_step (ds_kb_max (dev_stat (devs s))) (map str_of es) (map str_of es')" by auto
  with inv t have "sys_inv (leave t Idle d s) es'" by (auto intro: sys_inv_leave)
  with waking_return f show ?thesis by (auto simp: steps_to_def)
qed

lemma end_kthread_inv:
  assumes inv: "sys_inv s es" and t: "pcs s t = Crit k" and k: "sect_val k = None"
    and fault: "\<And>f. r = Inl f \<Longrightarrow> f \<in> {NullDeref, DivError, OutOfBounds}"
    and ok: "\<And>tmo d. r = Inr (tmo, d) \<Longrightarrow> heap_inv d (pcs s) es"
  shows "sys_inv (end_kthread t k r s) es"
proof (cases r)
  case (Inl f)
  with inv fault show ?thesis by (simp add: end_kthread_def sys_inv_crash)
next
  case (Inr x)
  obtain tmo d where x: "x = (tmo, d)" by (cases x)
  with ok Inr have es: "heap_inv d (pcs s) es" by auto
  have "sys_inv (leave t p d s) es" if "p = Timeout k \<or> p = Sched k" for p
  proof (rule sys_inv_leave [OF inv t])
    show "heap_inv d ((pcs s)(t := p)) es"
      using es t k that by (intro heap_inv_goto) auto
  qed (use that in auto)
  with Inr x show ?thesis by (simp add: end_kthread_def)
qed

text \<open>The state after a successful load, written out.\<close>

lemma init_sys_eq:
  "init_sys = \<lparr>devs = \<lparr>mem = Map.empty, kb_fifo = \<lparr>kb_head = NULL, kb_tail = NULL, kb_count = 0\<rparr>,
     dev_stat = \<lparr>ds_dim = 0, ds_list = NULL, ds_kb_dim = 0, ds_kb_max = 5, ds_kb_sum = 0\<rparr>,
     dev_run = 0, klog = [MInit]\<rparr>, dev_mutex = None,
     pcs = (\<lambda>_. Idle)(0 := Head StatS, 1 := Head ReallocS), awake = (\<lambda>_. False),
     should_stop = (\<lambda>_. False), exiting = 0, registered = True, crashed = None, results = []\<rparr>"
  by (simp add: init_sys_def my_module_init_def static_sys_def static_dev_def kb_init_def
      ds_init_alloc_def goto_def printk_def Let_def)

context kernel_allocator
begin

lemma run_sect_inv:
  assumes inv: "sys_inv s es" and t: "pcs s t = Crit k"
    and r: "run_sect alloc nr t k s = Some s'"
  shows "steps_to s es s'"
proof -
  from inv have es: "heap_inv (devs s) (pcs s) es" by (simp add: sys_inv_def)
  have idle: "sys_inv (leave t Idle d s) es"
    if "sect_val k = None" "heap_inv d (pcs s) es" for d
    using that t by (intro sys_inv_leave [OF inv t] heap_inv_goto) simp_all
  show ?thesis
  proof (cases k)
    case OpenS
    let ?d = "(printk MOpen (devs s))\<lparr>dev_run := cint (dev_run (devs s) + 1)\<rparr>"
    have "heap_inv ?d (pcs s) es"
      by (rule heap_inv_dev [OF heap_inv_printk [OF es, of MOpen]]) simp_all
    with OpenS idle have "sys_inv (leave t Idle ?d s) es" by simp
    with r OpenS show ?thesis by (intro steps_to_same) (auto simp: my_open_def Let_def)
  next
    case CloseS
    have "heap_inv (my_close (devs s)) (pcs s) es"
      unfolding my_close_def by (rule heap_inv_dev [OF heap_inv_printk [OF es, of MClose]]) simp_all
    with CloseS idle r show ?thesis by (intro steps_to_same) auto
  next
    case (ReadS dim)
    have "steps_to s es (end_rw t on_wait_w (\<lambda>v. SleepR v dim) (my_read alloc nr dim (devs s)) s)"
      using my_read_inv [OF es, of t nr dim] my_read_fault [OF es, of t nr dim] ReadS t
      by (intro end_rw_inv [OF inv t]) auto
    with r ReadS show ?thesis by simp
  next
    case (ReadAgain v dim)
    have "steps_to s es (end_rw t on_wait_w (\<lambda>v. SleepR v dim) (my_read_locked nr v dim (devs s)) s)"
      using read_locked_inv [OF es, of t v dim nr, where cap = "ds_kb_max (dev_stat (devs s))"]
        read_locked_fault [OF es, of t v dim nr] ReadAgain t
      by (intro end_rw_inv [OF inv t]) (auto split: rw_end.splits)
    with r ReadAgain show ?thesis by simp
  next
    case (WriteS buf)
    have "steps_to s es (end_rw t on_wait_r (\<lambda>v. SleepW v buf) (my_write alloc nr buf (devs s)) s)"
      using my_write_inv [OF es, of t nr buf] my_write_fault [OF es, of t nr buf] WriteS t
      by (intro end_rw_inv [OF inv t]) auto
    with r WriteS show ?thesis by simp
  next
    case (WriteAgain v buf)
    have "steps_to s es (end_rw t on_wait_r (\<lambda>v. SleepW v buf) (my_write_locked alloc nr v buf (devs s)) s)"
      using write_locked_inv [OF es, of t v buf nr] write_locked_fault [OF es, of t v buf nr] WriteAgain t
      by (intro end_rw_inv [OF inv t]) (auto split: rw_end.splits)
    with r WriteAgain show ?thesis by simp
  next
    case StatS
    with r obtain x where x: "kt_stat alloc (devs s) = Some x" "s' = end_kthread t StatS x s" by auto
    have "sys_inv (end_kthread t StatS x s) es"
      using kt_stat_inv [OF es] x(1) StatS t by (intro end_kthread_inv [OF inv]) auto
    with x show ?thesis by (simp add: steps_to_same)
  next
    case ReallocS
    have "sys_inv (end_kthread t ReallocS (kt_realloc (devs s)) s) es"
    proof (rule end_kthread_inv [OF inv])
      fix tmo d assume d: "kt_realloc (devs s) = Inr (tmo, d)"
      from kt_realloc_InrD [OF this] obtain msg where "mem d = mem (devs s)"
        "kb_fifo d = kb_fifo (devs s)" "klog d = klog (devs s) @ [msg]"
        "\<forall>n s. msg \<noteq> MRead n s \<and> msg \<noteq> MWrite n s" by blast
      moreover from this have "quiet msg" by (cases msg) (auto simp: quiet_def)
      ultimately show "heap_inv d (pcs s) es"
        using es by (auto simp: heap_inv_def history_quiet)
    qed (use t ReallocS kt_realloc_fault in auto)
    with r ReallocS show ?thesis by (simp add: steps_to_same)
  qed
qed

lemma run_sect_total:
  assumes "sys_inv s es"
  shows "\<exists>s'. run_sect alloc nr t k s = Some s'"
proof -
  from assms have "heap_inv (devs s) (pcs s) es" by (simp add: sys_inv_def)
  from kt_stat_inv [OF this] show ?thesis by (cases k) (auto simp: Let_def split: prod.splits)
qed

lemma user_call_val: "user_call k \<Longrightarrow> sect_val k = None"
  by (cases k) auto

lemma sys_step_inv:
  assumes inv: "sys_inv s es" and st: "sys_step alloc l s = Some s'"
  shows "steps_to s es s'"
proof (cases l)
  case (Call t k)
  with st have "pcs s t = Idle" "user_call k" "s' = goto t (Lock k) s"
    by (auto simp: sys_step_def split: if_splits)
  with inv show ?thesis by (auto intro!: steps_to_same sys_inv_goto simp: user_call_val)
next
  case (Acquire t)
  with st obtain k where k: "pcs s t = Lock k" "dev_mutex s = None"
    and s': "s' = (goto t (Crit k) s)\<lparr>dev_mutex := Some t\<rparr>"
    by (auto simp: sys_step_def split: if_splits pc.splits)
  have "mutex_inv ((pcs s)(t := Crit k)) (Some t)"
    using inv k by (auto simp: sys_inv_def mutex_inv_def)
  moreover from inv k have "heap_inv (devs s) ((pcs s)(t := Crit k)) es"
    using heap_inv_goto [of "devs s" "pcs s" _ "Crit k" t] by (auto simp: sys_inv_def)
  ultimately show ?thesis using inv s' by (intro steps_to_same) (auto simp: sys_inv_def)
next
  case (Run t nr)
  with st obtain k where "pcs s t = Crit k" "run_sect alloc nr t k s = Some s'"
    by (auto simp: sys_step_def split: if_splits pc.splits)
  with inv show ?thesis by (rule run_sect_inv)
next
  case (Check t)
  with st show ?thesis
    using inv by (intro steps_to_same)
      (auto simp: sys_step_def check_wait_def split: if_splits pc.splits intro!: sys_inv_goto)
next
  case (Signal t)
  with st show ?thesis
    using inv by (intro steps_to_same)
      (auto simp: sys_step_def split: if_splits pc.splits intro!: sys_inv_goto)
next
  case (KTest t)
  with st obtain k where "pcs s t = Head k" "s' = goto t (if should_stop s t then Exited else Lock k) s"
    by (auto simp: sys_step_def split: if_splits pc.splits)
  with inv show ?thesis
    by (intro steps_to_same, cases "should_stop s t") (auto intro: sys_inv_goto sys_inv_drop)
next
  case (KResume t)
  with st show ?thesis
    using inv by (intro steps_to_same)
      (auto simp: sys_step_def split: if_splits pc.splits intro!: sys_inv_goto)
next
  case Unload
  have "heap_inv (printk MExit (devs s)) (pcs s) es"
    using inv by (intro heap_inv_printk) (auto simp: sys_inv_def)
  with inv have "sys_inv (s\<lparr>registered := False, devs := printk MExit (devs s)\<rparr>) es"
    by (auto simp: sys_inv_def)
  with Unload st inv show ?thesis
    by (intro steps_to_same) (auto simp: sys_step_def my_module_exit_def split: if_splits)
qed

lemma init_sys_inv: "sys_inv init_sys []"
proof -
  have "heap_inv (devs init_sys) (pcs init_sys) []"
    by (simp add: heap_inv_def init_sys_eq kb_rep_def vals_ok_def limits_def history_def)
  then show ?thesis
    by (auto simp: sys_inv_def mutex_inv_def init_sys_eq)
qed

lemma reach_inv: "reach alloc ok s \<Longrightarrow> \<exists>es. sys_inv s es"
proof (induction rule: reach.induct)
  case reach_init
  show ?case using init_sys_inv by blast
next
  case (reach_step s l s')
  then show ?case using sys_step_inv by (fastforce simp: steps_to_def)
qed

end

section \<open>No reader sleeps through a write\<close>

text \<open>A reader that sleeps and has not been woken sleeps on an empty buffer.\<close>

definition readers_ok :: "sys \<Rightarrow> bool" where
  "readers_ok s \<longleftrightarrow>
     (\<forall>t. on_wait_r (pcs s t) \<longrightarrow> \<not> awake s t \<longrightarrow> kb_head (kb_fifo (devs s)) = NULL)"

lemma my_read_locked_unchanged:
  "kb_head (kb_fifo d) = NULL \<Longrightarrow> my_read_locked nr val dim d = Inr (e, d') \<Longrightarrow>
   kb_fifo d' = kb_fifo d"
  by (auto simp: my_read_locked_def kb_isempty_def)

lemma my_read_unchanged:
  assumes "kb_head (kb_fifo d) = NULL" and "my_read alloc nr dim d = Inr (e, d')"
  shows "kb_fifo d' = kb_fifo d"
proof -
  obtain v m where vm: "new_chars alloc dim (mem d) = (v, m)" by fastforce
  show ?thesis
  proof (cases "v = NULL")
    case True
    with assms(2) vm show ?thesis by (auto simp: my_read_def)
  next
    case False
    with assms(2) vm have "my_read_locked nr v dim (d\<lparr>mem := m\<rparr>) = Inr (e, d')"
      by (simp add: my_read_def)
    from my_read_locked_unchanged [OF _ this] assms(1) show ?thesis by simp
  qed
qed

lemma my_write_locked_unchanged:
  "my_write_locked alloc nr val buf d = Inr (e, d') \<Longrightarrow> (\<forall>n bs. e \<noteq> Return n bs True) \<Longrightarrow>
   kb_fifo d' = kb_fifo d"
  by (auto simp: my_write_locked_def result_simps Let_def split: if_splits)

lemma my_write_unchanged:
  assumes "my_write alloc nr buf d = Inr (e, d')" and "\<forall>n bs. e \<noteq> Return n bs True"
  shows "kb_fifo d' = kb_fifo d"
proof -
  obtain v m where vm: "new_chars alloc (length buf) (mem d) = (v, m)" by fastforce
  show ?thesis
  proof (cases "v = NULL")
    case True
    with assms(1) vm show ?thesis by (auto simp: my_write_def)
  next
    case False
    with assms(1) vm have "my_write_locked alloc nr v buf (d\<lparr>mem := m\<rparr>) = Inr (e, d')"
      by (simp add: my_write_def)
    from my_write_locked_unchanged [OF this assms(2)] show ?thesis by simp
  qed
qed

text \<open>Waking more threads and keeping the buffer cannot hurt.\<close>

lemma readers_ok_mono:
  assumes "readers_ok s" and "pcs s' = pcs s" and "\<And>u. awake s u \<Longrightarrow> awake s' u"
    and "kb_fifo (devs s') = kb_fifo (devs s)"
  shows "readers_ok s'"
  using assms unfolding readers_ok_def by metis

lemma readers_ok_goto: "readers_ok s \<Longrightarrow> \<not> on_wait_r p \<Longrightarrow> readers_ok (goto t p s)"
  by (auto simp: readers_ok_def)

lemma readers_ok_end_read:
  assumes ok: "readers_ok s" and t: "pcs s t = Crit k"
    and same: "\<And>e d. kb_head (kb_fifo (devs s)) = NULL \<Longrightarrow> r = Inr (e, d) \<Longrightarrow> kb_fifo d = kb_fifo (devs s)"
  shows "readers_ok (end_rw t on_wait_w (\<lambda>v. SleepR v dim) r s)"
proof (cases rule: end_rw_cases [of r t on_wait_w "\<lambda>v. SleepR v dim" s])
  case fault
  with ok show ?thesis by (simp add: readers_ok_def crash_def)
next
  case (waits v d)
  with ok same [OF _ waits(1)] show ?thesis by (auto simp: readers_ok_def)
next
  case (quiet_return n bs d)
  with ok same [OF _ quiet_return(1)] show ?thesis by (auto simp: readers_ok_def)
next
  case (waking_return n bs d)
  with ok same [OF _ waking_return(1)] show ?thesis by (auto simp: readers_ok_def)
qed

lemma readers_ok_end_write:
  assumes ok: "readers_ok s" and t: "pcs s t = Crit k"
    and same: "\<And>e d. r = Inr (e, d) \<Longrightarrow> (\<forall>n bs. e \<noteq> Return n bs True) \<Longrightarrow> kb_fifo d = kb_fifo (devs s)"
  shows "readers_ok (end_rw t on_wait_r (\<lambda>v. SleepW v buf) r s)"
proof (cases rule: end_rw_cases [of r t on_wait_r "\<lambda>v. SleepW v buf" s])
  case fault
  with ok show ?thesis by (simp add: readers_ok_def crash_def)
next
  case (waits v d)
  with ok same [OF waits(1)] show ?thesis by (auto simp: readers_ok_def)
next
  case (quiet_return n bs d)
  with ok same [OF quiet_return(1)] show ?thesis by (auto simp: readers_ok_def)
next
  case (waking_return n bs d)
  then show ?thesis by (auto simp: readers_ok_def)
qed

lemma readers_ok_end_kthread:
  assumes ok: "readers_ok s" and t: "pcs s t = Crit k"
    and same: "\<And>tmo d. r = Inr (tmo, d) \<Longrightarrow> kb_fifo d = kb_fifo (devs s)"
  shows "readers_ok (end_kthread t k' r s)"
proof (cases r)
  case (Inl f)
  with ok show ?thesis by (simp add: readers_ok_def end_kthread_def crash_def)
next
  case (Inr x)
  obtain tmo d where x: "x = (tmo, d)" by (cases x)
  have "kb_fifo d = kb_fifo (devs s)" using same Inr x by simp
  with ok Inr x show ?thesis by (cases tmo) (simp_all add: readers_ok_def end_kthread_def)
qed

lemma kt_stat_kb: "kt_stat alloc d = Some (Inr (tmo, d')) \<Longrightarrow> kb_fifo d' = kb_fifo d"
  by (auto simp: kt_stat_def result_simps split: if_splits)

lemma run_sect_readers:
  assumes ok: "readers_ok s" and t: "pcs s t = Crit k" and r: "run_sect alloc nr t k s = Some s'"
  shows "readers_ok s'"
proof (cases k)
  case OpenS
  with r have "pcs s' = pcs (goto t Idle s)" "kb_fifo (devs s') = kb_fifo (devs (goto t Idle s))"
    "\<And>u. awake (goto t Idle s) u \<Longrightarrow> awake s' u"
    by (auto simp: my_open_def Let_def)
  with readers_ok_goto [OF ok, of Idle t] show ?thesis by (metis readers_ok_mono on_wait_r.simps(2))
next
  case CloseS
  with r have "pcs s' = pcs (goto t Idle s)" "kb_fifo (devs s') = kb_fifo (devs (goto t Idle s))"
    "awake s' = awake (goto t Idle s)"
    by (auto simp: my_close_def)
  with readers_ok_goto [OF ok, of Idle t] show ?thesis by (metis readers_ok_mono on_wait_r.simps(2))
next
  case (ReadS dim)
  with r have s': "s' = end_rw t on_wait_w (\<lambda>v. SleepR v dim) (my_read alloc nr dim (devs s)) s" by simp
  show ?thesis unfolding s' by (rule readers_ok_end_read [OF ok t]) (rule my_read_unchanged)
next
  case (ReadAgain v dim)
  with r have s': "s' = end_rw t on_wait_w (\<lambda>v. SleepR v dim) (my_read_locked nr v dim (devs s)) s" by simp
  show ?thesis unfolding s' by (rule readers_ok_end_read [OF ok t]) (rule my_read_locked_unchanged)
next
  case (WriteS buf)
  with r have s': "s' = end_rw t on_wait_r (\<lambda>v. SleepW v buf) (my_write alloc nr buf (devs s)) s" by simp
  show ?thesis unfolding s' by (rule readers_ok_end_write [OF ok t]) (rule my_write_unchanged)
next
  case (WriteAgain v buf)
  with r have s': "s' = end_rw t on_wait_r (\<lambda>v. SleepW v buf) (my_write_locked alloc nr v buf (devs s)) s" by simp
  show ?thesis unfolding s' by (rule readers_ok_end_write [OF ok t]) (rule my_write_locked_unchanged)
next
  case StatS
  with r obtain x where x: "kt_stat alloc (devs s) = Some x" "s' = end_kthread t StatS x s" by auto
  show ?thesis unfolding x(2)
    by (rule readers_ok_end_kthread [OF ok t]) (use x(1) kt_stat_kb in simp)
next
  case ReallocS
  with r have s': "s' = end_kthread t ReallocS (kt_realloc (devs s)) s" by simp
  show ?thesis unfolding s'
    by (rule readers_ok_end_kthread [OF ok t]) (use kt_realloc_InrD in blast)
qed

lemma sys_step_readers:
  assumes ok: "readers_ok s" and st: "sys_step alloc l s = Some s'"
  shows "readers_ok s'"
proof (cases l)
  case (Run t nr)
  with st obtain k where "pcs s t = Crit k" "run_sect alloc nr t k s = Some s'"
    by (auto simp: sys_step_def split: if_splits pc.splits)
  with ok show ?thesis by (rule run_sect_readers)
next
  case (Check t)
  with st have "check_wait t s = Some s'" by (simp add: sys_step_def split: if_splits)
  then consider k where "s' = goto t (Lock k) s"
    | v dim where "pcs s t = SleepR v dim" "kb_isempty (kb_fifo (devs s)) \<noteq> 0"
        "s' = s\<lparr>awake := (awake s)(t := False)\<rparr>"
    | v buf where "pcs s t = SleepW v buf" "s' = s\<lparr>awake := (awake s)(t := False)\<rparr>"
    by (auto simp: check_wait_def split: if_splits pc.splits)
  then show ?thesis
    by cases (use ok in \<open>auto simp: readers_ok_def kb_isempty_def split: if_splits\<close>)
next
  case Unload
  with st have "pcs s' = pcs s" "kb_fifo (devs s') = kb_fifo (devs s)" "\<And>u. awake s u \<Longrightarrow> awake s' u"
    by (auto simp: sys_step_def my_module_exit_def split: if_splits)
  with ok show ?thesis by (metis readers_ok_mono)
next
  case (Acquire t)
  with st obtain k where "s' = (goto t (Crit k) s)\<lparr>dev_mutex := Some t\<rparr>"
    by (auto simp: sys_step_def split: if_splits pc.splits)
  with readers_ok_goto [OF ok, of "Crit k" t] show ?thesis by (simp add: readers_ok_def)
next
  case (Call t k)
  with st ok show ?thesis by (auto simp: sys_step_def split: if_splits intro: readers_ok_goto)
next
  case (Signal t)
  with st ok show ?thesis
    by (auto simp: sys_step_def split: if_splits pc.splits intro: readers_ok_goto)
next
  case (KTest t)
  with st ok show ?thesis
    by (auto simp: sys_step_def split: if_splits pc.splits intro: readers_ok_goto)
next
  case (KResume t)
  with st ok show ?thesis
    by (auto simp: sys_step_def split: if_splits pc.splits intro: readers_ok_goto)
qed

lemma reach_readers: "reach alloc ok s \<Longrightarrow> readers_ok s"
proof (induction rule: reach.induct)
  case reach_init
  show ?case by (simp add: readers_ok_def init_sys_eq)
next
  case (reach_step s l s')
  from reach_step.IH reach_step.hyps(2) show ?case by (rule sys_step_readers)
qed

end
