(* ===== verification/Device_Props.thy ===== *)
theory Device_Props
  imports Device_Safety
begin

text \<open>
  The properties of the device module (Module/main.c), drawn from the invariant of
  \<open>Device_Safety\<close>: mutual exclusion, refinement of a bounded queue, order of delivery, the
  faults that can occur and the clients that rule one of them out, wake-ups, progress of the
  critical sections, and the counting of users. The last section shows runs in which the code
  does not do what it means to.
\<close>

section \<open>Clients whose buffers are large enough\<close>

text \<open>Every write ends in a terminator and has at most \<open>N\<close> bytes, every read asks for at least
  \<open>N\<close> bytes. Writer and Reader satisfy this for \<open>N = 40\<close>.\<close>

fun client_ok :: "nat \<Rightarrow> sect \<Rightarrow> bool" where
  "client_ok N (ReadS dim) = (N \<le> dim)"
| "client_ok N (ReadAgain v dim) = (N \<le> dim)"
| "client_ok N (WriteS buf) = (0 \<in> set buf \<and> length buf \<le> N)"
| "client_ok N (WriteAgain v buf) = (0 \<in> set buf \<and> length buf \<le> N)"
| "client_ok N _ = True"

fun pc_ok :: "nat \<Rightarrow> pc \<Rightarrow> bool" where
  "pc_ok N (Lock k) = client_ok N k"
| "pc_ok N (Crit k) = client_ok N k"
| "pc_ok N (SleepR v dim) = (N \<le> dim)"
| "pc_ok N (SleepW v buf) = (0 \<in> set buf \<and> length buf \<le> N)"
| "pc_ok N (Head k) = client_ok N k"
| "pc_ok N (Timeout k) = client_ok N k"
| "pc_ok N (Sched k) = client_ok N k"
| "pc_ok N _ = True"

definition small_log :: "nat \<Rightarrow> kmsg list \<Rightarrow> bool" where
  "small_log N log \<longleftrightarrow> (\<forall>x \<in> set (written log). length x < N)"

definition bounded :: "nat \<Rightarrow> sys \<Rightarrow> bool" where
  "bounded N s \<longleftrightarrow> (\<forall>t. pc_ok N (pcs s t)) \<and> small_log N (klog (devs s)) \<and>
     crashed s \<noteq> Some OutOfBounds"

lemma small_log_snoc: "small_log N (log @ [msg]) \<longleftrightarrow> small_log N log \<and> small_log N [msg]"
  by (auto simp: small_log_def)

lemma small_log_quiet: "quiet msg \<Longrightarrow> small_log N [msg]"
  by (simp add: small_log_def quiet_def)

lemma heap_inv_small:
  "heap_inv d P es \<Longrightarrow> small_log N (klog d) \<Longrightarrow> e \<in> set es \<Longrightarrow> length (str_of e) < N"
  by (auto simp: heap_inv_def history_def small_log_def)

lemma read_locked_in_bounds:
  assumes inv: "heap_inv d P es" and t: "pc_val (P t) = Some (val, dim)"
    and small: "small_log N (klog d)" and dim: "N \<le> dim"
  obtains e d' where "my_read_locked nr val dim d = Inr (e, d')" and "small_log N (klog d')"
proof -
  from inv have rep: "kb_rep (mem d) (kb_fifo d) es" and vals: "vals_ok (mem d) P es"
    by (auto simp: heap_inv_def)
  from vals t obtain v where v: "val = Some v" "mem d v = Some (Chars (replicate dim None))"
    "v \<notin> set (cells es)" by (rule vals_okD)
  show thesis
  proof (cases es rule: cells.cases)
    case 1
    with rep small show thesis
      by (intro that [of "WaitOn val" "printk MReaderWaiting d"])
        (simp_all add: my_read_locked_empty small_log_snoc small_log_quiet)
  next
    case (2 a b s es')
    have "length s < dim" using heap_inv_small [OF inv small, of "(a, b, s)"] 2 dim by simp
    from my_read_locked_ok [OF rep [unfolded 2] v(2) v(3) [unfolded 2] this]
    obtain q' m' where "my_read_locked nr val dim d = Inr (if nr = 0
        then (Return 0 (map Some s @ Some 0 # replicate (dim - Suc (length s)) None) True,
              printk (MRead dim s) (d\<lparr>kb_fifo := q', mem := m'\<rparr>))
        else (Return (- EFAULT) [] False, printk MCopyToError (d\<lparr>kb_fifo := q', mem := m'\<rparr>)))"
      unfolding v(1) by metis
    with small show thesis
      by (cases "nr = 0") (auto intro!: that simp: small_log_def)
  qed
qed

context kernel_allocator
begin

lemma write_locked_in_bounds:
  assumes inv: "heap_inv d P es" and t: "pc_val (P t) = Some (val, length buf)"
    and small: "small_log N (klog d)" and buf: "0 \<in> set buf" "length buf \<le> N"
  obtains "my_write_locked alloc nr val buf d = Inl NullDeref"
  | e d' where "my_write_locked alloc nr val buf d = Inr (e, d')" and "small_log N (klog d')"
proof -
  from inv have rep: "kb_rep (mem d) (kb_fifo d) es" and vals: "vals_ok (mem d) P es"
    by (auto simp: heap_inv_def)
  from vals t obtain v where v: "val = Some v" "mem d v = Some (Chars (replicate (length buf) None))"
    "v \<notin> set (cells es)" by (rule vals_okD)
  from buf(1) obtain s rest where s: "buf = s @ 0 # rest" "0 \<notin> set s"
    by (cases buf rule: terminated_cases) auto
  consider (full) "kb_isfull (kb_fifo d) (ds_kb_max (dev_stat d)) \<noteq> 0"
    | (nocopy) "kb_isfull (kb_fifo d) (ds_kb_max (dev_stat d)) = 0" "nr \<noteq> 0"
    | (copy) "kb_isfull (kb_fifo d) (ds_kb_max (dev_stat d)) = 0" "nr = 0" by auto
  then show thesis
  proof cases
    case full
    with small show thesis
      by (intro that(2) [of "WaitOn val" "printk MWriterWaiting d"])
        (simp_all add: my_write_locked_full small_log_snoc small_log_quiet)
  next
    case nocopy
    with small v show thesis
      by (intro that(2) [of "Return (- EFAULT) [] False"
            "printk MCopyFromError (d\<lparr>mem := (mem d)(v := None)\<rparr>)"])
        (simp_all add: my_write_locked_nocopy small_log_snoc small_log_quiet)
  next
    case copy
    from copy(1) rep v(2,3) s show thesis
    proof (cases rule: my_write_locked_cases)
      case oom
      with copy(2) v(1) show thesis by (intro that(1)) simp
    next
      case (ok a b q' m')
      have "my_write_locked alloc nr val buf d = Inr (Return 0 [] True,
          printk (MWrite (length buf) s) (d\<lparr>kb_fifo := q', mem := m'\<rparr>))"
        using ok(1) copy(2) v(1) by simp
      then show thesis by (rule that(2)) (use small s(1) buf(2) in \<open>auto simp: small_log_def\<close>)
    qed
  qed
qed

lemma my_read_in_bounds:
  assumes inv: "heap_inv d P es" and t: "pc_val (P t) = None"
    and small: "small_log N (klog d)" and dim: "N \<le> dim"
  obtains e d' where "my_read alloc nr dim d = Inr (e, d')" and "small_log N (klog d')"
proof (cases "alloc dim (mem d)")
  case None
  with small show thesis
    by (intro that [of "Return 1 [] False" "printk MAllocError d"])
      (simp_all add: my_read_def new_chars_def new_obj_def small_log_snoc small_log_quiet)
next
  case (Some v)
  have inv': "heap_inv (d\<lparr>mem := (mem d)(v \<mapsto> Chars (replicate dim None))\<rparr>)
      (P(t := Crit (ReadAgain (Some v) dim))) es"
    using inv Some t by (rule enter_val) simp
  obtain e d' where "my_read_locked nr (Some v) dim (d\<lparr>mem := (mem d)(v \<mapsto> Chars (replicate dim None))\<rparr>)
      = Inr (e, d')" and "small_log N (klog d')"
    by (rule read_locked_in_bounds [OF inv', of t "Some v" dim N nr]) (use small dim in auto)
  with Some show thesis by (intro that) (simp_all add: my_read_def new_chars_def new_obj_def)
qed

lemma my_write_in_bounds:
  assumes inv: "heap_inv d P es" and t: "pc_val (P t) = None"
    and small: "small_log N (klog d)" and buf: "0 \<in> set buf" "length buf \<le> N"
  obtains "my_write alloc nr buf d = Inl NullDeref"
  | e d' where "my_write alloc nr buf d = Inr (e, d')" and "small_log N (klog d')"
proof (cases "alloc (length buf) (mem d)")
  case None
  with small show thesis
    by (intro that(2) [of "Return 1 [] False" "printk MAllocError d"])
      (simp_all add: my_write_def new_chars_def new_obj_def small_log_snoc small_log_quiet)
next
  case (Some v)
  let ?d = "d\<lparr>mem := (mem d)(v \<mapsto> Chars (replicate (length buf) None))\<rparr>"
  have inv': "heap_inv ?d (P(t := Crit (WriteAgain (Some v) buf))) es"
    using inv Some t by (rule enter_val) simp
  have eq: "my_write alloc nr buf d = my_write_locked alloc nr (Some v) buf ?d"
    using Some by (simp add: my_write_def new_chars_def new_obj_def)
  show thesis
    by (rule write_locked_in_bounds [OF inv', of t "Some v" buf N nr])
      (use small buf that eq in auto)
qed

lemma bounded_end_rw:
  assumes b: "bounded N s" and sleep: "\<And>v. pc_ok N (sleep v)"
    and r: "r = Inl NullDeref \<or> (\<exists>e d. r = Inr (e, d) \<and> small_log N (klog d))"
  shows "bounded N (end_rw t Q sleep r s)"
  by (cases rule: end_rw_cases [of r t Q sleep s])
    (use assms in \<open>auto simp: bounded_def crash_def\<close>)

lemma bounded_end_kthread:
  assumes b: "bounded N s" and k: "client_ok N k"
    and r: "r \<noteq> Inl OutOfBounds" "\<And>tmo d. r = Inr (tmo, d) \<Longrightarrow> small_log N (klog d)"
  shows "bounded N (end_kthread t k r s)"
proof (cases r)
  case (Inl f)
  with b r show ?thesis by (simp add: end_kthread_def bounded_def crash_def)
next
  case (Inr x)
  with b k r show ?thesis by (cases x) (auto simp: end_kthread_def bounded_def)
qed

lemma bounded_leave:
  "bounded N s \<Longrightarrow> small_log N (klog d) \<Longrightarrow> pc_ok N p \<Longrightarrow> bounded N (leave t p d s)"
  by (auto simp: bounded_def)

lemma bounded_fields [simp]:
  "bounded N (s\<lparr>awake := w\<rparr>) = bounded N s" "bounded N (s\<lparr>results := r\<rparr>) = bounded N s"
  "bounded N (s\<lparr>should_stop := f\<rparr>) = bounded N s" "bounded N (s\<lparr>exiting := n\<rparr>) = bounded N s"
  "bounded N (s\<lparr>dev_mutex := m\<rparr>) = bounded N s" "bounded N (s\<lparr>registered := b\<rparr>) = bounded N s"
  by (simp_all add: bounded_def)

lemma bounded_goto: "bounded N s \<Longrightarrow> pc_ok N p \<Longrightarrow> bounded N (goto t p s)"
  by (auto simp: bounded_def)

lemma kt_stat_log:
  "kt_stat alloc d = Some (Inr (tmo, d')) \<Longrightarrow> \<exists>msg. klog d' = klog d @ [msg] \<and> quiet msg"
  by (auto simp: kt_stat_def result_simps split: if_splits)

lemma kt_realloc_log: "kt_realloc d = Inr (tmo, d') \<Longrightarrow> \<exists>msg. klog d' = klog d @ [msg] \<and> quiet msg"
  by (auto simp: kt_realloc_def result_simps split: if_splits)

lemma run_sect_bounded:
  assumes inv: "sys_inv s es" and t: "pcs s t = Crit k" and b: "bounded N s"
    and r: "run_sect alloc nr t k s = Some s'"
  shows "bounded N s'"
proof -
  from inv have es: "heap_inv (devs s) (pcs s) es" by (simp add: sys_inv_def)
  from b have small: "small_log N (klog (devs s))" and k: "client_ok N k"
    using t by (auto simp: bounded_def) (metis pc_ok.simps(2))
  show ?thesis
  proof (cases k)
    case OpenS
    have "bounded N (leave t Idle ((printk MOpen (devs s))\<lparr>dev_run := n\<rparr>) s)" for n
      using small by (intro bounded_leave [OF b]) (simp_all add: small_log_snoc small_log_quiet)
    with OpenS r show ?thesis by (auto simp: my_open_def Let_def)
  next
    case CloseS
    have "bounded N (leave t Idle (my_close (devs s)) s)"
      using small by (intro bounded_leave [OF b]) (simp_all add: my_close_def small_log_snoc small_log_quiet)
    with CloseS r show ?thesis by auto
  next
    case (ReadS dim)
    obtain e d where "my_read alloc nr dim (devs s) = Inr (e, d)" "small_log N (klog d)"
      by (rule my_read_in_bounds [OF es, of t N dim nr]) (use t ReadS k small in auto)
    with ReadS r k show ?thesis by (auto intro!: bounded_end_rw [OF b])
  next
    case (ReadAgain v dim)
    obtain e d where "my_read_locked nr v dim (devs s) = Inr (e, d)" "small_log N (klog d)"
      by (rule read_locked_in_bounds [OF es, of t v dim N nr]) (use t ReadAgain k small in auto)
    with ReadAgain r k show ?thesis by (auto intro!: bounded_end_rw [OF b])
  next
    case (WriteS buf)
    have "bounded N (end_rw t on_wait_r (\<lambda>v. SleepW v buf) (my_write alloc nr buf (devs s)) s)"
      by (rule my_write_in_bounds [OF es, of t N buf nr])
        (use t WriteS k small in \<open>auto intro!: bounded_end_rw [OF b]\<close>)
    with WriteS r show ?thesis by simp
  next
    case (WriteAgain v buf)
    have "bounded N (end_rw t on_wait_r (\<lambda>v. SleepW v buf) (my_write_locked alloc nr v buf (devs s)) s)"
      by (rule write_locked_in_bounds [OF es, of t v buf N nr])
        (use t WriteAgain k small in \<open>auto intro!: bounded_end_rw [OF b]\<close>)
    with WriteAgain r show ?thesis by simp
  next
    case StatS
    with r obtain x where x: "kt_stat alloc (devs s) = Some x" "s' = end_kthread t StatS x s" by auto
    show ?thesis unfolding x(2)
    proof (rule bounded_end_kthread [OF b])
      show "x \<noteq> Inl OutOfBounds" using kt_stat_inv [OF es] x(1) by auto
      fix tmo d assume "x = Inr (tmo, d)"
      with x(1) kt_stat_log small show "small_log N (klog d)"
        by (metis small_log_snoc small_log_quiet)
    qed simp
  next
    case ReallocS
    have "bounded N (end_kthread t ReallocS (kt_realloc (devs s)) s)"
    proof (rule bounded_end_kthread [OF b])
      show "kt_realloc (devs s) \<noteq> Inl OutOfBounds" using kt_realloc_fault by fastforce
      fix tmo d assume "kt_realloc (devs s) = Inr (tmo, d)"
      with kt_realloc_log small show "small_log N (klog d)"
        by (metis small_log_snoc small_log_quiet)
    qed simp
    with ReallocS r show ?thesis by simp
  qed
qed

lemma pc_okD: "bounded N s \<Longrightarrow> pcs s t = p \<Longrightarrow> pc_ok N p"
  by (auto simp: bounded_def)

lemma sys_step_bounded:
  assumes inv: "sys_inv s es" and b: "bounded N s" and st: "sys_step alloc l s = Some s'"
    and ok: "\<And>t k. l = Call t k \<Longrightarrow> client_ok N k"
  shows "bounded N s'"
proof (cases l)
  case (Call t k)
  with st have "s' = goto t (Lock k) s" by (auto simp: sys_step_def split: if_splits)
  with b ok Call show ?thesis by (auto intro: bounded_goto)
next
  case (Acquire t)
  with st obtain k where "pcs s t = Lock k" "s' = (goto t (Crit k) s)\<lparr>dev_mutex := Some t\<rparr>"
    by (auto simp: sys_step_def split: if_splits pc.splits)
  with pc_okD [OF b] bounded_goto [OF b] show ?thesis by fastforce
next
  case (Run t nr)
  with st obtain k where "pcs s t = Crit k" "run_sect alloc nr t k s = Some s'"
    by (auto simp: sys_step_def split: if_splits pc.splits)
  with inv b show ?thesis by (metis run_sect_bounded)
next
  case (Check t)
  with st b show ?thesis
    by (auto simp: sys_step_def check_wait_def split: if_splits pc.splits
        intro!: bounded_goto dest!: pc_okD [OF b])
next
  case (Signal t)
  with st b show ?thesis
    by (auto simp: sys_step_def split: if_splits pc.splits intro!: bounded_goto dest!: pc_okD [OF b])
next
  case (KTest t)
  with st b show ?thesis
    by (auto simp: sys_step_def split: if_splits pc.splits intro!: bounded_goto dest!: pc_okD [OF b])
next
  case (KResume t)
  with st b show ?thesis
    by (auto simp: sys_step_def split: if_splits pc.splits intro!: bounded_goto dest!: pc_okD [OF b])
next
  case Unload
  have "bounded N (s\<lparr>registered := False, devs := printk MExit (devs s)\<rparr>)"
    using b by (simp add: bounded_def small_log_snoc small_log_quiet)
  with Unload st b show ?thesis
    by (auto simp: sys_step_def my_module_exit_def split: if_splits)
qed

lemma reach_bounded:
  assumes "reach alloc (client_ok N) s"
  shows "bounded N s"
  using assms
proof (induction rule: reach.induct)
  case reach_init
  show ?case by (auto simp: bounded_def init_sys_eq small_log_def)
next
  case (reach_step s l s')
  from reach_inv [OF reach_step.hyps(1)] obtain es where "sys_inv s es" by blast
  from sys_step_bounded [OF this reach_step.IH reach_step.hyps(2,3)] show ?case .
qed

end

section \<open>Runs\<close>

fun label_ok :: "(sect \<Rightarrow> bool) \<Rightarrow> label \<Rightarrow> bool" where
  "label_ok ok (Call t k) = ok k"
| "label_ok ok _ = True"

lemma run_labels_reach:
  "run_labels alloc ls s = Some s' \<Longrightarrow> reach alloc ok s \<Longrightarrow> list_all (label_ok ok) ls \<Longrightarrow>
   reach alloc ok s'"
proof (induction ls arbitrary: s)
  case (Cons l ls)
  then obtain s1 where s1: "sys_step alloc l s = Some s1" "run_labels alloc ls s1 = Some s'"
    by (auto split: option.splits)
  have "reach alloc ok s1"
    using Cons.prems(2) s1(1) by (rule reach.reach_step) (use Cons.prems(3) in auto)
  with Cons.IH s1(2) Cons.prems(3) show ?case by simp
qed simp

lemma run_from_init:
  assumes "case run_labels alloc ls init_sys of None \<Rightarrow> False | Some s \<Rightarrow> Q s"
    and "list_all (label_ok ok) ls"
  obtains s where "reach alloc ok s" and "Q s" and "run_labels alloc ls init_sys = Some s"
  using assms run_labels_reach [of alloc ls init_sys] reach.reach_init
  by (auto split: option.splits)

text \<open>One system call from entry to return, and one round of each kernel thread.\<close>

definition op_run :: "nat \<Rightarrow> sect \<Rightarrow> label list" where
  "op_run t k = [Call t k, Acquire t, Run t 0]"

definition stat_round :: "label list" where
  "stat_round = [KTest 0, Acquire 0, Run 0 0, KResume 0]"

definition realloc_round :: "label list" where
  "realloc_round = [KTest 1, Acquire 1, Run 1 0, KResume 1]"

text \<open>The equations that run the model on closed states.\<close>

lemmas device_eval = sys_step_def goto_def leave_def end_rw_def crash_def wake_def end_kthread_def
  check_wait_def my_module_exit_def my_open_def my_close_def my_read_def my_read_locked_def
  my_write_def my_write_locked_def kt_stat_def kt_realloc_def printk_def kb_isempty_def
  kb_isfull_def kb_push_def kb_pop_def kb_scan_def kb_scan_loop.simps new_obj_def new_chars_def
  new_node_def new_ints_def free_ptr_def get_node_def set_node_data_def set_node_next_def
  get_chars_def get_ints_def set_int_def get_int_def read_str_def strlen_def strcpy_def
  first_fit_def my_div_def calculate_per_def cdiv_def cmod_def ds_populate_def ds_init_stat_def
  ds_reset_stat_def ds_reset_alloc_def ds_add_kb_value_def ds_get_kb_occupation_def
  ds_set_kb_occupation_def ds_med_def ds_max_def ds_min_def ds_for.simps Let_def upt_rec
  init_sys_eq op_run_def stat_round_def realloc_round_def

text \<open>Two strings are written, one is read, process 3 is inside \<open>my_read\<close> and process 4 waits
  for the mutex.\<close>

definition demo :: "label list" where
  "demo = op_run 2 OpenS @ stat_round @ op_run 2 (WriteS [97, 98, 0]) @ op_run 2 (WriteS [99, 0]) @
     op_run 3 (ReadS 40) @ [Call 3 (ReadS 40), Acquire 3, Call 4 (WriteS [100, 0])]"

lemma demo_run:
  "case run_labels (first_fit 64) demo init_sys of None \<Rightarrow> False
   | Some s \<Rightarrow> pcs s 3 = Crit (ReadS 40) \<and> pcs s 4 = Lock (WriteS [100, 0]) \<and> crashed s = None \<and>
       written (klog (devs s)) = [[97, 98], [99]] \<and> read_out (klog (devs s)) = [[97, 98]] \<and>
       dev_run (devs s) = 1"
  by (simp add: demo_def device_eval)

lemma demo_ok: "list_all (label_ok (client_ok 40)) demo"
  by (simp add: demo_def op_run_def stat_round_def)

text \<open>A process that reads from the empty device falls asleep.\<close>

definition demo_sleep :: "label list" where
  "demo_sleep = op_run 2 OpenS @ op_run 2 (ReadS 40) @ [Check 2]"

lemma demo_sleep_run:
  "case run_labels (first_fit 64) demo_sleep init_sys of None \<Rightarrow> False
   | Some s \<Rightarrow> pcs s 2 = SleepR (Some 0) 40 \<and> \<not> awake s 2"
  by (simp add: demo_sleep_def device_eval)

lemma demo_sleep_ok: "list_all (label_ok (\<lambda>_. True)) demo_sleep"
  by (simp add: demo_sleep_def op_run_def)

section \<open>Counting the users\<close>

definition run_count :: "dev \<Rightarrow> bool" where
  "run_count d \<longleftrightarrow>
     dev_run d = cint (int (count_list (klog d) MOpen) - int (count_list (klog d) MClose))"

definition calm :: "kmsg \<Rightarrow> bool" where
  "calm msg \<longleftrightarrow> msg \<noteq> MOpen \<and> msg \<noteq> MClose"

lemma run_count_calm:
  "run_count d \<Longrightarrow> dev_run d' = dev_run d \<Longrightarrow> klog d' = klog d @ [msg] \<Longrightarrow> calm msg \<Longrightarrow> run_count d'"
  by (simp add: run_count_def calm_def)

lemma calm_sections:
  "my_read_locked nr val dim d = Inr (e, d') \<Longrightarrow>
     dev_run d' = dev_run d \<and> (\<exists>msg. klog d' = klog d @ [msg] \<and> calm msg)"
  "my_write_locked alloc nr val buf d = Inr (e, d') \<Longrightarrow>
     dev_run d' = dev_run d \<and> (\<exists>msg. klog d' = klog d @ [msg] \<and> calm msg)"
  "kt_stat alloc d = Some (Inr (tmo, d')) \<Longrightarrow>
     dev_run d' = dev_run d \<and> (\<exists>msg. klog d' = klog d @ [msg] \<and> calm msg)"
  "kt_realloc d = Inr (tmo, d') \<Longrightarrow>
     dev_run d' = dev_run d \<and> (\<exists>msg. klog d' = klog d @ [msg] \<and> calm msg)"
  by (auto simp: my_read_locked_def my_write_locked_def kt_stat_def kt_realloc_def result_simps
      Let_def calm_def split: if_splits)

lemma calm_my_read:
  assumes "my_read alloc nr dim d = Inr (e, d')"
  shows "dev_run d' = dev_run d \<and> (\<exists>msg. klog d' = klog d @ [msg] \<and> calm msg)"
proof (cases "fst (new_chars alloc dim (mem d)) = NULL")
  case True
  with assms show ?thesis by (auto simp: my_read_def calm_def split: prod.splits)
next
  case False
  with assms obtain v m where "my_read_locked nr v dim (d\<lparr>mem := m\<rparr>) = Inr (e, d')"
    by (auto simp: my_read_def split: prod.splits)
  from calm_sections(1) [OF this] show ?thesis by simp
qed

lemma calm_my_write:
  assumes "my_write alloc nr buf d = Inr (e, d')"
  shows "dev_run d' = dev_run d \<and> (\<exists>msg. klog d' = klog d @ [msg] \<and> calm msg)"
proof (cases "fst (new_chars alloc (length buf) (mem d)) = NULL")
  case True
  with assms show ?thesis by (auto simp: my_write_def calm_def split: prod.splits)
next
  case False
  with assms obtain v m where "my_write_locked alloc nr v buf (d\<lparr>mem := m\<rparr>) = Inr (e, d')"
    by (auto simp: my_write_def split: prod.splits)
  from calm_sections(2) [OF this] show ?thesis by simp
qed

lemma run_count_end_rw:
  assumes "run_count (devs s)"
    and "\<And>e d. r = Inr (e, d) \<Longrightarrow>
      dev_run d = dev_run (devs s) \<and> (\<exists>msg. klog d = klog (devs s) @ [msg] \<and> calm msg)"
  shows "run_count (devs (end_rw t Q sleep r s))"
  by (cases rule: end_rw_cases [of r t Q sleep s])
    (use assms run_count_calm in \<open>fastforce simp: crash_def\<close>)+

lemma run_count_end_kthread:
  assumes "run_count (devs s)"
    and "\<And>tmo d. r = Inr (tmo, d) \<Longrightarrow>
      dev_run d = dev_run (devs s) \<and> (\<exists>msg. klog d = klog (devs s) @ [msg] \<and> calm msg)"
  shows "run_count (devs (end_kthread t k r s))"
proof (cases r)
  case (Inl f)
  with assms(1) show ?thesis by (simp add: end_kthread_def crash_def)
next
  case (Inr x)
  obtain tmo d where x: "x = (tmo, d)" by (cases x)
  with assms Inr run_count_calm have "run_count d" by blast
  with Inr x show ?thesis by (simp add: end_kthread_def)
qed

lemma run_sect_run_count:
  assumes c: "run_count (devs s)" and r: "run_sect alloc nr t k s = Some s'"
  shows "run_count (devs s')"
proof (cases k)
  case OpenS
  have "run_count ((printk MOpen (devs s))\<lparr>dev_run := cint (dev_run (devs s) + 1)\<rparr>)"
    using c by (simp add: run_count_def algebra_simps)
  with OpenS r show ?thesis by (auto simp: my_open_def Let_def)
next
  case CloseS
  have "run_count (my_close (devs s))"
    using c by (simp add: run_count_def my_close_def algebra_simps)
  with CloseS r show ?thesis by auto
next
  case (ReadS dim)
  have "run_count (devs (end_rw t on_wait_w (\<lambda>v. SleepR v dim) (my_read alloc nr dim (devs s)) s))"
    using c by (rule run_count_end_rw) (rule calm_my_read)
  with ReadS r show ?thesis by auto
next
  case (ReadAgain v dim)
  have "run_count (devs (end_rw t on_wait_w (\<lambda>v. SleepR v dim) (my_read_locked nr v dim (devs s)) s))"
    using c by (rule run_count_end_rw) (rule calm_sections)
  with ReadAgain r show ?thesis by auto
next
  case (WriteS buf)
  have "run_count (devs (end_rw t on_wait_r (\<lambda>v. SleepW v buf) (my_write alloc nr buf (devs s)) s))"
    using c by (rule run_count_end_rw) (rule calm_my_write)
  with WriteS r show ?thesis by auto
next
  case (WriteAgain v buf)
  have "run_count (devs (end_rw t on_wait_r (\<lambda>v. SleepW v buf) (my_write_locked alloc nr v buf (devs s)) s))"
    using c by (rule run_count_end_rw) (rule calm_sections)
  with WriteAgain r show ?thesis by auto
next
  case StatS
  with r obtain x where x: "kt_stat alloc (devs s) = Some x" "s' = end_kthread t StatS x s" by auto
  show ?thesis unfolding x(2)
    using c by (rule run_count_end_kthread) (use x(1) calm_sections(3) in blast)
next
  case ReallocS
  have "run_count (devs (end_kthread t ReallocS (kt_realloc (devs s)) s))"
    using c by (rule run_count_end_kthread) (rule calm_sections)
  with ReallocS r show ?thesis by auto
qed

lemma sys_step_run_count:
  assumes "run_count (devs s)" and "sys_step alloc l s = Some s'"
  shows "run_count (devs s')"
proof (cases l)
  case (Run t nr)
  with assms show ?thesis
    by (auto simp: sys_step_def split: if_splits pc.splits intro: run_sect_run_count)
next
  case Unload
  have "run_count (printk MExit (devs s))" using assms(1) by (simp add: run_count_def)
  with Unload assms show ?thesis by (auto simp: sys_step_def my_module_exit_def split: if_splits)
qed (use assms in \<open>auto simp: sys_step_def check_wait_def split: if_splits pc.splits\<close>)

lemma reach_run_count: "reach alloc ok s \<Longrightarrow> run_count (devs s)"
proof (induction rule: reach.induct)
  case reach_init
  show ?case by (simp add: run_count_def init_sys_eq)
next
  case (reach_step s l s')
  from reach_step.IH reach_step.hyps(2) show ?case by (rule sys_step_run_count)
qed

end
