(* ===== verification/Device_Theorems.thy ===== *)
theory Device_Theorems
  imports Device_Props
begin

text \<open>
  What the device module guarantees, and what it does not. The first section states the
  guarantees over every reachable state of the concurrent system, the second the behaviour of
  single system calls, the third runs in which the code fails to do what it means to.
\<close>

section \<open>Guarantees under every interleaving\<close>

text \<open>C1: each step of the device is a step of the bounded queue on the strings it holds: the
  queue stays as it is, a string is appended while the queue holds fewer strings than
  \<open>ds_kb_max\<close>, or the first string is removed.\<close>

theorem device_refines_queue:
  assumes "kernel_allocator alloc" and "reach alloc ok s" and "sys_step alloc l s = Some s'"
  shows "\<exists>es es'. kb_rep (mem (devs s)) (kb_fifo (devs s)) es \<and>
    kb_rep (mem (devs s')) (kb_fifo (devs s')) es' \<and>
    fifo_step (ds_kb_max (dev_stat (devs s))) (map str_of es) (map str_of es')"
proof -
  from kernel_allocator.reach_inv [OF assms(1,2)] obtain es where es: "sys_inv s es" by blast
  from kernel_allocator.sys_step_inv [OF assms(1) es assms(3)] obtain es' where
    "sys_inv s' es'" "fifo_step (ds_kb_max (dev_stat (devs s))) (map str_of es) (map str_of es')"
    by (auto simp: steps_to_def)
  with es show ?thesis by (auto simp: sys_inv_def heap_inv_def)
qed

theorem device_refines_queue_witness:
  "\<exists>s s'. reach (first_fit 64) (\<lambda>_. True) s \<and> sys_step (first_fit 64) (Run 3 0) s = Some s' \<and>
    (\<exists>es es'. kb_rep (mem (devs s)) (kb_fifo (devs s)) es \<and>
      kb_rep (mem (devs s')) (kb_fifo (devs s')) es' \<and>
      fifo_step (ds_kb_max (dev_stat (devs s))) (map str_of es) (map str_of es'))"
proof -
  have "list_all (label_ok (\<lambda>_. True)) demo" by (simp add: demo_def op_run_def stat_round_def)
  from run_from_init [OF demo_run this] obtain s where s: "reach (first_fit 64) (\<lambda>_. True) s"
    "pcs s 3 = Crit (ReadS 40)" "crashed s = None" by blast
  then obtain s' where "sys_step (first_fit 64) (Run 3 0) s = Some s'" by (simp add: sys_step_def)
  with s(1) device_refines_queue [OF kff.kernel_allocator_axioms s(1) this] show ?thesis by blast
qed

text \<open>C2: strings are delivered in the order in which they were written: what has been written
  is what has left the buffer followed by what is still in it, the strings read are a
  subsequence of those that left, and they are all of them as long as no copy to a reader's
  buffer failed.\<close>

theorem device_fifo_order:
  assumes "kernel_allocator alloc" and "reach alloc ok s"
  shows "\<exists>es gone. kb_rep (mem (devs s)) (kb_fifo (devs s)) es \<and>
    written (klog (devs s)) = gone @ map str_of es \<and> subseq (read_out (klog (devs s))) gone \<and>
    (MCopyToError \<notin> set (klog (devs s)) \<longrightarrow> gone = read_out (klog (devs s)))"
  using kernel_allocator.reach_inv [OF assms]
  by (auto simp: sys_inv_def heap_inv_def history_def)

theorem device_fifo_order_witness:
  "\<exists>s es gone. reach (first_fit 64) (client_ok 40) s \<and> kb_rep (mem (devs s)) (kb_fifo (devs s)) es \<and>
    [[97, 98], [99]] = gone @ map str_of es \<and> subseq [[97, 98]] gone"
proof -
  from run_from_init [OF demo_run demo_ok] obtain s where s: "reach (first_fit 64) (client_ok 40) s"
    "written (klog (devs s)) = [[97, 98], [99]]" "read_out (klog (devs s)) = [[97, 98]]" by blast
  from device_fifo_order [OF kff.kernel_allocator_axioms s(1)] s show ?thesis by metis
qed

text \<open>C18: \<open>dev_mutex\<close> gives mutual exclusion: two threads are never inside critical sections
  at the same time.\<close>

theorem device_mutual_exclusion:
  assumes "kernel_allocator alloc" and "reach alloc ok s"
    and "pcs s t = Crit k" and "pcs s u = Crit k'"
  shows "t = u"
proof -
  from kernel_allocator.reach_inv [OF assms(1,2)] have "mutex_inv (pcs s) (dev_mutex s)"
    by (auto simp: sys_inv_def)
  with assms(3,4) have "dev_mutex s = Some t" and "dev_mutex s = Some u"
    by (auto simp: mutex_inv_def)
  then show ?thesis by simp
qed

theorem device_mutual_exclusion_witness:
  "\<exists>s. reach (first_fit 64) (client_ok 40) s \<and> pcs s 3 = Crit (ReadS 40) \<and> pcs s 2 \<noteq> Crit CloseS"
proof -
  from run_from_init [OF demo_run demo_ok] obtain s where s: "reach (first_fit 64) (client_ok 40) s"
    "pcs s 3 = Crit (ReadS 40)" by blast
  from device_mutual_exclusion [OF kff.kernel_allocator_axioms s, of 2 CloseS] s show ?thesis by auto
qed


text \<open>The divide trap is such a crash: the first user opens the device and the reallocation
  thread runs before the statistics thread has taken a sample.\<close>

definition demo_div :: "label list" where
  "demo_div = op_run 2 OpenS @ [KTest 1, Acquire 1, Run 1 0]"

lemma demo_div_run:
  "case run_labels (first_fit 64) demo_div init_sys of None \<Rightarrow> False
   | Some s \<Rightarrow> crashed s = Some DivError"
  by (simp add: demo_div_def device_eval)


text \<open>C3: clients that terminate the strings they write and read with buffers at least as large
  as the longest write, as Writer and Reader do with 40 bytes, never make the module access
  memory past the end of a block.\<close>

theorem device_in_bounds:
  assumes "kernel_allocator alloc" and "reach alloc (client_ok N) s"
  shows "crashed s \<noteq> Some OutOfBounds"
  using kernel_allocator.reach_bounded [OF assms] by (simp add: bounded_def)

theorem device_in_bounds_witness:
  "\<exists>s. reach (first_fit 64) (client_ok 40) s \<and> written (klog (devs s)) = [[97, 98], [99]] \<and>
    crashed s \<noteq> Some OutOfBounds"
proof -
  from run_from_init [OF demo_run demo_ok] obtain s where s: "reach (first_fit 64) (client_ok 40) s"
    "written (klog (devs s)) = [[97, 98], [99]]" by blast
  from device_in_bounds [OF kff.kernel_allocator_axioms s(1)] s show ?thesis by blast
qed

lemma end_rw_unlocks: "crashed (end_rw t Q sleep r s) = None \<Longrightarrow> dev_mutex (end_rw t Q sleep r s) = None"
  by (cases rule: end_rw_cases [of r t Q sleep s]) (auto simp: crash_def)

lemma end_kthread_unlocks:
  "crashed (end_kthread t k r s) = None \<Longrightarrow> dev_mutex (end_kthread t k r s) = None"
  by (auto simp: end_kthread_def crash_def split: sum.splits prod.splits)

lemma run_sect_unlocks:
  "run_sect alloc nr t k s = Some s' \<Longrightarrow> crashed s' = None \<Longrightarrow> dev_mutex s' = None"
  by (cases k) (auto simp: Let_def end_rw_unlocks end_kthread_unlocks split: prod.splits if_splits)

text \<open>A critical section always ends: the thread inside can finish it, and afterwards the
  mutex is free unless the section crashed. In particular the scan of the list by the
  statistics thread ends.\<close>

theorem device_section_ends:
  assumes "kernel_allocator alloc" and "reach alloc ok s" and "crashed s = None"
    and "pcs s t = Crit k"
  shows "\<exists>s'. sys_step alloc (Run t nr) s = Some s' \<and> (dev_mutex s' = None \<or> crashed s' \<noteq> None)"
proof -
  from kernel_allocator.reach_inv [OF assms(1,2)] obtain es where "sys_inv s es" by blast
  from kernel_allocator.run_sect_total [OF assms(1) this] obtain s' where
    s': "run_sect alloc nr t k s = Some s'" by blast
  with assms(3,4) run_sect_unlocks [OF s'] show ?thesis by (auto simp: sys_step_def)
qed

theorem device_section_ends_witness:
  "\<exists>s s'. reach (first_fit 64) (client_ok 40) s \<and> sys_step (first_fit 64) (Run 3 0) s = Some s'"
proof -
  from run_from_init [OF demo_run demo_ok] obtain s where s: "reach (first_fit 64) (client_ok 40) s"
    "crashed s = None" "pcs s 3 = Crit (ReadS 40)" by blast
  from device_section_ends [OF kff.kernel_allocator_axioms s] s(1) show ?thesis by blast
qed

text \<open>C27: a thread that waits for the mutex never waits for nothing: either it can take the
  mutex or the holder can run its section to the end.\<close>

theorem device_no_deadlock:
  assumes "kernel_allocator alloc" and "reach alloc ok s" and "crashed s = None"
    and "pcs s t = Lock k"
  shows "(\<exists>s'. sys_step alloc (Acquire t) s = Some s') \<or>
    (\<exists>u s'. dev_mutex s = Some u \<and> u \<noteq> t \<and> sys_step alloc (Run u 0) s = Some s')"
proof (cases "dev_mutex s")
  case None
  with assms(3,4) show ?thesis by (simp add: sys_step_def)
next
  case (Some u)
  from kernel_allocator.reach_inv [OF assms(1,2)] obtain es where inv: "sys_inv s es" by blast
  with Some obtain k' where k': "pcs s u = Crit k'" by (auto simp: sys_inv_def mutex_inv_def)
  from kernel_allocator.run_sect_total [OF assms(1) inv] obtain s' where
    "run_sect alloc 0 u k' s = Some s'" by blast
  with k' assms(3,4) Some show ?thesis by (auto simp: sys_step_def)
qed

theorem device_no_deadlock_witness:
  "\<exists>s. reach (first_fit 64) (client_ok 40) s \<and> pcs s 4 = Lock (WriteS [100, 0]) \<and>
    ((\<exists>s'. sys_step (first_fit 64) (Acquire 4) s = Some s') \<or>
     (\<exists>u s'. dev_mutex s = Some u \<and> u \<noteq> 4 \<and> sys_step (first_fit 64) (Run u 0) s = Some s'))"
proof -
  from run_from_init [OF demo_run demo_ok] obtain s where s: "reach (first_fit 64) (client_ok 40) s"
    "crashed s = None" "pcs s 4 = Lock (WriteS [100, 0])" by blast
  from device_no_deadlock [OF kff.kernel_allocator_axioms s] s show ?thesis by blast
qed

text \<open>C19: no reader sleeps through a write: a reader that is asleep, and not already woken,
  sleeps on an empty buffer.\<close>

theorem device_reader_wakeup:
  assumes "reach alloc ok s" and "pcs s t = SleepR v dim" and "\<not> awake s t"
  shows "kb_isempty (kb_fifo (devs s)) = 1"
  using reach_readers [OF assms(1)] assms(2,3)
  by (auto simp: readers_ok_def kb_isempty_def) (metis on_wait_r.simps(1))

theorem device_reader_wakeup_witness:
  "\<exists>s. reach (first_fit 64) (\<lambda>_. True) s \<and> pcs s 2 = SleepR (Some 0) 40 \<and>
    kb_isempty (kb_fifo (devs s)) = 1"
proof -
  from run_from_init [OF demo_sleep_run demo_sleep_ok] obtain s where
    s: "reach (first_fit 64) (\<lambda>_. True) s" "pcs s 2 = SleepR (Some 0) 40" "\<not> awake s 2" by blast
  from device_reader_wakeup [OF s] s show ?thesis by blast
qed

text \<open>C28: \<open>dev_run\<close> counts the opens not yet closed, as far as an \<open>int\<close> can count.\<close>

theorem device_run_counts:
  assumes "reach alloc ok s"
  shows "dev_run (devs s) =
    cint (int (count_list (klog (devs s)) MOpen) - int (count_list (klog (devs s)) MClose))"
  using reach_run_count [OF assms] by (simp add: run_count_def)

theorem device_run_counts_witness:
  "\<exists>s. reach (first_fit 64) (client_ok 40) s \<and> dev_run (devs s) = 1 \<and>
    1 = cint (int (count_list (klog (devs s)) MOpen) - int (count_list (klog (devs s)) MClose))"
proof -
  from run_from_init [OF demo_run demo_ok] obtain s where s: "reach (first_fit 64) (client_ok 40) s"
    "dev_run (devs s) = 1" by blast
  from device_run_counts [OF s(1)] s show ?thesis by metis
qed

section \<open>Single system calls\<close>

text \<open>A read from a device that holds a string, with a buffer that is large enough.\<close>

lemma my_read_nonempty:
  assumes "allocator alloc" and "kb_rep (mem d) (kb_fifo d) ((a, b, s) # es)"
    and "alloc dim (mem d) = Some v" and "length s < dim"
  obtains e d' where "my_read alloc nr dim d = Inr (e, d')"
    and "e = (if nr = 0
      then Return 0 (map Some s @ Some 0 # replicate (dim - Suc (length s)) None) True
      else Return (- EFAULT) [] False)"
    and "kb_rep (mem d') (kb_fifo d') es"
    and "mem d v = None" and "mem d' v \<noteq> None" and "v \<notin> set (cells es)"
proof -
  let ?d = "d\<lparr>mem := (mem d)(v \<mapsto> Chars (replicate dim None))\<rparr>"
  have mv: "mem d v = None" using allocator.fresh [OF assms(1,3)] .
  with assms(2) have out: "v \<notin> set (cells ((a, b, s) # es))" using kb_rep_fresh by blast
  with assms(2) have rep: "kb_rep (mem ?d) (kb_fifo ?d) ((a, b, s) # es)" by (simp add: kb_rep_frame)
  have eq: "my_read alloc nr dim d = my_read_locked nr (Some v) dim ?d"
    using assms(3) by (simp add: my_read_def new_chars_def new_obj_def)
  have cell: "mem ?d v = Some (Chars (replicate dim None))" by simp
  obtain q' where run: "my_read alloc nr dim d = Inr (if nr = 0
       then (Return 0 (map Some s @ Some 0 # replicate (dim - Suc (length s)) None) True,
             printk (MRead dim s) (?d\<lparr>kb_fifo := q', mem := (mem ?d)(v \<mapsto> Chars (map Some s @
               Some 0 # replicate (dim - Suc (length s)) None), b := None, a := None)\<rparr>))
       else (Return (- EFAULT) [] False,
             printk MCopyToError (?d\<lparr>kb_fifo := q', mem := (mem ?d)(v \<mapsto> Chars (map Some s @
               Some 0 # replicate (dim - Suc (length s)) None), b := None, a := None)\<rparr>)))"
    and rest: "kb_rep ((mem ?d)(v \<mapsto> Chars (map Some s @ Some 0 # replicate (dim - Suc (length s)) None),
      b := None, a := None)) q' es"
    using my_read_locked_ok [OF rep cell out assms(4), of nr] unfolding eq by blast
  show thesis
  proof (cases "nr = 0")
    case True
    with run rest mv out show thesis by (intro that) auto
  next
    case False
    with run rest mv out show thesis by (intro that) auto
  qed
qed

text \<open>A write of a terminated string to a device that is not full.\<close>

lemma my_write_room:
  assumes "allocator alloc" and "kb_rep (mem d) (kb_fifo d) es"
    and "kb_isfull (kb_fifo d) (ds_kb_max (dev_stat d)) = 0"
    and "alloc (length buf) (mem d) = Some v" and "buf = s @ 0 # rest" and "0 \<notin> set s"
  obtains (oom) "my_write alloc 0 buf d = Inl NullDeref"
  | (ok) a b d' where "my_write alloc 0 buf d = Inr (Return 0 [] True, d')"
      and "kb_rep (mem d') (kb_fifo d') (es @ [(a, b, s)])" and "mem d' v = None"
proof -
  let ?d = "d\<lparr>mem := (mem d)(v \<mapsto> Chars (replicate (length buf) None))\<rparr>"
  have "mem d v = None" using allocator.fresh [OF assms(1,4)] .
  with assms(2) have out: "v \<notin> set (cells es)" using kb_rep_fresh by blast
  with assms(2) have rep: "kb_rep (mem ?d) (kb_fifo ?d) es" by (simp add: kb_rep_frame)
  have room: "kb_isfull (kb_fifo ?d) (ds_kb_max (dev_stat ?d)) = 0" using assms(3) by simp
  have eq: "my_write alloc 0 buf d = my_write_locked alloc 0 (Some v) buf ?d"
    using assms(4) by (simp add: my_write_def new_chars_def new_obj_def)
  show thesis
  proof (rule allocator.my_write_locked_cases [OF assms(1) room rep _ out assms(5,6)])
    show "mem ?d v = Some (Chars (replicate (length buf) None))" by simp
  next
    assume "my_write_locked alloc 0 (Some v) buf ?d = Inl NullDeref"
    with eq oom show thesis by simp
  next
    fix a b q' m'
    assume "my_write_locked alloc 0 (Some v) buf ?d =
        Inr (Return 0 [] True, printk (MWrite (length buf) s) (?d\<lparr>kb_fifo := q', mem := m'\<rparr>))"
      and "kb_rep m' q' (es @ [(a, b, s)])" and "m' v = None"
    with eq show thesis by (intro ok) auto
  qed
qed

text \<open>C36: a read hands the first string and its terminator to the caller, returns 0 and
  removes the string from the buffer. The bytes after the terminator are whatever the freshly
  allocated block held before: \<open>copy_to_user\<close> copies all \<open>dim\<close> bytes of it.\<close>

theorem my_read_delivers:
  assumes "allocator alloc" and "kb_rep (mem d) (kb_fifo d) ((a, b, s) # es)"
    and "alloc dim (mem d) = Some v" and "length s < dim"
  shows "\<exists>d'. my_read alloc 0 dim d =
      Inr (Return 0 (map Some s @ Some 0 # replicate (dim - Suc (length s)) None) True, d') \<and>
    kb_rep (mem d') (kb_fifo d') es"
  by (rule my_read_nonempty [OF assms, of 0]) auto

lemma two_first: "first_fit 64 40 two_heap = Some 4"
  by (simp add: first_fit_def two_heap_def upt_rec)

definition two_dev :: dev where
  "two_dev = \<lparr>mem = two_heap, kb_fifo = two_kb,
     dev_stat = \<lparr>ds_dim = 0, ds_list = NULL, ds_kb_dim = 0, ds_kb_max = 5, ds_kb_sum = 0\<rparr>,
     dev_run = 1, klog = []\<rparr>"

lemma two_dev_rep:
  "kb_rep (mem two_dev) (kb_fifo two_dev) [(0, 1, [97, 98]), (2, 3, [99])]"
  "first_fit 64 40 (mem two_dev) = Some 4"
  using two_kb_rep two_first by (simp_all add: two_dev_def)

theorem my_read_delivers_witness:
  "\<exists>d'. my_read (first_fit 64) 0 40 two_dev =
      Inr (Return 0 ([Some 97, Some 98, Some 0] @ replicate 37 None) True, d') \<and>
    kb_rep (mem d') (kb_fifo d') [(2, 3, [99])]"
  using my_read_delivers [OF ff.allocator_axioms two_dev_rep(1) two_dev_rep(2)] by simp

text \<open>\<open>my_read\<close> never releases the block it allocates: after any read that returns, with or
  without an error from \<open>copy_to_user\<close>, the block is still allocated although neither the
  buffer nor the reader refers to it.\<close>

theorem my_read_leaks:
  assumes "allocator alloc" and "kb_rep (mem d) (kb_fifo d) ((a, b, s) # es)"
    and "alloc dim (mem d) = Some v" and "length s < dim"
  shows "\<exists>n bs w d'. my_read alloc nr dim d = Inr (Return n bs w, d') \<and>
    mem d v = None \<and> mem d' v \<noteq> None \<and> v \<notin> set (cells es)"
  by (rule my_read_nonempty [OF assms, of nr]) (cases "nr = 0"; auto)

theorem my_read_leaks_witness:
  "\<exists>n bs w d'. my_read (first_fit 64) 0 40 two_dev = Inr (Return n bs w, d') \<and>
    mem two_dev 4 = None \<and> mem d' 4 \<noteq> None"
  using my_read_leaks [OF ff.allocator_axioms two_dev_rep(1) two_dev_rep(2), of 0] by auto

text \<open>C37: a read with a buffer that is too small for the first string and its terminator
  writes past the end of the block \<open>value\<close>: \<open>kb_pop\<close> copies with \<open>strcpy\<close> and does not know
  the size.\<close>

theorem my_read_overflow:
  assumes "allocator alloc" and "kb_rep (mem d) (kb_fifo d) ((a, b, s) # es)"
    and "alloc dim (mem d) = Some v" and "dim \<le> length s"
  shows "my_read alloc nr dim d = Inl OutOfBounds"
proof -
  let ?d = "d\<lparr>mem := (mem d)(v \<mapsto> Chars (replicate dim None))\<rparr>"
  have "mem d v = None" using allocator.fresh [OF assms(1,3)] .
  with assms(2) have out: "v \<notin> set (cells ((a, b, s) # es))" using kb_rep_fresh by blast
  with assms(2) have rep: "kb_rep (mem ?d) (kb_fifo ?d) ((a, b, s) # es)" by (simp add: kb_rep_frame)
  show ?thesis
    using my_read_locked_overflow [OF rep, of v "replicate dim None" nr dim] assms(3,4)
    by (simp add: my_read_def new_chars_def new_obj_def)
qed

theorem my_read_overflow_witness: "my_read (first_fit 64) 0 2 two_dev = Inl OutOfBounds"
proof -
  have "first_fit 64 2 (mem two_dev) = Some 4"
    by (simp add: two_dev_def two_heap_def first_fit_def upt_rec)
  from my_read_overflow [OF ff.allocator_axioms two_dev_rep(1) this] show ?thesis by simp
qed

text \<open>A write to a device that is not full appends exactly the bytes before the first
  terminator, releases its own block and returns 0; the only other outcome is the null pointer
  of a failed allocation inside \<open>kb_push\<close>.\<close>

theorem my_write_appends:
  assumes "allocator alloc" and "kb_rep (mem d) (kb_fifo d) es"
    and "kb_isfull (kb_fifo d) (ds_kb_max (dev_stat d)) = 0"
    and "alloc (length buf) (mem d) = Some v" and "buf = s @ 0 # rest" and "0 \<notin> set s"
  shows "my_write alloc 0 buf d = Inl NullDeref \<or>
    (\<exists>a b d'. my_write alloc 0 buf d = Inr (Return 0 [] True, d') \<and>
       kb_rep (mem d') (kb_fifo d') (es @ [(a, b, s)]) \<and> mem d' v = None)"
  by (rule my_write_room [OF assms]) blast+

theorem my_write_appends_witness:
  "my_write (first_fit 64) 0 [100, 0] two_dev = Inl NullDeref \<or>
   (\<exists>a b d'. my_write (first_fit 64) 0 [100, 0] two_dev = Inr (Return 0 [] True, d') \<and>
      kb_rep (mem d') (kb_fifo d') [(0, 1, [97, 98]), (2, 3, [99]), (a, b, [100])] \<and> mem d' 4 = None)"
proof -
  have v: "first_fit 64 (length [100, 0 :: byte]) (mem two_dev) = Some 4"
    by (simp add: two_dev_def two_heap_def first_fit_def upt_rec)
  have room: "kb_isfull (kb_fifo two_dev) (ds_kb_max (dev_stat two_dev)) = 0"
    by (simp add: two_dev_def two_kb_def kb_isfull_def)
  show ?thesis
    using my_write_appends [OF ff.allocator_axioms two_dev_rep(1) room v, of "[100]" "[]"] by simp
qed

text \<open>A write whose bytes hold no terminator makes the module read past the end of its
  block, in the \<open>strlen\<close> of \<open>kb_push\<close>.\<close>

theorem my_write_unterminated:
  assumes "allocator alloc" and "kb_isfull (kb_fifo d) (ds_kb_max (dev_stat d)) = 0"
    and "alloc (length buf) (mem d) = Some v" and "0 \<notin> set buf"
  shows "my_write alloc 0 buf d = Inl OutOfBounds"
  using allocator.my_write_locked_unterminated [OF assms(1),
      of "d\<lparr>mem := (mem d)(v \<mapsto> Chars (replicate (length buf) None))\<rparr>" buf v] assms(2-4)
  by (simp add: my_write_def new_chars_def new_obj_def)

theorem my_write_unterminated_witness: "my_write (first_fit 64) 0 [100, 101] two_dev = Inl OutOfBounds"
proof -
  have "first_fit 64 (length [100, 101 :: byte]) (mem two_dev) = Some 4"
    by (simp add: two_dev_def two_heap_def first_fit_def upt_rec)
  from my_write_unterminated [OF ff.allocator_axioms _ this] show ?thesis
    by (simp add: two_dev_def two_kb_def kb_isfull_def)
qed

lemma write_then_read:
  assumes "allocator alloc" and "kb_rep (mem d) (kb_fifo d) []"
    and "my_write alloc 0 (s @ [0]) d = Inr (Return 0 bs True, d')" and "0 \<notin> set s"
    and "alloc dim (mem d') = Some v" and "length s < dim"
  obtains d'' where "my_read alloc 0 dim d' =
      Inr (Return 0 (map Some s @ Some 0 # replicate (dim - Suc (length s)) None) True, d'')"
    and "kb_rep (mem d'') (kb_fifo d'') []"
proof -
  have room: "kb_isfull (kb_fifo d) (ds_kb_max (dev_stat d)) = 0"
  proof (rule ccontr)
    assume "kb_isfull (kb_fifo d) (ds_kb_max (dev_stat d)) \<noteq> 0"
    with assms(3) show False
      by (auto simp: my_write_def my_write_locked_def split: prod.splits if_splits)
  qed
  obtain u where u: "alloc (length (s @ [0])) (mem d) = Some u"
    using assms(3) by (cases "alloc (length (s @ [0])) (mem d)")
      (auto simp: my_write_def new_chars_def new_obj_def)
  from my_write_room [OF assms(1,2) room u _ assms(4)] assms(3)
  obtain a b where rep: "kb_rep (mem d') (kb_fifo d') [(a, b, s)]" by fastforce
  show thesis by (rule my_read_nonempty [OF assms(1) rep assms(5,6), of 0]) (use that in auto)
qed

text \<open>C38: what is written to an empty device is what the next read returns.\<close>

theorem write_read_roundtrip:
  assumes "allocator alloc" and "kb_rep (mem d) (kb_fifo d) []"
    and "my_write alloc 0 (s @ [0]) d = Inr (Return 0 bs True, d')" and "0 \<notin> set s"
    and "alloc dim (mem d') = Some v" and "length s < dim"
  shows "\<exists>rest d''. my_read alloc 0 dim d' = Inr (Return 0 (map Some s @ Some 0 # rest) True, d'') \<and>
    kb_rep (mem d'') (kb_fifo d'') []"
  using write_then_read [OF assms] by blast

theorem write_read_roundtrip_witness:
  "\<exists>d' rest d''. my_write (first_fit 64) 0 ([100, 101] @ [0]) (devs init_sys) = Inr (Return 0 [] True, d') \<and>
    my_read (first_fit 64) 0 40 d' = Inr (Return 0 (map Some [100, 101] @ Some 0 # rest) True, d'')"
proof -
  let ?w = "my_write (first_fit 64) 0 ([100, 101] @ [0]) (devs init_sys)"
  have "case ?w of Inr (e, d') \<Rightarrow> e = Return 0 [] True \<and> first_fit 64 40 (mem d') = Some 0 | _ \<Rightarrow> False"
    by (simp add: device_eval)
  then obtain d' where w: "?w = Inr (Return 0 [] True, d')" and v: "first_fit 64 40 (mem d') = Some 0"
    by (auto split: sum.splits prod.splits)
  have rep: "kb_rep (mem (devs init_sys)) (kb_fifo (devs init_sys)) []"
    by (simp add: init_sys_eq kb_rep_def)
  from write_read_roundtrip [OF ff.allocator_axioms rep w _ v] w show ?thesis by auto
qed

section \<open>Runs that go wrong\<close>

text \<open>The reallocation thread divides by the number of samples without checking it: with no
  sample since the last reset the processor traps. The trap is reached from a freshly loaded
  module when the first user opens the device and the reallocation thread gets the mutex
  first.\<close>

theorem realloc_divide_trap:
  "(\<forall>d. dev_run d \<noteq> 0 \<and> ds_kb_dim (dev_stat d) = 0 \<longrightarrow> kt_realloc d = Inl DivError) \<and>
   (\<exists>s. reach (first_fit 64) (client_ok 40) s \<and> crashed s = Some DivError)"
proof
  show "\<forall>d. dev_run d \<noteq> 0 \<and> ds_kb_dim (dev_stat d) = 0 \<longrightarrow> kt_realloc d = Inl DivError"
    by (simp add: kt_realloc_def ds_get_kb_occupation_def)
  have "list_all (label_ok (client_ok 40)) demo_div" by (simp add: demo_div_def op_run_def)
  from run_from_init [OF demo_div_run this]
  show "\<exists>s. reach (first_fit 64) (client_ok 40) s \<and> crashed s = Some DivError" by blast
qed

theorem realloc_divide_trap_witness:
  "kt_realloc ((devs init_sys)\<lparr>dev_run := 1\<rparr>) = Inl DivError"
  using realloc_divide_trap by (simp add: init_sys_eq)

definition demo_writer :: "label list" where
  "demo_writer = op_run 2 OpenS @ stat_round @ realloc_round @ op_run 2 (WriteS [65, 0]) @
     op_run 2 (WriteS [66, 0]) @ op_run 3 (WriteS [67, 0]) @ [Check 3] @ stat_round @ realloc_round"

lemma demo_writer_run:
  "case run_labels (first_fit 64) demo_writer init_sys of None \<Rightarrow> False
   | Some s \<Rightarrow> pcs s 3 = SleepW (Some 0) [67, 0] \<and> \<not> awake s 3 \<and> crashed s = None \<and>
       kb_isfull (kb_fifo (devs s)) (ds_kb_max (dev_stat (devs s))) = 0"
  by (simp add: demo_writer_def device_eval)

text \<open>A writer can sleep although the buffer has room: the reallocation thread raises
  \<open>ds_kb_max\<close> without waking the writers that wait for room.\<close>

theorem writer_sleeps_with_room:
  "\<exists>s v buf. reach (first_fit 64) (client_ok 40) s \<and> pcs s 3 = SleepW v buf \<and> \<not> awake s 3 \<and>
    crashed s = None \<and> kb_isfull (kb_fifo (devs s)) (ds_kb_max (dev_stat (devs s))) = 0"
proof -
  have "list_all (label_ok (client_ok 40)) demo_writer"
    by (simp add: demo_writer_def op_run_def stat_round_def realloc_round_def)
  from run_from_init [OF demo_writer_run this] show ?thesis by blast
qed

definition demo_stop :: "label list" where
  "demo_stop = [KTest 0, Acquire 0, Unload, Run 0 0]"

lemma demo_stop_run:
  "case run_labels (first_fit 64) demo_stop init_sys of None \<Rightarrow> False
   | Some s \<Rightarrow> pcs s 0 = Sched StatS \<and> \<not> awake s 0 \<and> should_stop s 0 \<and> exiting s = 1 \<and> crashed s = None"
  by (simp add: demo_stop_def device_eval)

text \<open>C40: unloading can hang: when \<open>kthread_stop\<close> runs after the thread has tested
  \<open>kthread_should_stop\<close> and before it sets its state to \<open>TASK_INTERRUPTIBLE\<close>, the wake-up is
  lost, the thread sleeps in \<open>schedule\<close> with the stop flag set, and neither it nor the
  unloading can go on.\<close>

theorem unload_lost_stop:
  "\<exists>s. reach (first_fit 64) (client_ok 40) s \<and> should_stop s 0 \<and> pcs s 0 = Sched StatS \<and>
    crashed s = None \<and> sys_step (first_fit 64) (KResume 0) s = None \<and>
    sys_step (first_fit 64) Unload s = None"
proof -
  have "list_all (label_ok (client_ok 40)) demo_stop" by (simp add: demo_stop_def)
  from run_from_init [OF demo_stop_run this] obtain s where s: "reach (first_fit 64) (client_ok 40) s"
    "pcs s 0 = Sched StatS" "\<not> awake s 0" "should_stop s 0" "exiting s = 1" "crashed s = None"
    by blast
  then have "sys_step (first_fit 64) (KResume 0) s = None" "sys_step (first_fit 64) Unload s = None"
    by (simp_all add: sys_step_def my_module_exit_def)
  with s show ?thesis by blast
qed

text \<open>When the second kernel thread cannot be created, \<open>my_module_init\<close> returns the error
  but leaves the device registered and the first thread running, in a module the kernel then
  discards.\<close>

theorem init_failure_not_undone:
  assumes "err \<noteq> 0"
  shows "fst (my_module_init 0 0 err s) = err \<and> registered (snd (my_module_init 0 0 err s)) \<and>
    pcs (snd (my_module_init 0 0 err s)) 0 = Head StatS"
  using assms by (simp add: my_module_init_def Let_def goto_def)

theorem init_failure_not_undone_witness:
  "fst (my_module_init 0 0 (- 12) static_sys) = - 12 \<and>
   registered (snd (my_module_init 0 0 (- 12) static_sys))"
  using init_failure_not_undone [of "- 12" static_sys] by simp

end
