(* ===== verification/Wbuf.thy ===== *)
theory Wbuf
  imports Kbuf
begin

text \<open>
  Writer/buffer.c and Reader/buffer.c: the linked lists of strings between the threads of the
  two client programs. The two files differ in what they free: the Writer's \<open>wbuf_ins\<close> frees
  the string it was given and its \<open>wbuf_ext\<close> frees the data block of the node, the Reader's do
  neither. What both share is written once, with the statement that differs as the argument
  \<open>rel\<close>; \<open>malloc\<close> is the parameter \<open>alloc\<close>.
\<close>

section \<open>The structure and its operations\<close>

record wbuf =
  wb_head :: ptr
  wb_tail :: ptr
  wb_count :: int
  wb_done :: int

definition wbuf_init :: "wbuf \<Rightarrow> wbuf" where
  "wbuf_init q = q\<lparr>wb_head := NULL, wb_tail := NULL, wb_count := 0, wb_done := 0\<rparr>"

definition wbuf_ins_with ::
  "(ptr \<Rightarrow> heap \<Rightarrow> heap res) \<Rightarrow> alloc_fn \<Rightarrow> ptr \<Rightarrow> wbuf \<Rightarrow> heap \<Rightarrow> (wbuf \<times> heap) res" where
  "wbuf_ins_with rel alloc value q h =
     (let (new_wbe, h1) = new_node alloc h in
      rbind (strlen value h1) (\<lambda>len.
      let (blk, h2) = new_chars alloc (len + 1) h1 in
      rbind (set_node_data new_wbe blk h2) (\<lambda>h3.
      rbind (get_node new_wbe h3) (\<lambda>(new_data, _).
      rbind (strcpy new_data value h3) (\<lambda>h4.
      rbind (rel value h4) (\<lambda>h5.
      rbind (set_node_next new_wbe NULL h5) (\<lambda>h6.
      rbind (if wb_head q = NULL then Inr (q\<lparr>wb_head := new_wbe\<rparr>, h6)
             else rbind (set_node_next (wb_tail q) new_wbe h6) (\<lambda>h7. Inr (q, h7)))
      (\<lambda>(q1, h7).
      Inr (q1\<lparr>wb_tail := new_wbe, wb_count := cint (wb_count q1 + 1)\<rparr>, h7)))))))))"

definition wbuf_ext_with ::
  "(ptr \<Rightarrow> heap \<Rightarrow> heap res) \<Rightarrow> alloc_fn \<Rightarrow> wbuf \<Rightarrow> heap \<Rightarrow> (ptr \<times> wbuf \<times> heap) res" where
  "wbuf_ext_with rel alloc q h =
     (let ext_wbe = wb_head q in
      rbind (get_node ext_wbe h) (\<lambda>(_, ext_next).
      let q1 = q\<lparr>wb_head := ext_next\<rparr>;
          q2 = (if wb_head q1 = NULL then q1\<lparr>wb_tail := NULL\<rparr> else q1);
          q3 = q2\<lparr>wb_count := cint (wb_count q2 - 1)\<rparr> in
      rbind (get_node ext_wbe h) (\<lambda>(ext_data, _).
      rbind (strlen ext_data h) (\<lambda>len.
      let (ret_value, h1) = new_chars alloc (len + 1) h in
      rbind (strcpy ret_value ext_data h1) (\<lambda>h2.
      rbind (get_node ext_wbe h2) (\<lambda>(ext_data', _).
      rbind (rel ext_data' h2) (\<lambda>h3.
      rbind (free_ptr ext_wbe h3) (\<lambda>h4.
      Inr (ret_value, q3, h4)))))))))"

definition wbuf_count :: "wbuf \<Rightarrow> int" where
  "wbuf_count q = wb_count q"

definition keep :: "ptr \<Rightarrow> heap \<Rightarrow> heap res" where
  "keep p h = Inr h"

definition w_wbuf_ins :: "alloc_fn \<Rightarrow> ptr \<Rightarrow> wbuf \<Rightarrow> heap \<Rightarrow> (wbuf \<times> heap) res" where
  "w_wbuf_ins = wbuf_ins_with free_ptr"

definition w_wbuf_ext :: "alloc_fn \<Rightarrow> wbuf \<Rightarrow> heap \<Rightarrow> (ptr \<times> wbuf \<times> heap) res" where
  "w_wbuf_ext = wbuf_ext_with free_ptr"

definition r_wbuf_ins :: "alloc_fn \<Rightarrow> ptr \<Rightarrow> wbuf \<Rightarrow> heap \<Rightarrow> (wbuf \<times> heap) res" where
  "r_wbuf_ins = wbuf_ins_with keep"

definition r_wbuf_ext :: "alloc_fn \<Rightarrow> wbuf \<Rightarrow> heap \<Rightarrow> (ptr \<times> wbuf \<times> heap) res" where
  "r_wbuf_ext = wbuf_ext_with keep"

section \<open>The representation\<close>

definition wb_rep :: "heap \<Rightarrow> wbuf \<Rightarrow> entry list \<Rightarrow> bool" where
  "wb_rep h q es \<longleftrightarrow> buf_rep h (wb_head q) (wb_tail q) (wb_count q) es"

lemma wb_rep_cong:
  "wb_rep h q es \<Longrightarrow> (\<And>a. a \<in> set (cells es) \<Longrightarrow> h' a = h a) \<Longrightarrow> wb_rep h' q es"
  unfolding wb_rep_def by (rule buf_rep_cong)

lemma wb_rep_frame: "wb_rep h q es \<Longrightarrow> a \<notin> set (cells es) \<Longrightarrow> wb_rep (h(a := v)) q es"
  unfolding wb_rep_def by (rule buf_rep_frame)

lemma wb_rep_fresh: "wb_rep h q es \<Longrightarrow> h a = None \<Longrightarrow> a \<notin> set (cells es)"
  unfolding wb_rep_def by (rule buf_rep_fresh)

lemma wb_rep_head: "wb_rep h q es \<Longrightarrow> wb_head q = NULL \<longleftrightarrow> es = []"
  unfolding wb_rep_def by (rule buf_rep_head)

lemma wb_rep_done [simp]: "wb_rep h (q\<lparr>wb_done := x\<rparr>) es = wb_rep h q es"
  by (simp add: wb_rep_def)

lemma wb_rep_reset [simp]: "wb_rep h (q\<lparr>wb_head := NULL, wb_count := 0\<rparr>) []"
  by (simp add: wb_rep_def)

lemma wbuf_init_rep: "wb_rep h (wbuf_init q) []"
  by (simp add: wb_rep_def wbuf_init_def)

section \<open>Insertion\<close>

text \<open>The statements are those of \<open>kb_push\<close>, on a structure with one more field.\<close>

definition kb_of :: "wbuf \<Rightarrow> kb" where
  "kb_of q = \<lparr>kb_head = wb_head q, kb_tail = wb_tail q, kb_count = wb_count q\<rparr>"

lemma kb_of_simps [simp]:
  "kb_head (kb_of q) = wb_head q" "kb_tail (kb_of q) = wb_tail q" "kb_count (kb_of q) = wb_count q"
  by (simp_all add: kb_of_def)

lemma kb_rep_kb_of [simp]: "kb_rep h (kb_of q) es = wb_rep h q es"
  by (simp add: kb_rep_def wb_rep_def)

lemma r_wbuf_ins_kb_push:
  "r_wbuf_ins alloc value q h = rbind (kb_push alloc value (kb_of q) h) (\<lambda>(_, k, h').
     Inr (q\<lparr>wb_head := kb_head k, wb_tail := kb_tail k, wb_count := kb_count k\<rparr>, h'))"
  by (cases q; cases "wb_head q = NULL")
    (auto simp: r_wbuf_ins_def wbuf_ins_with_def kb_push_def keep_def rbind_def Let_def kb_of_def
      split: sum.split prod.split)

text \<open>Freeing the argument on the way frees it at the end, when it is no block of the list.\<close>

lemma set_node_next_remove:
  "set_node_next p x h = Inr h' \<Longrightarrow> p \<noteq> Some v \<Longrightarrow> set_node_next p x (h(v := None)) = Inr (h'(v := None))"
  by (auto simp: set_node_next_def result_simps get_node_def fun_upd_twist split: option.splits obj.splits)

lemma strcpy_source: "strcpy p (Some v) h = Inr h' \<Longrightarrow> h' v \<noteq> None"
  by (auto simp: strcpy_def result_simps dest!: read_str_InrD get_chars_InrD split: if_splits)

lemma w_wbuf_ins_free:
  assumes rep: "wb_rep h q es" and v: "v \<notin> set (cells es)"
    and ok: "r_wbuf_ins alloc (Some v) q h = Inr (q', h')"
  shows "w_wbuf_ins alloc (Some v) q h = Inr (q', h'(v := None))"
proof -
  obtain n h1 where n: "new_node alloc h = (n, h1)" by fastforce
  with ok obtain len where len: "strlen (Some v) h1 = Inr len"
    by (auto simp: r_wbuf_ins_def wbuf_ins_with_def result_simps)
  obtain blk h2 where blk: "new_chars alloc (len + 1) h1 = (blk, h2)" by fastforce
  with ok n len obtain h3 nd nn h4 h6 where st:
    "set_node_data n blk h2 = Inr h3" "get_node n h3 = Inr (nd, nn)" "strcpy nd (Some v) h3 = Inr h4"
    "set_node_next n NULL h4 = Inr h6"
    and link: "rbind (if wb_head q = NULL then Inr (q\<lparr>wb_head := n\<rparr>, h6)
             else rbind (set_node_next (wb_tail q) n h6) (\<lambda>h7. Inr (q, h7)))
           (\<lambda>(q1, h7). Inr (q1\<lparr>wb_tail := n, wb_count := cint (wb_count q1 + 1)\<rparr>, h7)) = Inr (q', h')"
    by (auto simp: r_wbuf_ins_def wbuf_ins_with_def keep_def result_simps)
  have nv: "n \<noteq> Some v" using n len
    by (auto simp: new_node_def new_obj_def strlen_def read_str_def get_chars_def split: option.splits)
  have tv: "wb_head q \<noteq> NULL \<Longrightarrow> wb_tail q \<noteq> Some v"
    using rep v wb_rep_head [OF rep] cells_node [of "last es" es] by (auto simp: wb_rep_def buf_rep_def)
  have "free_ptr (Some v) h4 = Inr (h4(v := None))"
    using strcpy_source [OF st(3)] by (simp add: free_ptr_def)
  moreover have "set_node_next n NULL (h4(v := None)) = Inr (h6(v := None))"
    using set_node_next_remove [OF st(4) nv] .
  ultimately show ?thesis
    using n len blk st link tv set_node_next_remove
    by (auto simp: w_wbuf_ins_def wbuf_ins_with_def result_simps split: if_splits)
qed

context allocator
begin

lemma r_wbuf_ins_cases:
  assumes "wb_rep h q es" and "read_str data h = Inr s"
  obtains (oom) "r_wbuf_ins alloc data q h = Inl NullDeref"
  | (ok) a d q' h' where "r_wbuf_ins alloc data q h = Inr (q', h')" and "wb_done q' = wb_done q"
      and "wb_rep h' q' (es @ [(a, d, s)])" and "h a = None" and "h d = None" and "a \<noteq> d"
      and "\<forall>x. x \<notin> set (cells es) \<union> {a, d} \<longrightarrow> h' x = h x"
proof -
  from assms(1) have "kb_rep h (kb_of q) es" by simp
  from this assms(2) show thesis
  proof (cases rule: kb_push_cases)
    case oom
    then show thesis by (intro that(1)) (simp add: r_wbuf_ins_kb_push)
  next
    case (ok a d k h')
    then show thesis
      by (intro that(2) [of "q\<lparr>wb_head := kb_head k, wb_tail := kb_tail k, wb_count := kb_count k\<rparr>" h' a d])
        (auto simp: r_wbuf_ins_kb_push wb_rep_def kb_rep_def)
  qed
qed

text \<open>A null node or a null data block faults before the argument is freed.\<close>

lemma w_wbuf_ins_oom:
  assumes rep: "wb_rep h q es" and s: "read_str (Some v) h = Inr s" and v: "v \<notin> set (cells es)"
    and oom: "r_wbuf_ins alloc (Some v) q h = Inl NullDeref"
  shows "w_wbuf_ins alloc (Some v) q h = Inl NullDeref"
proof (cases "alloc 8 h")
  case None
  with s show ?thesis
    by (simp add: w_wbuf_ins_def wbuf_ins_with_def new_node_def new_obj_def strlen_eq
        set_node_data_def split: prod.splits)
next
  case (Some a)
  have ha: "h a = None" using Some by (rule fresh)
  with s have s': "read_str (Some v) (h(a \<mapsto> Node NULL NULL)) = Inr s"
    by (auto simp: read_str_def get_chars_def)
  show ?thesis
  proof (cases "alloc (length s + 1) (h(a \<mapsto> Node NULL NULL))")
    case None
    with Some s' show ?thesis
      by (simp add: w_wbuf_ins_def wbuf_ins_with_def new_node_def new_chars_def new_obj_def strlen_eq
          set_node_data_def strcpy_def)
  next
    case d: (Some d)
    from rep have "kb_rep h (kb_of q) es" by simp
    from kb_push_ok [OF this s Some d] oom show ?thesis
      by (auto simp: r_wbuf_ins_kb_push)
  qed
qed

lemma w_wbuf_ins_cases:
  assumes rep: "wb_rep h q es" and s: "read_str (Some v) h = Inr s" and v: "v \<notin> set (cells es)"
  obtains (oom) "w_wbuf_ins alloc (Some v) q h = Inl NullDeref"
  | (ok) a d q' h' where "w_wbuf_ins alloc (Some v) q h = Inr (q', h')" and "wb_done q' = wb_done q"
      and "wb_rep h' q' (es @ [(a, d, s)])" and "h a = None" and "h d = None" and "a \<noteq> d"
      and "\<forall>x. x \<notin> set (cells es) \<union> {a, d, v} \<longrightarrow> h' x = h x" and "h' v = None"
  using rep s
proof (cases rule: r_wbuf_ins_cases)
  case oom
  with rep s v have "w_wbuf_ins alloc (Some v) q h = Inl NullDeref" by (rule w_wbuf_ins_oom)
  then show thesis by (rule that(1))
next
  case (ok a d q' h')
  have va: "v \<noteq> a" "v \<noteq> d" using s ok(4,5) by (auto dest: read_str_InrD)
  show thesis
  proof (rule that(2))
    show "w_wbuf_ins alloc (Some v) q h = Inr (q', h'(v := None))"
      using rep v ok(1) by (rule w_wbuf_ins_free)
    show "wb_rep (h'(v := None)) q' (es @ [(a, d, s)])"
      using ok(3) v va by (intro wb_rep_frame) auto
  qed (use ok in auto)
qed

end

section \<open>Extraction\<close>

context allocator
begin

lemma wbuf_ext_cases:
  assumes rep: "wb_rep h q ((a, d, s) # es)" and rel: "rel = free_ptr \<or> rel = keep"
  obtains (oom) "wbuf_ext_with rel alloc q h = Inl NullDeref"
  | (ok) r q' h' where "wbuf_ext_with rel alloc q h = Inr (Some r, q', h')" and "wb_done q' = wb_done q"
      and "wb_rep h' q' es" and "h r = None" and "h' r = Some (Chars (cstr s))" and "0 \<notin> set s"
      and "\<forall>x. x \<notin> {a, d, r} \<longrightarrow> h' x = h x"
proof -
  from rep obtain nx where hp: "wb_head q = Some a" "h a = Some (Node (Some d) nx)"
    and d: "h d = Some (Chars (cstr s))" "0 \<notin> set s" "a \<noteq> d"
    and fr: "a \<notin> set (cells es)" "d \<notin> set (cells es)"
    and rep': "buf_rep h nx (if nx = NULL then NULL else wb_tail q) (cint (wb_count q - 1)) es"
    unfolding wb_rep_def by (rule buf_rep_unlink)
  show thesis
  proof (cases "alloc (length s + 1) h")
    case None
    with hp d show thesis
      by (intro that(1)) (simp add: wbuf_ext_with_def strlen_def new_chars_def new_obj_def strcpy_def)
  next
    case (Some r)
    from fresh [OF this] have hr: "h r = None" .
    with hp d have ne: "r \<noteq> a" "r \<noteq> d" by auto
    from rep' hr have r: "r \<notin> set (cells es)" by (rule buf_rep_fresh)
    let ?q = "q\<lparr>wb_head := nx, wb_tail := (if nx = NULL then NULL else wb_tail q),
      wb_count := cint (wb_count q - 1)\<rparr>"
    have "\<exists>x. rel (Some d) (h(r \<mapsto> Chars (cstr s))) = Inr (h(r \<mapsto> Chars (cstr s), d := x))"
      using rel
    proof
      assume "rel = keep"
      with d(1) ne show ?thesis by (intro exI [of _ "h d"]) (simp add: keep_def fun_upd_idem)
    qed (use d(1) ne in \<open>auto simp: free_ptr_def\<close>)
    then obtain x where rel': "rel (Some d) (h(r \<mapsto> Chars (cstr s))) = Inr (h(r \<mapsto> Chars (cstr s), d := x))"
      by blast
    let ?h = "h(r \<mapsto> Chars (cstr s), d := x, a := None)"
    have cpy: "strcpy (Some r) (Some d) (h(r \<mapsto> Chars (replicate (length s + 1) None))) =
        Inr (h(r \<mapsto> Chars (cstr s)))"
      using d ne strcpy_fresh [of "Some d" "h(r \<mapsto> Chars (replicate (length s + 1) None))" s r] by simp
    have "wbuf_ext_with rel alloc q h = Inr (Some r, ?q, ?h)"
      using Some hp d(1,2) ne \<open>a \<noteq> d\<close> cpy rel'
      by (simp add: wbuf_ext_with_def strlen_eq new_chars_def new_obj_def get_node_def free_ptr_def Let_def)
    moreover have "wb_rep ?h ?q es"
      using rep' fr r by (simp add: wb_rep_def buf_rep_frame)
    ultimately show thesis using hr ne d(2) by (intro that(2) [of r ?q ?h]) auto
  qed
qed

end

section \<open>The contract\<close>

lemma w_linked_fifo:
  "allocator alloc \<Longrightarrow> linked_fifo wb_rep (w_wbuf_ins alloc) (\<lambda>_ :: unit. w_wbuf_ext alloc) (\<lambda>_ _. True)"
proof (unfold_locales, goal_cases)
  case (1 h q es h')
  then show ?case by (metis wb_rep_cong)
next
  case (2 h q es p s q' h')
  from 2(4) obtain v where p: "p = Some v" by (auto dest: read_str_InrD)
  with 2 have v: "v \<notin> set (cells es)" by (simp add: ptr_outside_def)
  show ?case
    by (rule allocator.w_wbuf_ins_cases [OF 2(1,2) 2(4) [unfolded p] v]) (use 2(5) p in auto)
next
  case (3 h q es p s e)
  from 3(4) obtain v where p: "p = Some v" by (auto dest: read_str_InrD)
  with 3 have v: "v \<notin> set (cells es)" by (simp add: ptr_outside_def)
  show ?case
    by (rule allocator.w_wbuf_ins_cases [OF 3(1,2) 3(4) [unfolded p] v]) (use 3(5) p in auto)
next
  case (4 h q a d s es x p q' h')
  show ?case
    by (rule allocator.wbuf_ext_cases [OF 4(1,2), of free_ptr])
      (use 4 in \<open>auto simp: w_wbuf_ext_def\<close>)
qed

lemma r_linked_fifo:
  "allocator alloc \<Longrightarrow> linked_fifo wb_rep (r_wbuf_ins alloc) (\<lambda>_ :: unit. r_wbuf_ext alloc) (\<lambda>_ _. True)"
proof (unfold_locales, goal_cases)
  case (1 h q es h')
  then show ?case by (metis wb_rep_cong)
next
  case (2 h q es p s q' h')
  show ?case by (rule allocator.r_wbuf_ins_cases [OF 2(1,2,4)]) (use 2(5) in auto)
next
  case (3 h q es p s e)
  show ?case by (rule allocator.r_wbuf_ins_cases [OF 3(1,2,4)]) (use 3(5) in auto)
next
  case (4 h q a d s es x p q' h')
  show ?case
    by (rule allocator.wbuf_ext_cases [OF 4(1,2), of keep])
      (use 4 in \<open>auto simp: r_wbuf_ext_def\<close>)
qed

sublocale allocator \<subseteq> wwq: linked_fifo wb_rep "w_wbuf_ins alloc" "\<lambda>_ :: unit. w_wbuf_ext alloc" "\<lambda>_ _. True"
  by (rule w_linked_fifo) unfold_locales

sublocale allocator \<subseteq> rwq: linked_fifo wb_rep "r_wbuf_ins alloc" "\<lambda>_ :: unit. r_wbuf_ext alloc" "\<lambda>_ _. True"
  by (rule r_linked_fifo) unfold_locales

end
