(* ===== verification/Client_Fun.thy ===== *)
theory Client_Fun
  imports CMem
begin

text \<open>
  Writer/fun.c and Reader/fun.c, two copies of the same three functions: the generator of random
  strings and the two case conversions. The results of successive calls of \<open>rand\<close> are the
  parameter \<open>rnd\<close>. The loops are recursive functions over the block they walk through; they
  stop at the terminator or fault at the end of the block.
\<close>

section \<open>Single characters\<close>

abbreviation MAXL :: int where "MAXL \<equiv> 40"

definition get_char :: "ptr \<Rightarrow> nat \<Rightarrow> heap \<Rightarrow> byte res" where
  "get_char p i h = rbind (get_chars p h) (\<lambda>cs.
     if i < length cs then (case cs ! i of None \<Rightarrow> Inl Uninit | Some c \<Rightarrow> Inr c) else Inl OutOfBounds)"

definition set_char :: "ptr \<Rightarrow> nat \<Rightarrow> byte \<Rightarrow> heap \<Rightarrow> heap res" where
  "set_char p i c h = rbind (get_chars p h) (\<lambda>cs.
     if i < length cs then Inr (h(the p \<mapsto> Chars (cs[i := Some c]))) else Inl OutOfBounds)"

definition new_zeroed :: "alloc_fn \<Rightarrow> nat \<Rightarrow> heap \<Rightarrow> ptr \<times> heap" where
  "new_zeroed alloc n h = new_obj alloc n (Chars (replicate n (Some 0))) h"

text \<open>\<open>(char) tmp\<close> keeps the low byte of an \<open>int\<close>; \<open>(int) c\<close> sign-extends.\<close>

definition to_char :: "int \<Rightarrow> byte" where
  "to_char x = word_of_int x"

definition block_size :: "ptr \<Rightarrow> heap \<Rightarrow> nat" where
  "block_size p h = (case get_chars p h of Inl _ \<Rightarrow> 0 | Inr cs \<Rightarrow> length cs)"

lemma get_char_bound: "get_char p i h = Inr c \<Longrightarrow> i < block_size p h"
  by (auto simp: get_char_def block_size_def result_simps split: if_splits)

lemma set_char_block_size: "set_char p i c h = Inr h' \<Longrightarrow> block_size p h' = block_size p h"
  by (auto simp: set_char_def block_size_def result_simps split: if_splits dest!: get_chars_InrD)

section \<open>The functions\<close>

text \<open>The loop of \<open>gen_data\<close> from index \<open>i\<close>; the call of \<open>rand\<close> in round \<open>i\<close> is the one after the
  \<open>i + 1\<close> calls before it.\<close>

function gen_loop :: "(nat \<Rightarrow> int) \<Rightarrow> ptr \<Rightarrow> int \<Rightarrow> nat \<Rightarrow> heap \<Rightarrow> heap res" where
  "gen_loop rnd p n i h =
     (if int i < n
      then rbind (cmod (rnd (Suc i)) 25) (\<lambda>r.
           rbind (set_char p i (to_char (r + 65)) h) (\<lambda>h'. gen_loop rnd p n (Suc i) h'))
      else Inr h)"
  by pat_completeness auto
termination by (relation "measure (\<lambda>(_, _, n, i, _). nat n - i)") auto

declare gen_loop.simps [simp del]

definition gen_data :: "alloc_fn \<Rightarrow> (nat \<Rightarrow> int) \<Rightarrow> heap \<Rightarrow> (ptr \<times> heap) res" where
  "gen_data alloc rnd h =
     rbind (cmod (rnd 0) (MAXL - 1)) (\<lambda>r.
     let n = r + 1;
         (data, h1) = new_zeroed alloc (nat (n + 1)) h in
     rbind (gen_loop rnd data n 0 h1) (\<lambda>h2.
     rbind (set_char data (nat n) 0 h2) (\<lambda>h3. Inr (data, h3))))"

text \<open>The loop that \<open>to_lower\<close> and \<open>to_upper\<close> share; \<open>k\<close> is what it adds to every character.\<close>

function shift_loop :: "int \<Rightarrow> ptr \<Rightarrow> nat \<Rightarrow> heap \<Rightarrow> heap res" where
  "shift_loop k p i h =
     (case get_char p i h of
        Inl e \<Rightarrow> Inl e
      | Inr c \<Rightarrow> if c = 0 then Inr h
                 else (case set_char p i (to_char (sint c + k)) h of
                         Inl e \<Rightarrow> Inl e
                       | Inr h' \<Rightarrow> shift_loop k p (Suc i) h'))"
  by pat_completeness auto
termination
proof (relation "measure (\<lambda>(_, p, i, h). block_size p h - i)")
  fix k p i h c h'
  assume "get_char p i h = Inr c" "set_char p i (to_char (sint c + k)) h = Inr h'"
  then show "((k, p, Suc i, h'), k, p, i, h) \<in> measure (\<lambda>(_, p, i, h). block_size p h - i)"
    using set_char_block_size [of p i _ h h'] get_char_bound [of p i h c] by simp
qed simp

declare shift_loop.simps [simp del]

definition to_lower :: "ptr \<Rightarrow> heap \<Rightarrow> heap res" where
  "to_lower letters h = shift_loop 32 letters 0 h"

definition to_upper :: "ptr \<Rightarrow> heap \<Rightarrow> heap res" where
  "to_upper letters h = shift_loop (- 32) letters 0 h"

section \<open>What they compute\<close>

text \<open>The string that is left when every byte of \<open>s\<close> is shifted by \<open>k\<close>: a byte that becomes 0
  ends it early.\<close>

definition shift_str :: "int \<Rightarrow> byte list \<Rightarrow> byte list" where
  "shift_str k s = takeWhile (\<lambda>c. c \<noteq> 0) (map (\<lambda>c. c + word_of_int k) s)"

lemma to_char_sint: "to_char (sint c + k) = c + word_of_int k"
  by (simp add: to_char_def)

lemma shift_loop_ok:
  assumes "h a = Some (Chars (map Some xs @ map Some s @ Some 0 # rest))" and "0 \<notin> set s"
  shows "shift_loop k (Some a) (length xs) h =
    Inr (h(a \<mapsto> Chars (map Some xs @ map Some (map (\<lambda>c. c + word_of_int k) s) @ Some 0 # rest)))"
  using assms
proof (induction s arbitrary: xs h)
  case Nil
  then have "get_char (Some a) (length xs) h = Inr 0"
    by (simp add: get_char_def nth_append)
  with Nil show ?case by (simp add: shift_loop.simps fun_upd_idem)
next
  case (Cons c s)
  let ?c = "c + word_of_int k"
  let ?h = "h(a \<mapsto> Chars (map Some (xs @ [?c]) @ map Some s @ Some 0 # rest))"
  have "get_char (Some a) (length xs) h = Inr c"
    using Cons.prems by (simp add: get_char_def nth_append)
  moreover have "set_char (Some a) (length xs) (to_char (sint c + k)) h = Inr ?h"
    using Cons.prems by (simp add: set_char_def to_char_sint list_update_append)
  moreover have "shift_loop k (Some a) (length (xs @ [?c])) ?h = Inr (?h(a \<mapsto> Chars (map Some (xs @ [?c]) @
      map Some (map (\<lambda>c. c + word_of_int k) s) @ Some 0 # rest)))"
    by (rule Cons.IH) (use Cons.prems in auto)
  ultimately show ?case using Cons.prems by (subst shift_loop.simps) simp
qed

lemma read_cells_takeWhile:
  "read_cells (map Some s @ Some 0 # rest) = Inr (takeWhile (\<lambda>c. c \<noteq> 0) s)"
  by (induction s) auto

text \<open>A conversion changes the string block and nothing else.\<close>

lemma shift_string:
  assumes "h a = Some (Chars (cstr s))" and "0 \<notin> set s"
  obtains cs where "shift_loop k (Some a) 0 h = Inr (h(a \<mapsto> Chars cs))" and "length cs = Suc (length s)"
    and "read_cells cs = Inr (shift_str k s)"
proof (rule that)
  let ?s = "map (\<lambda>c. c + word_of_int k) s"
  show "shift_loop k (Some a) 0 h = Inr (h(a \<mapsto> Chars (map Some ?s @ [Some 0])))"
    using shift_loop_ok [of h a "[]" s "[]" k] assms by (simp add: cstr_def)
  show "read_cells (map Some ?s @ [Some 0]) = Inr (shift_str k s)"
    unfolding shift_str_def by (rule read_cells_takeWhile)
qed simp

lemma shift_str_nonzero: "0 \<notin> set (shift_str k s)"
  by (auto simp: shift_str_def dest: set_takeWhileD)

subsection \<open>Capital letters\<close>

text \<open>The strings that \<open>gen_data\<close> makes: between 1 and 39 capital letters, never a Z.\<close>

definition capitals :: "byte list \<Rightarrow> bool" where
  "capitals s \<longleftrightarrow> 1 \<le> length s \<and> length s \<le> 39 \<and> (\<forall>c \<in> set s. 65 \<le> c \<and> c \<le> 89)"

lemma capital_shift:
  assumes "65 \<le> c" and "c \<le> (89 :: byte)"
  shows "c + 32 \<noteq> 0" "97 \<le> c + 32" "c + 32 \<le> 121" "c \<noteq> 0"
  using assms by (simp_all add: word_le_nat_alt unat_word_ariths flip: unat_eq_zero)

lemma shift_capitals:
  assumes "capitals s"
  shows "shift_str 32 s = map (\<lambda>c. c + 32) s"
  using assms capital_shift(1) by (auto simp: capitals_def shift_str_def takeWhile_eq_all_conv)

lemma shift_back:
  assumes "capitals s"
  shows "shift_str (- 32) (shift_str 32 s) = s"
proof -
  have "map (\<lambda>c. c + 32 + word_of_int (- 32)) s = s" by simp
  moreover have "0 \<notin> set s" using assms capital_shift(4) by (auto simp: capitals_def)
  ultimately show ?thesis
    by (simp add: shift_capitals [OF assms]) (auto simp: shift_str_def comp_def takeWhile_eq_all_conv)
qed

subsection \<open>The generator\<close>

lemma to_char_capital:
  assumes "0 \<le> r" and "r < 25"
  shows "65 \<le> to_char (r + 65) \<and> to_char (r + 65) \<le> 89"
proof -
  have "uint (to_char (r + 65)) = r + 65"
    unfolding to_char_def uint_word_of_int using assms by simp
  with assms show ?thesis by (simp add: word_le_def)
qed

lemma gen_loop_ok:
  assumes "\<And>j. 0 \<le> rnd j" and "n \<ge> 0"
    and "h a = Some (Chars (map Some xs @ replicate k (Some 0)))" and "length xs + k = Suc (nat n)" and "length xs \<le> nat n"
  obtains ys where "gen_loop rnd (Some a) n (length xs) h = Inr (h(a \<mapsto> Chars (map Some (xs @ ys) @ [Some 0])))"
    and "length (xs @ ys) = nat n" and "\<forall>c \<in> set ys. 65 \<le> c \<and> c \<le> 89"
proof -
  have "\<exists>ys. gen_loop rnd (Some a) n (length xs) h = Inr (h(a \<mapsto> Chars (map Some (xs @ ys) @ [Some 0])))
    \<and> length (xs @ ys) = nat n \<and> (\<forall>c \<in> set ys. 65 \<le> c \<and> c \<le> 89)"
    using assms(3-5)
  proof (induction k arbitrary: xs h)
    case 0
    then show ?case by simp
  next
    case (Suc k)
    show ?case
    proof (cases "length xs = nat n")
      case True
      with Suc.prems have "k = 0" by simp
      with True Suc.prems assms(2) show ?thesis
        by (intro exI [of _ "[]"]) (simp add: gen_loop.simps fun_upd_idem)
    next
      case False
      let ?r = "rnd (Suc (length xs)) mod 25"
      let ?c = "to_char (?r + 65)"
      let ?h = "h(a \<mapsto> Chars (map Some (xs @ [?c]) @ replicate k (Some 0)))"
      have less: "int (length xs) < n" using False Suc.prems(3) by linarith
      have set: "set_char (Some a) (length xs) ?c h = Inr ?h"
        using Suc.prems by (simp add: set_char_def list_update_append)
      have "\<exists>ys. gen_loop rnd (Some a) n (length (xs @ [?c])) ?h =
          Inr (?h(a \<mapsto> Chars (map Some ((xs @ [?c]) @ ys) @ [Some 0]))) \<and>
        length ((xs @ [?c]) @ ys) = nat n \<and> (\<forall>c \<in> set ys. 65 \<le> c \<and> c \<le> 89)"
        by (rule Suc.IH) (use Suc.prems False in auto)
      then obtain ys where ys: "gen_loop rnd (Some a) n (length (xs @ [?c])) ?h =
          Inr (?h(a \<mapsto> Chars (map Some ((xs @ [?c]) @ ys) @ [Some 0])))"
        "length ((xs @ [?c]) @ ys) = nat n" "\<forall>c \<in> set ys. 65 \<le> c \<and> c \<le> 89" by blast
      have c: "65 \<le> ?c \<and> ?c \<le> 89"
        by (rule to_char_capital) simp_all
      have "gen_loop rnd (Some a) n (length xs) h = gen_loop rnd (Some a) n (length (xs @ [?c])) ?h"
        using less set assms(1) by (subst gen_loop.simps) (simp add: arith32)
      with ys c show ?thesis by (intro exI [of _ "?c # ys"]) auto
    qed
  qed
  with that show thesis by blast
qed

context allocator
begin

lemma gen_data_cases:
  assumes "\<And>j. 0 \<le> rnd j"
  obtains (oom) "gen_data alloc rnd h = Inl NullDeref"
  | (ok) a s where "gen_data alloc rnd h = Inr (Some a, h(a \<mapsto> Chars (cstr s)))" and "h a = None"
      and "capitals s"
proof -
  define n where "n = rnd 0 mod 39 + 1"
  have n: "0 < n" "n \<le> 39" using pos_mod_bound [of 39 "rnd 0"] by (auto simp: n_def)
  have r: "cmod (rnd 0) 39 = Inr (rnd 0 mod 39)" using assms by (simp add: arith32)
  show thesis
  proof (cases "alloc (nat (n + 1)) h")
    case None
    have "gen_loop rnd NULL n 0 h = Inl NullDeref"
      using n assms by (simp add: gen_loop.simps set_char_def arith32)
    with None r n_def show thesis
      by (intro that(1)) (simp add: gen_data_def new_zeroed_def new_obj_def)
  next
    case (Some a)
    let ?h = "h(a \<mapsto> Chars (replicate (nat (n + 1)) (Some 0)))"
    obtain ys where ys: "gen_loop rnd (Some a) n (length ([] :: byte list)) ?h =
        Inr (?h(a \<mapsto> Chars (map Some ([] @ ys) @ [Some 0])))"
      "length ([] @ ys) = nat n" "\<forall>c \<in> set ys. 65 \<le> c \<and> c \<le> 89"
      by (rule gen_loop_ok [of rnd n ?h a "[]" "nat (n + 1)", OF assms]) (use n in auto)
    have fin: "set_char (Some a) (nat n) 0 (h(a \<mapsto> Chars (map Some ys @ [Some 0]))) =
        Inr (h(a \<mapsto> Chars (cstr ys)))"
      using ys(2) by (simp add: set_char_def cstr_def list_update_append)
    show thesis
    proof (rule that(2) [of a ys])
      show "gen_data alloc rnd h = Inr (Some a, h(a \<mapsto> Chars (cstr ys)))"
        using Some r ys(1) fin n_def by (simp add: gen_data_def new_zeroed_def new_obj_def Let_def)
      show "capitals ys" using ys(2,3) n by (auto simp: capitals_def)
    qed (rule fresh [OF Some])
  qed
qed

end

end
