(* ===== verification/Pipeline.thy ===== *)
theory Pipeline
  imports Wbuf Client_Fun "HOL-Library.Multiset"
begin

text \<open>
  The thread structure that Writer/write.c and Reader/read.c share: source threads fill the raw
  buffer \<open>rbuffer\<close>, elaboration threads convert its strings and put them into \<open>ebuffer\<close>, sink
  threads empty it, and \<open>main\<close> joins the three groups one after the other, closing each buffer
  in between with \<open>release_t\<close>. What differs between the two programs is a record of functions,
  \<open>program\<close>; the theories Writer and Reader define it.

  A thread is at a program counter \<open>ppc\<close>; a mutex records its owner. One step takes a mutex
  (\<open>Acq\<close>), runs what follows up to the next blocking point (\<open>Exec\<close>), delivers SIGINT to a thread
  (\<open>Intr\<close>), runs the next part of the signal handler (\<open>HStep\<close>), which executes in the context
  of the interrupted thread and keeps that thread from running, or ends a condition wait without
  a signal (\<open>Spurious\<close>), which POSIX allows. The counter of signals is assumed not to overflow.
\<close>

section \<open>State\<close>

datatype tid = Main | Src nat | Elab nat | Sink nat

datatype ppc =
    SStart | SLock ptr | SCrit ptr
  | ELock | ECrit | EWait | EGot ptr | EPut ptr | ECrit2 ptr
  | KLock | KCrit | KWait
  | Join nat nat | RelLock nat | RelCrit nat
  | Done

datatype owner = Thr tid | Hnd

text \<open>What the threads do to the strings, in the order in which it happens: a source thread
  puts a string into \<open>rbuffer\<close>, a sink thread writes it to the device, gives up writing it, or
  prints it.\<close>

datatype event = Made "byte list" | Sent "byte list" | Lost "byte list" | Printed "byte list"

record shared =
  pmem :: heap
  rbuffer :: wbuf
  ebuffer :: wbuf
  todo :: int
  looping :: int     \<comment> \<open>\<open>write_loop\<close> or \<open>read_loop\<close>\<close>
  trace :: "event list"

record proc =
  shr :: shared
  rmutex :: "owner option"
  emutex :: "owner option"
  ppcs :: "tid \<Rightarrow> ppc"
  hnd :: "(tid \<times> nat) option"  \<comment> \<open>the interrupted thread and how far the handler is\<close>
  control :: int
  nsrc :: nat
  nelab :: nat
  nsink :: nat
  pcrashed :: "fault option"

text \<open>What a step gets from outside: the results of the calls of \<open>rand\<close>, of the calls of
  \<open>write\<close> or \<open>read\<close> on the device, and the bytes the device delivered.\<close>

record env =
  rnd :: "nat \<Rightarrow> int"
  dev_res :: "nat \<Rightarrow> int"
  dev_bytes :: "byte list"

record program =
  p_start :: "shared \<Rightarrow> ptr \<times> shared"
  p_source :: "env \<Rightarrow> ptr \<Rightarrow> shared \<Rightarrow> (bool \<times> bool \<times> shared) res"
  p_ins :: "ptr \<Rightarrow> wbuf \<Rightarrow> heap \<Rightarrow> (wbuf \<times> heap) res"
  p_ext :: "wbuf \<Rightarrow> heap \<Rightarrow> (ptr \<times> wbuf \<times> heap) res"
  p_conv :: "ptr \<Rightarrow> heap \<Rightarrow> heap res"
  p_sink :: "env \<Rightarrow> ptr \<Rightarrow> shared \<Rightarrow> shared res"

definition pgoto :: "tid \<Rightarrow> ppc \<Rightarrow> proc \<Rightarrow> proc" where
  "pgoto t p s = s\<lparr>ppcs := (ppcs s)(t := p)\<rparr>"

definition pcrash :: "fault \<Rightarrow> proc \<Rightarrow> proc" where
  "pcrash f s = s\<lparr>pcrashed := Some f\<rparr>"

section \<open>Condition variables\<close>

text \<open>\<open>pthread_cond_signal\<close> wakes one waiting thread, number \<open>u\<close>, if any thread waits;
  \<open>pthread_cond_broadcast\<close> wakes them all. A woken thread has to take the mutex again.\<close>

definition signal_rcv :: "nat \<Rightarrow> proc \<Rightarrow> proc option" where
  "signal_rcv u s =
     (if list_ex (\<lambda>i. ppcs s (Elab i) = EWait) [0..<nelab s]
      then if u < nelab s \<and> ppcs s (Elab u) = EWait then Some (pgoto (Elab u) ELock s) else None
      else Some s)"

definition signal_ecv :: "nat \<Rightarrow> proc \<Rightarrow> proc option" where
  "signal_ecv u s =
     (if list_ex (\<lambda>i. ppcs s (Sink i) = KWait) [0..<nsink s]
      then if u < nsink s \<and> ppcs s (Sink u) = KWait then Some (pgoto (Sink u) KLock s) else None
      else Some s)"

definition broadcast_rcv :: "proc \<Rightarrow> proc" where
  "broadcast_rcv s = s\<lparr>ppcs := (\<lambda>t. if ppcs s t = EWait then ELock else ppcs s t)\<rparr>"

definition broadcast_ecv :: "proc \<Rightarrow> proc" where
  "broadcast_ecv s = s\<lparr>ppcs := (\<lambda>t. if ppcs s t = KWait then KLock else ppcs s t)\<rparr>"

section \<open>The threads\<close>

definition source_step :: "program \<Rightarrow> env \<Rightarrow> nat \<Rightarrow> tid \<Rightarrow> ptr \<Rightarrow> proc \<Rightarrow> proc option" where
  "source_step P e u t p s =
     (case p_source P e p (shr s) of
        Inl f \<Rightarrow> Some (pcrash f s)
      | Inr (stop, sg, S) \<Rightarrow>
          map_option (\<lambda>s'. (pgoto t (if stop then Done else SLock p) s')\<lparr>rmutex := None\<rparr>)
            (if sg then signal_rcv u (s\<lparr>shr := S\<rparr>) else Some (s\<lparr>shr := S\<rparr>)))"

definition elab_take :: "program \<Rightarrow> tid \<Rightarrow> proc \<Rightarrow> proc" where
  "elab_take P t s =
     (let rb = rbuffer (shr s) in
      if wb_head rb = NULL \<and> wb_done rb = 0 then (pgoto t EWait s)\<lparr>rmutex := None\<rparr>
      else if wb_done rb \<noteq> 0 \<and> wb_head rb = NULL then (pgoto t Done s)\<lparr>rmutex := None\<rparr>
      else case p_ext P rb (pmem (shr s)) of
             Inl f \<Rightarrow> pcrash f s
           | Inr (data, rb', h') \<Rightarrow>
               (pgoto t (EGot data) s)\<lparr>shr := (shr s)\<lparr>pmem := h', rbuffer := rb'\<rparr>, rmutex := None\<rparr>)"

definition elab_conv :: "program \<Rightarrow> tid \<Rightarrow> ptr \<Rightarrow> proc \<Rightarrow> proc" where
  "elab_conv P t data s =
     (case p_conv P data (pmem (shr s)) of
        Inl f \<Rightarrow> pcrash f s
      | Inr h' \<Rightarrow> (pgoto t (EPut data) s)\<lparr>shr := (shr s)\<lparr>pmem := h'\<rparr>\<rparr>)"

definition elab_put :: "program \<Rightarrow> nat \<Rightarrow> tid \<Rightarrow> ptr \<Rightarrow> proc \<Rightarrow> proc option" where
  "elab_put P u t data s =
     (case p_ins P data (ebuffer (shr s)) (pmem (shr s)) of
        Inl f \<Rightarrow> Some (pcrash f s)
      | Inr (eb', h') \<Rightarrow>
          map_option (\<lambda>s'. (pgoto t ELock s')\<lparr>emutex := None\<rparr>)
            (signal_ecv u (s\<lparr>shr := (shr s)\<lparr>pmem := h', ebuffer := eb'\<rparr>\<rparr>)))"

definition sink_step :: "program \<Rightarrow> env \<Rightarrow> tid \<Rightarrow> proc \<Rightarrow> proc" where
  "sink_step P e t s =
     (let eb = ebuffer (shr s) in
      if wb_head eb = NULL \<and> wb_done eb = 0 then (pgoto t KWait s)\<lparr>emutex := None\<rparr>
      else if wb_done eb \<noteq> 0 \<and> wb_head eb = NULL then (pgoto t Done s)\<lparr>emutex := None\<rparr>
      else case rbind (p_ext P eb (pmem (shr s))) (\<lambda>(data, eb', h').
                  p_sink P e data ((shr s)\<lparr>pmem := h', ebuffer := eb'\<rparr>)) of
             Inl f \<Rightarrow> pcrash f s
           | Inr S \<Rightarrow> (pgoto t KLock s)\<lparr>shr := S, emutex := None\<rparr>)"

section \<open>The main thread\<close>

text \<open>\<open>wait_for\<close> on group \<open>k\<close>: join thread \<open>i\<close>, then the next one.\<close>

fun group_size :: "nat \<Rightarrow> proc \<Rightarrow> nat" where
  "group_size k s = (if k = 0 then nsrc s else if k = 1 then nelab s else nsink s)"

fun member :: "nat \<Rightarrow> nat \<Rightarrow> tid" where
  "member k i = (if k = 0 then Src i else if k = 1 then Elab i else Sink i)"

definition wait_for :: "nat \<Rightarrow> nat \<Rightarrow> proc \<Rightarrow> proc option" where
  "wait_for k i s =
     (if i < group_size k s
      then if ppcs s (member k i) = Done then Some (pgoto Main (Join k (Suc i)) s) else None
      else Some (pgoto Main (if k < 2 then RelLock k else Done) s))"

definition release_t :: "nat \<Rightarrow> proc \<Rightarrow> proc" where
  "release_t k s =
     (if k = 0
      then (broadcast_rcv (s\<lparr>shr := (shr s)\<lparr>rbuffer := (rbuffer (shr s))\<lparr>wb_done := 1\<rparr>\<rparr>\<rparr>))\<lparr>rmutex := None\<rparr>
      else (broadcast_ecv (s\<lparr>shr := (shr s)\<lparr>ebuffer := (ebuffer (shr s))\<lparr>wb_done := 1\<rparr>\<rparr>\<rparr>))\<lparr>emutex := None\<rparr>)"

section \<open>The signal handler\<close>

definition sigint :: "tid \<Rightarrow> proc \<Rightarrow> proc" where
  "sigint t s =
     (let s1 = s\<lparr>control := cint (control s + 1)\<rparr> in
      if control s1 > 1 then s1 else s1\<lparr>hnd := Some (t, 0)\<rparr>)"

definition catcher_SIGINT :: "proc \<Rightarrow> proc option" where
  "catcher_SIGINT s =
     (case hnd s of
        None \<Rightarrow> None
      | Some (t, k) \<Rightarrow>
          if k = 0
          then if rmutex s = None
               then Some (s\<lparr>rmutex := Some Hnd, hnd := Some (t, 1),
                      shr := (shr s)\<lparr>todo := 0, looping := 0,
                        rbuffer := (rbuffer (shr s))\<lparr>wb_head := NULL, wb_count := 0, wb_done := 1\<rparr>\<rparr>\<rparr>)
               else None
          else if k = 1
          then if emutex s = None
               then Some (s\<lparr>emutex := Some Hnd, rmutex := None, hnd := Some (t, 2),
                      shr := (shr s)\<lparr>
                        ebuffer := (ebuffer (shr s))\<lparr>wb_head := NULL, wb_count := 0, wb_done := 1\<rparr>\<rparr>\<rparr>)
               else None
          else Some (s\<lparr>emutex := None, hnd := None\<rparr>))"

section \<open>Steps\<close>

datatype plabel = Acq tid | Exec tid env nat | Intr tid | HStep | Spurious tid

fun live :: "proc \<Rightarrow> tid \<Rightarrow> bool" where
  "live s Main = True"
| "live s (Src i) = (i < nsrc s)"
| "live s (Elab i) = (i < nelab s)"
| "live s (Sink i) = (i < nsink s)"

definition interrupted :: "tid \<Rightarrow> proc \<Rightarrow> bool" where
  "interrupted t s = (case hnd s of None \<Rightarrow> False | Some (u, _) \<Rightarrow> u = t)"

definition take_r :: "tid \<Rightarrow> ppc \<Rightarrow> proc \<Rightarrow> proc option" where
  "take_r t p s = (if rmutex s = None then Some ((pgoto t p s)\<lparr>rmutex := Some (Thr t)\<rparr>) else None)"

definition take_e :: "tid \<Rightarrow> ppc \<Rightarrow> proc \<Rightarrow> proc option" where
  "take_e t p s = (if emutex s = None then Some ((pgoto t p s)\<lparr>emutex := Some (Thr t)\<rparr>) else None)"

definition acquire :: "tid \<Rightarrow> proc \<Rightarrow> proc option" where
  "acquire t s =
     (case ppcs s t of
        SLock p \<Rightarrow> take_r t (SCrit p) s
      | ELock \<Rightarrow> take_r t ECrit s
      | EPut p \<Rightarrow> take_e t (ECrit2 p) s
      | KLock \<Rightarrow> take_e t KCrit s
      | RelLock k \<Rightarrow> if k = 0 then take_r t (RelCrit k) s else take_e t (RelCrit k) s
      | _ \<Rightarrow> None)"

definition pexec :: "program \<Rightarrow> tid \<Rightarrow> env \<Rightarrow> nat \<Rightarrow> proc \<Rightarrow> proc option" where
  "pexec P t e u s =
     (case ppcs s t of
        SStart \<Rightarrow> let (p, S) = p_start P (shr s) in Some ((pgoto t (SLock p) s)\<lparr>shr := S\<rparr>)
      | SCrit p \<Rightarrow> source_step P e u t p s
      | ECrit \<Rightarrow> Some (elab_take P t s)
      | EGot p \<Rightarrow> Some (elab_conv P t p s)
      | ECrit2 p \<Rightarrow> elab_put P u t p s
      | KCrit \<Rightarrow> Some (sink_step P e t s)
      | Join k i \<Rightarrow> wait_for k i s
      | RelCrit k \<Rightarrow> Some (pgoto t (Join (Suc k) 0) (release_t k s))
      | _ \<Rightarrow> None)"

definition pstep :: "program \<Rightarrow> plabel \<Rightarrow> proc \<Rightarrow> proc option" where
  "pstep P l s =
     (if pcrashed s \<noteq> None then None
      else case l of
        Acq t \<Rightarrow> if live s t \<and> \<not> interrupted t s then acquire t s else None
      | Exec t e u \<Rightarrow> if live s t \<and> \<not> interrupted t s then pexec P t e u s else None
      | Intr t \<Rightarrow> if live s t \<and> ppcs s t \<noteq> Done \<and> control s < INT_MAX then Some (sigint t s) else None
      | HStep \<Rightarrow> catcher_SIGINT s
      | Spurious t \<Rightarrow> if live s t \<and> ppcs s t = EWait then Some (pgoto t ELock s)
                      else if live s t \<and> ppcs s t = KWait then Some (pgoto t KLock s) else None)"

text \<open>The threads as \<open>main\<close> creates them.\<close>

fun start_pc :: "tid \<Rightarrow> ppc" where
  "start_pc Main = Join 0 0"
| "start_pc (Src _) = SStart"
| "start_pc (Elab _) = ELock"
| "start_pc (Sink _) = KLock"

definition empty_wbuf :: wbuf where
  "empty_wbuf = \<lparr>wb_head = NULL, wb_tail = NULL, wb_count = 0, wb_done = 0\<rparr>"

definition proc_init :: "int \<Rightarrow> int \<Rightarrow> int \<Rightarrow> int \<Rightarrow> int \<Rightarrow> heap \<Rightarrow> proc" where
  "proc_init n1 n2 n3 td lp h =
     \<lparr>shr = \<lparr>pmem = h, rbuffer = wbuf_init empty_wbuf, ebuffer = wbuf_init empty_wbuf,
        todo = td, looping = lp, trace = []\<rparr>,
      rmutex = None, emutex = None, ppcs = start_pc, hnd = None, control = 0,
      nsrc = nat n1, nelab = nat n2, nsink = nat n3, pcrashed = None\<rparr>"

inductive preach :: "program \<Rightarrow> (env \<Rightarrow> bool) \<Rightarrow> proc \<Rightarrow> proc \<Rightarrow> bool" for P ok s0 where
  preach_init: "preach P ok s0 s0"
| preach_step: "preach P ok s0 s \<Longrightarrow> pstep P l s = Some s' \<Longrightarrow>
    (\<And>t e u. l = Exec t e u \<Longrightarrow> ok e) \<Longrightarrow> preach P ok s0 s'"

fun prun :: "program \<Rightarrow> plabel list \<Rightarrow> proc \<Rightarrow> proc option" where
  "prun P [] s = Some s"
| "prun P (l # ls) s = (case pstep P l s of None \<Rightarrow> None | Some s' \<Rightarrow> prun P ls s')"

fun made :: "event list \<Rightarrow> byte list list" where
  "made [] = []"
| "made (Made s # es) = s # made es"
| "made (_ # es) = made es"

fun gone :: "event list \<Rightarrow> byte list list" where
  "gone [] = []"
| "gone (Made _ # es) = gone es"
| "gone (Sent s # es) = s # gone es"
| "gone (Lost s # es) = s # gone es"
| "gone (Printed s # es) = s # gone es"

lemma made_append [simp]: "made (xs @ ys) = made xs @ made ys"
  by (induction xs rule: made.induct) auto

lemma gone_append [simp]: "gone (xs @ ys) = gone xs @ gone ys"
  by (induction xs rule: gone.induct) auto

lemma made_Made [simp]: "made (map Made xs) = xs" "gone (map Made xs) = []"
  by (induction xs) auto

end
