(* ===== verification/Pipeline_Inv.thy ===== *)
theory Pipeline_Inv
  imports Pipeline
begin

text \<open>
  The invariant of the three-stage pipelines. The locale \<open>pipeline\<close> states what a program has
  to promise of the functions in its record, and everything below is proved from these laws:
  the two buffers stay well formed and separate, every thread owns the block it works on, a
  mutex is held by at most one thread, no string is lost or invented on the way, and closing
  happens in order.
\<close>

section \<open>Ownership\<close>

definition srep :: "shared \<Rightarrow> entry list \<Rightarrow> entry list \<Rightarrow> bool" where
  "srep S er ee \<longleftrightarrow> wb_rep (pmem S) (rbuffer S) er \<and> wb_rep (pmem S) (ebuffer S) ee \<and>
     set (cells er) \<inter> set (cells ee) = {}"

fun own_of :: "ppc \<Rightarrow> addr option" where
  "own_of (SLock p) = p"
| "own_of (SCrit p) = p"
| "own_of (EGot p) = p"
| "own_of (EPut p) = p"
| "own_of (ECrit2 p) = p"
| "own_of _ = None"

fun in_r :: "ppc \<Rightarrow> bool" where
  "in_r (SCrit _) = True"
| "in_r ECrit = True"
| "in_r (RelCrit k) = (k = 0)"
| "in_r _ = False"

fun in_e :: "ppc \<Rightarrow> bool" where
  "in_e (ECrit2 _) = True"
| "in_e KCrit = True"
| "in_e (RelCrit k) = (k \<noteq> 0)"
| "in_e _ = False"

fun role_ok :: "tid \<Rightarrow> ppc \<Rightarrow> bool" where
  "role_ok Main (Join k i) = (k \<le> 2)"
| "role_ok Main (RelLock k) = (k < 2)"
| "role_ok Main (RelCrit k) = (k < 2)"
| "role_ok (Src _) SStart = True"
| "role_ok (Src _) (SLock _) = True"
| "role_ok (Src _) (SCrit _) = True"
| "role_ok (Elab _) ELock = True"
| "role_ok (Elab _) ECrit = True"
| "role_ok (Elab _) EWait = True"
| "role_ok (Elab _) (EGot _) = True"
| "role_ok (Elab _) (EPut _) = True"
| "role_ok (Elab _) (ECrit2 _) = True"
| "role_ok (Sink _) KLock = True"
| "role_ok (Sink _) KCrit = True"
| "role_ok (Sink _) KWait = True"
| "role_ok _ Done = True"
| "role_ok _ _ = False"

text \<open>A wake-up changes a waiting program counter and nothing else.\<close>

definition woken :: "ppc \<Rightarrow> ppc \<Rightarrow> bool" where
  "woken p q \<longleftrightarrow> q = p \<or> (p = EWait \<and> q = ELock) \<or> (p = KWait \<and> q = KLock)"

lemma woken_refl [simp, intro]: "woken p p"
  by (simp add: woken_def)

lemma woken_own: "woken p q \<Longrightarrow> own_of q = own_of p"
  by (auto simp: woken_def)

lemma woken_in: "woken p q \<Longrightarrow> in_r q = in_r p \<and> in_e q = in_e p"
  by (auto simp: woken_def)

lemma woken_role: "woken p q \<Longrightarrow> role_ok t p \<Longrightarrow> role_ok t q"
  by (cases t) (auto simp: woken_def)

lemma woken_Done: "woken p q \<Longrightarrow> q = Done \<longleftrightarrow> p = Done"
  by (auto simp: woken_def)

text \<open>The strings a thread holds, given the conversion \<open>cf\<close>: those not yet converted are counted
  as what they will become.\<close>

fun holds :: "(byte list \<Rightarrow> byte list) \<Rightarrow> (ptr \<Rightarrow> heap \<Rightarrow> bool) \<Rightarrow> heap \<Rightarrow> ppc \<Rightarrow> byte list list \<Rightarrow> bool" where
  "holds cf tmp h (SLock p) ss = (ss = [] \<and> tmp p h)"
| "holds cf tmp h (SCrit p) ss = (ss = [] \<and> tmp p h)"
| "holds cf tmp h (EGot p) ss =
     (\<exists>a s. p = Some a \<and> h a = Some (Chars (cstr s)) \<and> 0 \<notin> set s \<and> ss = [cf s])"
| "holds cf tmp h (EPut p) ss = (\<exists>a s. p = Some a \<and> read_str p h = Inr s \<and> ss = [s])"
| "holds cf tmp h (ECrit2 p) ss = (\<exists>a s. p = Some a \<and> read_str p h = Inr s \<and> ss = [s])"
| "holds cf tmp h _ ss = (ss = [])"

definition own_inv :: "heap \<Rightarrow> (tid \<Rightarrow> ppc) \<Rightarrow> addr set \<Rightarrow> bool" where
  "own_inv h pc C \<longleftrightarrow> (\<forall>t a. own_of (pc t) = Some a \<longrightarrow> h a \<noteq> None \<and> a \<notin> C) \<and>
     (\<forall>t u a. own_of (pc t) = Some a \<longrightarrow> own_of (pc u) = Some a \<longrightarrow> t = u)"

lemma woken_holds: "woken p q \<Longrightarrow> holds cf tmp h q ss = holds cf tmp h p ss"
  by (auto simp: woken_def)

text \<open>Thread \<open>t\<close> works on the blocks \<open>X\<close>, which are its own or the cells \<open>C\<close> of the buffers; the
  others keep what they own.\<close>

lemma own_inv_step:
  assumes inv: "own_inv h pc C" and others: "\<And>u. u \<noteq> t \<Longrightarrow> woken (pc u) (pc' u)"
    and frame: "\<And>x. h x \<noteq> None \<Longrightarrow> x \<notin> C \<Longrightarrow> own_of (pc t) \<noteq> Some x \<Longrightarrow> h' x = h x"
    and cells: "\<And>x. x \<in> C' \<Longrightarrow> x \<in> C \<or> h x = None \<or> own_of (pc t) = Some x"
    and new: "\<And>a. own_of (pc' t) = Some a \<Longrightarrow> h' a \<noteq> None \<and> a \<notin> C' \<and>
      (a \<in> C \<or> h a = None \<or> own_of (pc t) = Some a)"
  shows "own_inv h' pc' C'"
proof -
  have keep: "h' a = h a \<and> h a \<noteq> None \<and> a \<notin> C' \<and> a \<notin> C \<and> own_of (pc u) = Some a"
    if "u \<noteq> t" "own_of (pc' u) = Some a" for u a
  proof -
    from that others have ou: "own_of (pc u) = Some a" by (metis woken_own)
    with inv have a: "h a \<noteq> None" "a \<notin> C" by (auto simp: own_inv_def)
    from inv ou that(1) have nt: "own_of (pc t) \<noteq> Some a" by (auto simp: own_inv_def)
    with frame [OF a this] cells [of a] a ou show ?thesis by auto
  qed
  have "h' a \<noteq> None \<and> a \<notin> C'" if "own_of (pc' u) = Some a" for u a
    using keep new that by (cases "u = t") metis+
  moreover have "u = v" if ua: "own_of (pc' u) = Some a" and va: "own_of (pc' v) = Some a" for u v a
  proof (cases "u = t \<or> v = t")
    case True
    then show ?thesis using ua va keep new inv unfolding own_inv_def by metis
  next
    case False
    then show ?thesis using keep ua va inv unfolding own_inv_def by metis
  qed
  ultimately show ?thesis by (simp add: own_inv_def)
qed

section \<open>The laws of a program\<close>

text \<open>What the critical section of a source thread may do: append at most one string to \<open>rbuffer\<close>
  and use its own block.\<close>

definition source_effect ::
  "ptr \<Rightarrow> shared \<Rightarrow> entry list \<Rightarrow> entry list \<Rightarrow> shared \<Rightarrow> entry list \<Rightarrow> byte list list \<Rightarrow> bool" where
  "source_effect p S er ee S' er' new \<longleftrightarrow>
     srep S' er' ee \<and> map str_of er' = map str_of er @ new \<and>
     trace S' = trace S @ map Made new \<and> length new \<le> 1 \<and>
     (\<forall>a. p = Some a \<longrightarrow> pmem S' a \<noteq> None \<and> a \<notin> set (cells er')) \<and>
     wb_done (rbuffer S') = wb_done (rbuffer S) \<and> ebuffer S' = ebuffer S \<and>
     (\<forall>x. pmem S x \<noteq> None \<longrightarrow> x \<notin> set (cells er) \<longrightarrow> p \<noteq> Some x \<longrightarrow> pmem S' x = pmem S x) \<and>
     (\<forall>x \<in> set (cells er'). x \<in> set (cells er) \<or> pmem S x = None)"

locale pipeline =
  fixes P :: program and good :: "env \<Rightarrow> bool" and tmp :: "ptr \<Rightarrow> heap \<Rightarrow> bool"
    and cf :: "byte list \<Rightarrow> byte list"
  assumes tmp_cong: "tmp p h \<Longrightarrow> (\<And>a. p = Some a \<Longrightarrow> h' a = h a) \<Longrightarrow> tmp p h'"
    and start_ok: "p_start P S = (p, S') \<Longrightarrow> \<exists>h'. S' = S\<lparr>pmem := h'\<rparr> \<and> tmp p h' \<and>
      (\<forall>x. pmem S x \<noteq> None \<longrightarrow> h' x = pmem S x) \<and> (\<forall>a. p = Some a \<longrightarrow> pmem S a = None \<and> h' a \<noteq> None)"
    and source_ok: "srep S er ee \<Longrightarrow> tmp p (pmem S) \<Longrightarrow>
      (\<And>a. p = Some a \<Longrightarrow> pmem S a \<noteq> None \<and> a \<notin> set (cells er) \<union> set (cells ee)) \<Longrightarrow> good e \<Longrightarrow>
      p_source P e p S = Inr (stop, sg, S') \<Longrightarrow>
      \<exists>er' new. source_effect p S er ee S' er' new \<and> tmp p (pmem S') \<and> (new \<noteq> [] \<longrightarrow> sg)"
    and source_fault: "srep S er ee \<Longrightarrow> tmp p (pmem S) \<Longrightarrow>
      (\<And>a. p = Some a \<Longrightarrow> pmem S a \<noteq> None \<and> a \<notin> set (cells er) \<union> set (cells ee)) \<Longrightarrow> good e \<Longrightarrow>
      p_source P e p S = Inl f \<Longrightarrow> f = NullDeref"
    and ext_ok: "wb_rep h q ((a, d, s) # es) \<Longrightarrow> p_ext P q h = Inr (p, q', h') \<Longrightarrow>
      \<exists>r. p = Some r \<and> wb_done q' = wb_done q \<and> wb_rep h' q' es \<and> h r = None \<and>
        h' r = Some (Chars (cstr s)) \<and> 0 \<notin> set s \<and> (\<forall>x. x \<notin> {a, d, r} \<longrightarrow> h' x = h x)"
    and ext_fault: "wb_rep h q ((a, d, s) # es) \<Longrightarrow> p_ext P q h = Inl f \<Longrightarrow> f = NullDeref"
    and ins_ok: "wb_rep h q es \<Longrightarrow> read_str (Some v) h = Inr s \<Longrightarrow> v \<notin> set (cells es) \<Longrightarrow>
      p_ins P (Some v) q h = Inr (q', h') \<Longrightarrow>
      \<exists>a d. wb_done q' = wb_done q \<and> wb_rep h' q' (es @ [(a, d, s)]) \<and> h a = None \<and> h d = None \<and>
        (\<forall>x. x \<notin> set (cells es) \<union> {a, d, v} \<longrightarrow> h' x = h x)"
    and ins_fault: "wb_rep h q es \<Longrightarrow> read_str (Some v) h = Inr s \<Longrightarrow> v \<notin> set (cells es) \<Longrightarrow>
      p_ins P (Some v) q h = Inl f \<Longrightarrow> f = NullDeref"
    and conv_ok: "h a = Some (Chars (cstr s)) \<Longrightarrow> 0 \<notin> set s \<Longrightarrow>
      \<exists>cs. p_conv P (Some a) h = Inr (h(a \<mapsto> Chars cs)) \<and> read_cells cs = Inr (cf s)"
    and sink_ok: "read_str p (pmem S) = Inr s \<Longrightarrow>
      \<exists>ev. p_sink P e p S = Inr (S\<lparr>trace := trace S @ [ev]\<rparr>) \<and> made [ev] = [] \<and> gone [ev] = [s]"
begin

lemma holds_cong:
  assumes "holds cf tmp h pc ss" and "\<And>a. own_of pc = Some a \<Longrightarrow> h' a = h a"
  shows "holds cf tmp h' pc ss"
  using assms
proof (cases pc)
  case (SLock p)
  with assms show ?thesis using tmp_cong [of p h h'] by auto
next
  case (SCrit p)
  with assms show ?thesis using tmp_cong [of p h h'] by auto
next
  case (EGot p)
  with assms show ?thesis by auto
next
  case (EPut p)
  with assms show ?thesis by (auto simp: read_str_def get_chars_def)
next
  case (ECrit2 p)
  with assms show ?thesis by (auto simp: read_str_def get_chars_def)
qed auto

text \<open>The part of the invariant on memory and strings: \<open>er\<close> and \<open>ee\<close> are the entries of the two
  buffers, \<open>fl\<close> the strings in the hands of each thread.\<close>

definition local_inv :: "shared \<Rightarrow> (tid \<Rightarrow> ppc) \<Rightarrow> entry list \<Rightarrow> entry list \<Rightarrow> (tid \<Rightarrow> byte list list) \<Rightarrow> bool"
  where
  "local_inv S pc er ee fl \<longleftrightarrow> srep S er ee \<and> own_inv (pmem S) pc (set (cells er) \<union> set (cells ee)) \<and>
     (\<forall>t. holds cf tmp (pmem S) (pc t) (fl t)) \<and> (\<forall>t. role_ok t (pc t))"

lemma local_inv_step:
  assumes inv: "local_inv S pc er ee fl" and others: "\<And>u. u \<noteq> t \<Longrightarrow> woken (pc u) (pc' u)"
    and rep: "srep S' er' ee'"
    and frame: "\<And>x. pmem S x \<noteq> None \<Longrightarrow> x \<notin> set (cells er) \<union> set (cells ee) \<Longrightarrow>
      own_of (pc t) \<noteq> Some x \<Longrightarrow> pmem S' x = pmem S x"
    and cells: "\<And>x. x \<in> set (cells er') \<union> set (cells ee') \<Longrightarrow>
      x \<in> set (cells er) \<union> set (cells ee) \<or> pmem S x = None \<or> own_of (pc t) = Some x"
    and new: "\<And>a. own_of (pc' t) = Some a \<Longrightarrow> pmem S' a \<noteq> None \<and> a \<notin> set (cells er') \<union> set (cells ee') \<and>
      (a \<in> set (cells er) \<union> set (cells ee) \<or> pmem S a = None \<or> own_of (pc t) = Some a)"
    and holds: "holds cf tmp (pmem S') (pc' t) ss" and role: "role_ok t (pc' t)"
  shows "local_inv S' pc' er' ee' (fl(t := ss))"
proof -
  have own: "own_inv (pmem S) pc (set (cells er) \<union> set (cells ee))"
    using inv by (simp add: local_inv_def)
  have own': "own_inv (pmem S') pc' (set (cells er') \<union> set (cells ee'))"
    by (rule own_inv_step [OF own others frame cells new])
  have "holds cf tmp (pmem S') (pc' u) (fl u)" if "u \<noteq> t" for u
  proof -
    from inv have "holds cf tmp (pmem S) (pc u) (fl u)" by (simp add: local_inv_def)
    moreover have "pmem S' a = pmem S a" if "own_of (pc u) = Some a" for a
      using own that \<open>u \<noteq> t\<close> by (intro frame) (auto simp: own_inv_def)
    ultimately have "holds cf tmp (pmem S') (pc u) (fl u)" by (rule holds_cong)
    with others [OF that] show ?thesis by (simp add: woken_holds)
  qed
  moreover have "role_ok u (pc' u)" for u
    using inv role woken_role [OF others [of u], of u] by (cases "u = t") (simp_all add: local_inv_def)
  ultimately show ?thesis using rep own' holds by (auto simp: local_inv_def)
qed

text \<open>A step that touches neither memory nor buffers.\<close>

lemma local_inv_pc:
  assumes inv: "local_inv S pc er ee fl" and others: "\<And>u. u \<noteq> t \<Longrightarrow> woken (pc u) (pc' u)"
    and own: "own_of (pc' t) = own_of (pc t)" and role: "role_ok t (pc' t)"
    and holds: "\<And>ss. holds cf tmp (pmem S) (pc t) ss \<Longrightarrow> holds cf tmp (pmem S) (pc' t) ss"
  shows "local_inv S pc' er ee fl"
proof -
  have "local_inv S pc' er ee (fl(t := fl t))"
    by (rule local_inv_step [OF inv others])
      (use inv own role holds in \<open>auto simp: local_inv_def own_inv_def\<close>)
  then show ?thesis by simp
qed

definition flight :: "nat \<Rightarrow> (tid \<Rightarrow> byte list list) \<Rightarrow> byte list multiset" where
  "flight n fl = (\<Sum>i<n. mset (fl (Elab i)))"

lemma flight_upd:
  assumes "j < n"
  shows "flight n (fl(Elab j := ss)) + mset (fl (Elab j)) = flight n fl + mset ss"
proof -
  have split: "flight n g = mset (g (Elab j)) + (\<Sum>i \<in> {..<n} - {j}. mset (g (Elab i)))" for g
    using assms by (simp add: flight_def sum.remove)
  have "(\<Sum>i \<in> {..<n} - {j}. mset ((fl(Elab j := ss)) (Elab i))) = (\<Sum>i \<in> {..<n} - {j}. mset (fl (Elab i)))"
    by (rule sum.cong) auto
  then show ?thesis using split [of fl] split [of "fl(Elab j := ss)"] by (simp add: union_ac)
qed

lemma flight_other [simp]: "(\<And>j. t \<noteq> Elab j) \<Longrightarrow> flight n (fl(t := ss)) = flight n fl"
  unfolding flight_def by (rule sum.cong) (auto simp: fun_upd_def)

text \<open>Every string that was made is in a buffer, in the hands of a thread, or has left; only the
  signal handler throws strings away.\<close>

definition balance :: "event list \<Rightarrow> entry list \<Rightarrow> entry list \<Rightarrow> byte list multiset \<Rightarrow> byte list multiset" where
  "balance tr er ee F = image_mset cf (mset (map str_of er)) + F + mset (map str_of ee) + mset (gone tr)"

definition conserve :: "proc \<Rightarrow> entry list \<Rightarrow> entry list \<Rightarrow> (tid \<Rightarrow> byte list list) \<Rightarrow> bool" where
  "conserve s er ee fl \<longleftrightarrow>
     balance (trace (shr s)) er ee (flight (nelab s) fl) \<subseteq># image_mset cf (mset (made (trace (shr s)))) \<and>
     (control s = 0 \<longrightarrow>
        image_mset cf (mset (made (trace (shr s)))) = balance (trace (shr s)) er ee (flight (nelab s) fl))"

definition drained :: "proc \<Rightarrow> entry list \<Rightarrow> entry list \<Rightarrow> bool" where
  "drained s er ee \<longleftrightarrow> (control s = 0 \<longrightarrow> (\<forall>i. ppcs s (Elab i) = Done \<longrightarrow> er = []) \<and>
     (\<forall>i. ppcs s (Sink i) = Done \<longrightarrow> ee = []))"

definition core :: "proc \<Rightarrow> entry list \<Rightarrow> entry list \<Rightarrow> (tid \<Rightarrow> byte list list) \<Rightarrow> bool" where
  "core s er ee fl \<longleftrightarrow> local_inv (shr s) (ppcs s) er ee fl \<and> conserve s er ee fl \<and> drained s er ee"

end

section \<open>Mutexes and closing\<close>

definition mut_inv :: "proc \<Rightarrow> bool" where
  "mut_inv s \<longleftrightarrow> (\<forall>t. rmutex s = Some (Thr t) \<longleftrightarrow> in_r (ppcs s t)) \<and>
     (\<forall>t. emutex s = Some (Thr t) \<longleftrightarrow> in_e (ppcs s t)) \<and>
     (rmutex s = Some Hnd \<longleftrightarrow> (\<exists>t. hnd s = Some (t, 1))) \<and>
     (emutex s = Some Hnd \<longleftrightarrow> (\<exists>t. hnd s = Some (t, 2))) \<and>
     (\<forall>t k. hnd s = Some (t, k) \<longrightarrow> k \<le> 2) \<and> 0 \<le> control s \<and> (control s = 0 \<longrightarrow> hnd s = None)"

definition all_done :: "nat \<Rightarrow> proc \<Rightarrow> bool" where
  "all_done k s \<longleftrightarrow> (\<forall>j < group_size k s. ppcs s (member k j) = Done)"

definition flag_inv :: "proc \<Rightarrow> bool" where
  "flag_inv s \<longleftrightarrow> (control s = 0 \<longrightarrow>
     (wb_done (rbuffer (shr s)) \<noteq> 0 \<longrightarrow> all_done 0 s) \<and>
     (wb_done (ebuffer (shr s)) \<noteq> 0 \<longrightarrow> all_done 1 s) \<and>
     (\<forall>i. ppcs s (Elab i) = Done \<longrightarrow> wb_done (rbuffer (shr s)) \<noteq> 0) \<and>
     (\<forall>i. ppcs s (Sink i) = Done \<longrightarrow> wb_done (ebuffer (shr s)) \<noteq> 0))"

fun stage :: "ppc \<Rightarrow> nat" where
  "stage (Join k i) = k"
| "stage (RelLock k) = k"
| "stage (RelCrit k) = k"
| "stage _ = 3"

definition closed :: "nat \<Rightarrow> proc \<Rightarrow> bool" where
  "closed k s \<longleftrightarrow> all_done k s \<and>
     (k = 0 \<longrightarrow> wb_done (rbuffer (shr s)) \<noteq> 0 \<and> (\<forall>t. ppcs s t \<noteq> EWait)) \<and>
     (k = 1 \<longrightarrow> wb_done (ebuffer (shr s)) \<noteq> 0 \<and> (\<forall>t. ppcs s t \<noteq> KWait))"

definition stage_inv :: "proc \<Rightarrow> bool" where
  "stage_inv s \<longleftrightarrow> (\<forall>k < stage (ppcs s Main). closed k s) \<and>
     (\<forall>k i. ppcs s Main = Join k i \<longrightarrow> (\<forall>j < i. j < group_size k s \<longrightarrow> ppcs s (member k j) = Done)) \<and>
     (\<forall>k. ppcs s Main = RelLock k \<or> ppcs s Main = RelCrit k \<longrightarrow> all_done k s)"

end
