(* ===== verification/Pipeline_Steps.thy ===== *)
theory Pipeline_Steps
  imports Pipeline_Inv
begin

text \<open>
  Every step of a pipeline keeps the parts of the invariant that concern the mutexes, the order
  of closing and the flags; the laws of the program are not needed for them.
\<close>

lemmas step_defs = acquire_def pexec_def take_r_def take_e_def source_step_def elab_take_def
  elab_conv_def elab_put_def sink_step_def wait_for_def release_t_def signal_rcv_def signal_ecv_def
  broadcast_rcv_def broadcast_ecv_def pgoto_def pcrash_def Let_def

section \<open>Signalling\<close>

lemma signal_rcv_cases:
  assumes "signal_rcv u s = Some s'"
  obtains (one) i where "s' = pgoto (Elab i) ELock s" "ppcs s (Elab i) = EWait" "i < nelab s"
  | (nobody) "s' = s" "\<forall>i < nelab s. ppcs s (Elab i) \<noteq> EWait"
  using assms by (auto simp: signal_rcv_def list_ex_iff split: if_splits)

lemma signal_ecv_cases:
  assumes "signal_ecv u s = Some s'"
  obtains (one) i where "s' = pgoto (Sink i) KLock s" "ppcs s (Sink i) = KWait" "i < nsink s"
  | (nobody) "s' = s" "\<forall>i < nsink s. ppcs s (Sink i) \<noteq> KWait"
  using assms by (auto simp: signal_ecv_def list_ex_iff split: if_splits)

text \<open>The shape of every step of thread \<open>t\<close>: it changes its own program counter, wakes others, and
  takes or releases a mutex accordingly.\<close>

definition moves :: "tid \<Rightarrow> proc \<Rightarrow> proc \<Rightarrow> bool" where
  "moves t s s' \<longleftrightarrow> (\<forall>u. u \<noteq> t \<longrightarrow> woken (ppcs s u) (ppcs s' u)) \<and>
     hnd s' = hnd s \<and> control s' = control s \<and>
     nsrc s' = nsrc s \<and> nelab s' = nelab s \<and> nsink s' = nsink s"

definition locks :: "tid \<Rightarrow> ppc \<Rightarrow> ppc \<Rightarrow> (ppc \<Rightarrow> bool) \<Rightarrow> owner option \<Rightarrow> owner option \<Rightarrow> bool" where
  "locks t p q inside m m' \<longleftrightarrow>
     (if inside p = inside q then m' = m else if inside q then m = None \<and> m' = Some (Thr t) else m' = None)"

lemma locks_owner:
  assumes inv: "\<And>u. m = Some (Thr u) \<longleftrightarrow> inside (pc u)"
    and lk: "locks t (pc t) (pc' t) inside m m'" and others: "\<And>u. u \<noteq> t \<Longrightarrow> inside (pc' u) = inside (pc u)"
  shows "m' = Some (Thr u) \<longleftrightarrow> inside (pc' u)" and "m' = Some Hnd \<longleftrightarrow> m = Some Hnd"
proof -
  have "inside (pc u) \<Longrightarrow> inside (pc t) \<Longrightarrow> u = t" using inv [of u] inv [of t] by auto
  with inv [of t] inv [of u] lk others [of u]
  show "m' = Some (Thr u) \<longleftrightarrow> inside (pc' u)"
    by (cases "u = t") (auto simp: locks_def split: if_splits)
  show "m' = Some Hnd \<longleftrightarrow> m = Some Hnd"
    using inv [of t] lk by (auto simp: locks_def split: if_splits)
qed

lemma mut_inv_move:
  assumes inv: "mut_inv s" and mv: "moves t s s'"
    and r: "locks t (ppcs s t) (ppcs s' t) in_r (rmutex s) (rmutex s')"
    and e: "locks t (ppcs s t) (ppcs s' t) in_e (emutex s) (emutex s')"
  shows "mut_inv s'"
proof -
  have in_others: "in_r (ppcs s' u) = in_r (ppcs s u)" "in_e (ppcs s' u) = in_e (ppcs s u)" if "u \<noteq> t" for u
    using mv that woken_in by (auto simp: moves_def)
  have ir: "rmutex s = Some (Thr u) \<longleftrightarrow> in_r (ppcs s u)" and ie: "emutex s = Some (Thr u) \<longleftrightarrow> in_e (ppcs s u)" for u
    using inv by (auto simp: mut_inv_def)
  show ?thesis
    using inv mv locks_owner [OF ir r in_others(1)] locks_owner [OF ie e in_others(2)]
    unfolding mut_inv_def moves_def by simp
qed

lemma acquire_moves:
  assumes "acquire t s = Some s'"
  shows "moves t s s' \<and> locks t (ppcs s t) (ppcs s' t) in_r (rmutex s) (rmutex s') \<and>
    locks t (ppcs s t) (ppcs s' t) in_e (emutex s) (emutex s') \<and> shr s' = shr s \<and>
    own_of (ppcs s' t) = own_of (ppcs s t) \<and> pcrashed s' = pcrashed s"
  using assms
  by (auto simp: acquire_def take_r_def take_e_def pgoto_def moves_def locks_def split: ppc.splits if_splits)

definition locked_move :: "tid \<Rightarrow> proc \<Rightarrow> proc \<Rightarrow> bool" where
  "locked_move t s s' \<longleftrightarrow> moves t s s' \<and> pcrashed s' = pcrashed s \<and>
     locks t (ppcs s t) (ppcs s' t) in_r (rmutex s) (rmutex s') \<and>
     locks t (ppcs s t) (ppcs s' t) in_e (emutex s) (emutex s')"

lemma signal_rcv_woken:
  assumes "signal_rcv u s = Some s'"
  shows "woken (ppcs s v) (ppcs s' v)" and "(ppcs s v \<noteq> EWait \<Longrightarrow> ppcs s' v = ppcs s v)"
    and "s' = s\<lparr>ppcs := ppcs s'\<rparr>"
  using assms by (auto elim!: signal_rcv_cases simp: pgoto_def woken_def split: if_splits)

lemma signal_ecv_woken:
  assumes "signal_ecv u s = Some s'"
  shows "woken (ppcs s v) (ppcs s' v)" and "(ppcs s v \<noteq> KWait \<Longrightarrow> ppcs s' v = ppcs s v)"
    and "s' = s\<lparr>ppcs := ppcs s'\<rparr>"
  using assms by (auto elim!: signal_ecv_cases simp: pgoto_def woken_def split: if_splits)

text \<open>What a signal leaves of the other fields.\<close>

lemma signal_rcv_fields:
  assumes "signal_rcv u s = Some s'"
  shows "shr s' = shr s" "rmutex s' = rmutex s" "emutex s' = emutex s" "hnd s' = hnd s"
    "control s' = control s" "nsrc s' = nsrc s" "nelab s' = nelab s" "nsink s' = nsink s"
    "pcrashed s' = pcrashed s"
  using assms by (auto elim!: signal_rcv_cases simp: pgoto_def)

lemma signal_ecv_fields:
  assumes "signal_ecv u s = Some s'"
  shows "shr s' = shr s" "rmutex s' = rmutex s" "emutex s' = emutex s" "hnd s' = hnd s"
    "control s' = control s" "nsrc s' = nsrc s" "nelab s' = nelab s" "nsink s' = nsink s"
    "pcrashed s' = pcrashed s"
  using assms by (auto elim!: signal_ecv_cases simp: pgoto_def)

text \<open>The ways a step of thread \<open>t\<close> can end.\<close>

lemma source_step_cases:
  assumes "source_step P e u t p s = Some s'"
  obtains (crash) f where "p_source P e p (shr s) = Inl f" "s' = pcrash f s"
  | (ok) stop sg S where "p_source P e p (shr s) = Inr (stop, sg, S)" "shr s' = S"
      "ppcs s' t = (if stop then Done else SLock p)" "\<And>v. v \<noteq> t \<Longrightarrow> woken (ppcs s v) (ppcs s' v)"
      "\<And>v. v \<noteq> t \<Longrightarrow> ppcs s v \<noteq> EWait \<Longrightarrow> ppcs s' v = ppcs s v"
      "rmutex s' = None" "emutex s' = emutex s" "hnd s' = hnd s" "control s' = control s"
      "nsrc s' = nsrc s" "nelab s' = nelab s" "nsink s' = nsink s" "pcrashed s' = pcrashed s"
proof (cases "p_source P e p (shr s)")
  case (Inl f)
  with assms crash show thesis by (simp add: source_step_def)
next
  case (Inr r)
  obtain stop sg S where r: "r = (stop, sg, S)" by (cases r)
  let ?s = "s\<lparr>shr := S\<rparr>"
  from assms Inr r obtain s1 where s1: "s' = (pgoto t (if stop then Done else SLock p) s1)\<lparr>rmutex := None\<rparr>"
    and sg: "(if sg then signal_rcv u ?s else Some ?s) = Some s1"
    by (auto simp: source_step_def)
  have w: "woken (ppcs s v) (ppcs s1 v)" "ppcs s v \<noteq> EWait \<Longrightarrow> ppcs s1 v = ppcs s v" for v
    using sg signal_rcv_woken [of u ?s s1] by (auto split: if_splits)
  have f: "shr s1 = S" "emutex s1 = emutex s" "hnd s1 = hnd s" "control s1 = control s"
    "nsrc s1 = nsrc s" "nelab s1 = nelab s" "nsink s1 = nsink s" "pcrashed s1 = pcrashed s"
    using sg signal_rcv_fields [of u ?s s1] by (auto split: if_splits)
  show thesis by (rule ok [of stop sg S]) (use Inr r s1 w f in \<open>auto simp: pgoto_def\<close>)
qed

lemma elab_put_cases:
  assumes "elab_put P u t p s = Some s'"
  obtains (crash) f where "p_ins P p (ebuffer (shr s)) (pmem (shr s)) = Inl f" "s' = pcrash f s"
  | (ok) eb h where "p_ins P p (ebuffer (shr s)) (pmem (shr s)) = Inr (eb, h)"
      "shr s' = (shr s)\<lparr>pmem := h, ebuffer := eb\<rparr>"
      "ppcs s' t = ELock" "\<And>v. v \<noteq> t \<Longrightarrow> woken (ppcs s v) (ppcs s' v)"
      "\<And>v. v \<noteq> t \<Longrightarrow> ppcs s v \<noteq> KWait \<Longrightarrow> ppcs s' v = ppcs s v"
      "rmutex s' = rmutex s" "emutex s' = None" "hnd s' = hnd s" "control s' = control s"
      "nsrc s' = nsrc s" "nelab s' = nelab s" "nsink s' = nsink s" "pcrashed s' = pcrashed s"
proof (cases "p_ins P p (ebuffer (shr s)) (pmem (shr s))")
  case (Inl f)
  with assms crash show thesis by (simp add: elab_put_def)
next
  case (Inr r)
  obtain eb h where r: "r = (eb, h)" by (cases r)
  let ?s = "s\<lparr>shr := (shr s)\<lparr>pmem := h, ebuffer := eb\<rparr>\<rparr>"
  from assms Inr r obtain s1 where s1: "s' = (pgoto t ELock s1)\<lparr>emutex := None\<rparr>"
    and sg: "signal_ecv u ?s = Some s1"
    by (auto simp: elab_put_def)
  note w = signal_ecv_woken [OF sg] and f = signal_ecv_fields [OF sg]
  show thesis by (rule ok [of eb h]) (use Inr r s1 w f in \<open>auto simp: pgoto_def\<close>)
qed

lemma elab_take_cases:
  obtains (wait) "wb_head (rbuffer (shr s)) = NULL" "wb_done (rbuffer (shr s)) = 0"
      "elab_take P t s = (pgoto t EWait s)\<lparr>rmutex := None\<rparr>"
  | (stop) "wb_head (rbuffer (shr s)) = NULL" "wb_done (rbuffer (shr s)) \<noteq> 0"
      "elab_take P t s = (pgoto t Done s)\<lparr>rmutex := None\<rparr>"
  | (crash) f where "wb_head (rbuffer (shr s)) \<noteq> NULL"
      "p_ext P (rbuffer (shr s)) (pmem (shr s)) = Inl f" "elab_take P t s = pcrash f s"
  | (got) data rb h where "wb_head (rbuffer (shr s)) \<noteq> NULL"
      "p_ext P (rbuffer (shr s)) (pmem (shr s)) = Inr (data, rb, h)"
      "elab_take P t s =
         (pgoto t (EGot data) s)\<lparr>shr := (shr s)\<lparr>pmem := h, rbuffer := rb\<rparr>, rmutex := None\<rparr>"
proof (cases "wb_head (rbuffer (shr s)) = NULL")
  case True
  then show thesis using wait stop by (cases "wb_done (rbuffer (shr s)) = 0") (simp_all add: elab_take_def)
next
  case False
  then show thesis
    using crash got by (cases "p_ext P (rbuffer (shr s)) (pmem (shr s))") (auto simp: elab_take_def Let_def)
qed

lemma elab_conv_cases:
  obtains (crash) f where "p_conv P data (pmem (shr s)) = Inl f" "elab_conv P t data s = pcrash f s"
  | (ok) h where "p_conv P data (pmem (shr s)) = Inr h"
      "elab_conv P t data s = (pgoto t (EPut data) s)\<lparr>shr := (shr s)\<lparr>pmem := h\<rparr>\<rparr>"
  by (cases "p_conv P data (pmem (shr s))") (auto simp: elab_conv_def)

lemma sink_step_cases:
  obtains (wait) "wb_head (ebuffer (shr s)) = NULL" "wb_done (ebuffer (shr s)) = 0"
      "sink_step P e t s = (pgoto t KWait s)\<lparr>emutex := None\<rparr>"
  | (stop) "wb_head (ebuffer (shr s)) = NULL" "wb_done (ebuffer (shr s)) \<noteq> 0"
      "sink_step P e t s = (pgoto t Done s)\<lparr>emutex := None\<rparr>"
  | (crash) f where "wb_head (ebuffer (shr s)) \<noteq> NULL"
      "rbind (p_ext P (ebuffer (shr s)) (pmem (shr s))) (\<lambda>(data, eb, h).
         p_sink P e data ((shr s)\<lparr>pmem := h, ebuffer := eb\<rparr>)) = Inl f" "sink_step P e t s = pcrash f s"
  | (out) S where "wb_head (ebuffer (shr s)) \<noteq> NULL"
      "rbind (p_ext P (ebuffer (shr s)) (pmem (shr s))) (\<lambda>(data, eb, h).
         p_sink P e data ((shr s)\<lparr>pmem := h, ebuffer := eb\<rparr>)) = Inr S"
      "sink_step P e t s = (pgoto t KLock s)\<lparr>shr := S, emutex := None\<rparr>"
proof (cases "wb_head (ebuffer (shr s)) = NULL")
  case True
  then show thesis using wait stop by (cases "wb_done (ebuffer (shr s)) = 0") (simp_all add: sink_step_def)
next
  case False
  then show thesis
    using crash out by (cases "rbind (p_ext P (ebuffer (shr s)) (pmem (shr s))) (\<lambda>(data, eb, h).
         p_sink P e data ((shr s)\<lparr>pmem := h, ebuffer := eb\<rparr>))") (auto simp: sink_step_def Let_def)
qed

lemma pexec_locked:
  assumes "pexec P t e u s = Some s'" and "role_ok t (ppcs s t)" and "mut_inv s"
  shows "(\<exists>f. s' = pcrash f s) \<or> locked_move t s s'"
proof (cases "ppcs s t")
  case (SCrit p)
  with assms(1) have "source_step P e u t p s = Some s'" by (simp add: pexec_def)
  then show ?thesis
    by (cases rule: source_step_cases) (auto simp: SCrit locked_move_def moves_def locks_def)
next
  case (ECrit2 p)
  with assms(1) have "elab_put P u t p s = Some s'" by (simp add: pexec_def)
  then show ?thesis
    by (cases rule: elab_put_cases) (auto simp: ECrit2 locked_move_def moves_def locks_def)
next
  case (Join k i)
  with assms(2) have "t = Main" by (cases t) auto
  with Join assms(1) show ?thesis
    by (auto simp: pexec_def wait_for_def pgoto_def locked_move_def moves_def locks_def split: if_splits)
next
  case (RelCrit k)
  with assms(1) have "locked_move t s s'"
    by (auto simp: pexec_def release_t_def pgoto_def broadcast_rcv_def broadcast_ecv_def locked_move_def
        moves_def locks_def woken_def split: if_splits)
  then show ?thesis ..
next
  case ECrit
  with assms(1) show ?thesis
    by (cases rule: elab_take_cases [where P = P and t = t and s = s]) (auto simp: pexec_def pgoto_def locked_move_def moves_def locks_def)
next
  case (EGot p)
  with assms(1) show ?thesis
    by (cases rule: elab_conv_cases [where P = P and t = t and data = p and s = s]) (auto simp: pexec_def pgoto_def locked_move_def moves_def locks_def)
next
  case KCrit
  with assms(1) show ?thesis
    by (cases rule: sink_step_cases [where P = P and e = e and t = t and s = s]) (auto simp: pexec_def pgoto_def locked_move_def moves_def locks_def)
next
  case SStart
  with assms(1) show ?thesis
    by (auto simp: pexec_def pgoto_def locked_move_def moves_def locks_def split: prod.splits)
qed (use assms(1) in \<open>simp_all add: pexec_def\<close>)

section \<open>Closing\<close>

lemma moves_Done: "moves t s s' \<Longrightarrow> u \<noteq> t \<Longrightarrow> ppcs s' u = Done \<longleftrightarrow> ppcs s u = Done"
  using woken_Done by (auto simp: moves_def)

lemma all_done_move:
  assumes "moves t s s'" and "ppcs s t \<noteq> Done" and "all_done k s"
  shows "all_done k s'"
  unfolding all_done_def
proof (intro allI impI)
  fix j
  assume "j < group_size k s'"
  with assms have "ppcs s (member k j) = Done" by (auto simp: all_done_def moves_def)
  moreover with assms(2) have "member k j \<noteq> t" by auto
  ultimately show "ppcs s' (member k j) = Done" using moves_Done [OF assms(1)] by simp
qed

definition close_inv :: "proc \<Rightarrow> bool" where
  "close_inv s \<longleftrightarrow> flag_inv s \<and> stage_inv s"

lemma close_inv_move:
  assumes inv: "close_inv s" and mv: "moves t s s'" and t: "t \<noteq> Main" "ppcs s t \<noteq> Done"
    and main: "role_ok Main (ppcs s Main)"
    and flags: "wb_done (rbuffer (shr s')) = wb_done (rbuffer (shr s))"
      "wb_done (ebuffer (shr s')) = wb_done (ebuffer (shr s))"
    and e: "ppcs s' t = EWait \<Longrightarrow> wb_done (rbuffer (shr s)) = 0"
    and k: "ppcs s' t = KWait \<Longrightarrow> wb_done (ebuffer (shr s)) = 0"
    and de: "\<And>i. t = Elab i \<Longrightarrow> ppcs s' t = Done \<Longrightarrow> wb_done (rbuffer (shr s)) \<noteq> 0"
    and dk: "\<And>i. t = Sink i \<Longrightarrow> ppcs s' t = Done \<Longrightarrow> wb_done (ebuffer (shr s)) \<noteq> 0"
  shows "close_inv s'"
proof -
  have same: "control s' = control s" "nsrc s' = nsrc s" "nelab s' = nelab s" "nsink s' = nsink s"
    using mv by (auto simp: moves_def)
  then have gs: "group_size j s' = group_size j s" for j by simp
  have "woken (ppcs s Main) (ppcs s' Main)" using mv t(1) by (simp add: moves_def)
  with main have m: "ppcs s' Main = ppcs s Main" by (auto simp: woken_def)
  have mono: "all_done j s \<Longrightarrow> all_done j s'" for j using all_done_move [OF mv t(2)] .
  have wt: "ppcs s' u = EWait \<Longrightarrow> ppcs s u = EWait \<or> wb_done (rbuffer (shr s)) = 0"
    "ppcs s' u = KWait \<Longrightarrow> ppcs s u = KWait \<or> wb_done (ebuffer (shr s)) = 0" for u
    using mv e k by (cases "u = t"; force simp: moves_def woken_def)+
  have "flag_inv s'"
    using inv mono moves_Done [OF mv] de dk
    unfolding close_inv_def flag_inv_def same flags by metis
  moreover have closed: "closed j s \<Longrightarrow> closed j s'" for j
    using mono wt by (auto simp: closed_def flags)
  have "ppcs s' (member j i) = Done" if "ppcs s (member j i) = Done" for i j
    using that t(2) moves_Done [OF mv, of "member j i"] by (cases "member j i = t") auto
  then have "stage_inv s'"
    using inv closed mono gs
    by (auto simp: close_inv_def stage_inv_def m simp del: member.simps group_size.simps)
  ultimately show ?thesis by (simp add: close_inv_def)
qed

text \<open>The steps of \<open>main\<close>.\<close>

lemma close_inv_join:
  assumes inv: "close_inv s" and w: "wait_for k i s = Some s'" and m: "ppcs s Main = Join k i" and k: "k \<le> 2"
  shows "close_inv s'"
proof -
  obtain q where s': "s' = pgoto Main q s"
    and q: "i < group_size k s \<and> ppcs s (member k i) = Done \<and> q = Join k (Suc i) \<or>
      group_size k s \<le> i \<and> q = (if k < 2 then RelLock k else Done)"
    using w by (auto simp: wait_for_def split: if_splits)
  have pc: "u \<noteq> Main \<Longrightarrow> ppcs s' u = ppcs s u" and mn: "ppcs s' Main = q" for u
    by (auto simp: s' pgoto_def)
  have mem: "member j l \<noteq> Main" for j l by simp
  have gs: "group_size j s' = group_size j s" for j by (simp add: s' pgoto_def)
  have ad: "all_done j s' = all_done j s" for j
    unfolding all_done_def gs using pc mem by metis
  have sh: "shr s' = shr s" "control s' = control s" by (simp_all add: s' pgoto_def)
  have flag: "flag_inv s'" using inv pc by (simp add: close_inv_def flag_inv_def sh ad)
  have qw: "q \<noteq> EWait" "q \<noteq> KWait" using q by (auto split: if_splits)
  have "ppcs s' u = EWait \<Longrightarrow> ppcs s u = EWait" "ppcs s' u = KWait \<Longrightarrow> ppcs s u = KWait" for u
    using pc [of u] mn qw by (cases "u = Main"; simp)+
  then have cl: "closed j s \<Longrightarrow> closed j s'" for j by (auto simp: closed_def ad sh)
  have st: "\<forall>j < i. j < group_size k s \<longrightarrow> ppcs s (member k j) = Done" "\<forall>j < k. closed j s"
    using inv m by (auto simp: close_inv_def stage_inv_def)
  have full: "group_size k s \<le> i \<Longrightarrow> all_done k s" using st(1) by (auto simp: all_done_def)
  have "stage_inv s'"
    using q
  proof (elim disjE conjE)
    assume a: "i < group_size k s" "ppcs s (member k i) = Done" "q = Join k (Suc i)"
    with st cl pc mem show ?thesis
      by (auto simp: stage_inv_def mn gs less_Suc_eq simp del: member.simps group_size.simps)
  next
    assume a: "group_size k s \<le> i" "q = (if k < 2 then RelLock k else Done)"
    have "closed 2 s" if "k = 2" using full [OF a(1)] that by (simp add: closed_def)
    with a st cl full k show ?thesis
      by (auto simp: stage_inv_def mn ad less_Suc_eq numeral_3_eq_3 numeral_2_eq_2 split: if_splits)
  qed
  with flag show ?thesis by (simp add: close_inv_def)
qed

lemma release_t_fields:
  "nsrc (release_t k s) = nsrc s" "nelab (release_t k s) = nelab s" "nsink (release_t k s) = nsink s"
  "control (release_t k s) = control s" "hnd (release_t k s) = hnd s" "pcrashed (release_t k s) = pcrashed s"
  by (auto simp: release_t_def broadcast_rcv_def broadcast_ecv_def)

lemma close_inv_release:
  assumes inv: "close_inv s" and m: "ppcs s Main = RelCrit k" and k: "k < 2"
    and roles: "\<forall>t. role_ok t (ppcs s t)"
  shows "close_inv (pgoto Main (Join (Suc k) 0) (release_t k s))" (is "close_inv ?s")
proof -
  have pc: "ppcs ?s u = (if k = 0 \<and> ppcs s u = EWait then ELock
      else if k \<noteq> 0 \<and> ppcs s u = KWait then KLock else ppcs s u)" if "u \<noteq> Main" for u
    using that by (auto simp: pgoto_def release_t_def broadcast_rcv_def broadcast_ecv_def)
  have mn: "ppcs ?s Main = Join (Suc k) 0" by (simp add: pgoto_def)
  have gs: "group_size j ?s = group_size j s" for j by (simp add: pgoto_def release_t_fields)
  have mem: "member j l \<noteq> Main" for j l by simp
  have dn: "ppcs ?s u = Done \<longleftrightarrow> ppcs s u = Done" if "u \<noteq> Main" for u using pc [OF that] by simp
  have ad: "all_done j ?s = all_done j s" for j unfolding all_done_def gs using dn mem by metis
  have c: "control ?s = control s" by (simp add: pgoto_def release_t_fields)
  have rb: "wb_done (rbuffer (shr ?s)) = (if k = 0 then 1 else wb_done (rbuffer (shr s)))"
    and eb: "wb_done (ebuffer (shr ?s)) = (if k = 0 then wb_done (ebuffer (shr s)) else 1)"
    by (auto simp: pgoto_def release_t_def broadcast_rcv_def broadcast_ecv_def)
  from inv m have adk: "all_done k s" and st: "\<forall>j < k. closed j s" by (auto simp: close_inv_def stage_inv_def)
  have "flag_inv ?s"
    using inv adk k dn by (auto simp: close_inv_def flag_inv_def c ad rb eb numeral_2_eq_2 less_Suc_eq)
  moreover have "closed j ?s" if "j < Suc k" for j
  proof -
    have "ppcs ?s u \<noteq> EWait" if "k = 0 \<or> (\<forall>t. ppcs s t \<noteq> EWait)" for u
      using pc [of u] mn that by (cases "u = Main") auto
    moreover have "ppcs ?s u \<noteq> KWait" if "k \<noteq> 0" for u
      using pc [of u] mn that by (cases "u = Main") auto
    ultimately show ?thesis
      using that st adk k by (auto simp: closed_def ad rb eb less_Suc_eq numeral_2_eq_2)
  qed
  then have "stage_inv ?s" by (simp add: stage_inv_def mn)
  ultimately show ?thesis by (simp add: close_inv_def)
qed

end
