(* ===== verification/Pipeline_Safety.thy ===== *)
theory Pipeline_Safety
  imports Pipeline_Steps
begin

text \<open>
  Every step of a pipeline keeps the part of the invariant on memory and strings, and with the
  parts of \<open>Pipeline_Steps\<close> this makes an invariant of all reachable states.
\<close>

context pipeline
begin

lemma coreI:
  "local_inv (shr s) (ppcs s) er ee fl \<Longrightarrow> conserve s er ee fl \<Longrightarrow> drained s er ee \<Longrightarrow> core s er ee fl"
  by (simp add: core_def)

lemma coreD:
  assumes "core s er ee fl"
  shows "local_inv (shr s) (ppcs s) er ee fl" "conserve s er ee fl" "drained s er ee"
    "srep (shr s) er ee" "role_ok t (ppcs s t)" "holds cf tmp (pmem (shr s)) (ppcs s t) (fl t)"
    "own_of (ppcs s t) = Some a \<Longrightarrow> pmem (shr s) a \<noteq> None \<and> a \<notin> set (cells er) \<union> set (cells ee)"
  using assms by (auto simp: core_def local_inv_def own_inv_def)

text \<open>Steps that leave strings and buffers alone.\<close>

lemma drained_move:
  assumes "drained s er ee" and "\<And>u. u \<noteq> t \<Longrightarrow> woken (ppcs s u) (ppcs s' u)" and "control s' = control s"
    and "\<And>i. t = Elab i \<Longrightarrow> ppcs s' t = Done \<Longrightarrow> control s = 0 \<Longrightarrow> er = []"
    and "\<And>i. t = Sink i \<Longrightarrow> ppcs s' t = Done \<Longrightarrow> control s = 0 \<Longrightarrow> ee = []"
  shows "drained s' er ee"
proof -
  have "ppcs s' u = Done \<Longrightarrow> u \<noteq> t \<Longrightarrow> ppcs s u = Done" for u
    using woken_Done [OF assms(2) [of u]] by simp
  then show ?thesis using assms(1,3-5) unfolding drained_def by metis
qed

lemma core_pc:
  assumes inv: "core s er ee fl" and others: "\<And>u. u \<noteq> t \<Longrightarrow> woken (ppcs s u) (ppcs s' u)"
    and sh: "srep (shr s') er ee" "pmem (shr s') = pmem (shr s)" "trace (shr s') = trace (shr s)"
    and same: "control s' = control s" "nelab s' = nelab s"
    and own: "own_of (ppcs s' t) = own_of (ppcs s t)" and role: "role_ok t (ppcs s' t)"
    and holds: "\<And>ss. holds cf tmp (pmem (shr s)) (ppcs s t) ss \<Longrightarrow> holds cf tmp (pmem (shr s)) (ppcs s' t) ss"
    and de: "\<And>i. t = Elab i \<Longrightarrow> ppcs s' t = Done \<Longrightarrow> control s = 0 \<Longrightarrow> er = []"
    and dk: "\<And>i. t = Sink i \<Longrightarrow> ppcs s' t = Done \<Longrightarrow> control s = 0 \<Longrightarrow> ee = []"
  shows "core s' er ee fl"
proof (rule coreI)
  have "local_inv (shr s) (ppcs s') er ee fl"
    by (rule local_inv_pc [OF coreD(1) [OF inv] others own role holds])
  then show "local_inv (shr s') (ppcs s') er ee fl" using sh by (simp add: local_inv_def)
  show "conserve s' er ee fl" using coreD(2) [OF inv] sh same by (simp add: conserve_def)
  show "drained s' er ee" using coreD(3) [OF inv] others same(1) de dk by (rule drained_move)
qed

lemma core_crash: "core s er ee fl \<Longrightarrow> core (pcrash f s) er ee fl"
  by (simp add: core_def pcrash_def conserve_def drained_def)

lemma core_acquire:
  assumes inv: "core s er ee fl" and a: "acquire t s = Some s'"
  shows "core s' er ee fl"
proof (rule core_pc [OF inv])
  from acquire_moves [OF a] have mv: "moves t s s'" and sh: "shr s' = shr s"
    and own: "own_of (ppcs s' t) = own_of (ppcs s t)" by auto
  show "u \<noteq> t \<Longrightarrow> woken (ppcs s u) (ppcs s' u)" for u using mv by (simp add: moves_def)
  show "srep (shr s') er ee" "pmem (shr s') = pmem (shr s)" "trace (shr s') = trace (shr s)"
    using sh coreD(4) [OF inv] by simp_all
  show "control s' = control s" "nelab s' = nelab s" using mv by (simp_all add: moves_def)
  show "own_of (ppcs s' t) = own_of (ppcs s t)" by (rule own)
  have cases: "(\<exists>p. ppcs s t = SLock p \<and> ppcs s' t = SCrit p) \<or> (ppcs s t = ELock \<and> ppcs s' t = ECrit) \<or>
    (\<exists>p. ppcs s t = EPut p \<and> ppcs s' t = ECrit2 p) \<or> (ppcs s t = KLock \<and> ppcs s' t = KCrit) \<or>
    (\<exists>k. ppcs s t = RelLock k \<and> ppcs s' t = RelCrit k)"
    using a by (auto simp: acquire_def take_r_def take_e_def pgoto_def split: ppc.splits if_splits)
  with coreD(5) [OF inv, of t] show "role_ok t (ppcs s' t)" by (cases t) auto
  from cases show "holds cf tmp (pmem (shr s)) (ppcs s t) ss \<Longrightarrow> holds cf tmp (pmem (shr s)) (ppcs s' t) ss" for ss
    by auto
  from cases show "ppcs s' t = Done \<Longrightarrow> er = []" "ppcs s' t = Done \<Longrightarrow> ee = []" by auto
qed

lemma core_start:
  assumes inv: "core s er ee fl" and pc: "ppcs s t = SStart" and st: "p_start P (shr s) = (p, S)"
  shows "core ((pgoto t (SLock p) s)\<lparr>shr := S\<rparr>) er ee (fl(t := []))" (is "core ?s _ _ _")
proof -
  from start_ok [OF st] obtain h where S: "S = (shr s)\<lparr>pmem := h\<rparr>" and p: "tmp p h"
    and old: "\<And>x. pmem (shr s) x \<noteq> None \<Longrightarrow> h x = pmem (shr s) x"
    and fr: "\<And>a. p = Some a \<Longrightarrow> pmem (shr s) a = None \<and> h a \<noteq> None" by blast
  from coreD(5) [OF inv, of t] pc obtain i where t: "t = Src i" by (cases t) auto
  have dom: "x \<in> set (cells er) \<union> set (cells ee) \<Longrightarrow> pmem (shr s) x \<noteq> None" for x
    using coreD(4) [OF inv] wb_rep_fresh by (auto simp: srep_def)
  have out: "p = Some a \<Longrightarrow> pmem (shr s) a = None \<and> h a \<noteq> None \<and> a \<notin> set (cells er) \<union> set (cells ee)" for a
    using fr [of a] dom [of a] by auto
  have rep: "srep S er ee"
    using coreD(4) [OF inv] dom old by (auto simp: srep_def S intro!: wb_rep_cong [of "pmem (shr s)"])
  have "local_inv S (ppcs ?s) er ee (fl(t := []))"
    by (rule local_inv_step [OF coreD(1) [OF inv]])
      (use rep old out p t pc in \<open>auto simp: S pgoto_def\<close>)
  moreover have "conserve ?s er ee (fl(t := []))"
    using coreD(2) [OF inv] t by (simp add: conserve_def S pgoto_def)
  moreover have "drained ?s er ee"
    using coreD(3) [OF inv] t by (auto simp: drained_def pgoto_def)
  ultimately show ?thesis by (intro coreI) simp_all
qed

text \<open>A source thread.\<close>

lemma core_source:
  assumes inv: "core s er ee fl" and flg: "flag_inv s" and pc: "ppcs s t = SCrit p" and lv: "live s t"
    and g: "good e" and st: "source_step P e u t p s = Some s'"
  shows "\<exists>er' fl'. core s' er' ee fl' \<and> (pcrashed s' = pcrashed s \<or> pcrashed s' = Some NullDeref)"
  using st
proof (cases rule: source_step_cases)
  case (crash f)
  have "f = NullDeref"
    by (rule source_fault [OF coreD(4) [OF inv] _ _ g crash(1)])
      (use coreD(6) [OF inv, of t] coreD(7) [OF inv, of t] pc in auto)
  with crash inv show ?thesis using core_crash [of s er ee fl NullDeref] by (auto simp: pcrash_def)
next
  case (ok stop sg S)
  from coreD(5) [OF inv, of t] pc obtain i where t: "t = Src i" by (cases t) auto
  have tp: "tmp p (pmem (shr s))" using coreD(6) [OF inv, of t] pc by simp
  have ow: "p = Some a \<Longrightarrow> pmem (shr s) a \<noteq> None \<and> a \<notin> set (cells er) \<union> set (cells ee)" for a
    using coreD(7) [OF inv, of t] pc by simp
  from source_ok [OF coreD(4) [OF inv] tp ow g ok(1)]
  obtain er' new where eff: "source_effect p (shr s) er ee S er' new" and tp': "tmp p (pmem S)" by blast
  then have rep: "srep S er' ee" and str: "map str_of er' = map str_of er @ new"
    and tr: "trace S = trace (shr s) @ map Made new"
    by (simp_all add: source_effect_def)
  have "core s' er' ee (fl(t := []))"
  proof (rule coreI)
    show "local_inv (shr s') (ppcs s') er' ee (fl(t := []))"
    proof (rule local_inv_step [OF coreD(1) [OF inv]])
      show "u \<noteq> t \<Longrightarrow> woken (ppcs s u) (ppcs s' u)" for u by (rule ok)
    qed (use eff ow rep tp' t pc ok(2,3) in \<open>auto simp: source_effect_def split: if_splits\<close>)
    show "conserve s' er' ee (fl(t := []))"
      using coreD(2) [OF inv] t str tr ok(2,9,11)
      by (auto simp: conserve_def balance_def union_ac)
    have "\<not> all_done 0 s" using pc t lv by (auto simp: all_done_def)
    with flg have nd: "control s = 0 \<Longrightarrow> ppcs s (Elab j) \<noteq> Done" for j by (auto simp: flag_inv_def)
    have "ppcs s' (Elab j) = Done \<longleftrightarrow> ppcs s (Elab j) = Done" "ppcs s' (Sink j) = Done \<longleftrightarrow> ppcs s (Sink j) = Done" for j
      using woken_Done [OF ok(4)] t by auto
    with nd coreD(3) [OF inv] ok(9) show "drained s' er' ee" by (auto simp: drained_def)
  qed
  with ok(13) show ?thesis by blast
qed

text \<open>An elaboration thread.\<close>

lemma core_elab_take:
  assumes inv: "core s er ee fl" and pc: "ppcs s t = ECrit" and lv: "live s t"
  shows "\<exists>er' fl'. core (elab_take P t s) er' ee fl' \<and>
    (pcrashed (elab_take P t s) = pcrashed s \<or> pcrashed (elab_take P t s) = Some NullDeref)"
proof -
  from coreD(5) [OF inv, of t] pc obtain i where t: "t = Elab i" by (cases t) auto
  with lv have i: "i < nelab s" by simp
  have rep: "wb_rep (pmem (shr s)) (rbuffer (shr s)) er" "wb_rep (pmem (shr s)) (ebuffer (shr s)) ee"
    and disj: "set (cells er) \<inter> set (cells ee) = {}"
    using coreD(4) [OF inv] by (auto simp: srep_def)
  show ?thesis
  proof (cases rule: elab_take_cases [where P = P and t = t and s = s])
    case wait
    have "core (elab_take P t s) er ee fl"
      unfolding wait(3) by (rule core_pc [OF inv, of t]) (use pc t coreD(4) [OF inv] in \<open>auto simp: pgoto_def\<close>)
    moreover have "pcrashed (elab_take P t s) = pcrashed s" by (simp add: wait(3) pgoto_def)
    ultimately show ?thesis by blast
  next
    case stop
    have "er = []" using wb_rep_head [OF rep(1)] stop(1) by simp
    then have "core (elab_take P t s) er ee fl"
      unfolding stop(3) by (intro core_pc [OF inv, of t]) (use pc t coreD(4) [OF inv] in \<open>auto simp: pgoto_def\<close>)
    moreover have "pcrashed (elab_take P t s) = pcrashed s" by (simp add: stop(3) pgoto_def)
    ultimately show ?thesis by blast
  next
    case (crash f)
    then obtain a d x es where er: "er = (a, d, x) # es"
      using wb_rep_head [OF rep(1)] by (cases er) auto
    have "f = NullDeref" using rep(1) crash(2) unfolding er by (rule ext_fault)
    with crash(3) core_crash [OF inv, of f] show ?thesis by (auto simp: pcrash_def)
  next
    case (got data rb h)
    then obtain a d x es where er: "er = (a, d, x) # es"
      using wb_rep_head [OF rep(1)] by (cases er) auto
    from ext_ok [OF rep(1) [unfolded er] got(2)] obtain r where data: "data = Some r" and rb: "wb_rep h rb es"
      and r: "pmem (shr s) r = None" "h r = Some (Chars (cstr x))" "0 \<notin> set x"
      and fr: "\<And>y. y \<notin> {a, d, r} \<Longrightarrow> h y = pmem (shr s) y" by blast
    have rout: "r \<notin> set (cells er)" "r \<notin> set (cells ee)" using rep wb_rep_fresh r(1) by auto
    let ?s = "(pgoto t (EGot data) s)\<lparr>shr := (shr s)\<lparr>pmem := h, rbuffer := rb\<rparr>, rmutex := None\<rparr>"
    have ee: "wb_rep h (ebuffer (shr s)) ee"
    proof (rule wb_rep_cong [OF rep(2)])
      fix y
      assume "y \<in> set (cells ee)"
      with disj rout er have "y \<notin> {a, d, r}" by auto
      then show "h y = pmem (shr s) y" by (rule fr)
    qed
    have "core ?s es ee (fl(t := [cf x]))"
    proof (rule coreI)
      show "local_inv (shr ?s) (ppcs ?s) es ee (fl(t := [cf x]))"
      proof (rule local_inv_step [OF coreD(1) [OF inv]])
        show "pmem (shr ?s) y = pmem (shr s) y" if "pmem (shr s) y \<noteq> None" "y \<notin> set (cells er) \<union> set (cells ee)" for y
        proof -
          from that r(1) er have "y \<notin> {a, d, r}" by auto
          from fr [OF this] show ?thesis by simp
        qed
      qed (use rb ee disj er rout r data t pc in \<open>auto simp: srep_def pgoto_def\<close>)
      have none: "fl (Elab i) = []" using coreD(6) [OF inv, of t] pc t by simp
      show "conserve ?s es ee (fl(t := [cf x]))"
        using coreD(2) [OF inv] flight_upd [OF i, of fl "[cf x]"] none
        by (simp add: conserve_def balance_def er t pgoto_def union_ac)
      show "drained ?s es ee" using coreD(3) [OF inv] t er by (auto simp: drained_def pgoto_def)
    qed
    moreover have "pcrashed ?s = pcrashed s" by (simp add: pgoto_def)
    ultimately show ?thesis unfolding got(3) by blast
  qed
qed

lemma core_elab_conv:
  assumes inv: "core s er ee fl" and pc: "ppcs s t = EGot p"
  shows "\<exists>fl'. core (elab_conv P t p s) er ee fl' \<and> pcrashed (elab_conv P t p s) = pcrashed s"
proof -
  from coreD(5) [OF inv, of t] pc obtain i where t: "t = Elab i" by (cases t) auto
  from coreD(6) [OF inv, of t] pc obtain a x where p: "p = Some a" "pmem (shr s) a = Some (Chars (cstr x))"
    "0 \<notin> set x" and f: "fl t = [cf x]" by auto
  from conv_ok [of "pmem (shr s)" a x, OF p(2,3)] obtain cs where c: "p_conv P (Some a) (pmem (shr s)) = Inr ((pmem (shr s))(a \<mapsto> Chars cs))"
    and rd: "read_cells cs = Inr (cf x)" by blast
  let ?h = "(pmem (shr s))(a \<mapsto> Chars cs)"
  let ?s = "(pgoto t (EPut p) s)\<lparr>shr := (shr s)\<lparr>pmem := ?h\<rparr>\<rparr>"
  have eq: "elab_conv P t p s = ?s" using c p(1) by (simp add: elab_conv_def)
  have out: "a \<notin> set (cells er) \<union> set (cells ee)" using coreD(7) [OF inv, of t a] pc p(1) by simp
  have "core ?s er ee (fl(t := [cf x]))"
  proof (rule coreI)
    show "local_inv (shr ?s) (ppcs ?s) er ee (fl(t := [cf x]))"
      by (rule local_inv_step [OF coreD(1) [OF inv]])
        (use coreD(4) [OF inv] out pc p t rd in
          \<open>auto simp: srep_def pgoto_def read_str_def intro!: wb_rep_frame\<close>)
    show "conserve ?s er ee (fl(t := [cf x]))"
      using coreD(2) [OF inv] f by (simp add: conserve_def pgoto_def fun_upd_idem)
    show "drained ?s er ee" using coreD(3) [OF inv] t by (auto simp: drained_def pgoto_def)
  qed
  then show ?thesis unfolding eq by (auto simp: pgoto_def)
qed

lemma core_elab_put:
  assumes inv: "core s er ee fl" and flg: "flag_inv s" and pc: "ppcs s t = ECrit2 p" and lv: "live s t"
    and st: "elab_put P u t p s = Some s'"
  shows "\<exists>ee' fl'. core s' er ee' fl' \<and> (pcrashed s' = pcrashed s \<or> pcrashed s' = Some NullDeref)"
proof -
  from coreD(5) [OF inv, of t] pc obtain i where t: "t = Elab i" by (cases t) auto
  with lv have i: "i < nelab s" by simp
  from coreD(6) [OF inv, of t] pc obtain a x where p: "p = Some a" "read_str (Some a) (pmem (shr s)) = Inr x"
    and f: "fl t = [x]" by auto
  have out: "pmem (shr s) a \<noteq> None" "a \<notin> set (cells er)" "a \<notin> set (cells ee)"
    using coreD(7) [OF inv, of t a] pc p(1) by auto
  have rep: "wb_rep (pmem (shr s)) (rbuffer (shr s)) er" "wb_rep (pmem (shr s)) (ebuffer (shr s)) ee"
    and disj: "set (cells er) \<inter> set (cells ee) = {}"
    using coreD(4) [OF inv] by (auto simp: srep_def)
  from st show ?thesis
  proof (cases rule: elab_put_cases)
    case (crash g)
    have "g = NullDeref" using ins_fault [OF rep(2) p(2) out(3)] crash(1) p(1) by simp
    with crash(2) core_crash [OF inv, of g] show ?thesis by (auto simp: pcrash_def)
  next
    case (ok eb h)
    from ins_ok [OF rep(2) p(2) out(3) ok(1) [unfolded p(1)]] obtain b d
      where eb: "wb_rep h eb (ee @ [(b, d, x)])" and b: "pmem (shr s) b = None" "pmem (shr s) d = None"
      and fr: "\<And>y. y \<notin> set (cells ee) \<union> {b, d, a} \<Longrightarrow> h y = pmem (shr s) y" by blast
    have bo: "b \<notin> set (cells er)" "d \<notin> set (cells er)" using rep(1) wb_rep_fresh b by auto
    have er: "wb_rep h (rbuffer (shr s)) er"
    proof (rule wb_rep_cong [OF rep(1)])
      fix y
      assume "y \<in> set (cells er)"
      with disj bo out have "y \<notin> set (cells ee) \<union> {b, d, a}" by auto
      then show "h y = pmem (shr s) y" by (rule fr)
    qed
    have "core s' er (ee @ [(b, d, x)]) (fl(t := []))"
    proof (rule coreI)
      show "local_inv (shr s') (ppcs s') er (ee @ [(b, d, x)]) (fl(t := []))"
      proof (rule local_inv_step [OF coreD(1) [OF inv]])
        show "u \<noteq> t \<Longrightarrow> woken (ppcs s u) (ppcs s' u)" for u by (rule ok)
        show "srep (shr s') er (ee @ [(b, d, x)])" using er eb disj bo by (simp add: srep_def ok(2))
        show "pmem (shr s') y = pmem (shr s) y" if "pmem (shr s) y \<noteq> None"
          "y \<notin> set (cells er) \<union> set (cells ee)" "own_of (ppcs s t) \<noteq> Some y" for y
          using that b pc p(1) fr [of y] by (cases "y = b \<or> y = d") (auto simp: ok(2))
      qed (use b pc t ok(3) in auto)
      have "flight (nelab s) fl = add_mset x (flight (nelab s) (fl(t := [])))"
        using flight_upd [OF i, of fl "[]"] f t by simp
      then have "balance tr er (ee @ [(b, d, x)]) (flight (nelab s) (fl(t := []))) =
          balance tr er ee (flight (nelab s) fl)" for tr by (simp add: balance_def)
      with coreD(2) [OF inv] ok(2,9,11) show "conserve s' er (ee @ [(b, d, x)]) (fl(t := []))"
        by (simp add: conserve_def)
      have "\<not> all_done 1 s" using pc t lv by (auto simp: all_done_def)
      with flg have nd: "control s = 0 \<Longrightarrow> ppcs s (Sink j) \<noteq> Done" for j by (auto simp: flag_inv_def)
      have "ppcs s' (Sink j) = Done \<longleftrightarrow> ppcs s (Sink j) = Done" for j using woken_Done [OF ok(4)] t by auto
      moreover have "ppcs s' (Elab j) = Done \<Longrightarrow> ppcs s (Elab j) = Done" for j
        using woken_Done [OF ok(4), of "Elab j"] t ok(3) by (cases "j = i") auto
      ultimately show "drained s' er (ee @ [(b, d, x)])"
        using nd coreD(3) [OF inv] ok(9) by (auto simp: drained_def)
    qed
    with ok(13) show ?thesis by blast
  qed
qed

text \<open>A sink thread.\<close>

lemma core_sink:
  assumes inv: "core s er ee fl" and pc: "ppcs s t = KCrit"
  shows "\<exists>ee' fl'. core (sink_step P e t s) er ee' fl' \<and>
    (pcrashed (sink_step P e t s) = pcrashed s \<or> pcrashed (sink_step P e t s) = Some NullDeref)"
proof -
  from coreD(5) [OF inv, of t] pc obtain i where t: "t = Sink i" by (cases t) auto
  have rep: "wb_rep (pmem (shr s)) (rbuffer (shr s)) er" "wb_rep (pmem (shr s)) (ebuffer (shr s)) ee"
    and disj: "set (cells er) \<inter> set (cells ee) = {}"
    using coreD(4) [OF inv] by (auto simp: srep_def)
  show ?thesis
  proof (cases rule: sink_step_cases [where P = P and e = e and t = t and s = s])
    case wait
    have "core (sink_step P e t s) er ee fl"
      unfolding wait(3) by (rule core_pc [OF inv, of t]) (use pc t coreD(4) [OF inv] in \<open>auto simp: pgoto_def\<close>)
    moreover have "pcrashed (sink_step P e t s) = pcrashed s" by (simp add: wait(3) pgoto_def)
    ultimately show ?thesis by blast
  next
    case stop
    have "ee = []" using wb_rep_head [OF rep(2)] stop(1) by simp
    then have "core (sink_step P e t s) er ee fl"
      unfolding stop(3) by (intro core_pc [OF inv, of t]) (use pc t coreD(4) [OF inv] in \<open>auto simp: pgoto_def\<close>)
    moreover have "pcrashed (sink_step P e t s) = pcrashed s" by (simp add: stop(3) pgoto_def)
    ultimately show ?thesis by blast
  next
    case (crash f)
    then obtain a d x es where ee: "ee = (a, d, x) # es"
      using wb_rep_head [OF rep(2)] by (cases ee) auto
    have "f = NullDeref"
    proof (cases "p_ext P (ebuffer (shr s)) (pmem (shr s))")
      case (Inl g)
      with crash(2) have "f = g" by simp
      with ext_fault [OF rep(2) [unfolded ee]] Inl show ?thesis by simp
    next
      case (Inr r)
      obtain data eb h where r: "r = (data, eb, h)" by (cases r)
      from ext_ok [OF rep(2) [unfolded ee] Inr [unfolded r]] have "read_str data h = Inr x" by auto
      then have "read_str data (pmem ((shr s)\<lparr>pmem := h, ebuffer := eb\<rparr>)) = Inr x" by simp
      from sink_ok [OF this, of e] Inr r crash(2) show ?thesis by auto
    qed
    with crash(3) core_crash [OF inv, of f] show ?thesis by (auto simp: pcrash_def)
  next
    case (out S)
    then obtain a d x es where ee: "ee = (a, d, x) # es"
      using wb_rep_head [OF rep(2)] by (cases ee) auto
    from out(2) obtain data eb h where ext: "p_ext P (ebuffer (shr s)) (pmem (shr s)) = Inr (data, eb, h)"
      and S: "p_sink P e data ((shr s)\<lparr>pmem := h, ebuffer := eb\<rparr>) = Inr S" by (auto simp: result_simps)
    from ext_ok [OF rep(2) [unfolded ee] ext] obtain r where data: "data = Some r" and eb: "wb_rep h eb es"
      and r: "pmem (shr s) r = None" "h r = Some (Chars (cstr x))" "0 \<notin> set x"
      and fr: "\<And>y. y \<notin> {a, d, r} \<Longrightarrow> h y = pmem (shr s) y" by blast
    have "read_str data (pmem ((shr s)\<lparr>pmem := h, ebuffer := eb\<rparr>)) = Inr x" using data r by simp
    from sink_ok [OF this, of e] S obtain ev
      where SS: "S = (shr s)\<lparr>pmem := h, ebuffer := eb, trace := trace (shr s) @ [ev]\<rparr>"
      and ev: "made [ev] = []" "gone [ev] = [x]" by auto
    have rout: "r \<notin> set (cells ee)" "r \<notin> set (cells er)" using rep wb_rep_fresh r(1) by auto
    have er: "wb_rep h (rbuffer (shr s)) er"
    proof (rule wb_rep_cong [OF rep(1)])
      fix y
      assume "y \<in> set (cells er)"
      with disj rout ee have "y \<notin> {a, d, r}" by auto
      then show "h y = pmem (shr s) y" by (rule fr)
    qed
    let ?s = "(pgoto t KLock s)\<lparr>shr := S, emutex := None\<rparr>"
    have "core ?s er es (fl(t := []))"
    proof (rule coreI)
      show "local_inv (shr ?s) (ppcs ?s) er es (fl(t := []))"
      proof (rule local_inv_step [OF coreD(1) [OF inv]])
        show "pmem (shr ?s) y = pmem (shr s) y" if "pmem (shr s) y \<noteq> None" "y \<notin> set (cells er) \<union> set (cells ee)" for y
        proof -
          from that r(1) ee have "y \<notin> {a, d, r}" by auto
          from fr [OF this] show ?thesis by (simp add: SS)
        qed
      qed (use er eb disj ee t pc in \<open>auto simp: srep_def pgoto_def SS\<close>)
      show "conserve ?s er es (fl(t := []))"
        using coreD(2) [OF inv] t ev by (simp add: conserve_def balance_def SS pgoto_def ee union_ac)
      show "drained ?s er es" using coreD(3) [OF inv] t ee by (auto simp: drained_def pgoto_def)
    qed
    moreover have "pcrashed ?s = pcrashed s" by (simp add: pgoto_def)
    ultimately show ?thesis unfolding out(3) by blast
  qed
qed

text \<open>The main thread and the signal handler.\<close>

lemma core_main:
  assumes inv: "core s er ee fl" and pc: "ppcs s Main = Join k i" and st: "wait_for k i s = Some s'"
  shows "core s' er ee fl"
proof -
  have k: "k \<le> 2" using coreD(5) [OF inv, of Main] pc by simp
  obtain q where s': "s' = pgoto Main q s" and q: "q = Join k (Suc i) \<or> q = RelLock k \<and> k < 2 \<or> q = Done"
    using st by (auto simp: wait_for_def split: if_splits)
  show ?thesis
    by (rule core_pc [OF inv, of Main]) (use q k pc coreD(4) [OF inv] in \<open>auto simp: s' pgoto_def\<close>)
qed

lemma core_release:
  assumes inv: "core s er ee fl" and pc: "ppcs s Main = RelCrit k"
  shows "core (pgoto Main (Join (Suc k) 0) (release_t k s)) er ee fl"
proof -
  have k: "k < 2" using coreD(5) [OF inv, of Main] pc by simp
  show ?thesis
  proof (rule core_pc [OF inv, of Main])
    show "u \<noteq> Main \<Longrightarrow> woken (ppcs s u) (ppcs (pgoto Main (Join (Suc k) 0) (release_t k s)) u)" for u
      by (auto simp: pgoto_def release_t_def broadcast_rcv_def broadcast_ecv_def woken_def split: if_splits)
  qed (use k pc coreD(4) [OF inv] in
      \<open>auto simp: pgoto_def release_t_def broadcast_rcv_def broadcast_ecv_def srep_def\<close>)
qed

lemma core_sigint: "core s er ee fl \<Longrightarrow> control s \<ge> 0 \<Longrightarrow> control s < INT_MAX \<Longrightarrow> core (sigint t s) er ee fl"
  by (auto simp: core_def sigint_def Let_def conserve_def drained_def)

lemma core_handler:
  assumes inv: "core s er ee fl" and c: "control s \<noteq> 0" and st: "catcher_SIGINT s = Some s'"
  shows "\<exists>er' ee'. core s' er' ee' fl \<and> pcrashed s' = pcrashed s"
proof -
  have less: "balance tr [] ee' F \<subseteq># balance tr er' ee' F" "balance tr er' [] F \<subseteq># balance tr er' ee' F" for tr er' ee' F
    by (auto simp: balance_def)
  from st obtain t k where h: "hnd s = Some (t, k)" by (auto simp: catcher_SIGINT_def split: option.splits)
  consider "k = 0" | "k = 1" | "k > 1" by linarith
  then show ?thesis
  proof cases
    case 1
    have "core s' [] ee fl"
      using inv c st 1 h less(1) [of "trace (shr s)" ee "flight (nelab s) fl" er]
      by (auto simp: catcher_SIGINT_def core_def local_inv_def srep_def own_inv_def conserve_def drained_def
          split: if_splits dest: subset_mset.order_trans)
    moreover have "pcrashed s' = pcrashed s" using st 1 h by (auto simp: catcher_SIGINT_def split: if_splits)
    ultimately show ?thesis by blast
  next
    case 2
    have "core s' er [] fl"
      using inv c st 2 h less(2) [of "trace (shr s)" er "flight (nelab s) fl" ee]
      by (auto simp: catcher_SIGINT_def core_def local_inv_def srep_def own_inv_def conserve_def drained_def
          split: if_splits dest: subset_mset.order_trans)
    moreover have "pcrashed s' = pcrashed s" using st 2 h by (auto simp: catcher_SIGINT_def split: if_splits)
    ultimately show ?thesis by blast
  next
    case 3
    have "core s' er ee fl" "pcrashed s' = pcrashed s"
      using inv st 3 h by (auto simp: catcher_SIGINT_def core_def conserve_def drained_def)
    then show ?thesis by blast
  qed
qed

section \<open>The invariant\<close>

definition pinv :: "proc \<Rightarrow> entry list \<Rightarrow> entry list \<Rightarrow> (tid \<Rightarrow> byte list list) \<Rightarrow> bool" where
  "pinv s er ee fl \<longleftrightarrow> core s er ee fl \<and> mut_inv s \<and> close_inv s \<and>
     (pcrashed s = None \<or> pcrashed s = Some NullDeref)"

lemma core_exec:
  assumes inv: "core s er ee fl" and fl: "flag_inv s" and lv: "live s t" and g: "good e"
    and st: "pexec P t e u s = Some s'"
  shows "\<exists>er' ee' fl'. core s' er' ee' fl' \<and> (pcrashed s' = pcrashed s \<or> pcrashed s' = Some NullDeref)"
proof (cases "ppcs s t")
  case SStart
  obtain p S where p: "p_start P (shr s) = (p, S)" by fastforce
  with SStart st have s': "s' = (pgoto t (SLock p) s)\<lparr>shr := S\<rparr>" by (simp add: pexec_def)
  then have "pcrashed s' = pcrashed s" by (simp add: pgoto_def)
  with core_start [OF inv SStart p] s' show ?thesis by blast
next
  case (SCrit p)
  with core_source [OF inv fl SCrit lv g] st show ?thesis by (fastforce simp: pexec_def)
next
  case ECrit
  with core_elab_take [OF inv ECrit lv] st show ?thesis by (fastforce simp: pexec_def)
next
  case (EGot p)
  with core_elab_conv [OF inv EGot] st show ?thesis by (fastforce simp: pexec_def)
next
  case (ECrit2 p)
  with core_elab_put [OF inv fl ECrit2 lv] st show ?thesis by (fastforce simp: pexec_def)
next
  case KCrit
  with core_sink [OF inv KCrit] st show ?thesis by (fastforce simp: pexec_def)
next
  case (Join k i)
  with coreD(5) [OF inv, of t] have t: "t = Main" by (cases t) auto
  with Join st have w: "wait_for k i s = Some s'" by (simp add: pexec_def)
  then have "pcrashed s' = pcrashed s" by (auto simp: wait_for_def pgoto_def split: if_splits)
  with core_main [OF inv Join [unfolded t] w] show ?thesis by blast
next
  case (RelCrit k)
  with coreD(5) [OF inv, of t] have t: "t = Main" by (cases t) auto
  with RelCrit st have "s' = pgoto Main (Join (Suc k) 0) (release_t k s)" by (simp add: pexec_def)
  with core_release [OF inv RelCrit [unfolded t]] show ?thesis
    by (auto simp: pgoto_def release_t_fields)
qed (use st in \<open>simp_all add: pexec_def\<close>)

text \<open>What a step of another thread than \<open>main\<close> does to the flags and to its own program counter.\<close>

definition flags_kept :: "tid \<Rightarrow> proc \<Rightarrow> proc \<Rightarrow> bool" where
  "flags_kept t s s' \<longleftrightarrow>
     wb_done (rbuffer (shr s')) = wb_done (rbuffer (shr s)) \<and>
     wb_done (ebuffer (shr s')) = wb_done (ebuffer (shr s)) \<and>
     (ppcs s' t = EWait \<longrightarrow> wb_done (rbuffer (shr s)) = 0) \<and>
     (ppcs s' t = KWait \<longrightarrow> wb_done (ebuffer (shr s)) = 0) \<and>
     (\<forall>i. t = Elab i \<longrightarrow> ppcs s' t = Done \<longrightarrow> wb_done (rbuffer (shr s)) \<noteq> 0) \<and>
     (\<forall>i. t = Sink i \<longrightarrow> ppcs s' t = Done \<longrightarrow> wb_done (ebuffer (shr s)) \<noteq> 0)"

lemma exec_flags:
  assumes inv: "core s er ee fl" and g: "good e" and st: "pexec P t e u s = Some s'"
    and nm: "t \<noteq> Main" and nc: "\<And>f. s' \<noteq> pcrash f s"
  shows "flags_kept t s s'"
proof -
  have rep: "wb_rep (pmem (shr s)) (rbuffer (shr s)) er" "wb_rep (pmem (shr s)) (ebuffer (shr s)) ee"
    using coreD(4) [OF inv] by (auto simp: srep_def)
  have role: "role_ok t (ppcs s t)" using coreD(5) [OF inv] .
  show ?thesis
  proof (cases "ppcs s t")
    case SStart
    then obtain p S where p: "p_start P (shr s) = (p, S)" and s': "s' = (pgoto t (SLock p) s)\<lparr>shr := S\<rparr>"
      using st by (auto simp: pexec_def split: prod.splits)
    with start_ok [OF p] show ?thesis by (auto simp: flags_kept_def pgoto_def)
  next
    case (SCrit p)
    with role nm obtain i where t: "t = Src i" by (cases t) auto
    from SCrit st have "source_step P e u t p s = Some s'" by (simp add: pexec_def)
    then show ?thesis
    proof (cases rule: source_step_cases)
      case (ok stop sg S)
      have tp: "tmp p (pmem (shr s))" using coreD(6) [OF inv, of t] SCrit by simp
      have ow: "p = Some a \<Longrightarrow> pmem (shr s) a \<noteq> None \<and> a \<notin> set (cells er) \<union> set (cells ee)" for a
        using coreD(7) [OF inv, of t] SCrit by simp
      from source_ok [OF coreD(4) [OF inv] tp ow g ok(1)] ok(2,3) t show ?thesis
        by (auto simp: flags_kept_def source_effect_def)
    qed (use nc in blast)
  next
    case ECrit
    with role nm obtain i where t: "t = Elab i" by (cases t) auto
    from ECrit st have s': "s' = elab_take P t s" by (simp add: pexec_def)
    show ?thesis
    proof (cases rule: elab_take_cases [where P = P and t = t and s = s])
      case (got data rb h)
      then obtain a d x es where er: "er = (a, d, x) # es"
        using wb_rep_head [OF rep(1)] by (cases er) auto
      from ext_ok [OF rep(1) [unfolded er] got(2)] got(3) show ?thesis
        by (auto simp: flags_kept_def s' pgoto_def)
    qed (use nc s' t in \<open>auto simp: flags_kept_def pgoto_def\<close>)
  next
    case (EGot p)
    then show ?thesis using st nc
      by (cases rule: elab_conv_cases [where P = P and t = t and data = p and s = s])
        (auto simp: pexec_def flags_kept_def pgoto_def)
  next
    case (ECrit2 p)
    from coreD(6) [OF inv, of t] ECrit2 obtain a x where p: "p = Some a" "read_str (Some a) (pmem (shr s)) = Inr x"
      by auto
    have out: "a \<notin> set (cells ee)" using coreD(7) [OF inv, of t a] ECrit2 p(1) by auto
    from ECrit2 st have "elab_put P u t p s = Some s'" by (simp add: pexec_def)
    then show ?thesis
    proof (cases rule: elab_put_cases)
      case (ok eb h)
      from ins_ok [OF rep(2) p(2) out ok(1) [unfolded p(1)]] ok(2,3) show ?thesis
        by (auto simp: flags_kept_def)
    qed (use nc in blast)
  next
    case KCrit
    with role nm obtain i where t: "t = Sink i" by (cases t) auto
    from KCrit st have s': "s' = sink_step P e t s" by (simp add: pexec_def)
    show ?thesis
    proof (cases rule: sink_step_cases [where P = P and e = e and t = t and s = s])
      case (out S)
      then obtain a d x es where ee: "ee = (a, d, x) # es"
        using wb_rep_head [OF rep(2)] by (cases ee) auto
      from out(2) obtain data eb h where ext: "p_ext P (ebuffer (shr s)) (pmem (shr s)) = Inr (data, eb, h)"
        and S: "p_sink P e data ((shr s)\<lparr>pmem := h, ebuffer := eb\<rparr>) = Inr S" by (auto simp: result_simps)
      from ext_ok [OF rep(2) [unfolded ee] ext] have eb: "wb_done eb = wb_done (ebuffer (shr s))"
        and rd: "read_str data (pmem ((shr s)\<lparr>pmem := h, ebuffer := eb\<rparr>)) = Inr x" by auto
      from sink_ok [OF rd, of e] S eb out(3) show ?thesis by (auto simp: flags_kept_def s' pgoto_def)
    qed (use nc s' t in \<open>auto simp: flags_kept_def pgoto_def\<close>)
  qed (use st role nm in \<open>cases t; simp_all add: pexec_def\<close>)+
qed

lemma close_exec:
  assumes inv: "core s er ee fl" and cl: "close_inv s" and mt: "mut_inv s" and g: "good e"
    and st: "pexec P t e u s = Some s'"
  shows "close_inv s'"
proof (cases "\<exists>f. s' = pcrash f s")
  case True
  then show ?thesis using cl
    by (auto simp: close_inv_def flag_inv_def stage_inv_def closed_def all_done_def pcrash_def)
next
  case False
  with pexec_locked [OF st coreD(5) [OF inv] mt] have mv: "moves t s s'" by (simp add: locked_move_def)
  have nd: "ppcs s t \<noteq> Done" using st by (auto simp: pexec_def)
  show ?thesis
  proof (cases "t = Main")
    case False
    with exec_flags [OF inv g st] \<open>\<nexists>f. s' = pcrash f s\<close> have "flags_kept t s s'" by blast
    then show ?thesis
      unfolding flags_kept_def by (intro close_inv_move [OF cl mv False nd coreD(5) [OF inv]]) auto
  next
    case True
    note role = coreD(5) [OF inv, of Main]
    show ?thesis
    proof (cases "ppcs s Main")
      case (Join k i)
      with st True have "wait_for k i s = Some s'" by (simp add: pexec_def)
      from close_inv_join [OF cl this Join] role Join show ?thesis by simp
    next
      case (RelCrit k)
      with st True have "s' = pgoto Main (Join (Suc k) 0) (release_t k s)" by (simp add: pexec_def)
      with close_inv_release [OF cl RelCrit] role RelCrit coreD(5) [OF inv] show ?thesis by simp
    qed (use st True role in \<open>simp_all add: pexec_def\<close>)
  qed
qed

lemma close_acquire:
  assumes inv: "core s er ee fl" and cl: "close_inv s" and st: "acquire t s = Some s'"
  shows "close_inv s'"
proof -
  from acquire_moves [OF st] have mv: "moves t s s'" and sh: "shr s' = shr s" by auto
  have nd: "ppcs s t \<noteq> Done" using st by (auto simp: acquire_def)
  have q: "ppcs s' t \<notin> {EWait, KWait, Done}"
    using st by (auto simp: acquire_def take_r_def take_e_def pgoto_def split: ppc.splits if_splits)
  show ?thesis
  proof (cases "t = Main")
    case False
    then show ?thesis
      by (rule close_inv_move [OF cl mv _ nd coreD(5) [OF inv]]) (use q sh in auto)
  next
    case True
    with st coreD(5) [OF inv, of Main] obtain k where k: "ppcs s Main = RelLock k"
      and s': "ppcs s' = (ppcs s)(Main := RelCrit k)" "control s' = control s"
      "nsrc s' = nsrc s" "nelab s' = nelab s" "nsink s' = nsink s"
      by (auto simp: acquire_def take_r_def take_e_def pgoto_def split: ppc.splits if_splits)
    then have gs: "group_size j s' = group_size j s" for j by simp
    have mem: "ppcs s' (member j l) = ppcs s (member j l)" for j l using s' by simp
    have ad: "all_done j s' = all_done j s" for j unfolding all_done_def gs mem ..
    have "closed j s \<Longrightarrow> closed j s'" for j using s'(1) by (auto simp: closed_def ad sh)
    with cl k s' show ?thesis
      by (auto simp: close_inv_def flag_inv_def stage_inv_def ad sh)
  qed
qed

lemma mut_handler:
  assumes "mut_inv s" and "catcher_SIGINT s = Some s'"
  shows "mut_inv s'" and "control s \<noteq> 0" and "close_inv s \<Longrightarrow> close_inv s'"
proof -
  from assms(2) obtain t k where h: "hnd s = Some (t, k)" by (auto simp: catcher_SIGINT_def split: option.splits)
  with assms(1) show c: "control s \<noteq> 0" by (auto simp: mut_inv_def)
  from h assms(1) have "k \<le> 2" by (auto simp: mut_inv_def)
  then consider "k = 0" | "k = 1" | "k = 2" by linarith
  then show "mut_inv s'"
    using assms h by cases (auto simp: mut_inv_def catcher_SIGINT_def split: if_splits)
  have pc: "ppcs s' = ppcs s" "nsrc s' = nsrc s" "nelab s' = nelab s" "nsink s' = nsink s" "control s' = control s"
    using assms(2) h by (auto simp: catcher_SIGINT_def split: if_splits)
  have fl: "wb_done (rbuffer (shr s)) \<noteq> 0 \<Longrightarrow> wb_done (rbuffer (shr s')) \<noteq> 0"
    "wb_done (ebuffer (shr s)) \<noteq> 0 \<Longrightarrow> wb_done (ebuffer (shr s')) \<noteq> 0"
    using assms(2) h by (auto simp: catcher_SIGINT_def split: if_splits)
  have "all_done j s' = all_done j s" "group_size j s' = group_size j s" for j
    using pc by (auto simp: all_done_def)
  then show "close_inv s'" if "close_inv s"
    using that c pc fl by (auto simp: close_inv_def flag_inv_def stage_inv_def closed_def
        simp del: group_size.simps member.simps)
qed

lemma pinv_step:
  assumes inv: "pinv s er ee fl" and st: "pstep P l s = Some s'" and g: "\<And>t e u. l = Exec t e u \<Longrightarrow> good e"
  shows "\<exists>er' ee' fl'. pinv s' er' ee' fl'"
proof -
  from inv have core: "core s er ee fl" and mut: "mut_inv s" and cl: "close_inv s"
    by (auto simp: pinv_def)
  from st have nc: "pcrashed s = None" by (auto simp: pstep_def split: if_splits)
  show ?thesis
  proof (cases l)
    case (Acq t)
    with st have a: "acquire t s = Some s'" by (auto simp: pstep_def split: if_splits)
    note mv = acquire_moves [OF a]
    have "mut_inv s'" using mv by (intro mut_inv_move [OF mut]) auto
    with core_acquire [OF core a] close_acquire [OF core cl a] mv nc show ?thesis
      by (auto simp: pinv_def)
  next
    case (Exec t e u)
    with st have lv: "live s t" and x: "pexec P t e u s = Some s'" by (auto simp: pstep_def split: if_splits)
    note good = g [OF Exec]
    have "mut_inv s'"
      using pexec_locked [OF x coreD(5) [OF core] mut]
    proof (elim disjE exE)
      fix f
      assume "s' = pcrash f s"
      with mut show ?thesis by (auto simp: mut_inv_def pcrash_def)
    next
      assume "locked_move t s s'"
      then show ?thesis by (intro mut_inv_move [OF mut]) (auto simp: locked_move_def)
    qed
    moreover have "flag_inv s" using cl by (simp add: close_inv_def)
    ultimately show ?thesis
      using core_exec [OF core _ lv good x] close_exec [OF core cl mut good x] nc
      unfolding pinv_def by metis
  next
    case (Intr t)
    with st have s': "s' = sigint t s" and c: "control s < INT_MAX" by (auto simp: pstep_def split: if_splits)
    have c0: "0 \<le> control s" using mut by (simp add: mut_inv_def)
    have m: "mut_inv s'" using mut c c0 by (auto simp: s' mut_inv_def sigint_def Let_def)
    have "ppcs s' = ppcs s" "shr s' = shr s" "nsrc s' = nsrc s" "nelab s' = nelab s" "nsink s' = nsink s"
      "pcrashed s' = pcrashed s" "control s' \<noteq> 0"
      using c c0 by (auto simp: s' sigint_def Let_def)
    moreover from this have "close_inv s'"
      using cl by (auto simp: close_inv_def flag_inv_def stage_inv_def closed_def all_done_def
          simp del: member.simps)
    ultimately show ?thesis
      using core_sigint [OF core c0 c, of t] m nc unfolding s' pinv_def by metis
  next
    case HStep
    with st have h: "catcher_SIGINT s = Some s'" by (auto simp: pstep_def split: if_splits)
    with core_handler [OF core _ h] mut_handler [OF mut h] cl nc show ?thesis unfolding pinv_def by metis
  next
    case (Spurious t)
    with st obtain q where s': "s' = pgoto t q s" and w: "woken (ppcs s t) q" and q: "q = ELock \<or> q = KLock"
      and p: "ppcs s t = EWait \<or> ppcs s t = KWait"
      by (auto simp: pstep_def woken_def split: if_splits)
    have mv: "moves t s s'" by (auto simp: moves_def s' pgoto_def)
    have "mut_inv s'"
      by (rule mut_inv_move [OF mut mv]) (use q p in \<open>auto simp: s' pgoto_def locks_def\<close>)
    moreover have "core s' er ee fl"
      by (rule core_pc [OF core, of t]) (use q p coreD(4,5) [OF core] woken_role [OF w coreD(5) [OF core]] in
          \<open>auto simp: s' pgoto_def\<close>)
    moreover have "t \<noteq> Main" using coreD(5) [OF core, of t] p by auto
    then have "close_inv s'"
      by (rule close_inv_move [OF cl mv]) (use q p coreD(5) [OF core] in \<open>auto simp: s' pgoto_def\<close>)
    moreover have "pcrashed s' = pcrashed s" by (simp add: s' pgoto_def)
    ultimately show ?thesis using nc unfolding pinv_def by metis
  qed
qed

lemma pinv_init:
  "pinv (proc_init n1 n2 n3 td lp h) [] [] (\<lambda>_. [])"
proof -
  have "role_ok t (start_pc t)" "own_of (start_pc t) = None" "holds cf tmp h (start_pc t) []"
    "start_pc t \<noteq> Done" "in_r (start_pc t) = False" "in_e (start_pc t) = False" for t
    by (cases t; simp)+
  then have "core (proc_init n1 n2 n3 td lp h) [] [] (\<lambda>_. [])"
    by (auto simp: core_def local_inv_def own_inv_def srep_def conserve_def balance_def drained_def proc_init_def
        flight_def wbuf_init_rep)
  moreover have "mut_inv (proc_init n1 n2 n3 td lp h)"
    using \<open>\<And>t. in_r (start_pc t) = False\<close> \<open>\<And>t. in_e (start_pc t) = False\<close>
    by (auto simp: mut_inv_def proc_init_def)
  moreover have "close_inv (proc_init n1 n2 n3 td lp h)"
    by (auto simp: close_inv_def flag_inv_def stage_inv_def proc_init_def wbuf_init_def empty_wbuf_def)
  ultimately show ?thesis by (simp add: pinv_def proc_init_def)
qed

lemma preach_pinv:
  assumes "preach P good (proc_init n1 n2 n3 td lp h) s"
  shows "\<exists>er ee fl. pinv s er ee fl"
  using assms
proof induction
  case preach_init
  then show ?case using pinv_init by blast
next
  case (preach_step s l s')
  then show ?case using pinv_step by blast
qed

end

end
