(* ===== verification/Pipeline_Props.thy ===== *)
theory Pipeline_Props
  imports Pipeline_Safety
begin

text \<open>
  Consequences of the invariant of the pipelines: what is left when \<open>main\<close> ends, and that the
  threads cannot block each other forever, apart from a signal handler that waits for a mutex
  its own thread holds.
\<close>

section \<open>Thread numbers\<close>

lemma catcher_sizes:
  "catcher_SIGINT s = Some s' \<Longrightarrow> ppcs s' = ppcs s \<and> nsrc s' = nsrc s \<and> nelab s' = nelab s \<and> nsink s' = nsink s"
  by (auto simp: catcher_SIGINT_def split: option.splits prod.splits if_splits)

lemma live_cong:
  "nsrc s' = nsrc s \<Longrightarrow> nelab s' = nelab s \<Longrightarrow> nsink s' = nsink s \<Longrightarrow> live s' t = live s t"
  by (cases t) auto

text \<open>A thread that was never created stays where it is.\<close>

definition dead_inv :: "proc \<Rightarrow> bool" where
  "dead_inv s \<longleftrightarrow> (\<forall>t. \<not> live s t \<longrightarrow> ppcs s t = start_pc t)"

text \<open>The handler waits for a mutex that the interrupted thread itself holds.\<close>

definition self_blocked :: "proc \<Rightarrow> bool" where
  "self_blocked s \<longleftrightarrow> (\<exists>t. hnd s = Some (t, 0) \<and> rmutex s = Some (Thr t) \<or>
     hnd s = Some (t, 1) \<and> emutex s = Some (Thr t))"

text \<open>Only a source thread, and the signal handler, touch \<open>todo\<close>, the loop flag and the strings
  made.\<close>

definition counts_kept :: "proc \<Rightarrow> proc \<Rightarrow> bool" where
  "counts_kept s s' \<longleftrightarrow> todo (shr s') = todo (shr s) \<and> looping (shr s') = looping (shr s) \<and>
     made (trace (shr s')) = made (trace (shr s)) \<and> (\<forall>i. ppcs s' (Src i) = Done \<longleftrightarrow> ppcs s (Src i) = Done)"

context pipeline
begin

lemma sizes_step:
  assumes inv: "pinv s er ee fl" and st: "pstep P l s = Some s'"
  shows "nsrc s' = nsrc s \<and> nelab s' = nelab s \<and> nsink s' = nsink s \<and> (dead_inv s \<longrightarrow> dead_inv s')"
proof -
  have keep: "nsrc s' = nsrc s \<and> nelab s' = nelab s \<and> nsink s' = nsink s \<and> (dead_inv s \<longrightarrow> dead_inv s')"
    if "live s t" "moves t s s'" for t
  proof -
    have "ppcs s' u = start_pc u" if "\<not> live s u" "dead_inv s" for u
    proof -
      from that \<open>live s t\<close> have "u \<noteq> t" by auto
      with \<open>moves t s s'\<close> have "woken (ppcs s u) (ppcs s' u)" by (simp add: moves_def)
      moreover have "ppcs s u = start_pc u" using that by (simp add: dead_inv_def)
      ultimately show ?thesis by (cases u) (auto simp: woken_def)
    qed
    then show ?thesis using that live_cong [of s' s] by (auto simp: dead_inv_def moves_def)
  qed
  show ?thesis
  proof (cases l)
    case (Acq t)
    with st have "live s t" "acquire t s = Some s'" by (auto simp: pstep_def split: if_splits)
    with acquire_moves [of t s s'] keep show ?thesis by blast
  next
    case (Exec t e u)
    with st have lv: "live s t" and x: "pexec P t e u s = Some s'" by (auto simp: pstep_def split: if_splits)
    have "core s er ee fl" "mut_inv s" using inv by (auto simp: pinv_def)
    from pexec_locked [OF x coreD(5) [OF this(1)] this(2)] show ?thesis
    proof (elim disjE exE)
      fix f
      assume "s' = pcrash f s"
      then show ?thesis using live_cong [of s' s] by (auto simp: pcrash_def dead_inv_def)
    next
      assume "locked_move t s s'"
      with keep [OF lv] show ?thesis by (simp add: locked_move_def)
    qed
  next
    case (Intr t)
    with st have "s' = sigint t s" by (auto simp: pstep_def split: if_splits)
    then have "ppcs s' = ppcs s" "nsrc s' = nsrc s" "nelab s' = nelab s" "nsink s' = nsink s"
      by (auto simp: sigint_def Let_def)
    then show ?thesis using live_cong [of s' s] by (auto simp: dead_inv_def)
  next
    case HStep
    with st have "catcher_SIGINT s = Some s'" by (auto simp: pstep_def split: if_splits)
    from catcher_sizes [OF this] show ?thesis using live_cong [of s' s] by (auto simp: dead_inv_def)
  next
    case (Spurious t)
    with st have "live s t" "moves t s s'" by (auto simp: pstep_def moves_def pgoto_def split: if_splits)
    then show ?thesis by (rule keep)
  qed
qed

lemma preach_sizes:
  assumes "preach P good (proc_init n1 n2 n3 td lp h) s"
  shows "nsrc s = nat n1 \<and> nelab s = nat n2 \<and> nsink s = nat n3 \<and> dead_inv s"
  using assms
proof induction
  case preach_init
  then show ?case by (simp add: proc_init_def dead_inv_def)
next
  case (preach_step s l s')
  then obtain er ee fl where "pinv s er ee fl" using preach_pinv by blast
  from sizes_step [OF this preach_step.hyps(2)] preach_step.IH show ?case by simp
qed

section \<open>The end of a run\<close>

lemma pipeline_end:
  assumes r: "preach P good (proc_init n1 n2 n3 td lp h) s" and pos: "0 < n2" "0 < n3"
    and c: "control s = 0" and m: "ppcs s Main = Done"
  shows "image_mset cf (mset (made (trace (shr s)))) = mset (gone (trace (shr s)))"
proof -
  from preach_pinv [OF r] obtain er ee fl where inv: "pinv s er ee fl" by blast
  then have core: "core s er ee fl" and st: "stage_inv s" by (auto simp: pinv_def close_inv_def)
  from st m have cl: "closed 1 s" "closed 2 s" by (auto simp: stage_inv_def)
  from preach_sizes [OF r] pos have n: "0 < nelab s" "0 < nsink s" by auto
  have ed: "ppcs s (Elab i) = Done" if "i < nelab s" for i
    using cl(1) that by (simp add: closed_def all_done_def)
  have kd: "ppcs s (Sink i) = Done" if "i < nsink s" for i
    using cl(2) that by (simp add: closed_def all_done_def)
  from coreD(3) [OF core] c ed n kd have "er = []" "ee = []" by (auto simp: drained_def)
  moreover have "fl (Elab i) = []" if "i < nelab s" for i
    using coreD(6) [OF core, of "Elab i"] ed [OF that] by simp
  then have "flight (nelab s) fl = {#}" by (simp add: flight_def)
  ultimately show ?thesis using coreD(2) [OF core] c by (simp add: conserve_def balance_def)
qed

text \<open>Whatever happens, what leaves is the conversion of something that was made.\<close>

lemma gone_made:
  assumes r: "preach P good (proc_init n1 n2 n3 td lp h) s"
  shows "mset (gone (trace (shr s))) \<subseteq># image_mset cf (mset (made (trace (shr s))))"
proof -
  from preach_pinv [OF r] obtain er ee fl where "core s er ee fl" by (auto simp: pinv_def)
  from coreD(2) [OF this] have "balance (trace (shr s)) er ee (flight (nelab s) fl)
    \<subseteq># image_mset cf (mset (made (trace (shr s))))" by (simp add: conserve_def)
  moreover have "mset (gone (trace (shr s))) \<subseteq># balance (trace (shr s)) er ee (flight (nelab s) fl)"
    by (simp add: balance_def)
  ultimately show ?thesis by (rule subset_mset.order_trans [rotated])
qed

section \<open>Progress\<close>

lemma exec_enabled:
  assumes core: "core s er ee fl"
    and pc: "ppcs s t = SStart \<or> in_r (ppcs s t) \<or> in_e (ppcs s t) \<or> (\<exists>p. ppcs s t = EGot p)"
  shows "\<exists>u s'. pexec P t e u s = Some s'"
proof -
  have sr: "\<exists>u s'. signal_rcv u S = Some s'" for S by (auto simp: signal_rcv_def list_ex_iff)
  have se: "\<exists>u s'. signal_ecv u S = Some s'" for S by (auto simp: signal_ecv_def list_ex_iff)
  show ?thesis
  proof (cases "ppcs s t")
    case (SCrit p)
    show ?thesis
    proof (cases "p_source P e p (shr s)")
      case (Inr r)
      obtain stop sg S where "r = (stop, sg, S)" by (cases r)
      with Inr SCrit sr [of "s\<lparr>shr := S\<rparr>"] show ?thesis
        by (cases sg) (auto simp: pexec_def source_step_def)
    qed (use SCrit in \<open>simp add: pexec_def source_step_def\<close>)
  next
    case (ECrit2 p)
    show ?thesis
    proof (cases "p_ins P p (ebuffer (shr s)) (pmem (shr s))")
      case (Inr r)
      obtain eb h where "r = (eb, h)" by (cases r)
      with Inr ECrit2 se [of "s\<lparr>shr := (shr s)\<lparr>pmem := h, ebuffer := eb\<rparr>\<rparr>"] show ?thesis
        by (auto simp: pexec_def elab_put_def)
    qed (use ECrit2 in \<open>simp add: pexec_def elab_put_def\<close>)
  qed (use pc in \<open>auto simp: pexec_def split: prod.splits\<close>)
qed

lemma owner_runs:
  assumes inv: "pinv s er ee fl" and dead: "dead_inv s" and nc: "pcrashed s = None"
    and own: "rmutex s = Some (Thr t) \<or> emutex s = Some (Thr t)" and ni: "\<not> interrupted t s"
  shows "\<exists>u s'. pstep P (Exec t e u) s = Some s'"
proof -
  from inv have core: "core s er ee fl" and mut: "mut_inv s" by (auto simp: pinv_def)
  from own mut have pc: "in_r (ppcs s t) \<or> in_e (ppcs s t)" by (auto simp: mut_inv_def)
  have "live s t"
  proof (rule ccontr)
    assume "\<not> live s t"
    with dead have "ppcs s t = start_pc t" by (simp add: dead_inv_def)
    with pc show False by (cases t) auto
  qed
  with exec_enabled [OF core, of t e] pc ni nc show ?thesis by (auto simp: pstep_def)
qed

lemma main_waits:
  assumes inv: "pinv s er ee fl" and dead: "dead_inv s" and nc: "pcrashed s = None"
    and free: "rmutex s = None" "emutex s = None" and nh: "hnd s = None" and m: "ppcs s Main \<noteq> Done"
  shows "\<exists>l s'. pstep P l s = Some s' \<and> ((\<exists>t. l = Acq t) \<or> (\<exists>t u. l = Exec t e u))"
proof -
  from inv have core: "core s er ee fl" and mut: "mut_inv s" and st: "stage_inv s"
    by (auto simp: pinv_def close_inv_def)
  have out: "\<not> in_r (ppcs s t)" "\<not> in_e (ppcs s t)" for t
    using mut free unfolding mut_inv_def by (metis option.distinct(1))+
  have ni: "\<not> interrupted t s" for t by (simp add: interrupted_def nh)
  have acq: ?thesis if "live s t" "\<exists>s'. acquire t s = Some s'" for t
    using that ni nc by (auto simp: pstep_def intro!: exI [of _ "Acq t"])
  have exe: ?thesis if "live s t" "\<exists>u s'. pexec P t e u s = Some s'" for t
  proof -
    from that obtain u s' where "pexec P t e u s = Some s'" by blast
    with that ni nc have "pstep P (Exec t e u) s = Some s'" by (simp add: pstep_def)
    then show ?thesis by blast
  qed
  show ?thesis
  proof (cases "ppcs s Main")
    case (RelLock k)
    then show ?thesis
      by (intro acq [of Main]) (auto simp: acquire_def take_r_def take_e_def free)
  next
    case (Join k i)
    show ?thesis
    proof (cases "i < group_size k s \<and> ppcs s (member k i) \<noteq> Done")
      case False
      then show ?thesis
        by (intro exe [of Main]) (auto simp: Join pexec_def wait_for_def simp del: member.simps group_size.simps)
    next
      case True
      let ?t = "member k i"
      have lv: "live s ?t" using True by (auto split: if_splits)
      have role: "role_ok ?t (ppcs s ?t)" using coreD(5) [OF core] .
      have k: "k \<le> 2" using coreD(5) [OF core, of Main] Join by simp
      have cl: "\<forall>j < k. closed j s" using st Join by (simp add: stage_inv_def)
      have nw: "ppcs s ?t \<noteq> EWait \<and> ppcs s ?t \<noteq> KWait"
      proof -
        from k consider "k = 0" | "k = 1" | "k = 2" by linarith
        then show ?thesis
        proof cases
          case 1
          with role show ?thesis by auto
        next
          case 2
          with cl have "closed 0 s" by simp
          with 2 role show ?thesis by (auto simp: closed_def)
        next
          case 3
          with cl have "closed 1 s" by simp
          with 3 role show ?thesis by (auto simp: closed_def)
        qed
      qed
      have "(\<exists>s'. acquire ?t s = Some s') \<or> (\<exists>u s'. pexec P ?t e u s = Some s')"
      proof (cases "ppcs s ?t = SStart \<or> (\<exists>p. ppcs s ?t = EGot p)")
        case True
        with exec_enabled [OF core, of ?t e] show ?thesis by blast
      next
        case False
        with \<open>i < group_size k s \<and> ppcs s (member k i) \<noteq> Done\<close> nw role out [of ?t]
        have "(\<exists>p. ppcs s ?t = SLock p) \<or> ppcs s ?t = ELock \<or> (\<exists>p. ppcs s ?t = EPut p) \<or> ppcs s ?t = KLock"
          by (cases "ppcs s ?t") (auto split: if_splits)
        then show ?thesis by (auto simp: acquire_def take_r_def take_e_def free simp del: member.simps)
      qed
      with acq [OF lv] exe [OF lv] show ?thesis by blast
    qed
  next
    case (RelCrit k)
    with out [of Main] show ?thesis by auto
  qed (use m coreD(5) [OF core, of Main] in auto)
qed

lemma progress:
  assumes r: "preach P good (proc_init n1 n2 n3 td lp h) s" and nc: "pcrashed s = None"
    and m: "ppcs s Main \<noteq> Done" and nb: "\<not> self_blocked s"
  shows "\<exists>l s'. pstep P l s = Some s' \<and> (l = HStep \<or> (\<exists>t. l = Acq t) \<or> (\<exists>t u. l = Exec t e u))"
proof -
  from preach_pinv [OF r] obtain er ee fl where inv: "pinv s er ee fl" by blast
  then have mut: "mut_inv s" by (simp add: pinv_def)
  have dead: "dead_inv s" using preach_sizes [OF r] by simp
  note run = owner_runs [OF inv dead nc, of _ e]
  show ?thesis
  proof (cases "hnd s")
    case None
    then have ni: "\<not> interrupted t s" for t by (simp add: interrupted_def)
    have nH: "rmutex s \<noteq> Some Hnd" "emutex s \<noteq> Some Hnd" using mut None by (auto simp: mut_inv_def)
    show ?thesis
    proof (cases "rmutex s = None \<and> emutex s = None")
      case True
      then have "rmutex s = None" "emutex s = None" by auto
      from main_waits [OF inv dead nc this None m, of e] show ?thesis by blast
    next
      case False
      with nH obtain t where "rmutex s = Some (Thr t) \<or> emutex s = Some (Thr t)"
        by (metis option.exhaust owner.exhaust)
      from run [OF this ni] show ?thesis by blast
    qed
  next
    case (Some tk)
    obtain t k where tk: "tk = (t, k)" by (cases tk)
    have hs: "pstep P HStep s = catcher_SIGINT s" using nc by (simp add: pstep_def)
    have other: "u \<noteq> t \<Longrightarrow> \<not> interrupted u s" for u using Some tk by (auto simp: interrupted_def)
    have k: "k \<le> 2" using mut Some tk by (auto simp: mut_inv_def)
    show ?thesis
    proof (cases "\<exists>s'. catcher_SIGINT s = Some s'")
      case True
      with hs show ?thesis by metis
    next
      case False
      then have "k = 0 \<and> rmutex s \<noteq> None \<or> k = 1 \<and> emutex s \<noteq> None"
        using Some tk by (auto simp: catcher_SIGINT_def split: if_splits)
      moreover have "k = 0 \<Longrightarrow> rmutex s \<noteq> Some Hnd" "k = 1 \<Longrightarrow> emutex s \<noteq> Some Hnd"
        using mut Some tk by (auto simp: mut_inv_def)
      ultimately obtain u where u: "k = 0 \<and> rmutex s = Some (Thr u) \<or> k = 1 \<and> emutex s = Some (Thr u)"
        by (metis option.exhaust owner.exhaust)
      have "u \<noteq> t" using nb u Some tk by (auto simp: self_blocked_def)
      with run [OF _ other] u show ?thesis by blast
    qed
  qed
qed

text \<open>Nothing gets a handler out of such a state.\<close>

lemma self_blocked_stays:
  assumes r: "preach P good (proc_init n1 n2 n3 td lp h) s" and b: "self_blocked s" and st: "pstep P l s = Some s'"
  shows "self_blocked s'"
proof -
  from preach_pinv [OF r] obtain er ee fl where inv: "pinv s er ee fl" by blast
  then have mut: "mut_inv s" and core: "core s er ee fl" by (simp_all add: pinv_def)
  from b obtain t k where h: "hnd s = Some (t, k)"
    and k: "k = 0 \<and> rmutex s = Some (Thr t) \<or> k = 1 \<and> emutex s = Some (Thr t)"
    by (auto simp: self_blocked_def)
  have same: "self_blocked s'" if "hnd s' = hnd s" "rmutex s' = rmutex s" "emutex s' = emutex s"
    using that b by (simp add: self_blocked_def)
  have keep: "self_blocked s'" if mv: "locked_move u s s'" and ut: "u \<noteq> t" for u
  proof -
    have "hnd s' = hnd s" using mv by (simp add: locked_move_def moves_def)
    moreover have "k = 0 \<Longrightarrow> rmutex s' = rmutex s" "k = 1 \<Longrightarrow> emutex s' = emutex s"
      using mv ut k mut by (auto simp: locked_move_def locks_def mut_inv_def split: if_splits)
    ultimately show ?thesis using h k by (auto simp: self_blocked_def)
  qed
  have ni: "\<not> interrupted u s \<Longrightarrow> u \<noteq> t" for u using h by (auto simp: interrupted_def)
  show ?thesis
  proof (cases l)
    case (Acq u)
    with st have "\<not> interrupted u s" "acquire u s = Some s'" by (auto simp: pstep_def split: if_splits)
    with ni acquire_moves show ?thesis by (intro keep [of u]) (auto simp: locked_move_def)
  next
    case (Exec u e v)
    with st have u: "\<not> interrupted u s" "pexec P u e v s = Some s'" by (auto simp: pstep_def split: if_splits)
    from pexec_locked [OF u(2) coreD(5) [OF core] mut] show ?thesis
    proof (elim disjE exE)
      fix f
      assume "s' = pcrash f s"
      then show ?thesis by (intro same) (auto simp: pcrash_def)
    qed (use keep ni u in blast)
  next
    case (Intr u)
    have "0 < control s" using mut h by (auto simp: mut_inv_def less_le)
    with Intr st show ?thesis
      by (intro same) (auto simp: pstep_def sigint_def Let_def split: if_splits)
  next
    case HStep
    with st h k show ?thesis by (auto simp: pstep_def catcher_SIGINT_def split: if_splits)
  next
    case (Spurious u)
    with st show ?thesis by (intro same) (auto simp: pstep_def pgoto_def split: if_splits)
  qed
qed

section \<open>The counter of the source threads\<close>

lemma exec_counts:
  assumes core: "core s er ee fl" and st: "pexec P t e u s = Some s'" and ns: "\<And>p. ppcs s t \<noteq> SCrit p"
  shows "counts_kept s s'"
proof -
  have rep: "wb_rep (pmem (shr s)) (rbuffer (shr s)) er" "wb_rep (pmem (shr s)) (ebuffer (shr s)) ee"
    using coreD(4) [OF core] by (auto simp: srep_def)
  note role = coreD(5) [OF core, of t]
  show ?thesis
  proof (cases "ppcs s t")
    case SStart
    then obtain p S where p: "p_start P (shr s) = (p, S)" and s': "s' = (pgoto t (SLock p) s)\<lparr>shr := S\<rparr>"
      using st by (auto simp: pexec_def split: prod.splits)
    with start_ok [OF p] SStart show ?thesis by (auto simp: counts_kept_def pgoto_def)
  next
    case ECrit
    with role obtain j where "t = Elab j" by (cases t) auto
    with ECrit st show ?thesis
      by (cases rule: elab_take_cases [where P = P and t = t and s = s])
        (auto simp: pexec_def counts_kept_def pgoto_def pcrash_def)
  next
    case (EGot p)
    with role obtain j where "t = Elab j" by (cases t) auto
    with EGot st show ?thesis
      by (cases rule: elab_conv_cases [where P = P and t = t and data = p and s = s])
        (auto simp: pexec_def counts_kept_def pgoto_def pcrash_def)
  next
    case (ECrit2 p)
    with role obtain j where t: "t = Elab j" by (cases t) auto
    from ECrit2 st have "elab_put P u t p s = Some s'" by (simp add: pexec_def)
    then show ?thesis
    proof (cases rule: elab_put_cases)
      case (ok eb h)
      with woken_Done [OF ok(4)] t show ?thesis by (auto simp: counts_kept_def)
    qed (simp add: counts_kept_def pcrash_def)
  next
    case KCrit
    with role obtain j where t: "t = Sink j" by (cases t) auto
    from KCrit st have s': "s' = sink_step P e t s" by (simp add: pexec_def)
    show ?thesis
    proof (cases rule: sink_step_cases [where P = P and e = e and t = t and s = s])
      case (out S)
      then obtain a d x es where ee: "ee = (a, d, x) # es"
        using wb_rep_head [OF rep(2)] by (cases ee) auto
      from out(2) obtain data eb h where ext: "p_ext P (ebuffer (shr s)) (pmem (shr s)) = Inr (data, eb, h)"
        and S: "p_sink P e data ((shr s)\<lparr>pmem := h, ebuffer := eb\<rparr>) = Inr S" by (auto simp: result_simps)
      from ext_ok [OF rep(2) [unfolded ee] ext]
      have rd: "read_str data (pmem ((shr s)\<lparr>pmem := h, ebuffer := eb\<rparr>)) = Inr x" by auto
      from sink_ok [OF rd, of e] S out(3) t show ?thesis by (auto simp: counts_kept_def s' pgoto_def)
    qed (use s' t in \<open>auto simp: counts_kept_def pgoto_def pcrash_def\<close>)
  next
    case (Join k i)
    with role have "t = Main" by (cases t) auto
    with Join st show ?thesis
      by (auto simp: pexec_def wait_for_def counts_kept_def pgoto_def split: if_splits)
  next
    case (RelCrit k)
    with role have "t = Main" by (cases t) auto
    with RelCrit st show ?thesis
      by (cases "k = 0")
        (auto simp: pexec_def counts_kept_def pgoto_def release_t_def broadcast_rcv_def broadcast_ecv_def
          split: if_splits)
  qed (use st ns in \<open>simp_all add: pexec_def\<close>)
qed

lemma step_counts:
  assumes inv: "pinv s er ee fl" and st: "pstep P l s = Some s'"
  obtains (kept) "made (trace (shr s')) = made (trace (shr s))"
      "control s' = 0 \<Longrightarrow> counts_kept s s' \<and> control s = 0"
  | (source) i p e u where "l = Exec (Src i) e u" "ppcs s (Src i) = SCrit p" "i < nsrc s"
      "source_step P e u (Src i) p s = Some s'"
proof -
  from inv have core: "core s er ee fl" and mut: "mut_inv s" by (auto simp: pinv_def)
  have c0: "0 \<le> control s" using mut by (simp add: mut_inv_def)
  show thesis
  proof (cases l)
    case (Acq t)
    with st have a: "acquire t s = Some s'" by (auto simp: pstep_def split: if_splits)
    have nd: "ppcs s t \<noteq> Done" "ppcs s' t \<noteq> Done"
      using a by (auto simp: acquire_def take_r_def take_e_def pgoto_def split: ppc.splits if_splits)
    have "ppcs s' u = Done \<longleftrightarrow> ppcs s u = Done" for u
      using acquire_moves [OF a] moves_Done nd by (cases "u = t") auto
    with acquire_moves [OF a] show thesis by (intro kept) (auto simp: counts_kept_def moves_def)
  next
    case (Exec t e u)
    with st have lv: "live s t" and x: "pexec P t e u s = Some s'" by (auto simp: pstep_def split: if_splits)
    from pexec_locked [OF x coreD(5) [OF core] mut] have cc: "control s' = control s"
      by (auto simp: pcrash_def locked_move_def moves_def)
    show thesis
    proof (cases "\<exists>p. ppcs s t = SCrit p")
      case True
      then obtain p where p: "ppcs s t = SCrit p" by blast
      with coreD(5) [OF core, of t] obtain i where t: "t = Src i" by (cases t) auto
      from source [of i e u p] Exec p t lv x show thesis by (simp add: pexec_def)
    next
      case False
      with exec_counts [OF core x] kept cc show thesis by (auto simp: counts_kept_def)
    qed
  next
    case (Intr t)
    with st have "s' = sigint t s" "control s < INT_MAX" by (auto simp: pstep_def split: if_splits)
    with c0 show thesis by (intro kept) (auto simp: sigint_def Let_def split: if_splits)
  next
    case HStep
    with st have h: "catcher_SIGINT s = Some s'" by (auto simp: pstep_def split: if_splits)
    then have "control s' = control s" "trace (shr s') = trace (shr s)"
      by (auto simp: catcher_SIGINT_def split: option.splits prod.splits if_splits)
    with mut_handler(2) [OF mut h] show thesis by (intro kept) simp_all
  next
    case (Spurious t)
    with st show thesis
      by (intro kept) (auto simp: pstep_def counts_kept_def pgoto_def split: if_splits)
  qed
qed

end

section \<open>Runs\<close>

fun plabel_ok :: "(env \<Rightarrow> bool) \<Rightarrow> plabel \<Rightarrow> bool" where
  "plabel_ok ok (Exec t e u) = ok e"
| "plabel_ok ok _ = True"

lemma prun_preach:
  assumes "prun P ls s1 = Some s" and "preach P ok s0 s1" and "list_all (plabel_ok ok) ls"
  shows "preach P ok s0 s"
  using assms
proof (induction ls arbitrary: s1)
  case (Cons l ls)
  then obtain s2 where s2: "pstep P l s1 = Some s2" "prun P ls s2 = Some s" by (auto split: option.splits)
  have "preach P ok s0 s2"
    by (rule preach_step [OF Cons.prems(2) s2(1)]) (use Cons.prems(3) in auto)
  with Cons.IH [OF s2(2)] Cons.prems(3) show ?case by simp
qed simp

lemma prun_reached:
  assumes "case prun P ls s0 of None \<Rightarrow> False | Some s \<Rightarrow> Q s" and "list_all (plabel_ok ok) ls"
  shows "\<exists>s. preach P ok s0 s \<and> Q s"
proof -
  from assms(1) obtain s where s: "prun P ls s0 = Some s" "Q s" by (auto split: option.splits)
  with prun_preach [OF s(1) preach_init assms(2)] show ?thesis by blast
qed

end
