(* ===== verification/Writer.thy ===== *)
theory Writer
  imports Pipeline_Props
begin

text \<open>
  Writer/write.c: threads that create random strings of capital letters, threads that turn them
  into lower case, and a thread that writes them to the device. The critical sections of
  \<open>create_data\<close> and \<open>write_dev\<close> are defined here and plugged into the pipeline; \<open>main\<close> before the
  threads run and after they have ended is a definition of its own.
\<close>

section \<open>Constants\<close>

abbreviation (input) S_ET :: int where "S_ET \<equiv> 5"
abbreviation (input) MAX_ET :: int where "MAX_ET \<equiv> 10"
abbreviation (input) S_CT :: int where "S_CT \<equiv> 10"
abbreviation (input) MAX_CT :: int where "MAX_CT \<equiv> 4"
abbreviation (input) S_WT :: int where "S_WT \<equiv> 1"
abbreviation (input) MAX_WT :: int where "MAX_WT \<equiv> 1"
abbreviation (input) MAX_RETRY :: nat where "MAX_RETRY \<equiv> 5"

section \<open>Threads\<close>

text \<open>\<open>create_data\<close> between locking and unlocking \<open>rmutex\<close>: whether the thread stops, whether it
  signals, and the new state. The string made is recorded in the trace.\<close>

definition create_data :: "alloc_fn \<Rightarrow> env \<Rightarrow> ptr \<Rightarrow> shared \<Rightarrow> (bool \<times> bool \<times> shared) res" where
  "create_data alloc e p S =
     (let tmp_todo = (if looping S \<noteq> 0 then 1 else todo S);
          S1 = (if looping S \<noteq> 0 then S else S\<lparr>todo := cint (todo S - 1)\<rparr>) in
      if tmp_todo \<le> 0 then Inr (True, False, S1)
      else rbind (gen_data alloc (rnd e) (pmem S1)) (\<lambda>(data, h).
           rbind (read_str data h) (\<lambda>s.
           rbind (w_wbuf_ins alloc data (rbuffer S1) h) (\<lambda>(rb, h').
           Inr (False, True, S1\<lparr>pmem := h', rbuffer := rb, trace := trace S1 @ [Made s]\<rparr>)))))"

text \<open>The loop \<open>while (i < lim && write (...)) i++\<close>: \<open>res i\<close> is the result of call \<open>i\<close>, 0 for
  success.\<close>

function retry :: "(nat \<Rightarrow> int) \<Rightarrow> nat \<Rightarrow> nat \<Rightarrow> nat" where
  "retry res lim i = (if i < lim \<and> res i \<noteq> 0 then retry res lim (Suc i) else i)"
  by pat_completeness auto
termination by (relation "measure (\<lambda>(_, lim, i). lim - i)") auto

declare retry.simps [simp del]

text \<open>\<open>write_dev\<close> once it has extracted \<open>data\<close>: \<open>strlen (data) + 1\<close> bytes are offered to the
  device up to five times.\<close>

definition write_dev :: "env \<Rightarrow> ptr \<Rightarrow> shared \<Rightarrow> shared res" where
  "write_dev e data S =
     rbind (read_str data (pmem S)) (\<lambda>s.
     Inr (S\<lparr>trace := trace S @ [if retry (dev_res e) MAX_RETRY 0 = 5 then Lost s else Sent s]\<rparr>))"

definition writer_prog :: "alloc_fn \<Rightarrow> program" where
  "writer_prog alloc =
     \<lparr>p_start = (\<lambda>S. (NULL, S)), p_source = create_data alloc, p_ins = w_wbuf_ins alloc,
      p_ext = w_wbuf_ext alloc, p_conv = to_lower, p_sink = write_dev\<rparr>"

section \<open>The main program\<close>

text \<open>\<open>atoi\<close>: white space, a sign, digits; a value that does not fit a \<open>long\<close> is clamped.\<close>

definition is_space :: "byte \<Rightarrow> bool" where
  "is_space c \<longleftrightarrow> c = 32 \<or> (9 \<le> c \<and> c \<le> 13)"

fun digits :: "byte list \<Rightarrow> int \<Rightarrow> int" where
  "digits [] n = n"
| "digits (c # cs) n = (if 48 \<le> c \<and> c \<le> 57 then digits cs (10 * n + uint (c - 48)) else n)"

definition atoi :: "byte list \<Rightarrow> int" where
  "atoi s =
     (let t = dropWhile is_space s;
          v = (case t of
                 [] \<Rightarrow> 0
               | c # cs \<Rightarrow> if c = 45 then - digits cs 0 else if c = 43 then digits cs 0 else digits t 0)
      in max INT_MIN (min INT_MAX v))"

definition writer_threads :: "int \<Rightarrow> (int \<times> int \<times> int) res" where
  "writer_threads td =
     rbind (cdiv td S_CT) (\<lambda>c. rbind (cdiv td S_ET) (\<lambda>e. rbind (cdiv td S_WT) (\<lambda>w.
     let tmp_nct = cint (c + 1); tmp_net = cint (e + 1); tmp_nwt = cint (w + 1) in
     Inr (if tmp_nct < MAX_CT then tmp_nct else MAX_CT,
          if tmp_net < MAX_ET then tmp_net else MAX_ET,
          if tmp_nwt < MAX_WT then tmp_nwt else MAX_WT))))"

text \<open>\<open>main\<close> up to the creation of the threads: an exit code, or the process with its threads at
  their start. \<open>fd\<close> is the result of \<open>open\<close>.\<close>

definition writer_main :: "byte list list \<Rightarrow> int \<Rightarrow> heap \<Rightarrow> (int + proc) res" where
  "writer_main argv fd h =
     (if length argv \<noteq> 2 then Inr (Inl (- 1))
      else
        let td = atoi (argv ! 1);
            write_loop = (if td \<noteq> 0 then 0 else 1) in
        if fd = -1 then Inr (Inl 1)
        else rbind (if write_loop = 0 then writer_threads td else Inr (MAX_CT, MAX_ET, MAX_WT))
             (\<lambda>(nct, net, nwt). Inr (Inr (proc_init nct net nwt td write_loop h))))"

definition dev_done :: "(nat \<Rightarrow> int) \<Rightarrow> int" where
  "dev_done res = (if retry res (MAX_RETRY + 1) 0 = MAX_RETRY then 1 else 0)"

text \<open>\<open>main\<close> after the last join: \<open>dev_done\<close>, whose result is ignored, \<open>dev_close\<close> and
  \<open>cleanup\<close>; the result is the exit code and whether the terminator \<open>00\<close> was accepted by the
  device.\<close>

definition writer_finish :: "(nat \<Rightarrow> int) \<Rightarrow> int \<Rightarrow> int \<times> bool" where
  "writer_finish res close_status =
     (let i = retry res (MAX_RETRY + 1) 0; ignored = dev_done res in
      (if close_status = -1 then 1 else 0, i \<le> MAX_RETRY))"

section \<open>The laws of the pipeline\<close>

definition rand_ok :: "env \<Rightarrow> bool" where
  "rand_ok e \<longleftrightarrow> (\<forall>i. 0 \<le> rnd e i)"

definition no_tmp :: "ptr \<Rightarrow> heap \<Rightarrow> bool" where
  "no_tmp p h \<longleftrightarrow> p = NULL"

context allocator
begin

lemma create_data_cases:
  assumes rep: "srep S er ee" and e: "rand_ok e"
  obtains (stop) "create_data alloc e p S = Inr (True, False, S\<lparr>todo := cint (todo S - 1)\<rparr>)"
      "looping S = 0" "todo S \<le> 0"
  | (oom) "create_data alloc e p S = Inl NullDeref"
  | (made) S' er' s where "create_data alloc e p S = Inr (False, True, S')"
      "source_effect NULL S er ee S' er' [s]" "capitals s"
      "looping S' = looping S" "todo S' = (if looping S \<noteq> 0 then todo S else cint (todo S - 1))"
      "looping S = 0 \<Longrightarrow> 0 < todo S"
proof (cases "looping S = 0 \<and> todo S \<le> 0")
  case True
  then show thesis by (intro stop) (simp_all add: create_data_def)
next
  case False
  define S1 where "S1 = (if looping S \<noteq> 0 then S else S\<lparr>todo := cint (todo S - 1)\<rparr>)"
  have S1: "pmem S1 = pmem S" "rbuffer S1 = rbuffer S" "ebuffer S1 = ebuffer S" "trace S1 = trace S"
    "looping S1 = looping S" by (simp_all add: S1_def)
  have eq: "create_data alloc e p S = rbind (gen_data alloc (rnd e) (pmem S)) (\<lambda>(data, h).
      rbind (read_str data h) (\<lambda>s. rbind (w_wbuf_ins alloc data (rbuffer S) h) (\<lambda>(rb, h').
      Inr (False, True, S1\<lparr>pmem := h', rbuffer := rb, trace := trace S @ [Made s]\<rparr>))))"
    using False by (auto simp: create_data_def S1_def Let_def)
  have repr: "wb_rep (pmem S) (rbuffer S) er" "wb_rep (pmem S) (ebuffer S) ee"
    and disj: "set (cells er) \<inter> set (cells ee) = {}"
    using rep by (auto simp: srep_def)
  have rn: "0 \<le> rnd e i" for i using e by (simp add: rand_ok_def)
  from rn show thesis
  proof (cases rule: gen_data_cases [where rnd = "rnd e" and h = "pmem S"])
    case oom
    with eq show thesis by (intro that(2)) simp
  next
    case (ok v s)
    let ?h = "(pmem S)(v \<mapsto> Chars (cstr s))"
    have s0: "0 \<notin> set s" using ok(3) capital_shift(4) by (auto simp: capitals_def)
    have hv: "pmem S v = None" by (rule ok(2))
    have vo: "v \<notin> set (cells er)" "v \<notin> set (cells ee)" using repr wb_rep_fresh ok(2) by auto
    have rh: "wb_rep ?h (rbuffer S) er" "wb_rep ?h (ebuffer S) ee" using repr vo by (auto intro: wb_rep_frame)
    have rd: "read_str (Some v) ?h = Inr s" using s0 by simp
    from rh(1) rd vo(1) show thesis
    proof (cases rule: w_wbuf_ins_cases)
      case oom
      with eq ok(1) rd show thesis by (intro that(2)) simp
    next
      case (ok a d rb h')
      let ?S = "S1\<lparr>pmem := h', rbuffer := rb, trace := trace S @ [Made s]\<rparr>"
      have ad: "pmem S a = None" "pmem S d = None" "a \<noteq> v" "d \<noteq> v" using ok(4,5) by (auto split: if_splits)
      then have ado: "a \<notin> set (cells ee)" "d \<notin> set (cells ee)" using repr(2) wb_rep_fresh by auto
      have ee: "wb_rep h' (ebuffer S) ee"
        by (rule wb_rep_cong [OF repr(2)]) (use ok(7) disj ado vo in auto)
      have fr: "h' x = pmem S x" if "pmem S x \<noteq> None" "x \<notin> set (cells er)" for x
      proof -
        from that hv ad have "x \<notin> set (cells er) \<union> {a, d, v}" "x \<noteq> v" by auto
        with ok(7) show ?thesis by simp
      qed
      have "source_effect NULL S er ee ?S (er @ [(a, d, s)]) [s]"
        using ok(2,3) fr ee disj ado ad by (auto simp: source_effect_def srep_def S1)
      moreover have "create_data alloc e p S = Inr (False, True, ?S)"
        using eq \<open>gen_data alloc (rnd e) (pmem S) = Inr (Some v, ?h)\<close> rd ok(1) by simp
      ultimately show thesis
        using \<open>capitals s\<close> False by (intro that(3) [of ?S]) (auto simp: S1_def)
    qed
  qed
qed

lemma write_dev_ok:
  assumes "read_str p (pmem S) = Inr s"
  shows "\<exists>ev. write_dev e p S = Inr (S\<lparr>trace := trace S @ [ev]\<rparr>) \<and> made [ev] = [] \<and> gone [ev] = [s]"
  using assms by (auto simp: write_dev_def)

lemma writer_pipeline: "pipeline (writer_prog alloc) rand_ok no_tmp (shift_str 32)"
proof (unfold_locales, goal_cases)
  case (2 S p S')
  then show ?case by (intro exI [of _ "pmem S"]) (auto simp: no_tmp_def writer_prog_def)
next
  case (3 S er ee p e stop sg S')
  from 3(2) have p: "p = NULL" by (simp add: no_tmp_def)
  from 3(1,4) show ?case
  proof (cases rule: create_data_cases [where p = p])
    case stop
    with 3(1,5) have "S' = S\<lparr>todo := cint (todo S - 1)\<rparr>" by (simp add: writer_prog_def)
    with 3(1) show ?thesis
      by (intro exI [of _ er] exI [of _ "[]"]) (auto simp: source_effect_def srep_def no_tmp_def p)
  next
    case (made T er' s)
    with 3(5) p show ?thesis
      by (intro exI [of _ er'] exI [of _ "[s]"]) (simp add: writer_prog_def no_tmp_def)
  qed (use 3(5) in \<open>simp add: writer_prog_def\<close>)
next
  case (4 S er ee p e f)
  from 4(1,4) show ?case
    by (cases rule: create_data_cases [where p = p]) (use 4(5) in \<open>simp_all add: writer_prog_def\<close>)
next
  case (5 h q a d s es p q' h')
  from 5(1) show ?case
    by (cases rule: wbuf_ext_cases [where rel = free_ptr])
      (use 5(2) in \<open>auto simp: writer_prog_def w_wbuf_ext_def\<close>)
next
  case (6 h q a d s es f)
  from 6(1) show ?case
    by (cases rule: wbuf_ext_cases [where rel = free_ptr])
      (use 6(2) in \<open>auto simp: writer_prog_def w_wbuf_ext_def\<close>)
next
  case (7 h q es v s q' h')
  from 7(1,2,3) show ?case
    by (cases rule: w_wbuf_ins_cases) (use 7(4) in \<open>auto simp: writer_prog_def\<close>)
next
  case (8 h q es v s f)
  from 8(1,2,3) show ?case
    by (cases rule: w_wbuf_ins_cases) (use 8(4) in \<open>auto simp: writer_prog_def\<close>)
next
  case (9 h a s)
  then show ?case
    by (rule shift_string [where k = 32]) (auto simp: writer_prog_def to_lower_def)
next
  case (10 p S s e)
  then show ?case using write_dev_ok by (simp add: writer_prog_def)
qed (auto simp: no_tmp_def writer_prog_def)

end

sublocale allocator \<subseteq> wp: pipeline "writer_prog alloc" rand_ok no_tmp "shift_str 32"
  by (rule writer_pipeline)

lemma replicate_numeral: "replicate (numeral k) x = x # replicate (pred_numeral k) x"
  by (simp add: numeral_eq_Suc)

lemmas pipe_eval = replicate_numeral pstep_def acquire_def pexec_def take_r_def take_e_def interrupted_def source_step_def
  elab_take_def elab_conv_def elab_put_def sink_step_def wait_for_def release_t_def sigint_def
  catcher_SIGINT_def signal_rcv_def signal_ecv_def broadcast_rcv_def broadcast_ecv_def pgoto_def
  pcrash_def Let_def proc_init_def empty_wbuf_def wbuf_init_def
  wbuf_ins_with_def wbuf_ext_with_def new_node_def new_chars_def new_obj_def new_zeroed_def
  first_fit_def strlen_def strcpy_def read_str_def get_chars_def get_node_def set_node_data_def
  set_node_next_def free_ptr_def keep_def cstr_def get_char_def set_char_def to_char_def
  gen_loop.simps shift_loop.simps upt_rec cmod_def smod_nonneg

lemmas writer_eval = pipe_eval writer_prog_def create_data_def write_dev_def retry.simps w_wbuf_ins_def
  w_wbuf_ext_def gen_data_def to_lower_def

definition wenv :: env where
  "wenv = \<lparr>rnd = (\<lambda>_. 0), dev_res = (\<lambda>_. 0), dev_bytes = []\<rparr>"

definition wdemo :: "plabel list" where
  "wdemo = [Exec (Src 0) wenv 0, Acq (Src 0), Exec (Src 0) wenv 0, Acq (Src 0), Exec (Src 0) wenv 0,
     Exec Main wenv 0, Exec Main wenv 0, Acq Main, Exec Main wenv 0,
     Acq (Elab 0), Exec (Elab 0) wenv 0, Exec (Elab 0) wenv 0, Acq (Elab 0), Exec (Elab 0) wenv 0,
     Acq (Elab 0), Exec (Elab 0) wenv 0, Exec Main wenv 0, Exec Main wenv 0, Acq Main, Exec Main wenv 0,
     Acq (Sink 0), Exec (Sink 0) wenv 0, Acq (Sink 0), Exec (Sink 0) wenv 0, Exec Main wenv 0, Exec Main wenv 0]"

lemma wdemo_run:
  "case prun (writer_prog (first_fit 64)) wdemo (proc_init 1 1 1 1 0 Map.empty) of None \<Rightarrow> False
   | Some s \<Rightarrow> ppcs s Main = Done \<and> control s = 0 \<and> pcrashed s = None \<and> trace (shr s) = [Made [65], Sent [97]]"
  by (simp add: wdemo_def wenv_def writer_eval)

end
