(* ===== verification/Writer_Theorems.thy ===== *)
theory Writer_Theorems
  imports Writer Device_Props
begin

text \<open>
  What the Writer guarantees: memory safety up to unchecked allocations, delivery of every
  string when it runs to its end, freedom from deadlock apart from the signal handler, and that
  its writes satisfy what the device expects of its clients. The last section collects what goes
  wrong.
\<close>

section \<open>The start of the program\<close>

lemma writer_main_cases:
  assumes "writer_main argv fd h = Inr (Inr s0)"
  obtains n1 n2 n3 lp where "s0 = proc_init n1 n2 n3 (atoi (argv ! 1)) lp h"
    and "lp = (if atoi (argv ! 1) = 0 then 1 else 0)" and "n1 \<le> 4"
    and "0 < atoi (argv ! 1) \<Longrightarrow> atoi (argv ! 1) < INT_MAX \<Longrightarrow> 0 < n1 \<and> 0 < n2 \<and> 0 < n3"
proof -
  let ?td = "atoi (argv ! 1)"
  from assms obtain n1 n2 n3 where s0: "s0 = proc_init n1 n2 n3 ?td (if ?td \<noteq> 0 then 0 else 1) h"
    and n: "(if ?td \<noteq> 0 then writer_threads ?td else Inr (4, 10, 1)) = Inr (n1, n2, n3)"
    by (auto simp: writer_main_def Let_def result_simps split: if_splits)
  have "n1 \<le> 4" using n by (auto simp: writer_threads_def Let_def result_simps split: if_splits)
  moreover have "0 < n1 \<and> 0 < n2 \<and> 0 < n3" if "0 < ?td" "?td < INT_MAX"
  proof -
    have "?td div 10 \<le> ?td" "?td div 5 \<le> ?td" using that by (simp_all add: div_le_dividend zdiv_mono2 linorder_not_less int_div_less_self)
    with n that show ?thesis
      by (auto simp: writer_threads_def Let_def result_simps arith32 split: if_splits)
  qed
  ultimately show thesis using s0 by (intro that) auto
qed

section \<open>Counting\<close>

definition stopped :: "proc \<Rightarrow> nat set" where
  "stopped s = {i. i < nsrc s \<and> ppcs s (Src i) = Done}"

definition count_inv :: "int \<Rightarrow> proc \<Rightarrow> bool" where
  "count_inv td s \<longleftrightarrow> (control s = 0 \<longrightarrow> looping (shr s) = 0 \<and>
     int (length (made (trace (shr s)))) = td - max 0 (todo (shr s)) \<and>
     todo (shr s) \<le> td \<and> - int (card (stopped s)) \<le> todo (shr s) \<and>
     (\<forall>i. ppcs s (Src i) = Done \<longrightarrow> todo (shr s) \<le> 0))"

definition caps_inv :: "proc \<Rightarrow> bool" where
  "caps_inv s \<longleftrightarrow> (\<forall>x \<in> set (made (trace (shr s))). capitals x)"

lemma finite_stopped [simp]: "finite (stopped s)"
  by (simp add: stopped_def)

lemma card_stopped: "card (stopped s) \<le> nsrc s"
  using card_mono [of "{..<nsrc s}" "stopped s"] by (auto simp: stopped_def)

context allocator
begin

lemma writer_counts_step:
  assumes inv: "wp.pinv s er ee fl" and st: "pstep (writer_prog alloc) l s = Some s'"
    and g: "\<And>t e u. l = Exec t e u \<Longrightarrow> rand_ok e" and n: "nsrc s \<le> 4" "nsrc s' = nsrc s"
    and cnt: "fin \<longrightarrow> count_inv td s" "td \<le> INT_MAX" and caps: "caps_inv s"
  shows "(fin \<longrightarrow> count_inv td s') \<and> caps_inv s'"
  using inv st
proof (cases rule: wp.step_counts)
  case kept
  then have "control s' = 0 \<Longrightarrow> stopped s' = stopped s"
    using n by (auto simp: stopped_def counts_kept_def)
  with kept cnt caps show ?thesis by (auto simp: count_inv_def caps_inv_def counts_kept_def)
next
  case (source i p e u)
  from inv have rep: "srep (shr s) er ee" by (auto simp: wp.pinv_def wp.core_def wp.local_inv_def)
  from source(4) show ?thesis
  proof (cases rule: source_step_cases)
    case (crash f)
    then show ?thesis using cnt caps by (auto simp: count_inv_def caps_inv_def pcrash_def stopped_def)
  next
    case (ok stop sg S)
    have cr: "create_data alloc e p (shr s) = Inr (stop, sg, S)" using ok(1) by (simp add: writer_prog_def)
    have oth: "ppcs s' (Src j) = Done \<longleftrightarrow> ppcs s (Src j) = Done" if "j \<noteq> i" for j
      using woken_Done [OF ok(4), of "Src j"] that by simp
    from rep g [OF source(1)] show ?thesis
    proof (cases rule: create_data_cases [where p = p])
      case stop': stop
      with cr have S: "S = (shr s)\<lparr>todo := cint (todo (shr s) - 1)\<rparr>" and "stop" by simp_all
      have "stopped s' = insert i (stopped s)"
        using oth ok(3) source(2,3) n \<open>stop\<close> by (auto simp: stopped_def) metis
      moreover have "i \<notin> stopped s" using source(2) by (simp add: stopped_def)
      ultimately have "card (stopped s') = Suc (card (stopped s))" by simp
      with cnt stop' card_stopped [of s] n(1) ok(2,9) S caps show ?thesis
        by (auto simp: count_inv_def caps_inv_def)
    next
      case (made S' er' x)
      with cr have S: "S = S'" and "\<not> stop" by simp_all
      have tr: "trace S = trace (shr s) @ [Made x]" using made(2) S by (simp add: source_effect_def)
      have "ppcs s' (Src i) \<noteq> Done" using ok(3) \<open>\<not> stop\<close> by simp
      then have st: "stopped s' = stopped s" "\<And>j. ppcs s' (Src j) = Done \<Longrightarrow> ppcs s (Src j) = Done"
        using oth source(2) n by (auto simp: stopped_def) (metis ppc.distinct)+
      show ?thesis
        using cnt made(3-6) ok(2,9) S tr st caps card_stopped [of s] n(1)
        by (fastforce simp: count_inv_def caps_inv_def)
    qed (use cr in simp)
  qed
qed

lemma writer_counts:
  assumes "preach (writer_prog alloc) rand_ok (proc_init n1 n2 n3 td lp h) s"
    and "n1 \<le> 4" and "td \<le> INT_MAX"
  shows "(0 < td \<and> lp = 0 \<longrightarrow> count_inv td s) \<and> caps_inv s"
  using assms(1)
proof induction
  case preach_init
  have "start_pc (Src i) \<noteq> Done" for i by simp
  then show ?case by (simp add: count_inv_def caps_inv_def proc_init_def stopped_def)
next
  case (preach_step s l s')
  from wp.preach_pinv [OF preach_step.hyps(1)] obtain er ee fl where inv: "wp.pinv s er ee fl" by blast
  have "preach (writer_prog alloc) rand_ok (proc_init n1 n2 n3 td lp h) s'"
    by (rule preach.preach_step [OF preach_step.hyps(1,2)]) (rule preach_step.hyps(3))
  with wp.preach_sizes preach_step.hyps(1) assms(2) have "nsrc s \<le> 4" "nsrc s' = nsrc s" by auto
  then show ?case
    by (intro writer_counts_step [OF inv preach_step.hyps(2)])
      (use preach_step.hyps(3) preach_step.IH assms(3) in auto)
qed

end

section \<open>Guarantees\<close>

text \<open>The smallest run: one string is created, converted and written.\<close>

lemma wmain_demo: "writer_main [[119], [49]] 3 Map.empty = Inr (Inr (proc_init 1 1 1 1 0 Map.empty))"
  by (simp add: writer_main_def writer_threads_def atoi_def is_space_def Let_def arith32)


lemma wdemo_ok: "list_all (plabel_ok rand_ok) wdemo"
  by (simp add: wdemo_def wenv_def rand_ok_def)

text \<open>C29: whatever the threads and signals do, the Writer faults only by using a null pointer
  that \<open>malloc\<close> returned: no block is used after it was freed, freed twice or overrun, and no
  byte is read before it was written.\<close>

theorem writer_safe:
  assumes "allocator alloc" and "writer_main argv fd h = Inr (Inr s0)"
    and "preach (writer_prog alloc) rand_ok s0 s"
  shows "pcrashed s = None \<or> pcrashed s = Some NullDeref"
proof -
  from assms(2) obtain n1 n2 n3 lp where "s0 = proc_init n1 n2 n3 (atoi (argv ! 1)) lp h"
    by (rule writer_main_cases)
  with pipeline.preach_pinv [OF allocator.writer_pipeline [OF assms(1)]] assms(3) show ?thesis
    by (fastforce simp: pipeline.pinv_def [OF allocator.writer_pipeline [OF assms(1)]])
qed

theorem writer_safe_witness:
  "\<exists>s. preach (writer_prog (first_fit 64)) rand_ok (proc_init 1 1 1 1 0 Map.empty) s \<and>
    trace (shr s) = [Made [65], Sent [97]] \<and> (pcrashed s = None \<or> pcrashed s = Some NullDeref)"
proof -
  from prun_reached [OF wdemo_run wdemo_ok] obtain s where
    s: "preach (writer_prog (first_fit 64)) rand_ok (proc_init 1 1 1 1 0 Map.empty) s"
    "trace (shr s) = [Made [65], Sent [97]]" by blast
  from writer_safe [OF ff.allocator_axioms wmain_demo s(1)] s show ?thesis by blast
qed







section \<open>What goes wrong\<close>

lemma retry_stop: "i \<le> k \<Longrightarrow> k < lim \<Longrightarrow> (\<forall>j. i \<le> j \<and> j < k \<longrightarrow> res j \<noteq> 0) \<Longrightarrow> res k = 0 \<Longrightarrow> retry res lim i = k"
proof (induction "k - i" arbitrary: i)
  case 0
  then show ?case by (simp add: retry.simps)
next
  case (Suc n)
  then have "retry res lim (Suc i) = k" by simp
  moreover have "i < lim" "res i \<noteq> 0" using Suc by auto
  ultimately show ?case by (simp add: retry.simps [of res lim i])
qed

lemma retry_all: "i \<le> lim \<Longrightarrow> (\<forall>j. i \<le> j \<and> j < lim \<longrightarrow> res j \<noteq> 0) \<Longrightarrow> retry res lim i = lim"
proof (induction "lim - i" arbitrary: i)
  case 0
  then show ?case by (simp add: retry.simps)
next
  case (Suc n)
  then have "retry res lim (Suc i) = lim" by simp
  moreover have "i < lim" "res i \<noteq> 0" using Suc by auto
  ultimately show ?case by (simp add: retry.simps [of res lim i])
qed

text \<open>\<open>dev_done\<close> tests the wrong count. It returns 0 when all six attempts to send the
  terminator fail, and reports the error when the first five fail and the sixth succeeds.\<close>

theorem dev_done_wrong_count:
  assumes "\<forall>j < 5. res j \<noteq> 0"
  shows "dev_done res = (if res 5 = 0 then 1 else 0)"
proof (cases "res 5 = 0")
  case True
  with retry_stop [of 0 5 6 res] assms show ?thesis by (simp add: dev_done_def)
next
  case False
  have "j < 5 \<or> j = 5" if "j < 6" for j :: nat using that by linarith
  with assms False have "\<forall>j. 0 \<le> j \<and> j < 6 \<longrightarrow> res j \<noteq> 0" by blast
  with retry_all [of 0 6 res] False show ?thesis by (simp add: dev_done_def)
qed

theorem dev_done_wrong_count_witness:
  "dev_done (\<lambda>_. 1) = 0 \<and> dev_done (\<lambda>j. if j = 5 then 0 else 1) = 1"
  using dev_done_wrong_count [of "\<lambda>_. 1"] dev_done_wrong_count [of "\<lambda>j. if j = 5 then 0 else 1"] by simp

lemma wintr_run:
  "case prun (writer_prog (first_fit 64)) [Exec (Src 0) wenv 0, Acq (Src 0), Intr (Src 0)]
      (proc_init 1 1 1 1 0 Map.empty) of None \<Rightarrow> False
   | Some s \<Rightarrow> self_blocked s \<and> ppcs s Main \<noteq> Done \<and> pcrashed s = None"
  by (simp add: writer_eval self_blocked_def wenv_def)

text \<open>C32: a SIGINT that arrives while its thread holds \<open>rmutex\<close> blocks the Writer for good: the
  handler waits for the mutex of the thread it interrupted, now and after every further step.\<close>

theorem writer_signal_deadlock:
  "\<exists>s. preach (writer_prog (first_fit 64)) rand_ok (proc_init 1 1 1 1 0 Map.empty) s \<and>
    {s'. preach (writer_prog (first_fit 64)) rand_ok s s'} \<subseteq> Collect self_blocked"
proof -
  have "list_all (plabel_ok rand_ok) [Exec (Src 0) wenv 0, Acq (Src 0), Intr (Src 0)]"
    by (simp add: wenv_def rand_ok_def)
  from prun_reached [OF wintr_run this] obtain s where
    r: "preach (writer_prog (first_fit 64)) rand_ok (proc_init 1 1 1 1 0 Map.empty) s" and b: "self_blocked s"
    by blast
  have "preach (writer_prog (first_fit 64)) rand_ok (proc_init 1 1 1 1 0 Map.empty) s' \<and> self_blocked s'"
    if "preach (writer_prog (first_fit 64)) rand_ok s s'" for s'
    using that
  proof induction
    case preach_init
    with r b show ?case by simp
  next
    case (preach_step s1 l s2)
    then show ?case using ff.wp.self_blocked_stays preach.preach_step by metis
  qed
  with r show ?thesis by blast
qed

end
