(* ===== verification/Reader.thy ===== *)
theory Reader
  imports Writer
begin

text \<open>
  Reader/read.c: a thread that reads strings from the device, threads that turn them into upper
  case, and threads that print them. As in Writer, the critical sections are plugged into the
  pipeline. The thread \<open>read_dev\<close> keeps one block \<open>tmp\<close> of \<open>READ_BYTE\<close> bytes for all its reads;
  the bytes that a read stores there and its result come from the device.
\<close>

abbreviation (input) READ_BYTE :: nat where "READ_BYTE \<equiv> 40"

section \<open>Threads\<close>

text \<open>The device stores \<open>bs\<close> at the start of the buffer.\<close>

definition set_bytes :: "ptr \<Rightarrow> byte list \<Rightarrow> heap \<Rightarrow> heap res" where
  "set_bytes p bs h =
     (if bs = [] then Inr h
      else rbind (get_chars p h) (\<lambda>cs.
        if length bs \<le> length cs then Inr (h(the p \<mapsto> Chars (map Some bs @ drop (length bs) cs)))
        else Inl OutOfBounds))"

definition read_start :: "alloc_fn \<Rightarrow> shared \<Rightarrow> ptr \<times> shared" where
  "read_start alloc S = (let (p, h) = new_chars alloc READ_BYTE (pmem S) in (p, S\<lparr>pmem := h\<rparr>))"

definition read_dev :: "alloc_fn \<Rightarrow> env \<Rightarrow> ptr \<Rightarrow> shared \<Rightarrow> (bool \<times> bool \<times> shared) res" where
  "read_dev alloc e p S =
     (let tmp_todo = (if looping S \<noteq> 0 then 1 else todo S);
          S1 = (if looping S \<noteq> 0 then S else S\<lparr>todo := cint (todo S - 1)\<rparr>) in
      if tmp_todo \<le> 0 then Inr (True, False, S1)
      else rbind (set_bytes p (dev_bytes e) (pmem S1)) (\<lambda>h.
           let S2 = S1\<lparr>pmem := h\<rparr> in
           if dev_res e 0 \<noteq> 0 then Inr (False, True, S2)
           else rbind (strcmp_eq p [48, 48] h) (\<lambda>last_read.
                if last_read then Inr (True, True, S2\<lparr>looping := 0\<rparr>)
                else rbind (read_str p h) (\<lambda>s.
                     rbind (r_wbuf_ins alloc p (rbuffer S2) h) (\<lambda>(rb, h').
                     Inr (False, True, S2\<lparr>pmem := h', rbuffer := rb, trace := trace S2 @ [Made s]\<rparr>))))))"

definition print_data :: "env \<Rightarrow> ptr \<Rightarrow> shared \<Rightarrow> shared res" where
  "print_data e data S =
     rbind (read_str data (pmem S)) (\<lambda>s. Inr (S\<lparr>trace := trace S @ [Printed s]\<rparr>))"

definition reader_prog :: "alloc_fn \<Rightarrow> program" where
  "reader_prog alloc =
     \<lparr>p_start = read_start alloc, p_source = read_dev alloc, p_ins = r_wbuf_ins alloc,
      p_ext = r_wbuf_ext alloc, p_conv = to_upper, p_sink = print_data\<rparr>"

section \<open>The main program\<close>

text \<open>One read thread for every item, at most 1; one elaboration thread for every 5, at most 4;
  one print thread for every 10, at most 2.\<close>

definition reader_threads :: "int \<Rightarrow> (int \<times> int \<times> int) res" where
  "reader_threads td =
     rbind (cdiv td 1) (\<lambda>r. rbind (cdiv td 5) (\<lambda>e. rbind (cdiv td 10) (\<lambda>p.
     let tmp_nrt = cint (r + 1); tmp_net = cint (e + 1); tmp_npt = cint (p + 1) in
     Inr (if tmp_nrt < 1 then tmp_nrt else 1,
          if tmp_net < 4 then tmp_net else 4,
          if tmp_npt < 2 then tmp_npt else 2))))"

definition reader_main :: "byte list list \<Rightarrow> int \<Rightarrow> heap \<Rightarrow> (int + proc) res" where
  "reader_main argv fd h =
     (if length argv \<noteq> 2 then Inr (Inl (- 1))
      else
        let td = atoi (argv ! 1);
            read_loop = (if td \<noteq> 0 then 0 else 1) in
        if fd = -1 then Inr (Inl 1)
        else rbind (if read_loop = 0 then reader_threads td else Inr (1, 4, 2))
             (\<lambda>(nrt, net, npt). Inr (Inr (proc_init nrt net npt td read_loop h))))"

definition reader_finish :: "int \<Rightarrow> int" where
  "reader_finish close_status = (if close_status = -1 then 1 else 0)"

section \<open>The laws of the pipeline\<close>

text \<open>What the Reader relies on: a read stores at most 40 bytes, and a successful one stores 40
  bytes with a terminator among them.\<close>

definition read_ok :: "env \<Rightarrow> bool" where
  "read_ok e \<longleftrightarrow> length (dev_bytes e) \<le> 40 \<and>
     (dev_res e 0 = 0 \<longrightarrow> length (dev_bytes e) = 40 \<and> 0 \<in> set (dev_bytes e))"

definition tmp_block :: "ptr \<Rightarrow> heap \<Rightarrow> bool" where
  "tmp_block p h \<longleftrightarrow> p = NULL \<or> (\<exists>a cs. p = Some a \<and> h a = Some (Chars cs) \<and> length cs = 40)"

lemma string_prefix:
  assumes "0 \<in> set (bs :: byte list)"
  obtains rest where "bs = takeWhile (\<lambda>c. c \<noteq> 0) bs @ 0 # rest" and "0 \<notin> set (takeWhile (\<lambda>c. c \<noteq> 0) bs)"
proof -
  have "dropWhile (\<lambda>c. c \<noteq> 0) bs \<noteq> []" using assms by (simp add: dropWhile_eq_Nil_conv)
  then obtain c rest where d: "dropWhile (\<lambda>c. c \<noteq> 0) bs = c # rest" by (cases "dropWhile (\<lambda>c. c \<noteq> 0) bs") auto
  then have "c = 0" using hd_dropWhile [of "\<lambda>c. c \<noteq> 0" bs] by auto
  with d takeWhile_dropWhile_id [of "\<lambda>c. c \<noteq> 0" bs] show thesis
    by (intro that [of rest]) (auto dest: set_takeWhileD)
qed

lemma read_cells_bytes:
  assumes "0 \<in> set bs"
  shows "read_cells (map Some bs) = Inr (takeWhile (\<lambda>c. c \<noteq> 0) bs)"
proof -
  from assms obtain rest where b: "bs = takeWhile (\<lambda>c. c \<noteq> 0) bs @ 0 # rest"
    and z: "0 \<notin> set (takeWhile (\<lambda>c. c \<noteq> 0) bs)" by (rule string_prefix)
  have "map Some bs = map Some (takeWhile (\<lambda>c. c \<noteq> 0) bs) @ Some 0 # map Some rest"
    by (subst b) simp
  with read_cells_string [OF z] show ?thesis by simp
qed

context allocator
begin

lemma read_dev_cases:
  assumes rep: "srep S er ee" and tp: "tmp_block p (pmem S)" and e: "read_ok e"
    and out: "\<And>a. p = Some a \<Longrightarrow> pmem S a \<noteq> None \<and> a \<notin> set (cells er) \<union> set (cells ee)"
  obtains (fault) "read_dev alloc e p S = Inl NullDeref"
  | (quiet) stop sg S' where "read_dev alloc e p S = Inr (stop, sg, S')"
      "source_effect p S er ee S' er []" "tmp_block p (pmem S')"
  | (got) S' er' where "read_dev alloc e p S = Inr (False, True, S')" "dev_res e 0 = 0"
      "takeWhile (\<lambda>c. c \<noteq> 0) (dev_bytes e) \<noteq> [48, 48]"
      "source_effect p S er ee S' er' [takeWhile (\<lambda>c. c \<noteq> 0) (dev_bytes e)]" "tmp_block p (pmem S')"
proof (cases "looping S = 0 \<and> todo S \<le> 0")
  case True
  with rep tp out show thesis
    by (intro quiet [of True False "S\<lparr>todo := cint (todo S - 1)\<rparr>"])
      (auto simp: read_dev_def source_effect_def srep_def)
next
  case False
  define S1 where "S1 = (if looping S \<noteq> 0 then S else S\<lparr>todo := cint (todo S - 1)\<rparr>)"
  have S1: "pmem S1 = pmem S" "rbuffer S1 = rbuffer S" "ebuffer S1 = ebuffer S" "trace S1 = trace S"
    by (simp_all add: S1_def)
  have repr: "wb_rep (pmem S) (rbuffer S) er" "wb_rep (pmem S) (ebuffer S) ee"
    and disj: "set (cells er) \<inter> set (cells ee) = {}"
    using rep by (auto simp: srep_def)
  let ?bs = "dev_bytes e"
  let ?s = "takeWhile (\<lambda>c. c \<noteq> 0) ?bs"
  have eq: "read_dev alloc e p S = rbind (set_bytes p ?bs (pmem S)) (\<lambda>h.
      if dev_res e 0 \<noteq> 0 then Inr (False, True, S1\<lparr>pmem := h\<rparr>)
      else rbind (strcmp_eq p [48, 48] h) (\<lambda>last_read.
        if last_read then Inr (True, True, S1\<lparr>pmem := h, looping := 0\<rparr>)
        else rbind (read_str p h) (\<lambda>s. rbind (r_wbuf_ins alloc p (rbuffer S) h) (\<lambda>(rb, h').
          Inr (False, True, S1\<lparr>pmem := h', rbuffer := rb, trace := trace S @ [Made s]\<rparr>)))))"
    using False by (auto simp: read_dev_def Let_def S1 cong: if_cong simp flip: S1_def)
  show thesis
  proof (cases "p = NULL \<or> ?bs = []")
    case True
    show thesis
    proof (cases "?bs = []")
      case True
      with e have r: "dev_res e 0 \<noteq> 0" by (auto simp: read_ok_def)
      show thesis
        by (rule quiet [of False True S1])
          (use eq r True rep tp out S1 in \<open>auto simp: set_bytes_def source_effect_def srep_def\<close>)
    next
      case False
      with True have "set_bytes p ?bs (pmem S) = Inl NullDeref" by (simp add: set_bytes_def)
      with eq show thesis by (intro fault) simp
    qed
  next
    case False
    with tp obtain v cs where p: "p = Some v" "pmem S v = Some (Chars cs)" "length cs = 40"
      by (auto simp: tmp_block_def)
    let ?h = "(pmem S)(v \<mapsto> Chars (map Some ?bs @ drop (length ?bs) cs))"
    have len: "length ?bs \<le> 40" using e by (simp add: read_ok_def)
    have st: "set_bytes p ?bs (pmem S) = Inr ?h" using False p len by (simp add: set_bytes_def)
    have vo: "v \<notin> set (cells er)" "v \<notin> set (cells ee)" using out p(1) by auto
    have rh: "wb_rep ?h (rbuffer S) er" "wb_rep ?h (ebuffer S) ee" using repr vo by (auto intro: wb_rep_frame)
    have eff: "source_effect p S er ee T er []" "tmp_block p (pmem T)"
      if "pmem T = ?h" "rbuffer T = rbuffer S" "ebuffer T = ebuffer S" "trace T = trace S" for T
      using that rh disj vo p len by (auto simp: source_effect_def srep_def tmp_block_def)
    show thesis
    proof (cases "dev_res e 0 = 0")
      case False
      then show thesis using eq st S1 by (intro quiet [of False True "S1\<lparr>pmem := ?h\<rparr>"] eff) auto
    next
      case True
      with e have "length ?bs = 40" "0 \<in> set ?bs" by (auto simp: read_ok_def)
      then have rd: "read_str p ?h = Inr ?s"
        using p read_cells_bytes by (simp add: read_str_def get_chars_def)
      show thesis
      proof (cases "?s = [48, 48]")
        case last: True
        then show thesis using eq st S1 True rd
          by (intro quiet [of True True "S1\<lparr>pmem := ?h, looping := 0\<rparr>"] eff) (auto simp: strcmp_eq_def)
      next
        case other: False
        from rh(1) rd show thesis
        proof (cases rule: r_wbuf_ins_cases)
          case oom
          with eq st True rd other show thesis by (intro fault) (simp add: strcmp_eq_def)
        next
          case (ok a d rb h')
          let ?S = "S1\<lparr>pmem := h', rbuffer := rb, trace := trace S @ [Made ?s]\<rparr>"
          have ad: "pmem S a = None" "pmem S d = None" "a \<noteq> v" "d \<noteq> v"
            using ok(4,5) by (auto split: if_splits)
          then have ado: "a \<notin> set (cells ee)" "d \<notin> set (cells ee)" using repr(2) wb_rep_fresh by auto
          have fr: "h' x = ?h x" if "x \<notin> set (cells er)" "x \<noteq> a" "x \<noteq> d" for x
            using ok(7) that by simp
          have ee: "wb_rep h' (ebuffer S) ee"
            by (rule wb_rep_cong [OF rh(2)]) (use fr disj ado in \<open>metis disjoint_iff\<close>)
          have hv: "h' v = ?h v" using fr [of v] vo ad by auto
          have "h' x = pmem S x" if "pmem S x \<noteq> None" "x \<notin> set (cells er)" "x \<noteq> v" for x
            using fr [of x] that ad by (cases "x = a \<or> x = d") auto
          then have "source_effect p S er ee ?S (er @ [(a, d, ?s)]) [?s]"
            using ok(2,3) ee disj ado ad vo p hv by (auto simp: source_effect_def srep_def S1)
          moreover have "tmp_block p (pmem ?S)" using hv p len by (auto simp: tmp_block_def)
          moreover have "read_dev alloc e p S = Inr (False, True, ?S)"
            using eq st True rd other ok(1) by (simp add: strcmp_eq_def)
          ultimately show thesis using True other by (intro got) auto
        qed
      qed
    qed
  qed
qed

lemma reader_pipeline: "pipeline (reader_prog alloc) read_ok tmp_block (shift_str (- 32))"
proof (unfold_locales, goal_cases)
  case (1 p h h')
  then show ?case by (auto simp: tmp_block_def)
next
  case (2 S p S')
  then show ?case
    by (cases rule: new_obj_cases [of 40 "Chars (replicate 40 None)" "pmem S"])
      (auto simp: reader_prog_def read_start_def new_chars_def tmp_block_def intro!: exI [of _ "pmem S'"])
next
  case (3 S er ee p e stop sg S')
  from 3(1,2,4,3) show ?case
    by (cases rule: read_dev_cases) (use 3(5) in \<open>auto simp: reader_prog_def\<close>)
next
  case (4 S er ee p e f)
  from 4(1,2,4,3) show ?case
    by (cases rule: read_dev_cases) (use 4(5) in \<open>auto simp: reader_prog_def\<close>)
next
  case (5 h q a d s es p q' h')
  from 5(1) show ?case
    by (cases rule: wbuf_ext_cases [where rel = keep])
      (use 5(2) in \<open>auto simp: reader_prog_def r_wbuf_ext_def\<close>)
next
  case (6 h q a d s es f)
  from 6(1) show ?case
    by (cases rule: wbuf_ext_cases [where rel = keep])
      (use 6(2) in \<open>auto simp: reader_prog_def r_wbuf_ext_def\<close>)
next
  case (7 h q es v s q' h')
  from 7(1,2) show ?case
    by (cases rule: r_wbuf_ins_cases) (use 7(4) in \<open>auto simp: reader_prog_def\<close>)
next
  case (8 h q es v s f)
  from 8(1,2) show ?case
    by (cases rule: r_wbuf_ins_cases) (use 8(4) in \<open>auto simp: reader_prog_def\<close>)
next
  case (9 h a s)
  then show ?case
    by (rule shift_string [where k = "- 32"]) (auto simp: reader_prog_def to_upper_def)
next
  case (10 p S s e)
  then show ?case by (intro exI [of _ "Printed s"]) (simp add: reader_prog_def print_data_def)
qed

end

sublocale allocator \<subseteq> rp: pipeline "reader_prog alloc" read_ok tmp_block "shift_str (- 32)"
  by (rule reader_pipeline)

section \<open>A run\<close>

lemmas reader_eval = pipe_eval reader_prog_def read_start_def read_dev_def print_data_def set_bytes_def
  strcmp_eq_def r_wbuf_ins_def r_wbuf_ext_def to_upper_def

text \<open>The device delivers the string of the letter a, then the terminator of the transfer.\<close>

definition renv :: "byte list \<Rightarrow> env" where
  "renv s = \<lparr>rnd = (\<lambda>_. 0), dev_res = (\<lambda>_. 0), dev_bytes = s @ replicate (40 - length s) 0\<rparr>"

definition rdemo :: "plabel list" where
  "rdemo = (let a = renv [97]; z = renv [48, 48] in
     [Exec (Src 0) a 0, Acq (Src 0), Exec (Src 0) a 0, Acq (Src 0), Exec (Src 0) z 0,
     Exec Main a 0, Exec Main a 0, Acq Main, Exec Main a 0,
     Acq (Elab 0), Exec (Elab 0) a 0, Exec (Elab 0) a 0, Acq (Elab 0), Exec (Elab 0) a 0,
     Acq (Elab 0), Exec (Elab 0) a 0, Exec Main a 0, Exec Main a 0, Acq Main, Exec Main a 0,
     Acq (Sink 0), Exec (Sink 0) a 0, Acq (Sink 0), Exec (Sink 0) a 0, Exec Main a 0, Exec Main a 0])"

lemma rdemo_run:
  "case prun (reader_prog (first_fit 64)) rdemo (proc_init 1 1 1 2 0 Map.empty) of None \<Rightarrow> False
   | Some s \<Rightarrow> ppcs s Main = Done \<and> control s = 0 \<and> pcrashed s = None \<and> trace (shr s) = [Made [97], Printed [65]]"
  by (simp add: rdemo_def renv_def reader_eval)

end
