(* ===== verification/Reader_Theorems.thy ===== *)
theory Reader_Theorems
  imports Reader Device_Props
begin

text \<open>
  What the Reader guarantees, provided that the device delivers terminated strings of at most 40
  bytes: the same safety, delivery and progress as the Writer.
\<close>

lemma reader_main_cases:
  assumes "reader_main argv fd h = Inr (Inr s0)"
  obtains n1 n2 n3 lp where "s0 = proc_init n1 n2 n3 (atoi (argv ! 1)) lp h"
    and "0 \<le> atoi (argv ! 1) \<Longrightarrow> 0 < n2 \<and> 0 < n3"
proof -
  let ?td = "atoi (argv ! 1)"
  from assms obtain n1 n2 n3 where s0: "s0 = proc_init n1 n2 n3 ?td (if ?td \<noteq> 0 then 0 else 1) h"
    and n: "(if ?td \<noteq> 0 then reader_threads ?td else Inr (1, 4, 2)) = Inr (n1, n2, n3)"
    by (auto simp: reader_main_def Let_def result_simps split: if_splits)
  have "0 < n2 \<and> 0 < n3" if "0 \<le> ?td"
  proof -
    have "?td \<le> INT_MAX" by (simp add: atoi_def Let_def)
    then have "?td div 5 < INT_MAX" "?td div 10 < INT_MAX" by auto
    with n that show ?thesis
      by (auto simp: reader_threads_def Let_def result_simps arith32 split: if_splits)
  qed
  with s0 show thesis by (intro that) auto
qed

text \<open>The run of two reads.\<close>

lemma rmain_demo: "reader_main [[114], [50]] 3 Map.empty = Inr (Inr (proc_init 1 1 1 2 0 Map.empty))"
  by (simp add: reader_main_def reader_threads_def atoi_def is_space_def Let_def arith32)

lemma ratoi_demo: "atoi ([[114], [50]] ! 1) = 2"
  by (simp add: atoi_def is_space_def Let_def)

lemma rdemo_ok: "list_all (plabel_ok read_ok) rdemo"
  by (simp add: rdemo_def renv_def read_ok_def Let_def)

text \<open>C33: as long as the device keeps its promise, the Reader faults only by using a null pointer
  that \<open>malloc\<close> returned.\<close>

theorem reader_safe:
  assumes "allocator alloc" and "reader_main argv fd h = Inr (Inr s0)"
    and "preach (reader_prog alloc) read_ok s0 s"
  shows "pcrashed s = None \<or> pcrashed s = Some NullDeref"
proof -
  from assms(2) obtain n1 n2 n3 lp where "s0 = proc_init n1 n2 n3 (atoi (argv ! 1)) lp h"
    by (rule reader_main_cases)
  with pipeline.preach_pinv [OF allocator.reader_pipeline [OF assms(1)]] assms(3) show ?thesis
    by (fastforce simp: pipeline.pinv_def [OF allocator.reader_pipeline [OF assms(1)]])
qed

theorem reader_safe_witness:
  "\<exists>s. preach (reader_prog (first_fit 64)) read_ok (proc_init 1 1 1 2 0 Map.empty) s \<and>
    trace (shr s) = [Made [97], Printed [65]] \<and> (pcrashed s = None \<or> pcrashed s = Some NullDeref)"
proof -
  from prun_reached [OF rdemo_run rdemo_ok] obtain s where
    s: "preach (reader_prog (first_fit 64)) read_ok (proc_init 1 1 1 2 0 Map.empty) s"
    "trace (shr s) = [Made [97], Printed [65]]" by blast
  from reader_safe [OF ff.allocator_axioms rmain_demo s(1)] s show ?thesis by blast
qed

text \<open>C34: when \<open>main\<close> has joined all threads and no SIGINT arrived, every string that was read from
  the device, the terminator of the transfer apart, has been printed once, in upper case, and
  nothing else was printed.\<close>

theorem reader_prints:
  assumes "allocator alloc" and "reader_main argv fd h = Inr (Inr s0)" and "0 \<le> atoi (argv ! 1)"
    and "preach (reader_prog alloc) read_ok s0 s" and "ppcs s Main = Done" and "control s = 0"
  shows "mset (gone (trace (shr s))) = image_mset (shift_str (- 32)) (mset (made (trace (shr s))))"
proof -
  from assms(2) obtain n1 n2 n3 lp where s0: "s0 = proc_init n1 n2 n3 (atoi (argv ! 1)) lp h"
    and n: "0 < n2 \<and> 0 < n3"
    by (rule reader_main_cases) (use assms(3) in auto)
  show ?thesis
    using pipeline.pipeline_end [OF allocator.reader_pipeline [OF assms(1)] assms(4) [unfolded s0]] n assms(5,6)
    by simp
qed

theorem reader_prints_witness:
  "\<exists>s. preach (reader_prog (first_fit 64)) read_ok (proc_init 1 1 1 2 0 Map.empty) s \<and> ppcs s Main = Done \<and>
    made (trace (shr s)) = [[97]] \<and>
    mset (gone (trace (shr s))) = image_mset (shift_str (- 32)) (mset (made (trace (shr s))))"
proof -
  from prun_reached [OF rdemo_run rdemo_ok] obtain s where
    s: "preach (reader_prog (first_fit 64)) read_ok (proc_init 1 1 1 2 0 Map.empty) s"
    "ppcs s Main = Done" "control s = 0" "trace (shr s) = [Made [97], Printed [65]]" by blast
  have "0 \<le> atoi ([[114], [50]] ! 1)" unfolding ratoi_demo by simp
  from reader_prints [OF ff.allocator_axioms rmain_demo this s(1-3)] s show ?thesis by auto
qed

text \<open>C35: until \<open>main\<close> has ended some thread of the Reader can go on once the device answers,
  unless the signal handler waits for a mutex that the thread it interrupted holds.\<close>

theorem reader_progress:
  assumes "allocator alloc" and "reader_main argv fd h = Inr (Inr s0)"
    and "preach (reader_prog alloc) read_ok s0 s" and "pcrashed s = None" and "ppcs s Main \<noteq> Done"
    and "\<not> self_blocked s"
  shows "\<exists>l s'. pstep (reader_prog alloc) l s = Some s' \<and>
    (l = HStep \<or> (\<exists>t. l = Acq t) \<or> (\<exists>t u. l = Exec t e u))"
proof -
  from assms(2) obtain n1 n2 n3 lp where s0: "s0 = proc_init n1 n2 n3 (atoi (argv ! 1)) lp h"
    by (rule reader_main_cases)
  show ?thesis
    using pipeline.progress [OF allocator.reader_pipeline [OF assms(1)] assms(3) [unfolded s0] assms(4-6)] .
qed

theorem reader_progress_witness:
  "\<exists>l s'. pstep (reader_prog (first_fit 64)) l (proc_init 1 1 1 2 0 Map.empty) = Some s' \<and>
    (l = HStep \<or> (\<exists>t. l = Acq t) \<or> (\<exists>t u. l = Exec t (renv []) u))"
  by (rule reader_progress [OF ff.allocator_axioms rmain_demo preach_init])
    (simp_all add: proc_init_def self_blocked_def)

end
