(* ===== verification/Kconf_Expr.thy ===== *)
theory Kconf_Expr
  imports Prelude
begin

text \<open>
  The dependency expressions of the kernel configurator, \<open>scripts/kconfig/expr.c\<close> and
  \<open>expr.h\<close>: their evaluation and the transformations that keep their value. A \<open>struct expr\<close> that
  is owned by its parent is a value of the datatype \<open>expr\<close>, a pointer that may be \<open>NULL\<close> is an
  \<open>option\<close>, and a function that rewrites a tree in place returns the new tree. The expression
  types \<open>E_CHOICE\<close> and \<open>E_RANGE\<close> only occur as the \<open>expr\<close> of a property and are no
  constructors here: none of the functions of this theory is called on them.
\<close>

section \<open>Tristate values\<close>

datatype tristate = No | Mod | Yes

primrec tri_num :: "tristate \<Rightarrow> nat" where
  "tri_num No = 0"
| "tri_num Mod = 1"
| "tri_num Yes = 2"

lemma tri_num_inject: "tri_num a = tri_num b \<longleftrightarrow> a = b"
  by (cases a; cases b) auto

instantiation tristate :: linorder
begin

definition less_eq_tristate :: "tristate \<Rightarrow> tristate \<Rightarrow> bool" where
  "a \<le> b \<longleftrightarrow> tri_num a \<le> tri_num b"

definition less_tristate :: "tristate \<Rightarrow> tristate \<Rightarrow> bool" where
  "a < b \<longleftrightarrow> tri_num a < tri_num b"

instance
  by standard (auto simp: less_eq_tristate_def less_tristate_def tri_num_inject)

end

lemmas tri_order = less_eq_tristate_def less_tristate_def

definition tri_or :: "tristate \<Rightarrow> tristate \<Rightarrow> tristate" where
  "tri_or dep1 dep2 = (if dep1 > dep2 then dep1 else dep2)"

definition tri_and :: "tristate \<Rightarrow> tristate \<Rightarrow> tristate" where
  "tri_and dep1 dep2 = (if dep1 < dep2 then dep1 else dep2)"

primrec tri_not :: "tristate \<Rightarrow> tristate" where
  "tri_not No = Yes"
| "tri_not Mod = Mod"
| "tri_not Yes = No"

lemma tri_num_not: "tri_num (tri_not a) = 2 - tri_num a"
  by (cases a) auto

lemmas tri_defs = tri_or_def tri_and_def tri_order

lemma tri_and_simps [simp]:
  "tri_and Yes a = a" "tri_and a Yes = a" "tri_and No a = No" "tri_and a No = No" "tri_and a a = a"
  by (cases a; simp add: tri_defs)+

lemma tri_or_simps [simp]:
  "tri_or Yes a = Yes" "tri_or a Yes = Yes" "tri_or No a = a" "tri_or a No = a" "tri_or a a = a"
  by (cases a; simp add: tri_defs)+

lemma tri_and_ac: "tri_and a b = tri_and b a" "tri_and (tri_and a b) c = tri_and a (tri_and b c)"
  "tri_and a (tri_and b c) = tri_and b (tri_and a c)"
  by (cases a; cases b; simp add: tri_defs; cases c; simp add: tri_defs)+

lemma tri_or_ac: "tri_or a b = tri_or b a" "tri_or (tri_or a b) c = tri_or a (tri_or b c)"
  "tri_or a (tri_or b c) = tri_or b (tri_or a c)"
  by (cases a; cases b; simp add: tri_defs; cases c; simp add: tri_defs)+

lemma tri_left_idem [simp]: "tri_and a (tri_and a b) = tri_and a b" "tri_or a (tri_or a b) = tri_or a b"
  by (cases a; cases b; simp add: tri_defs)+

lemma tri_not_not [simp]: "tri_not (tri_not a) = a"
  by (cases a) auto

lemma tri_not_inject [simp]: "tri_not a = tri_not b \<longleftrightarrow> a = b"
  by (cases a; cases b) auto

lemma tri_de_morgan: "tri_not (tri_and a b) = tri_or (tri_not a) (tri_not b)"
  "tri_not (tri_or a b) = tri_and (tri_not a) (tri_not b)"
  by (cases a; cases b; simp add: tri_defs)+

section \<open>Expressions and symbols\<close>

datatype sym = symbol_yes | symbol_mod | symbol_no | Sym nat

datatype symbol_type = S_UNKNOWN | S_BOOLEAN | S_TRISTATE | S_INT | S_HEX | S_STRING | S_OTHER

datatype expr_type =
  E_NONE | E_OR | E_AND | E_NOT | E_EQUAL | E_UNEQUAL | E_CHOICE | E_SYMBOL | E_RANGE

datatype expr =
    ESymbol sym
  | ENot expr
  | EAnd expr expr
  | EOr expr expr
  | EEqual sym sym
  | EUnequal sym sym

primrec etype :: "expr \<Rightarrow> expr_type" where
  "etype (ESymbol _) = E_SYMBOL"
| "etype (ENot _) = E_NOT"
| "etype (EAnd _ _) = E_AND"
| "etype (EOr _ _) = E_OR"
| "etype (EEqual _ _) = E_EQUAL"
| "etype (EUnequal _ _) = E_UNEQUAL"

text \<open>What the expressions read of the symbol table, every symbol being valid
  (\<open>SYMBOL_VALID\<close>), so that \<open>sym_calc_value\<close> returns at once.\<close>

record kenv =
  k_type :: "sym \<Rightarrow> symbol_type"
  k_tri :: "sym \<Rightarrow> tristate"
  k_val :: "sym \<Rightarrow> string"
  k_const :: "sym \<Rightarrow> bool"
  k_name :: "sym \<Rightarrow> string option"

primrec tri_name :: "tristate \<Rightarrow> string" where
  "tri_name No = ''n''"
| "tri_name Mod = ''m''"
| "tri_name Yes = ''y''"

lemma tri_name_inject [simp]: "tri_name a = tri_name b \<longleftrightarrow> a = b"
  by (cases a; cases b) auto

definition sym_get_string_value :: "kenv \<Rightarrow> sym \<Rightarrow> string" where
  "sym_get_string_value env s =
     (if k_type env s = S_BOOLEAN \<or> k_type env s = S_TRISTATE then tri_name (k_tri env s) else k_val env s)"

primrec expr_calc_value :: "kenv \<Rightarrow> expr \<Rightarrow> tristate" where
  "expr_calc_value env (ESymbol s) = k_tri env s"
| "expr_calc_value env (EAnd l r) = tri_and (expr_calc_value env l) (expr_calc_value env r)"
| "expr_calc_value env (EOr l r) = tri_or (expr_calc_value env l) (expr_calc_value env r)"
| "expr_calc_value env (ENot l) = tri_not (expr_calc_value env l)"
| "expr_calc_value env (EEqual a b) =
     (if sym_get_string_value env a = sym_get_string_value env b then Yes else No)"
| "expr_calc_value env (EUnequal a b) =
     (if sym_get_string_value env a = sym_get_string_value env b then No else Yes)"

definition calc_value :: "kenv \<Rightarrow> expr option \<Rightarrow> tristate" where
  "calc_value env e = (case e of None \<Rightarrow> Yes | Some e \<Rightarrow> expr_calc_value env e)"

text \<open>The three constant symbols have the values of their definition in \<open>symbol.c\<close>, two
  constants never have the same value, since \<open>sym_lookup\<close> gives one constant per name, and a
  boolean symbol is never \<open>m\<close>.\<close>

definition kenv_ok :: "kenv \<Rightarrow> bool" where
  "kenv_ok env \<longleftrightarrow>
     k_type env symbol_yes = S_UNKNOWN \<and> k_tri env symbol_yes = Yes \<and> k_val env symbol_yes = ''y'' \<and>
     k_type env symbol_mod = S_UNKNOWN \<and> k_tri env symbol_mod = Mod \<and> k_val env symbol_mod = ''m'' \<and>
     k_type env symbol_no = S_UNKNOWN \<and> k_tri env symbol_no = No \<and> k_val env symbol_no = ''n'' \<and>
     k_const env symbol_yes \<and> k_const env symbol_mod \<and> k_const env symbol_no \<and>
     (\<forall>s t. k_const env s \<longrightarrow> k_const env t \<longrightarrow>
       sym_get_string_value env s = sym_get_string_value env t \<longrightarrow> s = t) \<and>
     (\<forall>s. k_type env s = S_BOOLEAN \<longrightarrow> k_tri env s \<noteq> Mod)"

lemma kenv_okD:
  assumes "kenv_ok env"
  shows "k_tri env symbol_yes = Yes" "k_tri env symbol_mod = Mod" "k_tri env symbol_no = No"
    and "sym_get_string_value env symbol_yes = tri_name Yes"
    and "sym_get_string_value env symbol_mod = tri_name Mod"
    and "sym_get_string_value env symbol_no = tri_name No"
    and "k_type env s = S_BOOLEAN \<Longrightarrow> k_tri env s \<noteq> Mod"
    and "k_const env s \<Longrightarrow> k_const env t \<Longrightarrow> sym_get_string_value env s = sym_get_string_value env t \<Longrightarrow> s = t"
proof -
  show "k_const env s \<Longrightarrow> k_const env t \<Longrightarrow> sym_get_string_value env s = sym_get_string_value env t \<Longrightarrow> s = t"
    using assms unfolding kenv_ok_def by blast
qed (use assms in \<open>auto simp: kenv_ok_def sym_get_string_value_def\<close>)

lemma string_value_tri:
  "k_type env s = S_BOOLEAN \<or> k_type env s = S_TRISTATE \<Longrightarrow> sym_get_string_value env s = tri_name (k_tri env s)"
  by (auto simp: sym_get_string_value_def)

section \<open>Construction, copy and release\<close>

text \<open>\<open>expr_alloc_two\<close> is used with the types \<open>E_AND\<close> and \<open>E_OR\<close> only.\<close>

definition expr_alloc_two :: "expr_type \<Rightarrow> expr \<Rightarrow> expr \<Rightarrow> expr" where
  "expr_alloc_two ty e1 e2 = (if ty = E_OR then EOr e1 e2 else EAnd e1 e2)"

definition expr_alloc_and :: "expr option \<Rightarrow> expr option \<Rightarrow> expr option" where
  "expr_alloc_and e1 e2 =
     (case e1 of None \<Rightarrow> e2
      | Some a \<Rightarrow> (case e2 of Some b \<Rightarrow> Some (expr_alloc_two E_AND a b) | None \<Rightarrow> Some a))"

definition expr_alloc_or :: "expr option \<Rightarrow> expr option \<Rightarrow> expr option" where
  "expr_alloc_or e1 e2 =
     (case e1 of None \<Rightarrow> e2
      | Some a \<Rightarrow> (case e2 of Some b \<Rightarrow> Some (expr_alloc_two E_OR a b) | None \<Rightarrow> Some a))"

primrec expr_copy :: "expr \<Rightarrow> expr" where
  "expr_copy (ESymbol s) = ESymbol s"
| "expr_copy (ENot l) = ENot (expr_copy l)"
| "expr_copy (EAnd l r) = EAnd (expr_copy l) (expr_copy r)"
| "expr_copy (EOr l r) = EOr (expr_copy l) (expr_copy r)"
| "expr_copy (EEqual a b) = EEqual a b"
| "expr_copy (EUnequal a b) = EUnequal a b"

lemma expr_copy_id [simp]: "expr_copy e = e"
  by (induction e) auto

text \<open>The number of nodes that \<open>expr_free\<close> gives back: it returns from the case \<open>E_NOT\<close> before
  the \<open>free\<close> at its end.\<close>

primrec expr_free :: "expr \<Rightarrow> nat" where
  "expr_free (ESymbol _) = 1"
| "expr_free (ENot l) = expr_free l"
| "expr_free (EAnd l r) = expr_free l + expr_free r + 1"
| "expr_free (EOr l r) = expr_free l + expr_free r + 1"
| "expr_free (EEqual _ _) = 1"
| "expr_free (EUnequal _ _) = 1"

primrec nodes :: "expr \<Rightarrow> nat" where
  "nodes (ESymbol _) = 1"
| "nodes (ENot l) = nodes l + 1"
| "nodes (EAnd l r) = nodes l + nodes r + 1"
| "nodes (EOr l r) = nodes l + nodes r + 1"
| "nodes (EEqual _ _) = 1"
| "nodes (EUnequal _ _) = 1"

primrec nots :: "expr \<Rightarrow> nat" where
  "nots (ESymbol _) = 0"
| "nots (ENot l) = nots l + 1"
| "nots (EAnd l r) = nots l + nots r"
| "nots (EOr l r) = nots l + nots r"
| "nots (EEqual _ _) = 0"
| "nots (EUnequal _ _) = 0"

lemma nodes_pos [simp]: "0 < nodes e"
  by (cases e) auto

lemma freed_nodes: "nodes e = expr_free e + nots e"
  by (induction e) auto

section \<open>Constants\<close>

definition expr_is_yes :: "expr option \<Rightarrow> bool" where
  "expr_is_yes e \<longleftrightarrow> e = None \<or> e = Some (ESymbol symbol_yes)"

definition expr_is_no :: "expr option \<Rightarrow> bool" where
  "expr_is_no e \<longleftrightarrow> e = Some (ESymbol symbol_no)"

primrec expr_eliminate_yn :: "expr \<Rightarrow> expr" where
  "expr_eliminate_yn (ESymbol s) = ESymbol s"
| "expr_eliminate_yn (ENot l) = ENot l"
| "expr_eliminate_yn (EAnd l r) =
     (let l' = expr_eliminate_yn l; r' = expr_eliminate_yn r in
      if l' = ESymbol symbol_no then ESymbol symbol_no
      else if l' = ESymbol symbol_yes then r'
      else if r' = ESymbol symbol_no then ESymbol symbol_no
      else if r' = ESymbol symbol_yes then l'
      else EAnd l' r')"
| "expr_eliminate_yn (EOr l r) =
     (let l' = expr_eliminate_yn l; r' = expr_eliminate_yn r in
      if l' = ESymbol symbol_no then r'
      else if l' = ESymbol symbol_yes then ESymbol symbol_yes
      else if r' = ESymbol symbol_no then l'
      else if r' = ESymbol symbol_yes then ESymbol symbol_yes
      else EOr l' r')"
| "expr_eliminate_yn (EEqual a b) = EEqual a b"
| "expr_eliminate_yn (EUnequal a b) = EUnequal a b"

lemma eliminate_yn_value:
  assumes "kenv_ok env"
  shows "expr_calc_value env (expr_eliminate_yn e) = expr_calc_value env e"
proof (induction e)
  case (EAnd l r)
  from EAnd.IH [symmetric] show ?case using kenv_okD(1,3) [OF assms] by (simp add: Let_def)
next
  case (EOr l r)
  from EOr.IH [symmetric] show ?case using kenv_okD(1,3) [OF assms] by (simp add: Let_def)
qed simp_all

lemma eliminate_yn_nodes: "nodes (expr_eliminate_yn e) \<le> nodes e"
  by (induction e) (auto simp: Let_def)

text \<open>After the elimination the constants are at the leaves below a \<open>NOT\<close> or alone.\<close>

fun yn_free :: "expr \<Rightarrow> bool" where
  "yn_free (EAnd l r) = (yn_free l \<and> yn_free r \<and>
     l \<notin> {ESymbol symbol_yes, ESymbol symbol_no} \<and> r \<notin> {ESymbol symbol_yes, ESymbol symbol_no})"
| "yn_free (EOr l r) = (yn_free l \<and> yn_free r \<and>
     l \<notin> {ESymbol symbol_yes, ESymbol symbol_no} \<and> r \<notin> {ESymbol symbol_yes, ESymbol symbol_no})"
| "yn_free _ = True"

lemma eliminate_yn_free: "yn_free (expr_eliminate_yn e)"
  by (induction e) (auto simp: Let_def)

end
