(* ===== verification/Kconf_Eq.thy ===== *)
theory Kconf_Eq
  imports Kconf_Expr
begin

text \<open>
  The comparison of two dependency expressions, \<open>expr_eq\<close>, with the elimination of common
  operands that it is built on. \<open>trans_count\<close> is returned as the number of increments; \<open>expr_eq\<close>
  restores it.
\<close>

section \<open>Definitions\<close>

fun kids :: "expr_type \<Rightarrow> expr \<Rightarrow> (expr \<times> expr) option" where
  "kids E_AND (EAnd l r) = Some (l, r)"
| "kids E_OR (EOr l r) = Some (l, r)"
| "kids _ _ = None"

lemma kids_nodes: "kids ty e = Some (l, r) \<Longrightarrow> nodes e = nodes l + nodes r + 1"
  by (cases "(ty, e)" rule: kids.cases) auto

lemma kids_etype: "kids ty e = Some (l, r) \<Longrightarrow> etype e = ty \<and> expr_alloc_two ty l r = e"
  by (cases "(ty, e)" rule: kids.cases) (auto simp: expr_alloc_two_def)

lemma kids_alloc_two: "ty \<in> {E_AND, E_OR} \<Longrightarrow> kids ty (expr_alloc_two ty l r) = Some (l, r)"
  by (auto simp: expr_alloc_two_def)

lemma nodes_alloc_two [simp]: "nodes (expr_alloc_two ty l r) = nodes l + nodes r + 1"
  by (simp add: expr_alloc_two_def)

definition neutral :: "expr_type \<Rightarrow> expr" where
  "neutral ty = ESymbol (if ty = E_OR then symbol_no else symbol_yes)"

lemma nodes_neutral [simp]: "nodes (neutral ty) = 1"
  by (simp add: neutral_def)

function expr_eq :: "expr \<Rightarrow> expr \<Rightarrow> bool"
  and elim_eq :: "expr_type \<Rightarrow> expr \<Rightarrow> expr \<Rightarrow> expr \<times> expr \<times> nat"
  and expr_eliminate_eq :: "expr \<Rightarrow> expr \<Rightarrow> expr \<times> expr \<times> nat" where
  "expr_eq e1 e2 =
     (if etype e1 \<noteq> etype e2 then False
      else case e1 of
        EEqual a b \<Rightarrow> e2 = EEqual a b
      | EUnequal a b \<Rightarrow> e2 = EUnequal a b
      | ESymbol s \<Rightarrow> e2 = ESymbol s
      | ENot a \<Rightarrow> (case e2 of ENot b \<Rightarrow> expr_eq a b | _ \<Rightarrow> False)
      | _ \<Rightarrow> (case expr_eliminate_eq (expr_copy e1) (expr_copy e2) of
               (ESymbol s, ESymbol t, _) \<Rightarrow> s = t | _ \<Rightarrow> False))"
| "elim_eq ty e1 e2 =
     (case kids ty e1 of
        Some (l, r) \<Rightarrow>
          (case elim_eq ty l e2 of
             (l', e2', n) \<Rightarrow> (case elim_eq ty r e2' of
               (r', e2'', m) \<Rightarrow> (expr_alloc_two ty l' r', e2'', n + m)))
      | None \<Rightarrow>
          (case kids ty e2 of
             Some (l, r) \<Rightarrow>
               (case elim_eq ty e1 l of
                  (e1', l', n) \<Rightarrow> (case elim_eq ty e1' r of
                    (e1'', r', m) \<Rightarrow> (e1'', expr_alloc_two ty l' r', n + m)))
           | None \<Rightarrow>
               if e1 = e2 \<and> (e1 = ESymbol symbol_yes \<or> e1 = ESymbol symbol_no) then (e1, e2, 0)
               else if \<not> expr_eq e1 e2 then (e1, e2, 0)
               else (neutral ty, neutral ty, 1)))"
| "expr_eliminate_eq e1 e2 =
     (case (if etype e1 = E_OR \<or> etype e1 = E_AND then elim_eq (etype e1) e1 e2 else (e1, e2, 0)) of
        (a, b, n) \<Rightarrow>
          (case (if etype a \<noteq> etype b \<and> (etype b = E_OR \<or> etype b = E_AND)
                 then elim_eq (etype b) a b else (a, b, 0)) of
             (c, d, m) \<Rightarrow> (expr_eliminate_yn c, expr_eliminate_yn d, n + m)))"
  by pat_completeness auto

text \<open>Eliminations never make an expression larger, which is what their termination needs: the
  second of the two recursive calls works on the result of the first.\<close>

lemma elim_eq_nodes:
  "expr_eq_elim_eq_expr_eliminate_eq_dom (Inl (e, e')) \<Longrightarrow> True"
  "expr_eq_elim_eq_expr_eliminate_eq_dom (Inr (Inl (ty, e1, e2))) \<Longrightarrow>
    nodes (fst (elim_eq ty e1 e2)) \<le> nodes e1 \<and> nodes (fst (snd (elim_eq ty e1 e2))) \<le> nodes e2"
  "expr_eq_elim_eq_expr_eliminate_eq_dom (Inr (Inr (d, d'))) \<Longrightarrow> True"
proof (induction e e' and ty e1 e2 and d d' rule: expr_eq_elim_eq_expr_eliminate_eq.pinduct)
  case (2 ty e1 e2)
  show ?case
  proof (cases "kids ty e1")
    case (Some c)
    then obtain l r where k: "kids ty e1 = Some (l, r)" by (cases c) auto
    obtain l' e2' n where a: "elim_eq ty l e2 = (l', e2', n)" by (cases "elim_eq ty l e2")
    obtain r' e2'' m where b: "elim_eq ty r e2' = (r', e2'', m)" by (cases "elim_eq ty r e2'")
    have "nodes l' \<le> nodes l \<and> nodes e2' \<le> nodes e2" using 2(5) [OF k refl] a by simp
    moreover have "nodes r' \<le> nodes r \<and> nodes e2'' \<le> nodes e2'" using 2(6) [OF k refl a [symmetric] refl] b by simp
    ultimately show ?thesis using k a b kids_nodes [OF k] by (simp add: elim_eq.psimps [OF 2(1)])
  next
    case n1: None
    show ?thesis
    proof (cases "kids ty e2")
      case (Some c)
      then obtain l r where k: "kids ty e2 = Some (l, r)" by (cases c) auto
      obtain e1' l' n where a: "elim_eq ty e1 l = (e1', l', n)" by (cases "elim_eq ty e1 l")
      obtain e1'' r' m where b: "elim_eq ty e1' r = (e1'', r', m)" by (cases "elim_eq ty e1' r")
      have "nodes e1' \<le> nodes e1 \<and> nodes l' \<le> nodes l" using 2(3) [OF n1 k refl] a by simp
      moreover have "nodes e1'' \<le> nodes e1' \<and> nodes r' \<le> nodes r" using 2(4) [OF n1 k refl a [symmetric] refl] b by simp
      ultimately show ?thesis using n1 k a b kids_nodes [OF k] by (simp add: elim_eq.psimps [OF 2(1)])
    next
      case None
      with n1 show ?thesis using nodes_pos [of e1] nodes_pos [of e2]
        by (simp add: elim_eq.psimps [OF 2(1)] Suc_le_eq)
    qed
  qed
qed simp_all

lemma kids_and_or: "etype e = E_AND \<or> etype e = E_OR \<Longrightarrow> kids (etype e) e \<noteq> None"
  by (cases e) auto

definition eq_rank :: "expr \<times> expr + (expr_type \<times> expr \<times> expr) + (expr \<times> expr) \<Rightarrow> nat" where
  "eq_rank x = (case x of
     Inl (e1, e2) \<Rightarrow> 4 * (nodes e1 + nodes e2) + 2
   | Inr (Inl (ty, e1, e2)) \<Rightarrow> 4 * (nodes e1 + nodes e2) + (if kids ty e1 = None \<and> kids ty e2 = None then 3 else 0)
   | Inr (Inr (e1, e2)) \<Rightarrow> 4 * (nodes e1 + nodes e2) + 1)"

termination expr_eq
proof (relation "measure eq_rank")
  fix ty e1 e2 c l r l' y e2' n
  assume "kids ty e1 = Some c" "(l, r) = c" "(l', y) = elim_eq ty l e2" "(e2', n) = y"
    "expr_eq_elim_eq_expr_eliminate_eq_dom (Inr (Inl (ty, l, e2)))"
  then show "(Inr (Inl (ty, r, e2')), Inr (Inl (ty, e1, e2))) \<in> measure eq_rank"
    using elim_eq_nodes(2) [of ty l e2] kids_nodes [of ty e1 l r] nodes_pos [of l]
    by (auto simp: eq_rank_def prod_eq_iff)
next
  fix ty e1 e2 c l r e1' y l' n
  assume "kids ty e1 = None" "kids ty e2 = Some c" "(l, r) = c" "(e1', y) = elim_eq ty e1 l" "(l', n) = y"
    "expr_eq_elim_eq_expr_eliminate_eq_dom (Inr (Inl (ty, e1, l)))"
  then show "(Inr (Inl (ty, e1', r)), Inr (Inl (ty, e1, e2))) \<in> measure eq_rank"
    using elim_eq_nodes(2) [of ty e1 l] kids_nodes [of ty e2 l r] nodes_pos [of l]
    by (auto simp: eq_rank_def prod_eq_iff)
next
  fix e1 e2 a y b n
  assume e: "(a, y) = (if etype e1 = E_OR \<or> etype e1 = E_AND then elim_eq (etype e1) e1 e2 else (e1, e2, 0))"
    and y: "(b, n) = y" and b: "etype a \<noteq> etype b \<and> (etype b = E_OR \<or> etype b = E_AND)"
    and d: "etype e1 = E_OR \<or> etype e1 = E_AND \<Longrightarrow>
      expr_eq_elim_eq_expr_eliminate_eq_dom (Inr (Inl (etype e1, e1, e2)))"
  have "nodes a \<le> nodes e1 \<and> nodes b \<le> nodes e2"
  proof (cases "etype e1 = E_OR \<or> etype e1 = E_AND")
    case True
    with e y have "elim_eq (etype e1) e1 e2 = (a, b, n)" by simp
    then show ?thesis using elim_eq_nodes(2) [OF d [OF True]] by simp
  next
    case False
    with e y show ?thesis by simp
  qed
  moreover have "kids (etype b) b \<noteq> None" using b by (intro kids_and_or) auto
  ultimately show "(Inr (Inl (etype b, a, b)), Inr (Inr (e1, e2))) \<in> measure eq_rank"
    by (auto simp: eq_rank_def)
next
  fix e1 e2
  assume "etype e1 = E_OR \<or> etype e1 = E_AND"
  then have "kids (etype e1) e1 \<noteq> None" by (intro kids_and_or) auto
  then show "(Inr (Inl (etype e1, e1, e2)), Inr (Inr (e1, e2))) \<in> measure eq_rank"
    by (auto simp: eq_rank_def)
qed (auto simp: eq_rank_def dest: kids_nodes)

declare expr_eq.simps [simp del] elim_eq.simps [simp del] expr_eliminate_eq.simps [simp del]

section \<open>What the comparison means\<close>

definition tri_op :: "expr_type \<Rightarrow> tristate \<Rightarrow> tristate \<Rightarrow> tristate" where
  "tri_op ty = (if ty = E_OR then tri_or else tri_and)"

lemma tri_op_ac: "tri_op ty a b = tri_op ty b a" "tri_op ty (tri_op ty a b) c = tri_op ty a (tri_op ty b c)"
  "tri_op ty a (tri_op ty b c) = tri_op ty b (tri_op ty a c)" "tri_op ty a a = a"
  using tri_and_ac tri_or_ac by (auto simp: tri_op_def)

lemma value_alloc_two [simp]:
  "expr_calc_value env (expr_alloc_two ty l r) = tri_op ty (expr_calc_value env l) (expr_calc_value env r)"
  by (simp add: expr_alloc_two_def tri_op_def)

lemma tri_op_neutral:
  assumes "kenv_ok env"
  shows "tri_op ty x (expr_calc_value env (neutral ty)) = x" "tri_op ty (expr_calc_value env (neutral ty)) x = x"
  using kenv_okD(1,3) [OF assms] by (auto simp: tri_op_def neutral_def)

text \<open>The elimination takes the same common part \<open>C\<close> out of both expressions.\<close>

definition common_part :: "kenv \<Rightarrow> expr_type \<Rightarrow> expr \<Rightarrow> expr \<Rightarrow> expr \<Rightarrow> expr \<Rightarrow> bool" where
  "common_part env ty e1 e2 a b \<longleftrightarrow> (\<exists>C.
     expr_calc_value env e1 = tri_op ty C (expr_calc_value env a) \<and>
     expr_calc_value env e2 = tri_op ty C (expr_calc_value env b))"

lemma common_part_refl: "kenv_ok env \<Longrightarrow> common_part env ty e1 e2 e1 e2"
  unfolding common_part_def using tri_op_neutral by (intro exI [of _ "expr_calc_value env (neutral ty)"]) simp

lemma common_part_left:
  assumes "common_part env ty l e2 l' e2'" and "common_part env ty r e2' r' e2''"
  shows "common_part env ty (expr_alloc_two ty l r) e2 (expr_alloc_two ty l' r') e2''"
proof -
  from assms obtain C D where "expr_calc_value env l = tri_op ty C (expr_calc_value env l')"
    "expr_calc_value env e2 = tri_op ty C (expr_calc_value env e2')"
    "expr_calc_value env r = tri_op ty D (expr_calc_value env r')"
    "expr_calc_value env e2' = tri_op ty D (expr_calc_value env e2'')"
    by (auto simp: common_part_def)
  then show ?thesis unfolding common_part_def
    by (intro exI [of _ "tri_op ty C D"]) (simp add: tri_op_ac)
qed

lemma common_part_flip: "common_part env ty e1 e2 a b \<Longrightarrow> common_part env ty e2 e1 b a"
  by (auto simp: common_part_def)

lemma common_part_equal:
  "common_part env ty e1 e2 a b \<Longrightarrow> expr_calc_value env a = expr_calc_value env b \<Longrightarrow>
    expr_calc_value env e1 = expr_calc_value env e2"
  by (auto simp: common_part_def)

lemma common_part_drop:
  assumes "kenv_ok env" and "expr_calc_value env e1 = expr_calc_value env e2"
  shows "common_part env ty e1 e2 (neutral ty) (neutral ty)"
  unfolding common_part_def using tri_op_neutral [OF assms(1)] assms(2)
  by (intro exI [of _ "expr_calc_value env e1"]) simp

lemma eq_sound:
  assumes "kenv_ok env"
  shows "expr_eq e e' \<Longrightarrow> expr_calc_value env e = expr_calc_value env e'"
    and "elim_eq ty e1 e2 = (a, b, n) \<Longrightarrow> common_part env ty e1 e2 a b"
    and "expr_eliminate_eq d d' = (g, g', m) \<Longrightarrow> expr_calc_value env g = expr_calc_value env g' \<Longrightarrow>
      expr_calc_value env d = expr_calc_value env d'"
proof (induction e e' and ty e1 e2 and d d' arbitrary: and a b n and g g' m
    rule: expr_eq_elim_eq_expr_eliminate_eq.induct)
  case (1 e1 e2)
  note eq = 1(4) [unfolded expr_eq.simps [of e1 e2]]
  show ?case
  proof (cases "etype e1 = E_AND \<or> etype e1 = E_OR")
    case True
    obtain g g' m where g: "expr_eliminate_eq e1 e2 = (g, g', m)" by (cases "expr_eliminate_eq e1 e2")
    with True eq obtain s where "g = ESymbol s" "g' = ESymbol s"
      by (cases e1) (auto split: if_splits expr.splits)
    then show ?thesis using 1(2,3) g eq True
      by (cases e1) (auto split: if_splits)
  next
    case False
    then show ?thesis using 1(1) eq by (cases e1; cases e2) auto
  qed
next
  case (2 ty e1 e2)
  show ?case
  proof (cases "kids ty e1")
    case (Some c)
    then obtain l r where k: "kids ty e1 = Some (l, r)" by (cases c) auto
    obtain l' e2' i where x: "elim_eq ty l e2 = (l', e2', i)" by (cases "elim_eq ty l e2")
    obtain r' e2'' j where y: "elim_eq ty r e2' = (r', e2'', j)" by (cases "elim_eq ty r e2'")
    have "common_part env ty (expr_alloc_two ty l r) e2 (expr_alloc_two ty l' r') e2''"
      using 2(4) [OF k refl x] 2(5) [OF k refl x [symmetric] refl y] by (rule common_part_left)
    then show ?thesis using 2(6) k x y kids_etype [OF k] by (simp add: elim_eq.simps [of ty e1])
  next
    case n1: None
    show ?thesis
    proof (cases "kids ty e2")
      case (Some c)
      then obtain l r where k: "kids ty e2 = Some (l, r)" by (cases c) auto
      obtain e1' l' i where x: "elim_eq ty e1 l = (e1', l', i)" by (cases "elim_eq ty e1 l")
      obtain e1'' r' j where y: "elim_eq ty e1' r = (e1'', r', j)" by (cases "elim_eq ty e1' r")
      have "common_part env ty (expr_alloc_two ty l r) e1 (expr_alloc_two ty l' r') e1''"
        using 2(2) [OF n1 k refl x, THEN common_part_flip] 2(3) [OF n1 k refl x [symmetric] refl y, THEN common_part_flip]
        by (rule common_part_left)
      then show ?thesis using 2(6) n1 k x y kids_etype [OF k]
        by (auto simp: elim_eq.simps [of ty e1] intro: common_part_flip)
    next
      case None
      with n1 show ?thesis
        using 2(1,6) common_part_refl [OF assms, of ty e1 e2] common_part_drop [OF assms, of e1 e2 ty]
        by (auto simp: elim_eq.simps [of ty e1] split: if_splits)
    qed
  qed
next
  case (3 e1 e2)
  obtain x y i where xy: "(if etype e1 = E_OR \<or> etype e1 = E_AND then elim_eq (etype e1) e1 e2 else (e1, e2, 0)) = (x, y, i)"
    by (cases "if etype e1 = E_OR \<or> etype e1 = E_AND then elim_eq (etype e1) e1 e2 else (e1, e2, 0)")
  obtain u v j where uv: "(if etype x \<noteq> etype y \<and> (etype y = E_OR \<or> etype y = E_AND) then elim_eq (etype y) x y
      else (x, y, 0)) = (u, v, j)"
    by (cases "if etype x \<noteq> etype y \<and> (etype y = E_OR \<or> etype y = E_AND) then elim_eq (etype y) x y else (x, y, 0)")
  from 3(3) xy uv have "g = expr_eliminate_yn u" "g' = expr_eliminate_yn v"
    by (auto simp: expr_eliminate_eq.simps)
  with 3(4) have "expr_calc_value env u = expr_calc_value env v" by (simp add: eliminate_yn_value [OF assms])
  then have "expr_calc_value env x = expr_calc_value env y"
    using 3(2) [OF xy [symmetric] refl] uv common_part_equal by (auto split: if_splits)
  then show ?case using 3(1) xy common_part_equal by (auto split: if_splits)
qed

end
