(* ===== verification/Kconf_Trans.thy ===== *)
theory Kconf_Trans
  imports Kconf_Eq
begin

text \<open>
  The transformations of dependency expressions: normalisation, joining of two operands,
  extraction of common operands, comparison with a constant, the dependency tests and the
  printer.
\<close>

section \<open>Joining two operands\<close>

primrec left_sym :: "expr \<Rightarrow> sym option" where
  "left_sym (ESymbol s) = Some s"
| "left_sym (ENot _) = None"
| "left_sym (EAnd _ _) = None"
| "left_sym (EOr _ _) = None"
| "left_sym (EEqual a _) = Some a"
| "left_sym (EUnequal a _) = Some a"

definition join_syms :: "expr \<Rightarrow> expr \<Rightarrow> (sym \<times> sym) option" where
  "join_syms e1 e2 =
     (case (case e1 of ENot tmp \<Rightarrow> left_sym tmp | _ \<Rightarrow> left_sym e1) of
        None \<Rightarrow> None
      | Some sym1 \<Rightarrow>
          (case (case e2 of ENot (ESymbol s) \<Rightarrow> Some s | ENot _ \<Rightarrow> None | _ \<Rightarrow> left_sym e2) of
             None \<Rightarrow> None
           | Some sym2 \<Rightarrow> Some (sym1, sym2)))"

text \<open>\<open>e1\<close> is a comparison of one kind with one constant and \<open>e2\<close> with the other, or the other way
  round.\<close>

definition both_equal :: "expr \<Rightarrow> expr \<Rightarrow> sym \<Rightarrow> sym \<Rightarrow> bool" where
  "both_equal e1 e2 x y =
     (case (e1, e2) of
        (EEqual _ a, EEqual _ b) \<Rightarrow> (a = x \<and> b = y) \<or> (a = y \<and> b = x)
      | _ \<Rightarrow> False)"

definition both_unequal :: "expr \<Rightarrow> expr \<Rightarrow> sym \<Rightarrow> sym \<Rightarrow> bool" where
  "both_unequal e1 e2 x y =
     (case (e1, e2) of
        (EUnequal _ a, EUnequal _ b) \<Rightarrow> (a = x \<and> b = y) \<or> (a = y \<and> b = x)
      | _ \<Rightarrow> False)"

definition sym_not_sym :: "expr \<Rightarrow> expr \<Rightarrow> bool" where
  "sym_not_sym e1 e2 =
     (case (e1, e2) of
        (ENot (ESymbol _), ESymbol _) \<Rightarrow> True
      | (ESymbol _, ENot (ESymbol _)) \<Rightarrow> True
      | _ \<Rightarrow> False)"

definition expr_join_or :: "kenv \<Rightarrow> expr \<Rightarrow> expr \<Rightarrow> expr option" where
  "expr_join_or env e1 e2 =
     (if expr_eq e1 e2 then Some (expr_copy e1)
      else if etype e1 \<notin> {E_EQUAL, E_UNEQUAL, E_SYMBOL, E_NOT} then None
      else if etype e2 \<notin> {E_EQUAL, E_UNEQUAL, E_SYMBOL, E_NOT} then None
      else case join_syms e1 e2 of
        None \<Rightarrow> None
      | Some (sym1, sym2) \<Rightarrow>
          if sym1 \<noteq> sym2 then None
          else if k_type env sym1 \<noteq> S_BOOLEAN \<and> k_type env sym1 \<noteq> S_TRISTATE then None
          else if k_type env sym1 = S_TRISTATE \<and> both_equal e1 e2 symbol_yes symbol_mod
          then Some (EUnequal sym1 symbol_no)
          else if k_type env sym1 = S_TRISTATE \<and> both_equal e1 e2 symbol_yes symbol_no
          then Some (EUnequal sym1 symbol_mod)
          else if k_type env sym1 = S_TRISTATE \<and> both_equal e1 e2 symbol_mod symbol_no
          then Some (EUnequal sym1 symbol_yes)
          else if k_type env sym1 = S_BOOLEAN \<and> sym_not_sym e1 e2
          then Some (ESymbol symbol_yes)
          else None)"

text \<open>One operand is a symbol and the other its comparison with \<open>x\<close>.\<close>

definition sym_equal :: "expr \<Rightarrow> expr \<Rightarrow> sym \<Rightarrow> bool" where
  "sym_equal e1 e2 x =
     (case (e1, e2) of
        (ESymbol _, EEqual _ b) \<Rightarrow> b = x
      | (EEqual _ a, ESymbol _) \<Rightarrow> a = x
      | _ \<Rightarrow> False)"

definition sym_unequal :: "expr \<Rightarrow> expr \<Rightarrow> sym \<Rightarrow> bool" where
  "sym_unequal e1 e2 x =
     (case (e1, e2) of
        (ESymbol _, EUnequal _ b) \<Rightarrow> b = x
      | (EUnequal _ a, ESymbol _) \<Rightarrow> a = x
      | _ \<Rightarrow> False)"

definition equal_unequal :: "kenv \<Rightarrow> expr \<Rightarrow> expr \<Rightarrow> (sym \<times> sym) option" where
  "equal_unequal env e1 e2 =
     (case (e1, e2) of
        (EEqual _ b, EUnequal _ c) \<Rightarrow> if k_const env c \<and> k_const env b then Some (b, c) else None
      | (EUnequal _ c, EEqual _ b) \<Rightarrow> if k_const env c \<and> k_const env b then Some (b, c) else None
      | _ \<Rightarrow> None)"

definition expr_join_and :: "kenv \<Rightarrow> expr \<Rightarrow> expr \<Rightarrow> expr option" where
  "expr_join_and env e1 e2 =
     (if expr_eq e1 e2 then Some (expr_copy e1)
      else if etype e1 \<notin> {E_EQUAL, E_UNEQUAL, E_SYMBOL, E_NOT} then None
      else if etype e2 \<notin> {E_EQUAL, E_UNEQUAL, E_SYMBOL, E_NOT} then None
      else case join_syms e1 e2 of
        None \<Rightarrow> None
      | Some (sym1, sym2) \<Rightarrow>
          if sym1 \<noteq> sym2 then None
          else if k_type env sym1 \<noteq> S_BOOLEAN \<and> k_type env sym1 \<noteq> S_TRISTATE then None
          else if sym_equal e1 e2 symbol_yes then Some (EEqual sym1 symbol_yes)
          else if sym_unequal e1 e2 symbol_no then Some (ESymbol sym1)
          else if sym_unequal e1 e2 symbol_mod then Some (EEqual sym1 symbol_yes)
          else if k_type env sym1 \<noteq> S_TRISTATE then None
          else case equal_unequal env e1 e2 of
            Some (b, c) \<Rightarrow> Some (if b \<noteq> c then EEqual sym1 b else ESymbol symbol_no)
          | None \<Rightarrow>
              if both_unequal e1 e2 symbol_yes symbol_no then Some (EEqual sym1 symbol_mod)
              else if both_unequal e1 e2 symbol_yes symbol_mod then Some (EEqual sym1 symbol_no)
              else if both_unequal e1 e2 symbol_mod symbol_no then Some (EEqual sym1 symbol_yes)
              else None)"

lemma both_equalD:
  assumes "both_equal e1 e2 x y" and "join_syms e1 e2 = Some (s, s)"
  shows "(e1 = EEqual s x \<and> e2 = EEqual s y) \<or> (e1 = EEqual s y \<and> e2 = EEqual s x)"
  using assms by (cases e1; cases e2) (auto simp: both_equal_def join_syms_def)

lemma both_unequalD:
  assumes "both_unequal e1 e2 x y" and "join_syms e1 e2 = Some (s, s)"
  shows "(e1 = EUnequal s x \<and> e2 = EUnequal s y) \<or> (e1 = EUnequal s y \<and> e2 = EUnequal s x)"
  using assms by (cases e1; cases e2) (auto simp: both_unequal_def join_syms_def)

lemma sym_equalD:
  assumes "sym_equal e1 e2 x" and "join_syms e1 e2 = Some (s, s)"
  shows "(e1 = ESymbol s \<and> e2 = EEqual s x) \<or> (e1 = EEqual s x \<and> e2 = ESymbol s)"
  using assms by (cases e1; cases e2) (auto simp: sym_equal_def join_syms_def)

lemma sym_unequalD:
  assumes "sym_unequal e1 e2 x" and "join_syms e1 e2 = Some (s, s)"
  shows "(e1 = ESymbol s \<and> e2 = EUnequal s x) \<or> (e1 = EUnequal s x \<and> e2 = ESymbol s)"
  using assms by (cases e1; cases e2) (auto simp: sym_unequal_def join_syms_def)

lemma equal_unequalD:
  assumes "equal_unequal env e1 e2 = Some (b, c)" and "join_syms e1 e2 = Some (s, s)"
  shows "k_const env b \<and> k_const env c \<and>
    ((e1 = EEqual s b \<and> e2 = EUnequal s c) \<or> (e1 = EUnequal s c \<and> e2 = EEqual s b))"
  using assms by (cases e1; cases e2) (auto simp: equal_unequal_def join_syms_def split: if_splits)

lemma sym_not_symD:
  assumes "sym_not_sym e1 e2" and "join_syms e1 e2 = Some (s, s)"
  shows "(e1 = ENot (ESymbol s) \<and> e2 = ESymbol s) \<or> (e1 = ESymbol s \<and> e2 = ENot (ESymbol s))"
proof -
  from assms(1) consider t u where "e1 = ENot (ESymbol t)" "e2 = ESymbol u"
    | t u where "e1 = ESymbol t" "e2 = ENot (ESymbol u)"
    by (cases e1; cases e2) (auto simp: sym_not_sym_def split: expr.splits)
  then show ?thesis using assms(2) by cases (auto simp: join_syms_def)
qed

text \<open>A comparison of a boolean or tristate symbol with a constant compares its tristate value.\<close>

lemma compare_const:
  assumes "kenv_ok env" and "k_type env s = S_BOOLEAN \<or> k_type env s = S_TRISTATE"
  shows "sym_get_string_value env s = sym_get_string_value env symbol_yes \<longleftrightarrow> k_tri env s = Yes"
    and "sym_get_string_value env s = sym_get_string_value env symbol_mod \<longleftrightarrow> k_tri env s = Mod"
    and "sym_get_string_value env s = sym_get_string_value env symbol_no \<longleftrightarrow> k_tri env s = No"
  by (simp_all only: kenv_okD(4-6) [OF assms(1)] string_value_tri [OF assms(2)] tri_name_inject)

lemma join_or_value:
  assumes ok: "kenv_ok env" and j: "expr_join_or env e1 e2 = Some e"
  shows "expr_calc_value env e = tri_or (expr_calc_value env e1) (expr_calc_value env e2)"
proof (cases "expr_eq e1 e2")
  case True
  with j eq_sound(1) [OF ok True] show ?thesis by (simp add: expr_join_or_def)
next
  case False
  with j obtain s where s: "join_syms e1 e2 = Some (s, s)" and ty: "k_type env s = S_BOOLEAN \<or> k_type env s = S_TRISTATE"
    by (auto simp: expr_join_or_def split: if_splits option.splits)
  note cmp = compare_const [OF ok ty]
  from False j s consider
      (ym) "both_equal e1 e2 symbol_yes symbol_mod" "e = EUnequal s symbol_no"
    | (yn) "both_equal e1 e2 symbol_yes symbol_no" "e = EUnequal s symbol_mod"
    | (mn) "both_equal e1 e2 symbol_mod symbol_no" "e = EUnequal s symbol_yes"
    | (nt) "sym_not_sym e1 e2" "e = ESymbol symbol_yes" "k_type env s = S_BOOLEAN"
    by (auto simp: expr_join_or_def split: if_splits)
  then show ?thesis
  proof cases
    case ym
    with both_equalD [OF ym(1) s] cmp show ?thesis by (cases "k_tri env s") auto
  next
    case yn
    with both_equalD [OF yn(1) s] cmp show ?thesis by (cases "k_tri env s") auto
  next
    case mn
    with both_equalD [OF mn(1) s] cmp show ?thesis by (cases "k_tri env s") auto
  next
    case nt
    with sym_not_symD [OF nt(1) s] kenv_okD(1,7) [OF ok] show ?thesis by (cases "k_tri env s") auto
  qed
qed

lemma join_and_value:
  assumes ok: "kenv_ok env" and j: "expr_join_and env e1 e2 = Some e"
  shows "expr_calc_value env e = tri_and (expr_calc_value env e1) (expr_calc_value env e2)"
proof (cases "expr_eq e1 e2")
  case True
  with j eq_sound(1) [OF ok True] show ?thesis by (simp add: expr_join_and_def)
next
  case False
  with j obtain s where s: "join_syms e1 e2 = Some (s, s)" and ty: "k_type env s = S_BOOLEAN \<or> k_type env s = S_TRISTATE"
    by (auto simp: expr_join_and_def split: if_splits option.splits)
  note cmp = compare_const [OF ok ty]
  from False j s consider
      (y) "sym_equal e1 e2 symbol_yes" "e = EEqual s symbol_yes"
    | (nn) "sym_unequal e1 e2 symbol_no" "e = ESymbol s"
    | (nm) "sym_unequal e1 e2 symbol_mod" "e = EEqual s symbol_yes"
    | (bc) b c where "equal_unequal env e1 e2 = Some (b, c)" "e = (if b \<noteq> c then EEqual s b else ESymbol symbol_no)"
    | (yn) "both_unequal e1 e2 symbol_yes symbol_no" "e = EEqual s symbol_mod"
    | (ym) "both_unequal e1 e2 symbol_yes symbol_mod" "e = EEqual s symbol_no"
    | (mn) "both_unequal e1 e2 symbol_mod symbol_no" "e = EEqual s symbol_yes"
    by (auto simp: expr_join_and_def split: if_splits option.splits)
  then show ?thesis
  proof cases
    case y
    with sym_equalD [OF y(1) s] cmp show ?thesis by (cases "k_tri env s") auto
  next
    case nn
    with sym_unequalD [OF nn(1) s] cmp show ?thesis by (cases "k_tri env s") auto
  next
    case nm
    with sym_unequalD [OF nm(1) s] cmp show ?thesis by (cases "k_tri env s") auto
  next
    case bc
    with equal_unequalD [OF bc(1) s] kenv_okD(3) [OF ok] kenv_okD(8) [OF ok, of b c] show ?thesis by auto
  next
    case yn
    with both_unequalD [OF yn(1) s] cmp show ?thesis by (cases "k_tri env s") auto
  next
    case ym
    with both_unequalD [OF ym(1) s] cmp show ?thesis by (cases "k_tri env s") auto
  next
    case mn
    with both_unequalD [OF mn(1) s] cmp show ?thesis by (cases "k_tri env s") auto
  qed
qed

section \<open>Normalisation\<close>

function expr_transform :: "kenv \<Rightarrow> expr \<Rightarrow> expr" where
  "expr_transform env (ESymbol s) = ESymbol s"
| "expr_transform env (EEqual a b) =
     (if k_type env a \<noteq> S_BOOLEAN then EEqual a b
      else if b = symbol_no then ENot (ESymbol a)
      else if b = symbol_mod then ESymbol symbol_no
      else if b = symbol_yes then ESymbol a
      else EEqual a b)"
| "expr_transform env (EUnequal a b) =
     (if k_type env a \<noteq> S_BOOLEAN then EUnequal a b
      else if b = symbol_no then ESymbol a
      else if b = symbol_mod then ESymbol symbol_yes
      else if b = symbol_yes then ENot (ESymbol a)
      else EUnequal a b)"
| "expr_transform env (EAnd l r) = EAnd (expr_transform env l) (expr_transform env r)"
| "expr_transform env (EOr l r) = EOr (expr_transform env l) (expr_transform env r)"
| "expr_transform env (ENot l) =
     (case expr_transform env l of
        ENot a \<Rightarrow> expr_transform env a
      | EEqual a b \<Rightarrow> EUnequal a b
      | EUnequal a b \<Rightarrow> EEqual a b
      | EOr a b \<Rightarrow> expr_transform env (EAnd (ENot a) (ENot b))
      | EAnd a b \<Rightarrow> expr_transform env (EOr (ENot a) (ENot b))
      | ESymbol s \<Rightarrow>
          if s = symbol_yes then ESymbol symbol_no
          else if s = symbol_mod then ESymbol symbol_mod
          else if s = symbol_no then ESymbol symbol_yes
          else ENot (ESymbol s))"
  by pat_completeness auto

text \<open>A weight that no step increases and that pushing a negation inwards decreases.\<close>

primrec weight :: "expr \<Rightarrow> nat" where
  "weight (ESymbol _) = 1"
| "weight (ENot l) = 2 * weight l"
| "weight (EAnd l r) = weight l + weight r + 1"
| "weight (EOr l r) = weight l + weight r + 1"
| "weight (EEqual _ _) = 3"
| "weight (EUnequal _ _) = 3"

lemma weight_pos [simp]: "0 < weight e"
  by (induction e) auto

lemma weight_transform: "expr_transform_dom (env, e) \<Longrightarrow> weight (expr_transform env e) \<le> weight e"
proof (induction env e rule: expr_transform.pinduct)
  case (6 env l)
  show ?case
  proof (cases "expr_transform env l")
    case (ESymbol s)
    with 6(1,2) weight_pos [of l] show ?thesis by (auto simp: expr_transform.psimps Suc_le_eq)
  next
    case (ENot a)
    with 6(1) 6(2) 6(3) [OF ENot] show ?thesis by (simp add: expr_transform.psimps)
  next
    case (EAnd a b)
    with 6(1) 6(2) 6(4) [OF EAnd] show ?thesis by (simp add: expr_transform.psimps)
  next
    case (EOr a b)
    with 6(1) 6(2) 6(5) [OF EOr] show ?thesis by (simp add: expr_transform.psimps)
  qed (use 6(1,2) in \<open>simp_all add: expr_transform.psimps\<close>)
qed (auto simp: expr_transform.psimps)

termination expr_transform
proof (relation "measure (\<lambda>(env, e). weight e)")
  fix env l a
  assume "expr_transform_dom (env, l)" "expr_transform env l = ENot a"
  then show "((env, a), env, ENot l) \<in> measure (\<lambda>(env, e). weight e)"
    using weight_transform [of env l] weight_pos [of a] by (simp del: weight_pos)
next
  fix env l a b
  assume "expr_transform_dom (env, l)" "expr_transform env l = EOr a b"
  then show "((env, EAnd (ENot a) (ENot b)), env, ENot l) \<in> measure (\<lambda>(env, e). weight e)"
    using weight_transform [of env l] by simp
next
  fix env l a b
  assume "expr_transform_dom (env, l)" "expr_transform env l = EAnd a b"
  then show "((env, EOr (ENot a) (ENot b)), env, ENot l) \<in> measure (\<lambda>(env, e). weight e)"
    using weight_transform [of env l] by simp
qed auto

lemma transform_value:
  assumes ok: "kenv_ok env"
  shows "expr_calc_value env (expr_transform env e) = expr_calc_value env e"
  using ok
proof (induction env e rule: expr_transform.induct)
  case (2 env a b)
  then show ?case using compare_const [of env a] kenv_okD [of env] by (cases "k_tri env a") auto
next
  case (3 env a b)
  then show ?case using compare_const [of env a] kenv_okD [of env] by (cases "k_tri env a") auto
next
  case (6 env l)
  note v = 6(1) [OF 6(5), symmetric]
  show ?case
  proof (cases "expr_transform env l")
    case (ENot a)
    with v 6(2) [OF ENot 6(5)] show ?thesis by simp
  next
    case (EAnd a b)
    with v 6(3) [OF EAnd 6(5)] show ?thesis by (simp add: tri_de_morgan)
  next
    case (EOr a b)
    with v 6(4) [OF EOr 6(5)] show ?thesis by (simp add: tri_de_morgan)
  qed (use v kenv_okD(1-3) [OF 6(5)] in simp_all)
qed simp_all

text \<open>The normal form: negations only at symbols that are no constants, and no comparison of a
  boolean symbol with a constant.\<close>

fun normal :: "kenv \<Rightarrow> expr \<Rightarrow> bool" where
  "normal env (ESymbol s) = True"
| "normal env (ENot (ESymbol s)) = (s \<notin> {symbol_yes, symbol_mod, symbol_no})"
| "normal env (ENot _) = False"
| "normal env (EAnd l r) = (normal env l \<and> normal env r)"
| "normal env (EOr l r) = (normal env l \<and> normal env r)"
| "normal env (EEqual a b) = (k_type env a = S_BOOLEAN \<longrightarrow> b \<notin> {symbol_yes, symbol_mod, symbol_no})"
| "normal env (EUnequal a b) = (k_type env a = S_BOOLEAN \<longrightarrow> b \<notin> {symbol_yes, symbol_mod, symbol_no})"

lemma const_not_boolean:
  "kenv_ok env \<Longrightarrow> k_type env s = S_BOOLEAN \<Longrightarrow> s \<notin> {symbol_yes, symbol_mod, symbol_no}"
  by (auto simp: kenv_ok_def)

lemma transform_normal:
  assumes "kenv_ok env"
  shows "normal env (expr_transform env e)"
  using assms
proof (induction env e rule: expr_transform.induct)
  case (2 env a b)
  then show ?case using const_not_boolean [of env a] by auto
next
  case (3 env a b)
  then show ?case using const_not_boolean [of env a] by auto
next
  case (6 env l)
  show ?case
  proof (cases "expr_transform env l")
    case (ENot a)
    with 6(2) [OF ENot 6(5)] show ?thesis by simp
  next
    case (EAnd a b)
    with 6(3) [OF EAnd 6(5)] show ?thesis by simp
  next
    case (EOr a b)
    with 6(4) [OF EOr 6(5)] show ?thesis by simp
  qed (use 6(1) [OF 6(5)] in auto)
qed simp_all

text \<open>A normal expression is not changed any more.\<close>

lemma transform_idem: "normal env e \<Longrightarrow> expr_transform env e = e"
  by (induction env e rule: normal.induct) auto

subsection \<open>Tests against \<open>n\<close>\<close>

primrec expr_trans_bool :: "kenv \<Rightarrow> expr \<Rightarrow> expr" where
  "expr_trans_bool env (ESymbol s) = ESymbol s"
| "expr_trans_bool env (ENot l) = ENot (expr_trans_bool env l)"
| "expr_trans_bool env (EAnd l r) = EAnd (expr_trans_bool env l) (expr_trans_bool env r)"
| "expr_trans_bool env (EOr l r) = EOr (expr_trans_bool env l) (expr_trans_bool env r)"
| "expr_trans_bool env (EEqual a b) = EEqual a b"
| "expr_trans_bool env (EUnequal a b) =
     (if k_type env a = S_TRISTATE \<and> b = symbol_no then ESymbol a else EUnequal a b)"

lemma tri_no [simp]: "tri_and a b = No \<longleftrightarrow> a = No \<or> b = No" "tri_or a b = No \<longleftrightarrow> a = No \<and> b = No"
  by (cases a; cases b; simp add: tri_defs)+

lemma trans_bool_truth:
  assumes "kenv_ok env" and "nots e = 0"
  shows "expr_calc_value env (expr_trans_bool env e) = No \<longleftrightarrow> expr_calc_value env e = No"
  using assms(2)
proof (induction e)
  case (EUnequal a b)
  then show ?case using compare_const(3) [OF assms(1), of a] by auto
qed auto

section \<open>Dependency tests\<close>

primrec expr_contains_symbol :: "expr \<Rightarrow> sym \<Rightarrow> bool" where
  "expr_contains_symbol (EAnd l r) s = (expr_contains_symbol l s \<or> expr_contains_symbol r s)"
| "expr_contains_symbol (EOr l r) s = (expr_contains_symbol l s \<or> expr_contains_symbol r s)"
| "expr_contains_symbol (ESymbol t) s = (t = s)"
| "expr_contains_symbol (EEqual a b) s = (a = s \<or> b = s)"
| "expr_contains_symbol (EUnequal a b) s = (a = s \<or> b = s)"
| "expr_contains_symbol (ENot l) s = expr_contains_symbol l s"

primrec expr_depends_symbol :: "expr \<Rightarrow> sym \<Rightarrow> bool" where
  "expr_depends_symbol (EAnd l r) s = (expr_depends_symbol l s \<or> expr_depends_symbol r s)"
| "expr_depends_symbol (ESymbol t) s = (t = s)"
| "expr_depends_symbol (EEqual a b) s = (a = s \<and> (b = symbol_yes \<or> b = symbol_mod))"
| "expr_depends_symbol (EUnequal a b) s = (a = s \<and> b = symbol_no)"
| "expr_depends_symbol (EOr l r) s = False"
| "expr_depends_symbol (ENot l) s = False"

text \<open>The value of an expression is a function of the symbols it contains.\<close>

lemma contains_value:
  assumes "\<And>t. t \<noteq> s \<Longrightarrow> k_type env' t = k_type env t \<and> k_tri env' t = k_tri env t \<and> k_val env' t = k_val env t"
    and "\<not> expr_contains_symbol e s"
  shows "expr_calc_value env' e = expr_calc_value env e"
  using assms(2) by (induction e) (auto simp: assms(1) sym_get_string_value_def)

lemma depends_value:
  assumes "kenv_ok env" and "expr_depends_symbol e s" and "k_tri env s = No"
    and "k_type env s = S_BOOLEAN \<or> k_type env s = S_TRISTATE"
  shows "expr_calc_value env e = No"
  using assms(2)
proof (induction e)
  case (EEqual a b)
  then show ?case using compare_const [OF assms(1,4)] assms(3) by auto
next
  case (EUnequal a b)
  then show ?case using compare_const [OF assms(1,4)] assms(3) by auto
qed (use assms(3) in auto)

lemma depends_contains: "expr_depends_symbol e s \<Longrightarrow> expr_contains_symbol e s"
  by (induction e) auto

end
