(* ===== verification/Kconf_Extract.thy ===== *)
theory Kconf_Extract
  imports Kconf_Trans
begin

text \<open>
  Extraction of common operands, comparison of an expression with a constant, and the printer of
  expressions.
\<close>

section \<open>Common operands\<close>

function expr_extract_eq :: "expr_type \<Rightarrow> expr option \<Rightarrow> expr \<Rightarrow> expr \<Rightarrow> expr option \<times> expr \<times> expr" where
  "expr_extract_eq ty ep e1 e2 =
     (case kids ty e1 of
        Some (l, r) \<Rightarrow>
          (case expr_extract_eq ty ep l e2 of
             (ep', l', e2') \<Rightarrow> (case expr_extract_eq ty ep' r e2' of
               (ep'', r', e2'') \<Rightarrow> (ep'', expr_alloc_two ty l' r', e2'')))
      | None \<Rightarrow>
          (case kids ty e2 of
             Some (l, r) \<Rightarrow>
               (case expr_extract_eq ty ep e1 l of
                  (ep', e1', l') \<Rightarrow> (case expr_extract_eq ty ep' e1' r of
                    (ep'', e1'', r') \<Rightarrow> (ep'', e1'', expr_alloc_two ty l' r')))
           | None \<Rightarrow>
               if expr_eq e1 e2
               then (Some (case ep of None \<Rightarrow> e1 | Some e \<Rightarrow> expr_alloc_two ty e e1), neutral ty, neutral ty)
               else (ep, e1, e2)))"
  by pat_completeness auto

lemma extract_eq_nodes:
  "expr_extract_eq_dom (ty, ep, e1, e2) \<Longrightarrow> expr_extract_eq ty ep e1 e2 = (ep', a, b) \<Longrightarrow>
    nodes a \<le> nodes e1 \<and> nodes b \<le> nodes e2"
proof (induction ty ep e1 e2 arbitrary: ep' a b rule: expr_extract_eq.pinduct)
  case (1 ty ep e1 e2)
  note eq = 1(6) [unfolded expr_extract_eq.psimps [OF 1(1)]]
  show ?case
  proof (cases "kids ty e1")
    case (Some c)
    then obtain l r where k: "kids ty e1 = Some (l, r)" by (cases c) auto
    obtain x l' y where x: "expr_extract_eq ty ep l e2 = (x, l', y)" by (cases "expr_extract_eq ty ep l e2")
    obtain z r' w where z: "expr_extract_eq ty x r y = (z, r', w)" by (cases "expr_extract_eq ty x r y")
    show ?thesis using eq k x z kids_nodes [OF k] 1(4) [OF k refl x] 1(5) [OF k refl x [symmetric] refl z] by auto
  next
    case n1: None
    show ?thesis
    proof (cases "kids ty e2")
      case (Some c)
      then obtain l r where k: "kids ty e2 = Some (l, r)" by (cases c) auto
      obtain x y l' where x: "expr_extract_eq ty ep e1 l = (x, y, l')" by (cases "expr_extract_eq ty ep e1 l")
      obtain z w r' where z: "expr_extract_eq ty x y r = (z, w, r')" by (cases "expr_extract_eq ty x y r")
      show ?thesis
        using eq n1 k x z kids_nodes [OF k] 1(2) [OF n1 k refl x] 1(3) [OF n1 k refl x [symmetric] refl z] by auto
    next
      case None
      with n1 eq nodes_pos [of e1] nodes_pos [of e2] show ?thesis by (auto split: if_splits simp: Suc_le_eq)
    qed
  qed
qed

termination expr_extract_eq
proof (relation "measure (\<lambda>(ty, ep, e1, e2). nodes e1 + nodes e2)")
  fix ty ep e1 e2 c l r ep' y l' e2'
  assume "expr_extract_eq_dom (ty, ep, l, e2)" "kids ty e1 = Some c" "(l, r) = c"
    "(ep', y) = expr_extract_eq ty ep l e2" "(l', e2') = y"
  then show "((ty, ep', r, e2'), ty, ep, e1, e2) \<in> measure (\<lambda>(ty, ep, e1, e2). nodes e1 + nodes e2)"
    using extract_eq_nodes [of ty ep l e2 ep' l' e2'] kids_nodes [of ty e1 l r] by auto
next
  fix ty ep e1 e2 c l r ep' y e1' l'
  assume "expr_extract_eq_dom (ty, ep, e1, l)" "kids ty e2 = Some c" "(l, r) = c"
    "(ep', y) = expr_extract_eq ty ep e1 l" "(e1', l') = y"
  then show "((ty, ep', e1', r), ty, ep, e1, e2) \<in> measure (\<lambda>(ty, ep, e1, e2). nodes e1 + nodes e2)"
    using extract_eq_nodes [of ty ep e1 l ep' e1' l'] kids_nodes [of ty e2 l r] by auto
qed (auto dest: kids_nodes)

declare expr_extract_eq.simps [simp del]

definition expr_extract_eq_and :: "expr \<Rightarrow> expr \<Rightarrow> expr option \<times> expr \<times> expr" where
  "expr_extract_eq_and e1 e2 =
     (case expr_extract_eq E_AND None e1 e2 of
        (None, a, b) \<Rightarrow> (None, a, b)
      | (Some tmp, a, b) \<Rightarrow> (Some tmp, expr_eliminate_yn a, expr_eliminate_yn b))"

definition expr_extract_eq_or :: "expr \<Rightarrow> expr \<Rightarrow> expr option \<times> expr \<times> expr" where
  "expr_extract_eq_or e1 e2 =
     (case expr_extract_eq E_OR None e1 e2 of
        (None, a, b) \<Rightarrow> (None, a, b)
      | (Some tmp, a, b) \<Rightarrow> (Some tmp, expr_eliminate_yn a, expr_eliminate_yn b))"

text \<open>The value of what was extracted so far; nothing counts as the neutral value.\<close>

definition part_value :: "kenv \<Rightarrow> expr_type \<Rightarrow> expr option \<Rightarrow> tristate" where
  "part_value env ty ep = expr_calc_value env (case ep of None \<Rightarrow> neutral ty | Some e \<Rightarrow> e)"

lemma part_value_add:
  assumes "kenv_ok env"
  shows "part_value env ty (Some (case ep of None \<Rightarrow> e | Some x \<Rightarrow> expr_alloc_two ty x e)) =
    tri_op ty (part_value env ty ep) (expr_calc_value env e)"
  by (cases ep) (simp_all add: part_value_def tri_op_neutral [OF assms])

lemma tri_op_chain:
  assumes "tri_op ty X a = tri_op ty E l" and "tri_op ty Z b = tri_op ty X r"
  shows "tri_op ty Z (tri_op ty a b) = tri_op ty E (tri_op ty l r)"
proof -
  have "tri_op ty Z (tri_op ty a b) = tri_op ty a (tri_op ty Z b)" by (rule tri_op_ac(3))
  also have "\<dots> = tri_op ty r (tri_op ty X a)" unfolding assms(2) by (simp add: tri_op_ac)
  also have "\<dots> = tri_op ty E (tri_op ty l r)" unfolding assms(1) by (simp add: tri_op_ac)
  finally show ?thesis .
qed

text \<open>With the extracted part both expressions keep their value.\<close>

lemma extract_eq_value:
  assumes ok: "kenv_ok env" and "expr_extract_eq ty ep e1 e2 = (ep', a, b)"
  shows "tri_op ty (part_value env ty ep') (expr_calc_value env a) =
      tri_op ty (part_value env ty ep) (expr_calc_value env e1) \<and>
    tri_op ty (part_value env ty ep') (expr_calc_value env b) =
      tri_op ty (part_value env ty ep) (expr_calc_value env e2)"
  using assms(2)
proof (induction ty ep e1 e2 arbitrary: ep' a b rule: expr_extract_eq.induct)
  case (1 ty ep e1 e2)
  note eq = 1(5) [unfolded expr_extract_eq.simps [of ty ep e1 e2]]
  show ?case
  proof (cases "kids ty e1")
    case (Some c)
    then obtain l r where k: "kids ty e1 = Some (l, r)" by (cases c) auto
    obtain x l' y where x: "expr_extract_eq ty ep l e2 = (x, l', y)" by (cases "expr_extract_eq ty ep l e2")
    obtain z r' w where z: "expr_extract_eq ty x r y = (z, r', w)" by (cases "expr_extract_eq ty x r y")
    note ih = 1(3) [OF k refl x] 1(4) [OF k refl x [symmetric] refl z]
    have "expr_calc_value env e1 = tri_op ty (expr_calc_value env l) (expr_calc_value env r)"
      using kids_etype [OF k] value_alloc_two [of env ty l r] by simp
    then show ?thesis using eq k x z ih by (auto intro: tri_op_chain)
  next
    case n1: None
    show ?thesis
    proof (cases "kids ty e2")
      case (Some c)
      then obtain l r where k: "kids ty e2 = Some (l, r)" by (cases c) auto
      obtain x y l' where x: "expr_extract_eq ty ep e1 l = (x, y, l')" by (cases "expr_extract_eq ty ep e1 l")
      obtain z w r' where z: "expr_extract_eq ty x y r = (z, w, r')" by (cases "expr_extract_eq ty x y r")
      note ih = 1(1) [OF n1 k refl x] 1(2) [OF n1 k refl x [symmetric] refl z]
      have "expr_calc_value env e2 = tri_op ty (expr_calc_value env l) (expr_calc_value env r)"
        using kids_etype [OF k] value_alloc_two [of env ty l r] by simp
      then show ?thesis using eq n1 k x z ih by (auto intro: tri_op_chain)
    next
      case None
      with n1 eq show ?thesis
        using eq_sound(1) [OF ok, of e1 e2] part_value_add [OF ok, where ty = ty and ep = ep and e = e1]
        by (auto simp: tri_op_neutral [OF ok] split: if_splits)
    qed
  qed
qed

lemma part_value_None [simp]: "part_value env ty None = expr_calc_value env (neutral ty)"
  by (simp add: part_value_def)

lemma extract_and_value:
  assumes ok: "kenv_ok env" and "expr_extract_eq_and e1 e2 = (tmp, a, b)"
  shows "expr_calc_value env e1 = tri_and (calc_value env tmp) (expr_calc_value env a)"
    and "expr_calc_value env e2 = tri_and (calc_value env tmp) (expr_calc_value env b)"
proof -
  obtain ep x y where e: "expr_extract_eq E_AND None e1 e2 = (ep, x, y)" by (cases "expr_extract_eq E_AND None e1 e2")
  have v: "tri_op E_AND (part_value env E_AND ep) (expr_calc_value env x) = expr_calc_value env e1"
    "tri_op E_AND (part_value env E_AND ep) (expr_calc_value env y) = expr_calc_value env e2"
    using extract_eq_value [OF ok e] by (simp_all add: tri_op_neutral [OF ok])
  have c: "part_value env E_AND ep = calc_value env ep"
    using kenv_okD(1) [OF ok] by (cases ep) (simp_all add: part_value_def calc_value_def neutral_def)
  show "expr_calc_value env e1 = tri_and (calc_value env tmp) (expr_calc_value env a)"
    "expr_calc_value env e2 = tri_and (calc_value env tmp) (expr_calc_value env b)"
    using v c e assms(2) eliminate_yn_value [OF ok]
    by (auto simp: expr_extract_eq_and_def tri_op_def split: option.splits)
qed

lemma extract_or_value:
  assumes ok: "kenv_ok env" and "expr_extract_eq_or e1 e2 = (tmp, a, b)"
  shows "expr_calc_value env e1 = tri_or (part_value env E_OR tmp) (expr_calc_value env a)"
    and "expr_calc_value env e2 = tri_or (part_value env E_OR tmp) (expr_calc_value env b)"
proof -
  obtain ep x y where e: "expr_extract_eq E_OR None e1 e2 = (ep, x, y)" by (cases "expr_extract_eq E_OR None e1 e2")
  have v: "tri_op E_OR (part_value env E_OR ep) (expr_calc_value env x) = expr_calc_value env e1"
    "tri_op E_OR (part_value env E_OR ep) (expr_calc_value env y) = expr_calc_value env e2"
    using extract_eq_value [OF ok e] by (simp_all add: tri_op_neutral [OF ok])
  show "expr_calc_value env e1 = tri_or (part_value env E_OR tmp) (expr_calc_value env a)"
    "expr_calc_value env e2 = tri_or (part_value env E_OR tmp) (expr_calc_value env b)"
    using v e assms(2) eliminate_yn_value [OF ok]
    by (auto simp: expr_extract_eq_or_def tri_op_def split: option.splits)
qed

section \<open>Comparison with a constant\<close>

text \<open>\<open>cty\<close> is \<open>E_EQUAL\<close> or \<open>E_UNEQUAL\<close>; \<open>None\<close> is the \<open>NULL\<close> at the end of the function.\<close>

definition not_if_unequal :: "expr_type \<Rightarrow> expr \<Rightarrow> expr" where
  "not_if_unequal cty e = (if cty = E_UNEQUAL then ENot e else e)"

definition expr_alloc_comp :: "expr_type \<Rightarrow> sym \<Rightarrow> sym \<Rightarrow> expr" where
  "expr_alloc_comp cty s1 s2 = (if cty = E_EQUAL then EEqual s1 s2 else EUnequal s1 s2)"

definition trans_compare_leaf :: "expr \<Rightarrow> expr_type \<Rightarrow> sym \<Rightarrow> expr option" where
  "trans_compare_leaf e cty c =
     (if cty = E_EQUAL
      then if c = symbol_yes then Some (expr_copy e)
           else if c = symbol_mod then Some (ESymbol symbol_no)
           else if c = symbol_no then Some (ENot (expr_copy e))
           else None
      else if c = symbol_yes then Some (ENot (expr_copy e))
           else if c = symbol_mod then Some (ESymbol symbol_yes)
           else if c = symbol_no then Some (expr_copy e)
           else None)"

definition join_two :: "(expr \<Rightarrow> expr \<Rightarrow> expr) \<Rightarrow> expr option \<Rightarrow> expr option \<Rightarrow> expr option" where
  "join_two f a b = (case (a, b) of (Some x, Some y) \<Rightarrow> Some (f x y) | _ \<Rightarrow> None)"

primrec expr_trans_compare :: "expr \<Rightarrow> expr_type \<Rightarrow> sym \<Rightarrow> expr option" where
  "expr_trans_compare (EAnd l r) cty c =
     map_option (not_if_unequal cty)
       (let e1 = expr_trans_compare l E_EQUAL c; e2 = expr_trans_compare r E_EQUAL c in
        if c = symbol_yes then join_two EAnd e1 e2
        else if c = symbol_no then join_two EOr e1 e2
        else Some (EAnd l r))"
| "expr_trans_compare (EOr l r) cty c =
     map_option (not_if_unequal cty)
       (let e1 = expr_trans_compare l E_EQUAL c; e2 = expr_trans_compare r E_EQUAL c in
        if c = symbol_yes then join_two EOr e1 e2
        else if c = symbol_no then join_two EAnd e1 e2
        else Some (EOr l r))"
| "expr_trans_compare (ENot l) cty c =
     expr_trans_compare l (if cty = E_EQUAL then E_UNEQUAL else E_EQUAL) c"
| "expr_trans_compare (EUnequal a b) cty c = trans_compare_leaf (EUnequal a b) cty c"
| "expr_trans_compare (EEqual a b) cty c = trans_compare_leaf (EEqual a b) cty c"
| "expr_trans_compare (ESymbol s) cty c = Some (expr_alloc_comp cty s c)"

definition trans_compare_null :: "expr_type \<Rightarrow> sym \<Rightarrow> expr" where
  "trans_compare_null cty c = not_if_unequal cty (ESymbol c)"

text \<open>The symbols of the expression are boolean, or tristate with a value that is not \<open>m\<close>, or one
  of the constants \<open>y\<close> and \<open>n\<close>.\<close>

primrec two_valued :: "kenv \<Rightarrow> expr \<Rightarrow> bool" where
  "two_valued env (ESymbol s) = (s = symbol_yes \<or> s = symbol_no \<or>
     ((k_type env s = S_BOOLEAN \<or> k_type env s = S_TRISTATE) \<and> k_tri env s \<noteq> Mod))"
| "two_valued env (ENot l) = two_valued env l"
| "two_valued env (EAnd l r) = (two_valued env l \<and> two_valued env r)"
| "two_valued env (EOr l r) = (two_valued env l \<and> two_valued env r)"
| "two_valued env (EEqual a b) = True"
| "two_valued env (EUnequal a b) = True"

lemma two_valued_value: "kenv_ok env \<Longrightarrow> two_valued env e \<Longrightarrow> expr_calc_value env e \<noteq> Mod"
proof (induction e)
  case (ENot l)
  then show ?case by (cases "expr_calc_value env l") auto
next
  case (EAnd l r)
  then show ?case by (cases "expr_calc_value env l"; cases "expr_calc_value env r") (auto simp: tri_defs)
next
  case (EOr l r)
  then show ?case by (cases "expr_calc_value env l"; cases "expr_calc_value env r") (auto simp: tri_defs)
qed (auto simp: kenv_okD)

lemma compare_two_valued:
  assumes "kenv_ok env" and "two_valued env (ESymbol s)" and "c = symbol_yes \<or> c = symbol_no"
  shows "sym_get_string_value env s = sym_get_string_value env c \<longleftrightarrow> k_tri env s = k_tri env c"
proof -
  note d = kenv_okD [OF assms(1)]
  from assms(2) consider "s = symbol_yes" | "s = symbol_no"
    | "k_type env s = S_BOOLEAN \<or> k_type env s = S_TRISTATE" by auto
  then show ?thesis
  proof cases
    case 3
    from compare_const [OF assms(1) 3] assms(3) d(1,3) show ?thesis by auto
  qed (use assms(3) d(1,3,4,6) in auto)
qed

definition compare_value :: "expr_type \<Rightarrow> bool \<Rightarrow> tristate" where
  "compare_value cty same = (if same = (cty = E_EQUAL) then Yes else No)"

lemma trans_compare_value:
  assumes ok: "kenv_ok env" and c: "c = symbol_yes \<or> c = symbol_no"
    and "two_valued env e" and "cty = E_EQUAL \<or> cty = E_UNEQUAL"
  shows "\<exists>e'. expr_trans_compare e cty c = Some e' \<and>
    expr_calc_value env e' = compare_value cty (expr_calc_value env e = k_tri env c)"
  using assms(3,4)
proof (induction e arbitrary: cty)
  case (ESymbol s)
  then show ?case using compare_two_valued [OF ok _ c, of s]
    by (auto simp: expr_alloc_comp_def compare_value_def)
next
  case (ENot l)
  let ?t = "if cty = E_EQUAL then E_UNEQUAL else E_EQUAL"
  from ENot.IH [of ?t] ENot.prems obtain e' where "expr_trans_compare l ?t c = Some e'"
    "expr_calc_value env e' = compare_value ?t (expr_calc_value env l = k_tri env c)" by auto
  moreover have "expr_calc_value env l \<noteq> Mod" using two_valued_value [OF ok] ENot.prems by simp
  ultimately show ?case using c ENot.prems(2) kenv_okD(1,3) [OF ok]
    by (cases "expr_calc_value env l") (auto simp: compare_value_def)
next
  case (EAnd l r)
  from EAnd.IH(1) [of E_EQUAL] EAnd.IH(2) [of E_EQUAL] EAnd.prems obtain a b where
    "expr_trans_compare l E_EQUAL c = Some a" "expr_trans_compare r E_EQUAL c = Some b"
    "expr_calc_value env a = compare_value E_EQUAL (expr_calc_value env l = k_tri env c)"
    "expr_calc_value env b = compare_value E_EQUAL (expr_calc_value env r = k_tri env c)" by auto
  moreover have "expr_calc_value env l \<noteq> Mod" "expr_calc_value env r \<noteq> Mod"
    using two_valued_value [OF ok] EAnd.prems by simp_all
  ultimately show ?case using c EAnd.prems(2) kenv_okD(1,3) [OF ok]
    by (cases "expr_calc_value env l"; cases "expr_calc_value env r")
      (auto simp: compare_value_def join_two_def not_if_unequal_def tri_defs)
next
  case (EOr l r)
  from EOr.IH(1) [of E_EQUAL] EOr.IH(2) [of E_EQUAL] EOr.prems obtain a b where
    "expr_trans_compare l E_EQUAL c = Some a" "expr_trans_compare r E_EQUAL c = Some b"
    "expr_calc_value env a = compare_value E_EQUAL (expr_calc_value env l = k_tri env c)"
    "expr_calc_value env b = compare_value E_EQUAL (expr_calc_value env r = k_tri env c)" by auto
  moreover have "expr_calc_value env l \<noteq> Mod" "expr_calc_value env r \<noteq> Mod"
    using two_valued_value [OF ok] EOr.prems by simp_all
  ultimately show ?case using c EOr.prems(2) kenv_okD(1,3) [OF ok]
    by (cases "expr_calc_value env l"; cases "expr_calc_value env r")
      (auto simp: compare_value_def join_two_def not_if_unequal_def tri_defs)
qed (use c kenv_okD(1,3) [OF ok] in \<open>auto simp: trans_compare_leaf_def compare_value_def\<close>)

end
