(* ===== verification/Kconf_Dups.thy ===== *)
theory Kconf_Dups
  imports Kconf_Extract
begin

text \<open>
  The elimination of duplicate and contradictory operands, \<open>expr_eliminate_dups\<close>. The C code walks
  with two pointers over one and the same tree and rewrites it through both. Here the tree is
  one value and a pointer into it is a path from the root. A call
  \<open>expr_eliminate_dups1(type, &e, &e)\<close> first leads the first pointer down to every operand of
  the chain of \<open>type\<close> nodes at the root and for each of them the second pointer, so it visits the
  pairs of operands in order; its rewriting never changes the chain itself. The number \<open>d\<close> bounds the nesting
  of the calls for operands that are chains of the other operator; the number of nodes is enough.
\<close>

section \<open>Paths\<close>

type_synonym path = "bool list"

fun sub :: "expr \<Rightarrow> path \<Rightarrow> expr" where
  "sub e [] = e"
| "sub (EAnd l r) (b # p) = sub (if b then r else l) p"
| "sub (EOr l r) (b # p) = sub (if b then r else l) p"
| "sub e (b # p) = e"

fun upd :: "expr \<Rightarrow> path \<Rightarrow> expr \<Rightarrow> expr" where
  "upd e [] x = x"
| "upd (EAnd l r) (b # p) x = (if b then EAnd l (upd r p x) else EAnd (upd l p x) r)"
| "upd (EOr l r) (b # p) x = (if b then EOr l (upd r p x) else EOr (upd l p x) r)"
| "upd e (b # p) x = e"

text \<open>The operands of a chain, and all of its nodes in the order in which
  \<open>expr_eliminate_dups2\<close>, which does not return after its second pair of recursive calls, comes
  to them.\<close>

function operands :: "expr_type \<Rightarrow> expr \<Rightarrow> path list" where
  "operands ty e =
     (case kids ty e of
        None \<Rightarrow> [[]]
      | Some (l, r) \<Rightarrow> map (Cons False) (operands ty l) @ map (Cons True) (operands ty r))"
  by pat_completeness auto
termination
  by (relation "measure (\<lambda>(ty, e). nodes e)") (auto dest: kids_nodes)

function chain_nodes :: "expr_type \<Rightarrow> expr \<Rightarrow> path list" where
  "chain_nodes ty e =
     (case kids ty e of
        None \<Rightarrow> [[]]
      | Some (l, r) \<Rightarrow> map (Cons False) (chain_nodes ty l) @ map (Cons True) (chain_nodes ty r) @ [[]])"
  by pat_completeness auto
termination
  by (relation "measure (\<lambda>(ty, e). nodes e)") (auto dest: kids_nodes)

declare operands.simps [simp del] chain_nodes.simps [simp del]

section \<open>The two passes\<close>

definition expr_join :: "kenv \<Rightarrow> expr_type \<Rightarrow> expr \<Rightarrow> expr \<Rightarrow> expr option" where
  "expr_join env ty e1 e2 = (if ty = E_OR then expr_join_or env e1 e2 else expr_join_and env e1 e2)"

text \<open>The work on one pair of operands, \<open>nest\<close> being the pass over an operand itself.\<close>

definition dups1_pair :: "(expr_type \<Rightarrow> expr \<Rightarrow> (expr \<times> nat) option) \<Rightarrow> kenv \<Rightarrow> expr_type \<Rightarrow>
    path \<times> path \<Rightarrow> (expr \<times> nat) option \<Rightarrow> (expr \<times> nat) option" where
  "dups1_pair nest env ty pq s =
     (case pq of (p, q) \<Rightarrow> Option.bind s (\<lambda>(e, n).
        if p = q then Some (e, n)
        else Option.bind
          (if etype (sub e p) = E_OR \<or> etype (sub e p) = E_AND
           then nest (etype (sub e p)) (sub e p) else Some (sub e p, 0))
          (\<lambda>(e1, k). case expr_join env ty e1 (sub e q) of
             None \<Rightarrow> Some (upd e p e1, n + k)
           | Some tmp \<Rightarrow> Some (upd (upd e p (neutral ty)) q tmp, n + k + 1))))"

primrec expr_eliminate_dups1 :: "nat \<Rightarrow> kenv \<Rightarrow> expr_type \<Rightarrow> expr \<Rightarrow> (expr \<times> nat) option" where
  "expr_eliminate_dups1 0 env ty e = None"
| "expr_eliminate_dups1 (Suc d) env ty e =
     fold (dups1_pair (expr_eliminate_dups1 d env) env ty)
       (List.product (operands ty e) (operands ty e)) (Some (e, 0))"

text \<open>What \<open>expr_eliminate_dups2\<close> does with \<open>e1\<close>, an operand that is a chain of the other
  operator, and \<open>e2\<close>: the negation of \<open>e1\<close> is among the operands of \<open>e2\<close>.\<close>

definition contradicts :: "kenv \<Rightarrow> expr \<Rightarrow> expr \<Rightarrow> bool" where
  "contradicts env e1 e2 =
     (let tmp1 = expr_transform env (ENot (expr_copy e1)) in
      if etype e1 = E_OR
      then (case expr_extract_eq_and tmp1 (expr_copy e2) of (tmp, t1, t2) \<Rightarrow> expr_is_yes (Some t1))
      else (case expr_extract_eq_or tmp1 (expr_copy e2) of (tmp, t1, t2) \<Rightarrow> expr_is_no (Some t1)))"

definition absorbing :: "expr \<Rightarrow> expr" where
  "absorbing e1 = ESymbol (if etype e1 = E_OR then symbol_no else symbol_yes)"

definition dups2_pair :: "(expr_type \<Rightarrow> expr \<Rightarrow> (expr \<times> nat) option) \<Rightarrow> kenv \<Rightarrow>
    path \<times> path \<Rightarrow> (expr \<times> nat) option \<Rightarrow> (expr \<times> nat) option" where
  "dups2_pair nest env pq s =
     (case pq of (p, q) \<Rightarrow> Option.bind s (\<lambda>(e, n).
        if p = q then Some (e, n)
        else if etype (sub e p) = E_OR \<or> etype (sub e p) = E_AND
        then Option.bind (nest (etype (sub e p)) (sub e p)) (\<lambda>(e1, k).
          if contradicts env e1 (sub (upd e p e1) q)
          then Some (upd e p (absorbing e1), n + k + 1)
          else Some (upd e p e1, n + k))
        else Some (e, n)))"

primrec expr_eliminate_dups2 :: "nat \<Rightarrow> kenv \<Rightarrow> expr_type \<Rightarrow> expr \<Rightarrow> (expr \<times> nat) option" where
  "expr_eliminate_dups2 0 env ty e = None"
| "expr_eliminate_dups2 (Suc d) env ty e =
     fold (dups2_pair (expr_eliminate_dups2 d env) env)
       (List.product (operands ty e) (chain_nodes ty e)) (Some (e, 0))"

partial_function (option) expr_eliminate_dups :: "kenv \<Rightarrow> expr \<Rightarrow> expr option" where
  "expr_eliminate_dups env e =
     (if etype e = E_OR \<or> etype e = E_AND
      then Option.bind (expr_eliminate_dups1 (nodes e) env (etype e) e) (\<lambda>(e', n).
           Option.bind (expr_eliminate_dups2 (nodes e') env (etype e') e') (\<lambda>(e'', m).
             if n + m = 0 then Some e'' else expr_eliminate_dups env (expr_eliminate_yn e'')))
      else Some e)"

section \<open>Chains\<close>

lemma operands_leaf: "kids ty e = None \<Longrightarrow> operands ty e = [[]]"
  by (simp add: operands.simps)

lemma operands_node:
  "kids ty e = Some (l, r) \<Longrightarrow>
    operands ty e = map (Cons False) (operands ty l) @ map (Cons True) (operands ty r)"
  by (simp add: operands.simps [of ty e])

lemma sub_kids: "kids ty e = Some (l, r) \<Longrightarrow> sub e (b # p) = sub (if b then r else l) p"
  by (cases "(ty, e)" rule: kids.cases) auto

lemma upd_kids:
  "kids ty e = Some (l, r) \<Longrightarrow>
    upd e (b # p) x = (if b then expr_alloc_two ty l (upd r p x) else expr_alloc_two ty (upd l p x) r)"
  by (cases "(ty, e)" rule: kids.cases) (auto simp: expr_alloc_two_def)

lemma sub_upd_alloc_two [simp]:
  "sub (expr_alloc_two ty l r) (b # p) = sub (if b then r else l) p"
  "upd (expr_alloc_two ty l r) (b # p) x =
    (if b then expr_alloc_two ty l (upd r p x) else expr_alloc_two ty (upd l p x) r)"
  by (simp_all add: expr_alloc_two_def)

lemma kids_type: "kids ty e = Some c \<Longrightarrow> ty \<in> {E_AND, E_OR}"
  by (cases "(ty, e)" rule: kids.cases) auto

lemma chain_induct [case_names leaf node]:
  assumes "\<And>e. kids ty e = None \<Longrightarrow> P e"
    and "\<And>e l r. kids ty e = Some (l, r) \<Longrightarrow> P l \<Longrightarrow> P r \<Longrightarrow> P e"
  shows "P e"
proof (induction "nodes e" arbitrary: e rule: less_induct)
  case less
  show ?case
  proof (cases "kids ty e")
    case None
    then show ?thesis by (rule assms(1))
  next
    case (Some c)
    then obtain l r where k: "kids ty e = Some (l, r)" by (cases c) auto
    with kids_nodes [OF k] less show ?thesis by (intro assms(2) [OF k]) auto
  qed
qed

lemma kids_upd:
  assumes "kids ty e = Some (l, r)"
  shows "kids ty (upd e (False # p) x) = Some (upd l p x, r)" "kids ty (upd e (True # p) x) = Some (l, upd r p x)"
  using kids_type [OF assms] by (simp_all add: upd_kids [OF assms] kids_alloc_two)

lemma operand_sub: "p \<in> set (operands ty e) \<Longrightarrow> kids ty (sub e p) = None"
proof (induction e arbitrary: p rule: chain_induct [where ty = ty])
  case (leaf e)
  then show ?case by (simp add: operands_leaf)
next
  case (node e l r)
  then show ?case by (auto simp: operands_node sub_kids)
qed

lemma operands_upd:
  assumes "p \<in> set (operands ty e)" and "kids ty x = None"
  shows "operands ty (upd e p x) = operands ty e"
  using assms(1)
proof (induction e arbitrary: p rule: chain_induct [where ty = ty])
  case (leaf e)
  with assms(2) show ?case by (simp add: operands_leaf)
next
  case (node e l r)
  then show ?case by (auto simp: operands_node [OF node(1)] operands_node [OF kids_upd(1)] operands_node [OF kids_upd(2)])
qed

lemma chain_nodes_upd:
  assumes "p \<in> set (operands ty e)" and "kids ty x = None"
  shows "chain_nodes ty (upd e p x) = chain_nodes ty e"
  using assms(1)
proof (induction e arbitrary: p rule: chain_induct [where ty = ty])
  case (leaf e)
  with assms(2) show ?case by (simp add: operands_leaf chain_nodes.simps)
next
  case (node e l r)
  then show ?case
    by (auto simp: operands_node [OF node(1)] chain_nodes.simps [of ty e] chain_nodes.simps [of ty "upd _ _ _"] kids_upd)
qed

lemma sub_upd_same: "p \<in> set (operands ty e) \<Longrightarrow> sub (upd e p x) p = x"
proof (induction e arbitrary: p rule: chain_induct [where ty = ty])
  case (leaf e)
  then show ?case by (simp add: operands_leaf)
next
  case (node e l r)
  then show ?case by (auto simp: operands_node [OF node(1)] sub_kids [OF kids_upd(1)] sub_kids [OF kids_upd(2)])
qed

lemma sub_upd_other:
  "p \<in> set (operands ty e) \<Longrightarrow> q \<in> set (operands ty e) \<Longrightarrow> p \<noteq> q \<Longrightarrow> sub (upd e p x) q = sub e q"
proof (induction e arbitrary: p q rule: chain_induct [where ty = ty])
  case (leaf e)
  then show ?case by (simp add: operands_leaf)
next
  case (node e l r)
  then show ?case
    by (auto simp: operands_node [OF node(1)] sub_kids [OF node(1)] upd_kids [OF node(1)]) blast+
qed

lemma upd_sub: "p \<in> set (operands ty e) \<Longrightarrow> upd e p (sub e p) = e"
proof (induction e arbitrary: p rule: chain_induct [where ty = ty])
  case (leaf e)
  then show ?case by (simp add: operands_leaf)
next
  case (node e l r)
  then show ?case using kids_etype [OF node(1)]
    by (auto simp: operands_node [OF node(1)] sub_kids [OF node(1)] upd_kids [OF node(1)])
qed

lemma upd_upd: "p \<in> set (operands ty e) \<Longrightarrow> upd (upd e p x) p y = upd e p y"
proof (induction e arbitrary: p rule: chain_induct [where ty = ty])
  case (leaf e)
  then show ?case by (simp add: operands_leaf)
next
  case (node e l r)
  then show ?case
    by (auto simp: operands_node [OF node(1)] upd_kids [OF node(1)])
qed

lemma nodes_upd: "p \<in> set (operands ty e) \<Longrightarrow> nodes (upd e p x) + nodes (sub e p) = nodes e + nodes x"
proof (induction e arbitrary: p rule: chain_induct [where ty = ty])
  case (leaf e)
  then show ?case by (simp add: operands_leaf)
next
  case (node e l r)
  from node(4) consider p' where "p = False # p'" "p' \<in> set (operands ty l)" | p' where "p = True # p'" "p' \<in> set (operands ty r)"
    by (auto simp: operands_node [OF node(1)])
  then show ?case
    by cases (use node(2,3) kids_nodes [OF node(1)] in \<open>auto simp: sub_kids [OF node(1)] upd_kids [OF node(1)]\<close>)
qed

lemma etype_kids: "etype e = ty \<Longrightarrow> ty \<in> {E_AND, E_OR} \<Longrightarrow> kids ty e \<noteq> None"
  using kids_and_or [of e] by auto

lemma etype_alloc_two: "ty \<in> {E_AND, E_OR} \<Longrightarrow> etype (expr_alloc_two ty l r) = ty"
  by (auto simp: expr_alloc_two_def)

lemma etype_upd:
  assumes "p \<in> set (operands ty e)" and "etype e = ty" and "ty \<in> {E_AND, E_OR}"
  shows "etype (upd e p x) = ty"
proof -
  obtain l r where k: "kids ty e = Some (l, r)" using etype_kids [OF assms(2,3)] by auto
  with assms(1) obtain b p' where "p = b # p'" by (auto simp: operands_node)
  with k assms(3) show ?thesis by (simp add: upd_kids etype_alloc_two)
qed

text \<open>An operand of a chain is smaller than the chain.\<close>

lemma nodes_operand:
  assumes "p \<in> set (operands ty e)" and "etype e = ty" and "ty \<in> {E_AND, E_OR}"
  shows "nodes (sub e p) < nodes e"
proof -
  obtain l r where k: "kids ty e = Some (l, r)" using etype_kids [OF assms(2,3)] by auto
  have le: "nodes (sub e' q) \<le> nodes e'" if "q \<in> set (operands ty e')" for e' q
    using nodes_upd [OF that, of "neutral ty"] nodes_pos [of "upd e' q (neutral ty)"] by (simp del: nodes_pos)
  from assms(1) k consider q where "p = False # q" "q \<in> set (operands ty l)"
    | q where "p = True # q" "q \<in> set (operands ty r)" by (auto simp: operands_node)
  then show ?thesis using kids_nodes [OF k] le by cases (fastforce simp: sub_kids [OF k] less_Suc_eq_le)+
qed

subsection \<open>Values\<close>

lemma value_kids:
  "kids ty e = Some (l, r) \<Longrightarrow>
    expr_calc_value env e = tri_op ty (expr_calc_value env l) (expr_calc_value env r)"
  using kids_etype value_alloc_two by metis

text \<open>The value of a chain with one operand replaced.\<close>

lemma value_upd:
  assumes "kenv_ok env" and "p \<in> set (operands ty e)"
  shows "expr_calc_value env (upd e p x) =
    tri_op ty (expr_calc_value env x) (expr_calc_value env (upd e p (neutral ty)))"
  using assms(2)
proof (induction e arbitrary: p rule: chain_induct [where ty = ty])
  case (leaf e)
  then show ?case by (simp add: operands_leaf tri_op_neutral [OF assms(1)])
next
  case (node e l r)
  from node(4) consider p' where "p = False # p'" "p' \<in> set (operands ty l)" | p' where "p = True # p'" "p' \<in> set (operands ty r)"
    by (auto simp: operands_node [OF node(1)])
  then show ?case
  proof cases
    case (1 p')
    with node(2) [of p'] show ?thesis by (simp add: upd_kids [OF node(1)] tri_op_ac)
  next
    case (2 p')
    with node(3) [of p'] show ?thesis by (simp add: upd_kids [OF node(1)] tri_op_ac)
  qed
qed

lemma tri_op_absorb:
  assumes "tri_op ty a c = a"
  shows "tri_op ty (tri_op ty a b) c = tri_op ty a b" "tri_op ty (tri_op ty b a) c = tri_op ty b a"
proof -
  have "tri_op ty (tri_op ty a b) c = tri_op ty b (tri_op ty a c)" by (simp only: tri_op_ac)
  with assms show "tri_op ty (tri_op ty a b) c = tri_op ty a b" "tri_op ty (tri_op ty b a) c = tri_op ty b a"
    by (simp_all add: tri_op_ac)
qed

lemma value_absorbs:
  assumes "q \<in> set (chain_nodes ty e)"
  shows "tri_op ty (expr_calc_value env e) (expr_calc_value env (sub e q)) = expr_calc_value env e"
  using assms
proof (induction e arbitrary: q rule: chain_induct [where ty = ty])
  case (leaf e)
  then show ?case by (simp add: chain_nodes.simps tri_op_ac)
next
  case (node e l r)
  then consider p' where "q = False # p'" "p' \<in> set (chain_nodes ty l)" | p' where "q = True # p'" "p' \<in> set (chain_nodes ty r)"
    | "q = []" by (auto simp: chain_nodes.simps [of ty e])
  then show ?case
  proof cases
    case (1 p')
    with node(2) [of p'] show ?thesis by (simp add: sub_kids [OF node(1)] value_kids [OF node(1)] tri_op_absorb)
  next
    case (2 p')
    with node(3) [of p'] show ?thesis by (simp add: sub_kids [OF node(1)] value_kids [OF node(1)] tri_op_absorb)
  qed (simp add: tri_op_ac)
qed

lemma operand_chain_node: "p \<in> set (operands ty e) \<Longrightarrow> p \<in> set (chain_nodes ty e)"
proof (induction e arbitrary: p rule: chain_induct [where ty = ty])
  case (leaf e)
  then show ?case by (simp add: chain_nodes.simps operands_leaf)
next
  case (node e l r)
  then show ?case by (auto simp: operands_node [OF node(1)] chain_nodes.simps [of ty e])
qed

lemma upd_commute:
  "p \<in> set (operands ty e) \<Longrightarrow> q \<in> set (operands ty e) \<Longrightarrow> p \<noteq> q \<Longrightarrow>
    upd (upd e p x) q y = upd (upd e q y) p x"
proof (induction e arbitrary: p q rule: chain_induct [where ty = ty])
  case (leaf e)
  then show ?case by (simp add: operands_leaf)
next
  case (node e l r)
  then show ?case
    by (auto simp: operands_node [OF node(1)] upd_kids [OF node(1)]) metis+
qed

subsection \<open>Constants among the operands\<close>

definition has_yn :: "expr \<Rightarrow> bool" where
  "has_yn e \<longleftrightarrow> e = ESymbol symbol_yes \<or> e = ESymbol symbol_no \<or> \<not> yn_free e"

lemma has_yn_kids: "kids ty e = Some (l, r) \<Longrightarrow> has_yn e \<longleftrightarrow> has_yn l \<or> has_yn r"
  by (cases "(ty, e)" rule: kids.cases) (auto simp: has_yn_def)

lemma has_yn_operands: "has_yn e \<longleftrightarrow> (\<exists>p \<in> set (operands ty e). has_yn (sub e p))"
proof (induction e rule: chain_induct [where ty = ty])
  case (leaf e)
  then show ?case by (simp add: operands_leaf)
next
  case (node e l r)
  then show ?case by (simp add: operands_node [OF node(1)] has_yn_kids [OF node(1)] sub_kids [OF node(1)] bex_Un)
qed

lemma two_valued_kids: "kids ty e = Some (l, r) \<Longrightarrow> two_valued env e \<longleftrightarrow> two_valued env l \<and> two_valued env r"
  by (cases "(ty, e)" rule: kids.cases) auto

lemma two_valued_operands: "two_valued env e \<longleftrightarrow> (\<forall>p \<in> set (operands ty e). two_valued env (sub e p))"
proof (induction e rule: chain_induct [where ty = ty])
  case (leaf e)
  then show ?case by (simp add: operands_leaf)
next
  case (node e l r)
  then show ?case by (simp add: operands_node [OF node(1)] two_valued_kids [OF node(1)] sub_kids [OF node(1)] ball_Un)
qed

lemma yn_free_stable: "yn_free e \<Longrightarrow> expr_eliminate_yn e = e"
  by (induction e) auto

lemma eliminate_yn_less: "\<not> yn_free e \<Longrightarrow> nodes (expr_eliminate_yn e) < nodes e"
proof (induction e)
  case (EAnd l r)
  have "nodes (expr_eliminate_yn l) \<le> nodes l" "nodes (expr_eliminate_yn r) \<le> nodes r"
    by (rule eliminate_yn_nodes)+
  with EAnd show ?case by (cases "yn_free l"; cases "yn_free r") (auto simp: Let_def yn_free_stable)
next
  case (EOr l r)
  have "nodes (expr_eliminate_yn l) \<le> nodes l" "nodes (expr_eliminate_yn r) \<le> nodes r"
    by (rule eliminate_yn_nodes)+
  with EOr show ?case by (cases "yn_free l"; cases "yn_free r") (auto simp: Let_def yn_free_stable)
qed auto

section \<open>What a pass keeps\<close>

text \<open>The state of a pass that started with \<open>e0\<close>: \<open>n\<close> replacements led to \<open>e\<close>. The second pass keeps the
  value only where no symbol is \<open>m\<close>.\<close>

definition pass_inv :: "bool \<Rightarrow> kenv \<Rightarrow> expr_type \<Rightarrow> expr \<Rightarrow> expr \<Rightarrow> nat \<Rightarrow> bool" where
  "pass_inv always env ty e0 e n \<longleftrightarrow>
     etype e = ty \<and> operands ty e = operands ty e0 \<and> chain_nodes ty e = chain_nodes ty e0 \<and>
     nodes e \<le> nodes e0 \<and> (0 < n \<or> has_yn e0 \<longrightarrow> has_yn e) \<and>
     (two_valued env e0 \<longrightarrow> two_valued env e) \<and>
     (always \<or> two_valued env e0 \<longrightarrow> expr_calc_value env e = expr_calc_value env e0)"

lemma pass_inv_start: "etype e = ty \<Longrightarrow> pass_inv always env ty e e 0"
  by (simp add: pass_inv_def)

lemma has_yn_upd:
  assumes "p \<in> set (operands ty e)" and "kids ty x = None" and "has_yn x \<or> (has_yn e \<and> \<not> has_yn (sub e p))"
  shows "has_yn (upd e p x)"
proof (cases "has_yn x")
  case True
  then have "has_yn (sub (upd e p x) p)" by (simp add: sub_upd_same [OF assms(1)])
  then show ?thesis using assms(1) operands_upd [OF assms(1,2)]
    by (subst has_yn_operands [where ty = ty]) auto
next
  case False
  with assms(3) obtain q where q: "q \<in> set (operands ty e)" "has_yn (sub e q)" "p \<noteq> q"
    using has_yn_operands [of e ty] by auto
  then have "has_yn (sub (upd e p x) q)" by (simp add: sub_upd_other [OF assms(1) q(1,3)])
  then show ?thesis using q(1) operands_upd [OF assms(1,2)]
    by (subst has_yn_operands [where ty = ty]) auto
qed

lemma two_valued_upd:
  assumes "p \<in> set (operands ty e)" and "kids ty x = None" and "two_valued env e" and "two_valued env x"
  shows "two_valued env (upd e p x)"
proof -
  have "two_valued env (sub (upd e p x) q)" if "q \<in> set (operands ty e)" for q
    using that assms(3,4) two_valued_operands [of env e ty] sub_upd_same [OF assms(1)] sub_upd_other [OF assms(1) that]
    by (cases "p = q") auto
  then show ?thesis
    using operands_upd [OF assms(1,2)] by (subst two_valued_operands [where ty = ty]) auto
qed

text \<open>One operand is replaced by an equivalent one.\<close>

lemma pass_inv_replace:
  assumes ok: "kenv_ok env" and inv: "pass_inv always env ty e0 e n" and ty: "ty \<in> {E_AND, E_OR}"
    and p: "p \<in> set (operands ty e)" and x: "kids ty x = None" "nodes x \<le> nodes (sub e p)"
    and yn: "0 < k \<or> has_yn (sub e p) \<longrightarrow> has_yn x"
    and tv: "two_valued env (sub e p) \<longrightarrow> two_valued env x"
    and v: "always \<or> two_valued env (sub e p) \<longrightarrow> expr_calc_value env x = expr_calc_value env (sub e p)"
  shows "pass_inv always env ty e0 (upd e p x) (n + k)"
proof -
  have sv: "two_valued env (sub e p)" if "two_valued env e0"
    using inv that p two_valued_operands [of env e ty] by (auto simp: pass_inv_def)
  have "expr_calc_value env (upd e p x) = expr_calc_value env e0" if "always \<or> two_valued env e0"
    using value_upd [OF ok p, of x] value_upd [OF ok p, of "sub e p"] upd_sub [OF p] v sv that inv
    by (auto simp: pass_inv_def)
  moreover have "has_yn (upd e p x)" if "0 < n + k \<or> has_yn e0"
    using that inv yn by (intro has_yn_upd [OF p x(1)]) (auto simp: pass_inv_def)
  moreover have "nodes (upd e p x) \<le> nodes e" using nodes_upd [OF p, of x] x(2) by linarith
  ultimately show ?thesis
    using inv etype_upd [OF p _ ty] operands_upd [OF p x(1)] chain_nodes_upd [OF p x(1)] two_valued_upd [OF p x(1)] sv tv
    by (auto simp: pass_inv_def)
qed

subsection \<open>The first pass\<close>

lemma join_value:
  assumes "kenv_ok env" and "expr_join env ty e1 e2 = Some tmp"
  shows "expr_calc_value env tmp = tri_op ty (expr_calc_value env e1) (expr_calc_value env e2)"
  using assms(2) join_or_value [OF assms(1)] join_and_value [OF assms(1)]
  by (auto simp: expr_join_def tri_op_def split: if_splits)

lemma join_or_result:
  assumes "expr_join_or env e1 e2 = Some tmp"
  shows "tmp = e1 \<or> tmp = ESymbol symbol_yes \<or> (\<exists>a b. tmp = EUnequal a b)"
  using assms by (auto simp: expr_join_or_def split: if_splits option.splits)

lemma join_and_result:
  assumes "expr_join_and env e1 e2 = Some tmp"
  shows "tmp = e1 \<or> tmp = e2 \<or> tmp = ESymbol symbol_no \<or> (\<exists>a b. tmp = EEqual a b)"
proof (cases "expr_eq e1 e2")
  case True
  with assms show ?thesis by (simp add: expr_join_and_def)
next
  case False
  with assms obtain t where s: "join_syms e1 e2 = Some (t, t)"
    by (auto simp: expr_join_and_def split: if_splits option.splits)
  with assms False have "(sym_unequal e1 e2 symbol_no \<and> tmp = ESymbol t) \<or> tmp = ESymbol symbol_no \<or> (\<exists>a b. tmp = EEqual a b)"
    by (auto simp: expr_join_and_def split: if_splits option.splits)
  with sym_unequalD [OF _ s] show ?thesis by blast
qed

lemma join_shape:
  assumes "expr_join env ty e1 e2 = Some tmp" and "kids ty e1 = None" and "kids ty e2 = None"
  shows "kids ty tmp = None" and "nodes tmp + 1 \<le> nodes e1 + nodes e2"
    and "two_valued env e1 \<Longrightarrow> two_valued env e2 \<Longrightarrow> two_valued env tmp"
proof -
  have r: "tmp = e1 \<or> tmp = e2 \<or> tmp = ESymbol symbol_yes \<or> tmp = ESymbol symbol_no \<or> (\<exists>a b. tmp = EEqual a b) \<or>
      (\<exists>a b. tmp = EUnequal a b)"
    using assms(1) join_or_result [of env e1 e2 tmp] join_and_result [of env e1 e2 tmp]
    by (auto simp: expr_join_def split: if_splits)
  with assms(2,3) show "kids ty tmp = None" by (cases ty) auto
  from r nodes_pos [of e1] nodes_pos [of e2] show "nodes tmp + 1 \<le> nodes e1 + nodes e2"
    by (auto simp del: nodes_pos)
  from r show "two_valued env e1 \<Longrightarrow> two_valued env e2 \<Longrightarrow> two_valued env tmp" by auto
qed

lemma kids_neutral [simp]: "kids ty (neutral t) = None"
  by (cases ty) (auto simp: neutral_def)

lemma pass_inv_join:
  assumes ok: "kenv_ok env" and inv: "pass_inv True env ty e0 e n" and ty: "ty \<in> {E_AND, E_OR}"
    and p: "p \<in> set (operands ty e)" and q: "q \<in> set (operands ty e)" and pq: "p \<noteq> q"
    and j: "expr_join env ty (sub e p) (sub e q) = Some tmp"
  shows "pass_inv True env ty e0 (upd (upd e p (neutral ty)) q tmp) (n + 1)"
proof -
  let ?N = "neutral ty" and ?e = "upd e p (neutral ty)"
  note sh = join_shape [OF j operand_sub [OF p] operand_sub [OF q]]
  have ops: "operands ty ?e = operands ty e" by (rule operands_upd [OF p kids_neutral])
  with q have q': "q \<in> set (operands ty ?e)" by simp
  have s: "sub ?e q = sub e q" by (rule sub_upd_other [OF p q pq])
  have "expr_calc_value env e = tri_op ty (expr_calc_value env (sub e p)) (expr_calc_value env ?e)"
    using value_upd [OF ok p, of "sub e p"] by (simp add: upd_sub [OF p])
  also have "expr_calc_value env ?e = tri_op ty (expr_calc_value env (sub e q)) (expr_calc_value env (upd ?e q ?N))"
    using value_upd [OF ok q', of "sub e q"] upd_sub [OF q'] s by simp
  finally have "expr_calc_value env (upd ?e q tmp) = expr_calc_value env e"
    using value_upd [OF ok q', of tmp] join_value [OF ok j] by (simp add: tri_op_ac)
  moreover have "nodes (upd ?e q tmp) \<le> nodes e"
    using nodes_upd [OF p, of ?N] nodes_upd [OF q', of tmp] sh(2) s by simp
  moreover have "has_yn (upd ?e q tmp)"
  proof -
    have "sub (upd ?e q tmp) p = ?N"
      using sub_upd_other [OF q' _ pq [symmetric], of tmp] p ops sub_upd_same [OF p] by simp
    moreover have "has_yn ?N" by (simp add: has_yn_def neutral_def)
    ultimately show ?thesis using p ops operands_upd [OF q' sh(1)]
      by (subst has_yn_operands [where ty = ty]) (metis)
  qed
  moreover have "two_valued env (upd ?e q tmp)" if "two_valued env e"
    using that two_valued_operands [of env e ty] p q sh(3) two_valued_upd [OF q' sh(1)]
      two_valued_upd [OF p kids_neutral, of env ty] by (auto simp: neutral_def)
  ultimately show ?thesis
    using inv etype_upd [OF q' _ ty] etype_upd [OF p _ ty] operands_upd [OF q' sh(1)] ops
      chain_nodes_upd [OF q' sh(1)] chain_nodes_upd [OF p kids_neutral]
    by (auto simp: pass_inv_def)
qed

text \<open>What a pass over an operand that is a chain of the other operator gives.\<close>

lemma pass_inv_nested:
  assumes ok: "kenv_ok env" and inv: "pass_inv always env ty e0 e n" and ty: "ty \<in> {E_AND, E_OR}"
    and p: "p \<in> set (operands ty e)" and sub: "pass_inv always env (etype (sub e p)) (sub e p) e1 k"
  shows "pass_inv always env ty e0 (upd e p e1) (n + k)"
proof (rule pass_inv_replace [OF ok inv ty p])
  have "etype (sub e p) \<noteq> ty" using etype_kids [OF _ ty] operand_sub [OF p] by blast
  then have "etype e1 \<noteq> ty" using sub by (simp add: pass_inv_def)
  then show "kids ty e1 = None" using kids_etype by (cases "kids ty e1") auto
qed (use sub in \<open>auto simp: pass_inv_def\<close>)

text \<open>A pass over the operands of the chain is safe if every pair keeps the invariant.\<close>

lemma pass_fold:
  assumes "etype e = ty" and "set xs \<subseteq> set (operands ty e) \<times> set (chain_nodes ty e)"
    and "\<And>p q f n. pass_inv always env ty e f n \<Longrightarrow> p \<in> set (operands ty f) \<Longrightarrow> q \<in> set (chain_nodes ty f) \<Longrightarrow>
      (p, q) \<in> set xs \<Longrightarrow> \<exists>f' n'. step (p, q) (Some (f, n)) = Some (f', n') \<and> pass_inv always env ty e f' n'"
  shows "\<exists>e' n. fold step xs (Some (e, 0)) = Some (e', n) \<and> pass_inv always env ty e e' n"
proof (rule fold_invariant [where Q = "\<lambda>x. x \<in> set xs"
      and P = "\<lambda>s. \<exists>f n. s = Some (f, n) \<and> pass_inv always env ty e f n"])
  show "\<exists>f n. Some (e, 0) = Some (f, n) \<and> pass_inv always env ty e f n" using pass_inv_start assms(1) by auto
next
  fix x s
  assume x: "x \<in> set xs" and "\<exists>f n. s = Some (f, n) \<and> pass_inv always env ty e f n"
  then obtain f n where s: "s = Some (f, n)" and inv: "pass_inv always env ty e f n" by blast
  obtain p q where pq: "x = (p, q)" by (cases x)
  from x pq assms(2) inv have "p \<in> set (operands ty f)" "q \<in> set (chain_nodes ty f)" by (auto simp: pass_inv_def)
  from assms(3) [OF inv this] x pq s show "\<exists>f n. step x s = Some (f, n) \<and> pass_inv always env ty e f n" by simp
qed

lemma dups1_pair_inv:
  assumes ok: "kenv_ok env" and ty: "ty \<in> {E_AND, E_OR}" and inv: "pass_inv True env ty e f n"
    and p: "p \<in> set (operands ty f)" and q: "q \<in> set (operands ty f)"
    and nest: "etype (sub f p) \<in> {E_AND, E_OR} \<Longrightarrow>
      \<exists>e1 k. nest (etype (sub f p)) (sub f p) = Some (e1, k) \<and> pass_inv True env (etype (sub f p)) (sub f p) e1 k"
  shows "\<exists>f' n'. dups1_pair nest env ty (p, q) (Some (f, n)) = Some (f', n') \<and> pass_inv True env ty e f' n'"
proof (cases "p = q")
  case True
  with inv show ?thesis by (simp add: dups1_pair_def)
next
  case False
  obtain e1 k where e1: "(if etype (sub f p) = E_OR \<or> etype (sub f p) = E_AND
      then nest (etype (sub f p)) (sub f p) else Some (sub f p, 0)) = Some (e1, k)"
    and i1: "pass_inv True env ty e (upd f p e1) (n + k)"
  proof (cases "etype (sub f p) = E_OR \<or> etype (sub f p) = E_AND")
    case True
    with nest pass_inv_nested [OF ok inv ty p] that show thesis by auto
  next
    case False
    with inv upd_sub [OF p] that [of "sub f p" 0] show thesis by auto
  qed
  let ?f = "upd f p e1"
  have ops: "operands ty ?f = operands ty f" using inv i1 by (simp add: pass_inv_def)
  with p q have pq: "p \<in> set (operands ty ?f)" "q \<in> set (operands ty ?f)" by simp_all
  have sb: "sub ?f p = e1" "sub ?f q = sub f q" "upd ?f p (neutral ty) = upd f p (neutral ty)"
    using sub_upd_same [OF p] sub_upd_other [OF p q False] upd_upd [OF p] by simp_all
  show ?thesis
  proof (cases "expr_join env ty e1 (sub f q)")
    case None
    with False e1 i1 show ?thesis by (simp add: dups1_pair_def)
  next
    case (Some tmp)
    with pass_inv_join [OF ok i1 ty pq False] sb
    have "pass_inv True env ty e (upd (upd f p (neutral ty)) q tmp) (n + k + 1)" by simp
    with False e1 Some show ?thesis by (simp add: dups1_pair_def)
  qed
qed

lemma operand_small:
  assumes "pass_inv always env ty e f n" and "p \<in> set (operands ty f)" and "ty \<in> {E_AND, E_OR}" and "nodes e \<le> Suc d"
  shows "nodes (sub f p) \<le> d"
  using assms nodes_operand [OF assms(2) _ assms(3)] by (auto simp: pass_inv_def)

lemma dups1_inv:
  assumes "kenv_ok env" and "ty \<in> {E_AND, E_OR}" and "etype e = ty" and "nodes e \<le> d"
  shows "\<exists>e' n. expr_eliminate_dups1 d env ty e = Some (e', n) \<and> pass_inv True env ty e e' n"
  using assms(2-4)
proof (induction d arbitrary: ty e)
  case 0
  then show ?case using nodes_pos [of e] by simp
next
  case (Suc d)
  show ?case
    unfolding expr_eliminate_dups1.simps(2)
  proof (rule pass_fold [OF Suc.prems(2)])
    show "set (List.product (operands ty e) (operands ty e)) \<subseteq> set (operands ty e) \<times> set (chain_nodes ty e)"
      using operand_chain_node by auto
  next
    fix p q f n
    assume a: "pass_inv True env ty e f n" "p \<in> set (operands ty f)"
      "(p, q) \<in> set (List.product (operands ty e) (operands ty e))"
    then have "q \<in> set (operands ty f)" by (auto simp: pass_inv_def)
    moreover note Suc.IH [OF _ refl operand_small [OF a(1,2) Suc.prems(1,3)]]
    ultimately show "\<exists>f' n'. dups1_pair (expr_eliminate_dups1 d env) env ty (p, q) (Some (f, n)) = Some (f', n') \<and>
        pass_inv True env ty e f' n'"
      using dups1_pair_inv [OF assms(1) Suc.prems(1) a(1,2)] by blast
  qed
qed

subsection \<open>The second pass\<close>

text \<open>If the negation of \<open>e1\<close> is among the operands of \<open>e2\<close>, the value of \<open>e2\<close> is bounded by
  that of the negation.\<close>

lemma contradicts_value:
  assumes ok: "kenv_ok env" and "contradicts env e1 e2" and "etype e1 = E_OR \<or> etype e1 = E_AND"
  shows "tri_op (if etype e1 = E_OR then E_AND else E_OR) (expr_calc_value env e2) (tri_not (expr_calc_value env e1)) =
    expr_calc_value env e2"
proof -
  let ?t = "expr_transform env (ENot e1)"
  have t: "expr_calc_value env ?t = tri_not (expr_calc_value env e1)" using transform_value [OF ok, of "ENot e1"] by simp
  show ?thesis
  proof (cases "etype e1 = E_OR")
    case True
    obtain tmp t1 t2 where x: "expr_extract_eq_and ?t e2 = (tmp, t1, t2)" by (cases "expr_extract_eq_and ?t e2")
    with assms(2) True have "t1 = ESymbol symbol_yes" by (simp add: contradicts_def expr_is_yes_def)
    with extract_and_value [OF ok x] t kenv_okD(1) [OF ok]
    have "tri_not (expr_calc_value env e1) = calc_value env tmp"
      "expr_calc_value env e2 = tri_and (calc_value env tmp) (expr_calc_value env t2)" by simp_all
    with True show ?thesis by (simp add: tri_op_def tri_and_ac)
  next
    case False
    obtain tmp t1 t2 where x: "expr_extract_eq_or ?t e2 = (tmp, t1, t2)" by (cases "expr_extract_eq_or ?t e2")
    with assms(2) False have "t1 = ESymbol symbol_no" by (simp add: contradicts_def expr_is_no_def)
    with extract_or_value [OF ok x] t kenv_okD(3) [OF ok]
    have "tri_not (expr_calc_value env e1) = part_value env E_OR tmp"
      "expr_calc_value env e2 = tri_or (part_value env E_OR tmp) (expr_calc_value env t2)" by simp_all
    with False show ?thesis by (simp add: tri_op_def tri_or_ac)
  qed
qed

lemma two_valued_excluded:
  assumes "a \<noteq> Mod"
  shows "tri_and a (tri_not a) = No" "tri_or a (tri_not a) = Yes"
  using assms by (cases a; simp)+

lemma pass_inv_absorb:
  assumes ok: "kenv_ok env" and inv: "pass_inv False env ty e0 e n" and ty: "ty \<in> {E_AND, E_OR}"
    and p: "p \<in> set (operands ty e)" and q: "q \<in> set (chain_nodes ty e)"
    and e1: "etype (sub e p) = E_OR \<or> etype (sub e p) = E_AND" and c: "contradicts env (sub e p) (sub e q)"
  shows "pass_inv False env ty e0 (upd e p (absorbing (sub e p))) (n + 1)"
proof -
  let ?a = "absorbing (sub e p)" and ?v = "expr_calc_value env"
  have "etype (sub e p) \<noteq> ty" using etype_kids [OF _ ty] operand_sub [OF p] by blast
  with e1 ty have op: "(if etype (sub e p) = E_OR then E_AND else E_OR) = ty" by auto
  have ka: "kids ty ?a = None" by (cases ty) (auto simp: absorbing_def)
  have na: "nodes ?a \<le> nodes (sub e p)" using nodes_pos [of "sub e p"] by (simp add: absorbing_def Suc_le_eq)
  have ya: "has_yn ?a" by (simp add: absorbing_def has_yn_def)
  have "?v (upd e p ?a) = ?v e" if "two_valued env e"
  proof -
    have "?v (sub e p) \<noteq> Mod"
      using two_valued_value [OF ok] that two_valued_operands [of env e ty] p by auto
    then have A: "tri_op ty (?v (sub e p)) (tri_not (?v (sub e p))) = ?v ?a"
      using two_valued_excluded op kenv_okD(1,3) [OF ok] by (auto simp: absorbing_def tri_op_def split: if_splits)
    have "tri_op ty (?v e) (tri_not (?v (sub e p))) = ?v e"
      using value_absorbs [OF q, of env] contradicts_value [OF ok c e1] unfolding op by (metis tri_op_ac(2))
    moreover have "tri_op ty (?v e) (?v (sub e p)) = ?v e"
      by (rule value_absorbs [OF operand_chain_node [OF p]])
    ultimately have "tri_op ty (?v e) (?v ?a) = ?v e" using A by (metis tri_op_ac(2))
    moreover have "tri_op ty x (?v ?a) = ?v ?a" for x
      using op kenv_okD(1,3) [OF ok] by (auto simp: absorbing_def tri_op_def split: if_splits)
    ultimately show ?thesis using value_upd [OF ok p, of ?a] tri_op_ac(1) by metis
  qed
  moreover have "two_valued env (upd e p ?a)" if "two_valued env e"
    using two_valued_upd [OF p ka that] by (simp add: absorbing_def)
  moreover have "nodes (upd e p ?a) \<le> nodes e" using nodes_upd [OF p, of ?a] na by linarith
  ultimately show ?thesis
    using inv etype_upd [OF p _ ty] operands_upd [OF p ka] chain_nodes_upd [OF p ka] has_yn_upd [OF p ka] ya
    by (auto simp: pass_inv_def)
qed

lemma dups2_pair_inv:
  assumes ok: "kenv_ok env" and ty: "ty \<in> {E_AND, E_OR}" and inv: "pass_inv False env ty e f n"
    and p: "p \<in> set (operands ty f)" and q: "q \<in> set (chain_nodes ty f)"
    and nest: "etype (sub f p) \<in> {E_AND, E_OR} \<Longrightarrow>
      \<exists>e1 k. nest (etype (sub f p)) (sub f p) = Some (e1, k) \<and> pass_inv False env (etype (sub f p)) (sub f p) e1 k"
  shows "\<exists>f' n'. dups2_pair nest env (p, q) (Some (f, n)) = Some (f', n') \<and> pass_inv False env ty e f' n'"
proof (cases "p \<noteq> q \<and> (etype (sub f p) = E_OR \<or> etype (sub f p) = E_AND)")
  case False
  with inv show ?thesis by (auto simp: dups2_pair_def)
next
  case True
  with nest obtain e1 k where e1: "nest (etype (sub f p)) (sub f p) = Some (e1, k)"
    and s1: "pass_inv False env (etype (sub f p)) (sub f p) e1 k" by auto
  let ?f = "upd f p e1"
  have i1: "pass_inv False env ty e ?f (n + k)" by (rule pass_inv_nested [OF ok inv ty p s1])
  with inv p q have pq: "p \<in> set (operands ty ?f)" "q \<in> set (chain_nodes ty ?f)" by (auto simp: pass_inv_def)
  have sb: "sub ?f p = e1" "upd ?f p (absorbing e1) = upd f p (absorbing e1)"
    using sub_upd_same [OF p] upd_upd [OF p] by simp_all
  have ty1: "etype (sub ?f p) = E_OR \<or> etype (sub ?f p) = E_AND" using s1 True sb by (auto simp: pass_inv_def)
  show ?thesis
  proof (cases "contradicts env e1 (sub ?f q)")
    case False
    with True e1 i1 show ?thesis by (auto simp: dups2_pair_def)
  next
    case c: True
    with pass_inv_absorb [OF ok i1 ty pq ty1] sb
    have "pass_inv False env ty e (upd f p (absorbing e1)) (n + k + 1)" by simp
    with True c e1 show ?thesis by (auto simp: dups2_pair_def)
  qed
qed

lemma dups2_inv:
  assumes "kenv_ok env" and "ty \<in> {E_AND, E_OR}" and "etype e = ty" and "nodes e \<le> d"
  shows "\<exists>e' n. expr_eliminate_dups2 d env ty e = Some (e', n) \<and> pass_inv False env ty e e' n"
  using assms(2-4)
proof (induction d arbitrary: ty e)
  case 0
  then show ?case using nodes_pos [of e] by simp
next
  case (Suc d)
  show ?case
    unfolding expr_eliminate_dups2.simps(2)
  proof (rule pass_fold [OF Suc.prems(2)])
    show "set (List.product (operands ty e) (chain_nodes ty e)) \<subseteq> set (operands ty e) \<times> set (chain_nodes ty e)" by auto
  next
    fix p q f n
    assume a: "pass_inv False env ty e f n" "p \<in> set (operands ty f)" "q \<in> set (chain_nodes ty f)"
    note Suc.IH [OF _ refl operand_small [OF a(1,2) Suc.prems(1,3)]]
    then show "\<exists>f' n'. dups2_pair (expr_eliminate_dups2 d env) env (p, q) (Some (f, n)) = Some (f', n') \<and>
        pass_inv False env ty e f' n'"
      using dups2_pair_inv [OF assms(1) Suc.prems(1) a] by blast
  qed
qed

section \<open>The loop\<close>

text \<open>Every round that replaced something leaves a constant operand, which
  \<open>expr_eliminate_yn\<close> removes, so that the expression gets smaller and the loop ends.\<close>

lemma two_valued_yn: "two_valued env e \<Longrightarrow> two_valued env (expr_eliminate_yn e)"
  by (induction e) (auto simp: Let_def)

lemma eliminate_dups_round:
  assumes "etype e = E_OR \<or> etype e = E_AND" and "expr_eliminate_dups1 (nodes e) env (etype e) e = Some (e1, n)"
    and "expr_eliminate_dups2 (nodes e1) env (etype e1) e1 = Some (e2, m)"
  shows "expr_eliminate_dups env e =
    (if n + m = 0 then Some e2 else expr_eliminate_dups env (expr_eliminate_yn e2))"
  using assms by (subst expr_eliminate_dups.simps) simp

lemma eliminate_dups_ends:
  assumes ok: "kenv_ok env"
  shows "\<exists>e'. expr_eliminate_dups env e = Some e' \<and> nodes e' \<le> nodes e \<and>
    (two_valued env e \<longrightarrow> two_valued env e' \<and> expr_calc_value env e' = expr_calc_value env e)"
proof (induction "nodes e" arbitrary: e rule: less_induct)
  case less
  show ?case
  proof (cases "etype e = E_OR \<or> etype e = E_AND")
    case False
    then have "expr_eliminate_dups env e = Some e" by (subst expr_eliminate_dups.simps) simp
    then show ?thesis by simp
  next
    case True
    then have ty: "etype e \<in> {E_AND, E_OR}" by auto
    from dups1_inv [OF ok ty refl order_refl] obtain e1 n where
      d1: "expr_eliminate_dups1 (nodes e) env (etype e) e = Some (e1, n)" and i1: "pass_inv True env (etype e) e e1 n" by blast
    then have t1: "etype e1 = etype e" by (simp add: pass_inv_def)
    from dups2_inv [OF ok _ refl order_refl, of e1] ty t1 obtain e2 m where
      d2: "expr_eliminate_dups2 (nodes e1) env (etype e1) e1 = Some (e2, m)" and i2: "pass_inv False env (etype e1) e1 e2 m"
      by auto
    have keep: "nodes e2 \<le> nodes e" "two_valued env e \<Longrightarrow> two_valued env e2 \<and> expr_calc_value env e2 = expr_calc_value env e"
      using i1 i2 by (auto simp: pass_inv_def)
    show ?thesis
    proof (cases "n + m = 0")
      case True
      with eliminate_dups_round [OF \<open>etype e = E_OR \<or> etype e = E_AND\<close> d1 d2] keep show ?thesis by simp
    next
      case False
      then have step: "expr_eliminate_dups env e = expr_eliminate_dups env (expr_eliminate_yn e2)"
        using eliminate_dups_round [OF True d1 d2] by auto
      have "has_yn e2" "etype e2 = etype e" using False i1 i2 by (auto simp: pass_inv_def)
      then have "\<not> yn_free e2" using True by (auto simp: has_yn_def)
      then have "nodes (expr_eliminate_yn e2) < nodes e2" by (rule eliminate_yn_less)
      with keep(1) have "nodes (expr_eliminate_yn e2) < nodes e" by simp
      from less [OF this] step keep eliminate_yn_value [OF ok, of e2] two_valued_yn [of env e2] show ?thesis
        using \<open>nodes (expr_eliminate_yn e2) < nodes e\<close> by fastforce
    qed
  qed
qed

end
