(* ===== verification/Kconf_Print.thy ===== *)
theory Kconf_Print
  imports Kconf_Expr
begin

text \<open>
  The printer of dependency expressions, \<open>expr_print\<close>, against the grammar of expressions in
  \<open>zconf.y\<close>. What is printed is the list of the calls of the function argument \<open>fn\<close>, each with
  its symbol and its text.
\<close>

type_synonym token = "sym option \<times> string"

section \<open>The printer\<close>

definition expr_compare_type :: "expr_type \<Rightarrow> expr_type \<Rightarrow> int" where
  "expr_compare_type t1 t2 =
     (if t1 = t2 then 0
      else if t1 \<in> {E_EQUAL, E_UNEQUAL} \<and> t2 = E_NOT then 1
      else if t1 \<in> {E_EQUAL, E_UNEQUAL, E_NOT} \<and> t2 = E_AND then 1
      else if t1 \<in> {E_EQUAL, E_UNEQUAL, E_NOT, E_AND} \<and> t2 = E_OR then 1
      else if t1 \<in> {E_EQUAL, E_UNEQUAL, E_NOT, E_AND, E_OR} \<and> t2 = E_CHOICE then 1
      else if t1 \<in> {E_EQUAL, E_UNEQUAL, E_NOT, E_AND, E_OR, E_CHOICE} \<and> t2 = E_NONE then 1
      else - 1)"

definition parens :: "bool \<Rightarrow> token list \<Rightarrow> token list" where
  "parens b ts = (if b then (None, ''('') # ts @ [(None, '')'')] else ts)"

definition symbol_text :: "kenv \<Rightarrow> sym \<Rightarrow> token" where
  "symbol_text env s = (case k_name env s of Some n \<Rightarrow> (Some s, n) | None \<Rightarrow> (None, ''<choice>''))"

text \<open>In a comparison the name is used without a test; a symbol without a name is a choice, which
  is never compared, and is printed as an empty text here.\<close>

definition name_text :: "kenv \<Rightarrow> sym \<Rightarrow> token" where
  "name_text env s = (Some s, case k_name env s of Some n \<Rightarrow> n | None \<Rightarrow> [])"

primrec expr_print :: "kenv \<Rightarrow> expr \<Rightarrow> expr_type \<Rightarrow> token list" where
  "expr_print env (ESymbol s) prev = parens (expr_compare_type prev E_SYMBOL > 0) [symbol_text env s]"
| "expr_print env (ENot l) prev =
     parens (expr_compare_type prev E_NOT > 0) ((None, ''!'') # expr_print env l E_NOT)"
| "expr_print env (EEqual a b) prev =
     parens (expr_compare_type prev E_EQUAL > 0) [name_text env a, (None, ''=''), name_text env b]"
| "expr_print env (EUnequal a b) prev =
     parens (expr_compare_type prev E_UNEQUAL > 0) [name_text env a, (None, ''!=''), name_text env b]"
| "expr_print env (EOr l r) prev =
     parens (expr_compare_type prev E_OR > 0) (expr_print env l E_OR @ (None, '' || '') # expr_print env r E_OR)"
| "expr_print env (EAnd l r) prev =
     parens (expr_compare_type prev E_AND > 0) (expr_print env l E_AND @ (None, '' && '') # expr_print env r E_AND)"

text \<open>\<open>expr_fprint\<close> and \<open>expr_gstr_print\<close> start without a surrounding operator and append the
  texts; a \<open>NULL\<close> expression is printed as \<open>y\<close>.\<close>

definition expr_gstr_print :: "kenv \<Rightarrow> expr option \<Rightarrow> string" where
  "expr_gstr_print env e =
     (case e of None \<Rightarrow> ''y'' | Some e \<Rightarrow> concat (map snd (expr_print env e E_NONE)))"

section \<open>The grammar\<close>

text \<open>The rules of \<open>expr\<close> in \<open>zconf.y\<close>, with its precedences made explicit by three levels: \<open>||\<close>
  binds weaker than \<open>&&\<close>, \<open>&&\<close> weaker than \<open>!\<close> and the comparisons, and the two binary
  operators associate to the left.\<close>

inductive or_expr :: "token list \<Rightarrow> expr \<Rightarrow> bool" and and_expr :: "token list \<Rightarrow> expr \<Rightarrow> bool"
  and not_expr :: "token list \<Rightarrow> expr \<Rightarrow> bool" where
  g_symbol: "not_expr [(Some s, n)] (ESymbol s)"
| g_equal: "not_expr [(Some a, n), (None, ''=''), (Some b, m)] (EEqual a b)"
| g_unequal: "not_expr [(Some a, n), (None, ''!=''), (Some b, m)] (EUnequal a b)"
| g_paren: "or_expr ts e \<Longrightarrow> not_expr ((None, ''('') # ts @ [(None, '')'')]) e"
| g_not: "not_expr ts e \<Longrightarrow> not_expr ((None, ''!'') # ts) (ENot e)"
| g_and1: "not_expr ts e \<Longrightarrow> and_expr ts e"
| g_and: "and_expr ts e \<Longrightarrow> not_expr us d \<Longrightarrow> and_expr (ts @ (None, '' && '') # us) (EAnd e d)"
| g_or1: "and_expr ts e \<Longrightarrow> or_expr ts e"
| g_or: "or_expr ts e \<Longrightarrow> and_expr us d \<Longrightarrow> or_expr (ts @ (None, '' || '') # us) (EOr e d)"

section \<open>Printing and parsing\<close>

text \<open>Equality up to the grouping of a chain of one operator: the value is the same in every symbol
  table.\<close>

definition same_value :: "expr \<Rightarrow> expr \<Rightarrow> bool" where
  "same_value e d \<longleftrightarrow> (\<forall>env. expr_calc_value env e = expr_calc_value env d)"

lemma same_value_refl [simp]: "same_value e e"
  by (simp add: same_value_def)

lemma same_value_ops:
  "same_value e e' \<Longrightarrow> same_value (ENot e) (ENot e')"
  "same_value e e' \<Longrightarrow> same_value d d' \<Longrightarrow> same_value (EAnd e d) (EAnd e' d')"
  "same_value e e' \<Longrightarrow> same_value d d' \<Longrightarrow> same_value (EOr e d) (EOr e' d')"
  by (auto simp: same_value_def)

text \<open>Appending a printed chain to a parsed one.\<close>

lemma and_append:
  assumes "and_expr us d" and "and_expr ts e"
  shows "\<exists>f. and_expr (ts @ (None, '' && '') # us) f \<and> same_value f (EAnd e d)"
  using assms(1)
proof (induction us d rule: or_expr_and_expr_not_expr.inducts(2) [where ?P1.0 = "\<lambda>_ _. True" and ?P3.0 = "\<lambda>_ _. True"])
  case (g_and1 us d)
  with assms(2) show ?case using g_and same_value_refl by blast
next
  case (g_and us d vs f)
  then obtain x where "and_expr (ts @ (None, '' && '') # us) x" "same_value x (EAnd e d)" by blast
  then have "and_expr ((ts @ (None, '' && '') # us) @ (None, '' && '') # vs) (EAnd x f)"
    and "same_value (EAnd x f) (EAnd e (EAnd d f))"
    using g_and by (blast intro: or_expr_and_expr_not_expr.g_and, simp add: same_value_def tri_and_ac)
  then show ?case by auto
qed simp_all

lemma or_append:
  assumes "or_expr us d" and "or_expr ts e"
  shows "\<exists>f. or_expr (ts @ (None, '' || '') # us) f \<and> same_value f (EOr e d)"
  using assms(1)
proof (induction us d rule: or_expr_and_expr_not_expr.inducts(1) [where ?P2.0 = "\<lambda>_ _. True" and ?P3.0 = "\<lambda>_ _. True"])
  case (g_or1 us d)
  with assms(2) show ?case using g_or same_value_refl by blast
next
  case (g_or us d vs f)
  then obtain x where "or_expr (ts @ (None, '' || '') # us) x" "same_value x (EOr e d)" by blast
  then have "or_expr ((ts @ (None, '' || '') # us) @ (None, '' || '') # vs) (EOr x f)"
    and "same_value (EOr x f) (EOr e (EOr d f))"
    using g_or by (blast intro: or_expr_and_expr_not_expr.g_or, simp add: same_value_def tri_or_ac)
  then show ?case by auto
qed simp_all

lemma compare_type_simps [simp]:
  "\<not> expr_compare_type t E_SYMBOL > 0" "\<not> expr_compare_type t E_EQUAL > 0" "\<not> expr_compare_type t E_UNEQUAL > 0"
  "expr_compare_type E_NOT t > 0 \<longleftrightarrow> t \<in> {E_AND, E_OR, E_CHOICE, E_NONE}"
  "expr_compare_type E_AND t > 0 \<longleftrightarrow> t \<in> {E_OR, E_CHOICE, E_NONE}"
  "expr_compare_type E_OR t > 0 \<longleftrightarrow> t \<in> {E_CHOICE, E_NONE}"
  "\<not> expr_compare_type E_NONE t > 0"
  by (cases t; simp add: expr_compare_type_def)+

definition named :: "kenv \<Rightarrow> bool" where
  "named env \<longleftrightarrow> (\<forall>s. k_name env s \<noteq> None)"

text \<open>In every context the printed expression can be parsed at the level of that context.\<close>

definition parses_back :: "kenv \<Rightarrow> expr \<Rightarrow> bool" where
  "parses_back env e \<longleftrightarrow>
     (\<exists>d. or_expr (expr_print env e E_NONE) d \<and> same_value d e) \<and>
     (\<exists>d. or_expr (expr_print env e E_OR) d \<and> same_value d e) \<and>
     (\<exists>d. and_expr (expr_print env e E_AND) d \<and> same_value d e) \<and>
     (\<exists>d. not_expr (expr_print env e E_NOT) d \<and> same_value d e)"

lemma parses_back_not:
  assumes "not_expr ts d" and "same_value d e"
    and "expr_print env e E_NONE = ts" "expr_print env e E_OR = ts" "expr_print env e E_AND = ts" "expr_print env e E_NOT = ts"
  shows "parses_back env e"
  unfolding parses_back_def assms(3-6) using assms(1,2) g_and1 g_or1 by blast

lemma print_parses:
  assumes "named env"
  shows "parses_back env e"
proof (induction e)
  case (ESymbol s)
  from assms obtain n where "k_name env s = Some n" by (auto simp: named_def)
  then have "symbol_text env s = (Some s, n)" by (simp add: symbol_text_def)
  with g_symbol [of s n] show ?case by (intro parses_back_not) (auto simp: parens_def)
next
  case (ENot l)
  then obtain d where "not_expr (expr_print env l E_NOT) d" "same_value d l" by (auto simp: parses_back_def)
  then show ?case by (intro parses_back_not [OF g_not]) (auto simp: parens_def same_value_ops)
next
  case (EAnd l r)
  let ?ts = "expr_print env l E_AND @ (None, '' && '') # expr_print env r E_AND"
  from EAnd obtain x y where x: "and_expr (expr_print env l E_AND) x" "same_value x l"
    and y: "and_expr (expr_print env r E_AND) y" "same_value y r" by (auto simp: parses_back_def)
  from and_append [OF y(1) x(1)] obtain f where f: "and_expr ?ts f" "same_value f (EAnd x y)" by blast
  from f(2) x(2) y(2) have v: "same_value f (EAnd l r)" by (simp add: same_value_def)
  from f(1) have o: "or_expr ?ts f" by (rule g_or1)
  then have "not_expr ((None, ''('') # ?ts @ [(None, '')'')]) f" by (rule g_paren)
  with f v o show ?case unfolding parses_back_def by (auto simp: parens_def)
next
  case (EOr l r)
  let ?ts = "expr_print env l E_OR @ (None, '' || '') # expr_print env r E_OR"
  from EOr obtain x y where x: "or_expr (expr_print env l E_OR) x" "same_value x l"
    and y: "or_expr (expr_print env r E_OR) y" "same_value y r" by (auto simp: parses_back_def)
  from or_append [OF y(1) x(1)] obtain f where f: "or_expr ?ts f" "same_value f (EOr x y)" by blast
  from f(2) x(2) y(2) have v: "same_value f (EOr l r)" by (simp add: same_value_def)
  from f(1) have n: "not_expr ((None, ''('') # ?ts @ [(None, '')'')]) f" by (rule g_paren)
  then have "and_expr ((None, ''('') # ?ts @ [(None, '')'')]) f" by (rule g_and1)
  with f v n show ?case unfolding parses_back_def by (auto simp: parens_def)
next
  case (EEqual a b)
  show ?case by (rule parses_back_not [OF g_equal]) (auto simp: parens_def name_text_def)
next
  case (EUnequal a b)
  show ?case by (rule parses_back_not [OF g_unequal]) (auto simp: parens_def name_text_def)
qed

end
