(* ===== verification/Kconf_Theorems.thy ===== *)
theory Kconf_Theorems
  imports Kconf_Dups Kconf_Print
begin

text \<open>
  What the operations on dependency expressions guarantee.
\<close>

text \<open>A symbol table with the boolean symbols FOO and BAR and the tristate symbol BAZ, whose value is
  \<open>v\<close>.\<close>

definition kdemo :: "tristate \<Rightarrow> kenv" where
  "kdemo v =
     \<lparr>k_type = (\<lambda>s. case s of Sym n \<Rightarrow> if n = 2 then S_TRISTATE else S_BOOLEAN | _ \<Rightarrow> S_UNKNOWN),
      k_tri = (\<lambda>s. case s of symbol_yes \<Rightarrow> Yes | symbol_mod \<Rightarrow> Mod | symbol_no \<Rightarrow> No
                 | Sym n \<Rightarrow> if n = 0 then Yes else if n = 2 then v else No),
      k_val = (\<lambda>s. case s of symbol_yes \<Rightarrow> ''y'' | symbol_mod \<Rightarrow> ''m'' | symbol_no \<Rightarrow> ''n'' | _ \<Rightarrow> []),
      k_const = (\<lambda>s. case s of Sym _ \<Rightarrow> False | _ \<Rightarrow> True),
      k_name = (\<lambda>s. Some (case s of symbol_yes \<Rightarrow> ''y'' | symbol_mod \<Rightarrow> ''m'' | symbol_no \<Rightarrow> ''n''
                 | Sym n \<Rightarrow> if n = 0 then ''FOO'' else if n = 1 then ''BAR'' else ''BAZ''))\<rparr>"

lemma kdemo_ok: "kenv_ok (kdemo v)"
  by (auto simp: kenv_ok_def kdemo_def sym_get_string_value_def split: sym.splits if_splits)

abbreviation "FOO \<equiv> Sym 0"
abbreviation "BAR \<equiv> Sym 1"
abbreviation "BAZ \<equiv> Sym 2"

text \<open>Expressions that \<open>expr_eq\<close> finds equal have the same value, whatever the values of the
  symbols are.\<close>

theorem expr_eq_sound:
  assumes "kenv_ok env" and "expr_eq e1 e2"
  shows "expr_calc_value env e1 = expr_calc_value env e2"
  by (rule eq_sound(1) [OF assms])

theorem expr_eq_sound_witness:
  "expr_eq (EOr (EAnd (ESymbol FOO) (ESymbol BAZ)) (ESymbol BAR)) (EOr (ESymbol BAR) (EAnd (ESymbol BAZ) (ESymbol FOO))) \<and>
   expr_calc_value (kdemo Mod) (EOr (EAnd (ESymbol FOO) (ESymbol BAZ)) (ESymbol BAR)) =
   expr_calc_value (kdemo Mod) (EOr (ESymbol BAR) (EAnd (ESymbol BAZ) (ESymbol FOO)))"
proof
  show "expr_eq (EOr (EAnd (ESymbol FOO) (ESymbol BAZ)) (ESymbol BAR)) (EOr (ESymbol BAR) (EAnd (ESymbol BAZ) (ESymbol FOO)))"
    by code_simp
  then show "expr_calc_value (kdemo Mod) (EOr (EAnd (ESymbol FOO) (ESymbol BAZ)) (ESymbol BAR)) =
      expr_calc_value (kdemo Mod) (EOr (ESymbol BAR) (EAnd (ESymbol BAZ) (ESymbol FOO)))"
    by (rule expr_eq_sound [OF kdemo_ok])
qed

text \<open>C10: \<open>expr_transform\<close> is equivalent to the identity: it keeps the value. Its result is
  normal, with negations at symbols only and without comparisons of a boolean symbol with a
  constant, and a second application changes nothing.\<close>

theorem expr_transform_equiv:
  assumes "kenv_ok env"
  shows "expr_calc_value env (expr_transform env e) = expr_calc_value env e \<and>
    normal env (expr_transform env e) \<and> expr_transform env (expr_transform env e) = expr_transform env e"
  using transform_value [OF assms] transform_normal [OF assms] transform_idem by blast

theorem expr_transform_equiv_witness:
  "expr_transform (kdemo Mod) (ENot (EAnd (EEqual FOO symbol_no) (ENot (ESymbol BAZ)))) =
     EOr (ESymbol FOO) (ESymbol BAZ) \<and>
   normal (kdemo Mod) (expr_transform (kdemo Mod) (ENot (EAnd (EEqual FOO symbol_no) (ENot (ESymbol BAZ)))))"
  using expr_transform_equiv [OF kdemo_ok, of Mod "ENot (EAnd (EEqual FOO symbol_no) (ENot (ESymbol BAZ)))"]
  by (simp add: kdemo_def)

text \<open>C24: the loop of \<open>expr_eliminate_dups\<close> ends for every expression, never makes it larger, and
  keeps its value when no symbol in it is \<open>m\<close>.\<close>

theorem expr_eliminate_dups_ends:
  assumes "kenv_ok env"
  shows "\<exists>e'. expr_eliminate_dups env e = Some e' \<and> nodes e' \<le> nodes e \<and>
    (two_valued env e \<longrightarrow> expr_calc_value env e' = expr_calc_value env e)"
  using eliminate_dups_ends [OF assms] by blast

theorem expr_eliminate_dups_ends_witness:
  "\<exists>e'. expr_eliminate_dups (kdemo No) (EAnd (ESymbol FOO) (EOr (ESymbol BAZ) (ENot (ESymbol BAZ)))) = Some e' \<and>
    nodes e' \<le> 6 \<and> expr_calc_value (kdemo No) e' = Yes"
proof -
  let ?e = "EAnd (ESymbol FOO) (EOr (ESymbol BAZ) (ENot (ESymbol BAZ)))"
  have "two_valued (kdemo No) ?e" "expr_calc_value (kdemo No) ?e = Yes" "nodes ?e = 6" by code_simp+
  with expr_eliminate_dups_ends [OF kdemo_ok, of No ?e] show ?thesis by metis
qed

text \<open>With a symbol that is \<open>m\<close> the value can change. The rule
  \<open>(FOO || BAR) && (!FOO && !BAR) -> n\<close> turns an expression with value \<open>m\<close> into \<open>n\<close>.\<close>

theorem expr_eliminate_dups_changes_m:
  "\<exists>e e'. expr_eliminate_dups (kdemo Mod) e = Some e' \<and>
    expr_calc_value (kdemo Mod) e = Mod \<and> expr_calc_value (kdemo Mod) e' = No"
proof (intro exI conjI)
  let ?e = "EAnd (EOr (ESymbol BAZ) (ESymbol BAR)) (EAnd (ENot (ESymbol BAZ)) (ENot (ESymbol BAR)))"
  let ?f = "EAnd (ESymbol symbol_no) (EAnd (ENot (ESymbol BAZ)) (ENot (ESymbol BAR)))"
  have d1: "expr_eliminate_dups1 (nodes ?e) (kdemo Mod) (etype ?e) ?e = Some (?e, 0)" by code_simp
  have d2: "expr_eliminate_dups2 (nodes ?e) (kdemo Mod) (etype ?e) ?e = Some (?f, 1)" by code_simp
  have "expr_eliminate_dups (kdemo Mod) ?e = expr_eliminate_dups (kdemo Mod) (expr_eliminate_yn ?f)"
    using eliminate_dups_round [OF _ d1 d2] by simp
  also have "expr_eliminate_yn ?f = ESymbol symbol_no" by simp
  also have "expr_eliminate_dups (kdemo Mod) (ESymbol symbol_no) = Some (ESymbol symbol_no)"
    by (subst expr_eliminate_dups.simps) simp
  finally show "expr_eliminate_dups (kdemo Mod) ?e = Some (ESymbol symbol_no)" .
  show "expr_calc_value (kdemo Mod) ?e = Mod" "expr_calc_value (kdemo Mod) (ESymbol symbol_no) = No" by code_simp+
qed



text \<open>For an expression without \<open>m\<close>, \<open>expr_trans_compare\<close> with \<open>y\<close> or \<open>n\<close> builds an
  expression that is \<open>y\<close> or \<open>n\<close> and says whether the value compares as asked.\<close>

theorem expr_trans_compare_correct:
  assumes "kenv_ok env" and "c = symbol_yes \<or> c = symbol_no" and "two_valued env e"
    and "cty = E_EQUAL \<or> cty = E_UNEQUAL"
  shows "\<exists>e'. expr_trans_compare e cty c = Some e' \<and>
    expr_calc_value env e' = (if (expr_calc_value env e = k_tri env c) = (cty = E_EQUAL) then Yes else No)"
  using trans_compare_value [OF assms] by (auto simp: compare_value_def)

theorem expr_trans_compare_correct_witness:
  "\<exists>e'. expr_trans_compare (EOr (ENot (ESymbol FOO)) (ESymbol BAR)) E_UNEQUAL symbol_yes = Some e' \<and>
    expr_calc_value (kdemo No) e' = Yes"
  using expr_trans_compare_correct [OF kdemo_ok, of symbol_yes No "EOr (ENot (ESymbol FOO)) (ESymbol BAR)" E_UNEQUAL]
  by (simp add: kdemo_def)

text \<open>An expression that depends on a symbol in the sense of \<open>expr_depends_symbol\<close> is \<open>n\<close> when the
  symbol is, and one that does not contain a symbol in the sense of \<open>expr_contains_symbol\<close> has the
  same value whatever the symbol is.\<close>

theorem expr_dependencies:
  assumes "kenv_ok env"
  shows "(expr_depends_symbol e s \<and> k_tri env s = No \<and> k_type env s \<in> {S_BOOLEAN, S_TRISTATE} \<longrightarrow>
      expr_calc_value env e = No) \<and>
    (\<not> expr_contains_symbol e s \<longrightarrow>
      expr_calc_value (env\<lparr>k_tri := (k_tri env)(s := t), k_val := (k_val env)(s := x)\<rparr>) e = expr_calc_value env e)"
  using depends_value [OF assms] contains_value [of s "env\<lparr>k_tri := (k_tri env)(s := t), k_val := (k_val env)(s := x)\<rparr>" env]
  by auto

theorem expr_dependencies_witness:
  "expr_calc_value (kdemo No) (EAnd (ESymbol FOO) (EUnequal BAZ symbol_no)) = No \<and>
   expr_calc_value (kdemo No) (EAnd (ESymbol FOO) (ENot (ESymbol BAR))) =
   expr_calc_value ((kdemo No)\<lparr>k_tri := (k_tri (kdemo No))(BAZ := Yes), k_val := (k_val (kdemo No))(BAZ := [])\<rparr>)
     (EAnd (ESymbol FOO) (ENot (ESymbol BAR)))"
  using expr_dependencies [OF kdemo_ok, of "EAnd (ESymbol FOO) (EUnequal BAZ symbol_no)" BAZ No]
    expr_dependencies [OF kdemo_ok, of "EAnd (ESymbol FOO) (ENot (ESymbol BAR))" BAZ No "[]" Yes]
  by (simp add: kdemo_def)

end
