(* ===== verification/Kconf_Num.thy ===== *)
theory Kconf_Num
  imports Prelude
begin

text \<open>
  The conversions between numbers and text that the configurator uses for integer and hexadecimal
  symbols: \<open>strtol\<close> with base 10 and 16, where \<open>long\<close> has the 32 bits it has on the i386, and
  \<open>sprintf\<close> with \<open>%d\<close> and \<open>0x%x\<close>.
\<close>

section \<open>Digits\<close>

definition digit_val :: "char \<Rightarrow> nat" where
  "digit_val c =
     (let n = of_char c :: nat in
      if 48 \<le> n \<and> n \<le> 57 then n - 48
      else if 97 \<le> n \<and> n \<le> 122 then n - 87
      else if 65 \<le> n \<and> n \<le> 90 then n - 55
      else 36)"

definition digit_char :: "nat \<Rightarrow> char" where
  "digit_char d = char_of (if d < 10 then d + 48 else d + 87)"

definition isdigit :: "char \<Rightarrow> bool" where
  "isdigit c \<longleftrightarrow> 48 \<le> (of_char c :: nat) \<and> (of_char c :: nat) \<le> 57"

definition isxdigit :: "char \<Rightarrow> bool" where
  "isxdigit c \<longleftrightarrow> digit_val c < 16"

lemma digit_val_char [simp]: "d < 16 \<Longrightarrow> digit_val (digit_char d) = d"
  by (auto simp: digit_val_def digit_char_def Let_def of_char_of)

lemma digit_mod [simp]: "0 < b \<Longrightarrow> b \<le> 16 \<Longrightarrow> digit_val (digit_char (n mod b)) = n mod b"
proof (rule digit_val_char)
  assume b: "0 < b" "b \<le> 16"
  then have "n mod b < b" by simp
  with b show "n mod b < 16" by linarith
qed

lemma isdigit_iff: "isdigit c \<longleftrightarrow> digit_val c < 10"
  by (auto simp: isdigit_def digit_val_def Let_def)

section \<open>Reading\<close>

fun digits_val :: "nat \<Rightarrow> string \<Rightarrow> nat \<Rightarrow> nat" where
  "digits_val b [] acc = acc"
| "digits_val b (c # cs) acc = (if digit_val c < b then digits_val b cs (acc * b + digit_val c) else acc)"

definition skip_prefix :: "nat \<Rightarrow> string \<Rightarrow> string" where
  "skip_prefix b s =
     (case s of
        c # x # d # cs \<Rightarrow>
          if b = 16 \<and> c = CHR ''0'' \<and> (x = CHR ''x'' \<or> x = CHR ''X'') \<and> digit_val d < 16 then d # cs else s
      | _ \<Rightarrow> s)"

definition clamp :: "int \<Rightarrow> int" where
  "clamp v = max INT_MIN (min INT_MAX v)"

definition strtol :: "string \<Rightarrow> nat \<Rightarrow> int" where
  "strtol str b =
     (let s = dropWhile isspace str in
      case s of
        [] \<Rightarrow> 0
      | c # cs \<Rightarrow>
          if c = CHR ''-'' then clamp (- int (digits_val b (skip_prefix b cs) 0))
          else if c = CHR ''+'' then clamp (int (digits_val b (skip_prefix b cs) 0))
          else clamp (int (digits_val b (skip_prefix b s) 0)))"

lemma skip_prefix_10 [simp]: "skip_prefix 10 s = s"
  by (auto simp: skip_prefix_def split: list.splits)

lemma clamp_id [simp]: "INT_MIN \<le> v \<Longrightarrow> v \<le> INT_MAX \<Longrightarrow> clamp v = v"
  by (simp add: clamp_def)

lemma clamp_bounds: "INT_MIN \<le> clamp v" "clamp v \<le> INT_MAX"
  by (auto simp: clamp_def)

lemma strtol_bounds: "INT_MIN \<le> strtol s b \<and> strtol s b \<le> INT_MAX"
  by (auto simp: strtol_def Let_def clamp_def split: list.splits)

section \<open>Printing\<close>

function show_nat :: "nat \<Rightarrow> nat \<Rightarrow> string" where
  "show_nat b n = (if n < b \<or> b < 2 then [digit_char n] else show_nat b (n div b) @ [digit_char (n mod b)])"
  by pat_completeness auto
termination
  by (relation "measure snd") auto

declare show_nat.simps [simp del]

definition sprintf_d :: "int \<Rightarrow> string" where
  "sprintf_d v = (if v < 0 then CHR ''-'' # show_nat 10 (nat (- v)) else show_nat 10 (nat v))"

definition sprintf_0x :: "int \<Rightarrow> string" where
  "sprintf_0x v = ''0x'' @ show_nat 16 (nat (v mod 2 ^ 32))"

section \<open>Reading what was printed\<close>

lemma digits_val_app:
  assumes "\<forall>c \<in> set s. digit_val c < b"
  shows "digits_val b (s @ t) acc = digits_val b t (digits_val b s acc)"
  using assms by (induction s arbitrary: acc) auto

lemma show_nat_digits: "2 \<le> b \<Longrightarrow> b \<le> 16 \<Longrightarrow> c \<in> set (show_nat b n) \<Longrightarrow> digit_val c < b"
proof (induction b n rule: show_nat.induct)
  case (1 b n)
  show ?case
  proof (cases "n < b")
    case True
    with 1 show ?thesis by (simp add: show_nat.simps [of b n])
  next
    case False
    with 1 show ?thesis by (auto simp: show_nat.simps [of b n])
  qed
qed

lemma digits_show:
  "2 \<le> b \<Longrightarrow> b \<le> 16 \<Longrightarrow> digits_val b (show_nat b n) 0 = n"
proof (induction b n rule: show_nat.induct)
  case (1 b n)
  show ?case
  proof (cases "n < b")
    case True
    with 1 show ?thesis by (simp add: show_nat.simps [of b n])
  next
    case False
    with 1 have "digits_val b (show_nat b (n div b)) 0 = n div b" by simp
    moreover have "\<forall>c \<in> set (show_nat b (n div b)). digit_val c < b" using show_nat_digits 1 by blast
    ultimately show ?thesis using False 1
      by (subst show_nat.simps) (simp add: digits_val_app)
  qed
qed

lemma show_nat_nonempty [simp]: "show_nat b n \<noteq> []"
  by (simp add: show_nat.simps [of b n])

lemma show_nat_hd: "2 \<le> b \<Longrightarrow> b \<le> 16 \<Longrightarrow> digit_val (hd (show_nat b n)) < b"
  using show_nat_digits [of b _ n] hd_in_set [OF show_nat_nonempty, of b n] by blast

lemma digit_not_sign: "digit_val c < 16 \<Longrightarrow> c \<noteq> CHR ''-'' \<and> c \<noteq> CHR ''+'' \<and> \<not> isspace c"
  by (auto simp: digit_val_def isspace_def Let_def split: if_splits)

theorem strtol_sprintf_d:
  assumes "INT_MIN \<le> v" and "v \<le> INT_MAX"
  shows "strtol (sprintf_d v) 10 = v"
proof -
  have d: "digits_val 10 (show_nat 10 n) 0 = n" for n by (simp add: digits_show)
  show ?thesis
  proof (cases "v < 0")
    case True
    then show ?thesis using d assms by (simp add: strtol_def sprintf_d_def isspace_def)
  next
    case False
    obtain c cs where s: "show_nat 10 (nat v) = c # cs" by (cases "show_nat 10 (nat v)") auto
    with show_nat_hd [of 10 "nat v"] have "digit_val c < 10" by simp
    then have "c \<noteq> CHR ''-'' \<and> c \<noteq> CHR ''+'' \<and> \<not> isspace c" by (intro digit_not_sign) simp
    with False s d [of "nat v"] assms show ?thesis by (simp add: strtol_def sprintf_d_def)
  qed
qed

theorem strtol_sprintf_0x:
  assumes "0 \<le> v" and "v \<le> INT_MAX"
  shows "strtol (sprintf_0x v) 16 = v"
proof -
  obtain c cs where s: "show_nat 16 (nat v) = c # cs" by (cases "show_nat 16 (nat v)") auto
  with show_nat_hd [of 16 "nat v"] have "digit_val c < 16" by simp
  moreover have "v mod 2 ^ 32 = v" using assms by simp
  ultimately show ?thesis using s assms digits_show [of 16 "nat v"]
    by (simp add: strtol_def sprintf_0x_def skip_prefix_def isspace_def)
qed

end
