(* ===== verification/Kconf_Symbol.thy ===== *)
theory Kconf_Symbol
  imports Kconf_Expr Kconf_Num "HOL-Library.Monad_Syntax"
begin

text \<open>
  The symbols of the kernel configurator, \<open>scripts/kconfig/symbol.c\<close>: the symbol table, the
  calculation of visibility and value, and the operations of a user interface. The table is a
  function from symbols to their records; the bits of \<open>flags\<close> are fields of their own. The result
  of a function that evaluates symbols is an \<open>option\<close>: \<open>None\<close> stands for a dereferenced null
  pointer and for a recursion deeper than the bound given to \<open>sym_calc_value\<close>.
\<close>

section \<open>The symbol table\<close>

datatype prop_type =
  P_UNKNOWN | P_PROMPT | P_COMMENT | P_MENU | P_DEFAULT | P_CHOICE | P_SELECT | P_RANGE

text \<open>The expression of a property: none, a dependency expression, the list of the values of a
  choice (a chain of \<open>E_CHOICE\<close> nodes), or a range.\<close>

datatype pexpr = PNone | PExpr expr | PChoice "sym list" | PRange sym sym

record property =
  p_type :: prop_type
  p_text :: "string option"
  p_visible :: "expr option"
  p_expr :: pexpr
  p_menu :: "nat option"

text \<open>\<open>curr.val\<close> is a string or, for a choice, a symbol. Of the array \<open>def\<close> the entries
  \<open>S_DEF_USER\<close> and \<open>S_DEF_AUTO\<close> are used.\<close>

datatype kval = VStr string | VSym "sym option"

record symbol =
  s_name :: "string option"
  s_type :: symbol_type
  s_val :: kval
  s_tri :: tristate
  s_user_val :: kval
  s_user_tri :: tristate
  s_visible :: tristate
  s_props :: "property list"
  s_rev_dep :: "expr option"
  s_rev_tri :: tristate
  s_const :: bool
  s_check :: bool
  s_choice :: bool
  s_choiceval :: bool
  s_valid :: bool
  s_optional :: bool
  s_write :: bool
  s_changed :: bool
  s_auto :: bool
  s_checked :: bool
  s_def_user :: bool
  s_def_auto :: bool
  s_auto_val :: kval
  s_auto_tri :: tristate

text \<open>The state: the table, the hash chains, the numbers used so far, the cached visibility of the
  properties, the changed flags of the menus and the global variables.\<close>

record kst =
  tab :: "sym \<Rightarrow> symbol"
  hash :: "nat \<Rightarrow> sym list"
  used :: nat
  prop_tri :: "sym \<times> nat \<Rightarrow> tristate"
  menu_changed :: "nat \<Rightarrow> bool"
  modules_sym :: "sym option"
  modules_val :: tristate
  sym_change_count :: int

definition upd_sym :: "sym \<Rightarrow> (symbol \<Rightarrow> symbol) \<Rightarrow> kst \<Rightarrow> kst" where
  "upd_sym s f st = st\<lparr>tab := (tab st)(s := f (tab st s))\<rparr>"

definition set_prop_tri :: "sym \<Rightarrow> nat \<Rightarrow> tristate \<Rightarrow> kst \<Rightarrow> kst" where
  "set_prop_tri s i v st = st\<lparr>prop_tri := (prop_tri st)((s, i) := v)\<rparr>"

abbreviation SYMBOL_HASHSIZE :: nat where "SYMBOL_HASHSIZE \<equiv> 257"

text \<open>\<open>for_all_symbols\<close> skips the symbols of type \<open>S_OTHER\<close>.\<close>

definition all_symbols :: "kst \<Rightarrow> sym list" where
  "all_symbols st =
     filter (\<lambda>s. s_type (tab st s) \<noteq> S_OTHER) (concat (map (hash st) [0..<SYMBOL_HASHSIZE]))"

section \<open>Types and properties\<close>

definition sym_get_type :: "kst \<Rightarrow> sym \<Rightarrow> symbol_type" where
  "sym_get_type st s =
     (let ty = s_type (tab st s) in
      if ty = S_TRISTATE
      then if s_choiceval (tab st s) \<and> s_visible (tab st s) = Yes then S_BOOLEAN
           else if modules_val st = No then S_BOOLEAN else ty
      else ty)"

primrec sym_type_name :: "symbol_type \<Rightarrow> string" where
  "sym_type_name S_BOOLEAN = ''boolean''"
| "sym_type_name S_TRISTATE = ''tristate''"
| "sym_type_name S_INT = ''integer''"
| "sym_type_name S_HEX = ''hex''"
| "sym_type_name S_STRING = ''string''"
| "sym_type_name S_UNKNOWN = ''unknown''"
| "sym_type_name S_OTHER = ''???''"

primrec prop_get_type_name :: "prop_type \<Rightarrow> string" where
  "prop_get_type_name P_PROMPT = ''prompt''"
| "prop_get_type_name P_COMMENT = ''comment''"
| "prop_get_type_name P_MENU = ''menu''"
| "prop_get_type_name P_DEFAULT = ''default''"
| "prop_get_type_name P_CHOICE = ''choice''"
| "prop_get_type_name P_SELECT = ''select''"
| "prop_get_type_name P_RANGE = ''range''"
| "prop_get_type_name P_UNKNOWN = ''unknown''"

text \<open>The properties of a symbol with their position.\<close>

definition props :: "kst \<Rightarrow> sym \<Rightarrow> (nat \<times> property) list" where
  "props st s = List.enumerate 0 (s_props (tab st s))"

definition sym_get_choice_prop :: "kst \<Rightarrow> sym \<Rightarrow> property option" where
  "sym_get_choice_prop st s = List.find (\<lambda>p. p_type p = P_CHOICE) (s_props (tab st s))"

definition prop_get_symbol :: "property \<Rightarrow> sym option" where
  "prop_get_symbol p = (case p_expr p of PExpr (ESymbol s) \<Rightarrow> Some s | _ \<Rightarrow> None)"

definition choice_values :: "kst \<Rightarrow> sym \<Rightarrow> sym list option" where
  "choice_values st s =
     (case sym_get_choice_prop st s of
        None \<Rightarrow> None
      | Some p \<Rightarrow> (case p_expr p of PChoice vs \<Rightarrow> Some vs | PNone \<Rightarrow> Some [] | _ \<Rightarrow> None))"

definition prop_alloc :: "prop_type \<Rightarrow> sym \<Rightarrow> property" where
  "prop_alloc ty s = \<lparr>p_type = ty, p_text = None, p_visible = None, p_expr = PNone, p_menu = None\<rparr>"

definition add_prop :: "sym \<Rightarrow> property \<Rightarrow> kst \<Rightarrow> kst" where
  "add_prop s p = upd_sym s (\<lambda>x. x\<lparr>s_props := s_props x @ [p]\<rparr>)"

section \<open>Changes\<close>

definition sym_set_changed :: "sym \<Rightarrow> kst \<Rightarrow> kst" where
  "sym_set_changed s st =
     (let st1 = upd_sym s (\<lambda>x. x\<lparr>s_changed := True\<rparr>) st in
      st1\<lparr>menu_changed :=
        (\<lambda>m. menu_changed st1 m \<or> list_ex (\<lambda>p. p_menu p = Some m) (s_props (tab st s)))\<rparr>)"

definition sym_set_all_changed :: "kst \<Rightarrow> kst" where
  "sym_set_all_changed st = fold sym_set_changed (all_symbols st) st"

section \<open>Evaluation\<close>

text \<open>The functions below \<open>sym_calc_value\<close> take it as their argument \<open>calc\<close>.\<close>

type_synonym calc = "sym \<Rightarrow> kst \<Rightarrow> kst option"

definition string_value :: "kst \<Rightarrow> sym \<Rightarrow> kval" where
  "string_value st s =
     (if s_type (tab st s) = S_BOOLEAN \<or> s_type (tab st s) = S_TRISTATE then VStr (tri_name (s_tri (tab st s)))
      else s_val (tab st s))"

text \<open>\<open>strcmp\<close> of the strings of two symbols, neither of which may be null.\<close>

definition same_string :: "kst \<Rightarrow> sym \<Rightarrow> sym \<Rightarrow> bool option" where
  "same_string st x y =
     (case (string_value st x, string_value st y) of (VStr a, VStr b) \<Rightarrow> Some (a = b) | _ \<Rightarrow> None)"

primrec expr_eval :: "calc \<Rightarrow> expr \<Rightarrow> kst \<Rightarrow> (tristate \<times> kst) option" where
  "expr_eval calc (ESymbol s) st = do { st \<leftarrow> calc s st; Some (s_tri (tab st s), st) }"
| "expr_eval calc (EAnd l r) st =
     do { (a, st) \<leftarrow> expr_eval calc l st; (b, st) \<leftarrow> expr_eval calc r st; Some (tri_and a b, st) }"
| "expr_eval calc (EOr l r) st =
     do { (a, st) \<leftarrow> expr_eval calc l st; (b, st) \<leftarrow> expr_eval calc r st; Some (tri_or a b, st) }"
| "expr_eval calc (ENot l) st = do { (a, st) \<leftarrow> expr_eval calc l st; Some (tri_not a, st) }"
| "expr_eval calc (EEqual x y) st =
     do { st \<leftarrow> calc x st; st \<leftarrow> calc y st; eq \<leftarrow> same_string st x y; Some (if eq then Yes else No, st) }"
| "expr_eval calc (EUnequal x y) st =
     do { st \<leftarrow> calc x st; st \<leftarrow> calc y st; eq \<leftarrow> same_string st x y; Some (if eq then No else Yes, st) }"

definition expr_eval_opt :: "calc \<Rightarrow> expr option \<Rightarrow> kst \<Rightarrow> (tristate \<times> kst) option" where
  "expr_eval_opt calc e st = (case e of None \<Rightarrow> Some (Yes, st) | Some e \<Rightarrow> expr_eval calc e st)"

text \<open>The first property of type \<open>ty\<close> that is visible: \<open>sym_get_default_prop\<close> and
  \<open>sym_get_range_prop\<close>.\<close>

fun visible_prop :: "calc \<Rightarrow> prop_type \<Rightarrow> sym \<Rightarrow> (nat \<times> property) list \<Rightarrow> kst \<Rightarrow> (property option \<times> kst) option" where
  "visible_prop calc ty s [] st = Some (None, st)"
| "visible_prop calc ty s ((i, p) # ps) st =
     (if p_type p = ty
      then do { (v, st) \<leftarrow> expr_eval_opt calc (p_visible p) st;
                let st = set_prop_tri s i v st;
                if v \<noteq> No then Some (Some p, st) else visible_prop calc ty s ps st }
      else visible_prop calc ty s ps st)"

definition sym_get_default_prop :: "calc \<Rightarrow> sym \<Rightarrow> kst \<Rightarrow> (property option \<times> kst) option" where
  "sym_get_default_prop calc s st = visible_prop calc P_DEFAULT s (props st s) st"

definition sym_get_range_prop :: "calc \<Rightarrow> sym \<Rightarrow> kst \<Rightarrow> (property option \<times> kst) option" where
  "sym_get_range_prop calc s st = visible_prop calc P_RANGE s (props st s) st"

text \<open>The value of a property expression that is a dependency expression.\<close>

definition prop_expr_value :: "calc \<Rightarrow> property \<Rightarrow> kst \<Rightarrow> (tristate \<times> kst) option" where
  "prop_expr_value calc p st =
     (case p_expr p of
        PNone \<Rightarrow> Some (Yes, st) | PExpr e \<Rightarrow> expr_eval calc e st | _ \<Rightarrow> Some (No, st))"

section \<open>Ranges\<close>

definition val_strtol :: "kval \<Rightarrow> nat \<Rightarrow> int option" where
  "val_strtol v b = (case v of VStr s \<Rightarrow> Some (strtol s b) | VSym _ \<Rightarrow> None)"

definition sym_get_range_val :: "calc \<Rightarrow> sym \<Rightarrow> nat \<Rightarrow> kst \<Rightarrow> (int \<times> kst) option" where
  "sym_get_range_val calc s base st =
     do { st \<leftarrow> calc s st;
          let base = (case s_type (tab st s) of S_INT \<Rightarrow> 10 | S_HEX \<Rightarrow> 16 | _ \<Rightarrow> base);
          v \<leftarrow> val_strtol (s_val (tab st s)) base;
          Some (v, st) }"

text \<open>Whether \<open>val\<close>, compared with the lower bound \<open>val2\<close> already read, is in the range, and the
  bound it violates.\<close>

definition range_check :: "calc \<Rightarrow> sym \<Rightarrow> nat \<Rightarrow> int \<Rightarrow> int \<Rightarrow> kst \<Rightarrow> (bool \<times> int \<times> kst) option" where
  "range_check calc hi base val val2 st =
     (if val \<ge> val2
      then do { (val3, st) \<leftarrow> sym_get_range_val calc hi base st; Some (val \<le> val3, val3, st) }
      else Some (False, val2, st))"

definition range_clamp :: "calc \<Rightarrow> sym \<Rightarrow> nat \<Rightarrow> sym \<Rightarrow> sym \<Rightarrow> kst \<Rightarrow> kst option" where
  "range_clamp calc s base lo hi st =
     do { val \<leftarrow> val_strtol (s_val (tab st s)) base;
          (val2, st) \<leftarrow> sym_get_range_val calc lo base st;
          (ok, val2, st) \<leftarrow> range_check calc hi base val val2 st;
          if ok then Some st
          else Some (upd_sym s (\<lambda>x. x\<lparr>s_val :=
                 VStr (if s_type x = S_INT then sprintf_d val2 else sprintf_0x val2)\<rparr>) st) }"

definition sym_validate_range :: "calc \<Rightarrow> sym \<Rightarrow> kst \<Rightarrow> kst option" where
  "sym_validate_range calc s st =
     (if s_type (tab st s) \<noteq> S_INT \<and> s_type (tab st s) \<noteq> S_HEX then Some st
      else
        do { let base = (if s_type (tab st s) = S_INT then 10 else 16);
             (pr, st) \<leftarrow> sym_get_range_prop calc s st;
             case pr of
               None \<Rightarrow> Some st
             | Some p \<Rightarrow> (case p_expr p of PRange lo hi \<Rightarrow> range_clamp calc s base lo hi st | _ \<Rightarrow> None) })"

section \<open>Visibility\<close>

text \<open>The maximum of the values of the prompts.\<close>

fun prompts_tri :: "calc \<Rightarrow> sym \<Rightarrow> (nat \<times> property) list \<Rightarrow> tristate \<Rightarrow> kst \<Rightarrow> (tristate \<times> kst) option" where
  "prompts_tri calc s [] tri st = Some (tri, st)"
| "prompts_tri calc s ((i, p) # ps) tri st =
     (if p_text p \<noteq> None
      then do { (v, st) \<leftarrow> expr_eval_opt calc (p_visible p) st;
                prompts_tri calc s ps (tri_or tri v) (set_prop_tri s i v st) }
      else prompts_tri calc s ps tri st)"

text \<open>Storing the visibility, where \<open>m\<close> needs a tristate symbol and modules.\<close>

definition set_visible :: "sym \<Rightarrow> tristate \<Rightarrow> kst \<Rightarrow> kst" where
  "set_visible s tri st =
     (let tri = (if tri = Mod \<and> (s_type (tab st s) \<noteq> S_TRISTATE \<or> modules_val st = No) then Yes else tri) in
      if s_visible (tab st s) \<noteq> tri
      then sym_set_changed s (upd_sym s (\<lambda>x. x\<lparr>s_visible := tri\<rparr>) st) else st)"

text \<open>The value that other symbols select.\<close>

definition set_rev_tri :: "sym \<Rightarrow> tristate \<Rightarrow> kst \<Rightarrow> kst" where
  "set_rev_tri s tri st =
     (let tri = (if tri = Mod \<and> sym_get_type st s = S_BOOLEAN then Yes else tri) in
      if s_rev_tri (tab st s) \<noteq> tri
      then sym_set_changed s (upd_sym s (\<lambda>x. x\<lparr>s_rev_tri := tri\<rparr>) st) else st)"

definition sym_calc_visibility :: "calc \<Rightarrow> sym \<Rightarrow> kst \<Rightarrow> kst option" where
  "sym_calc_visibility calc s st =
     do { (tri, st) \<leftarrow> prompts_tri calc s (props st s) No st;
          let st = set_visible s tri st;
          if s_choiceval (tab st s) then Some st
          else
            do { (tri, st) \<leftarrow> (case s_rev_dep (tab st s) of None \<Rightarrow> Some (No, st) | Some e \<Rightarrow> expr_eval calc e st);
                 Some (set_rev_tri s tri st) } }"

section \<open>Choices\<close>

text \<open>The first of the given symbols that is visible.\<close>

fun first_visible :: "calc \<Rightarrow> sym list \<Rightarrow> kst \<Rightarrow> (sym option \<times> kst) option" where
  "first_visible calc [] st = Some (None, st)"
| "first_visible calc (v # vs) st =
     do { st \<leftarrow> sym_calc_visibility calc v st;
          if s_visible (tab st v) \<noteq> No then Some (Some v, st) else first_visible calc vs st }"

fun choice_default :: "calc \<Rightarrow> sym \<Rightarrow> (nat \<times> property) list \<Rightarrow> kst \<Rightarrow> (sym option \<times> kst) option" where
  "choice_default calc s [] st = Some (None, st)"
| "choice_default calc s ((i, p) # ps) st =
     (if p_type p = P_DEFAULT
      then do { (v, st) \<leftarrow> expr_eval_opt calc (p_visible p) st;
                let st = set_prop_tri s i v st;
                if v = No then choice_default calc s ps st
                else do { d \<leftarrow> prop_get_symbol p;
                          st \<leftarrow> sym_calc_visibility calc d st;
                          if s_visible (tab st d) \<noteq> No then Some (Some d, st) else choice_default calc s ps st } }
      else choice_default calc s ps st)"

definition sym_calc_choice :: "calc \<Rightarrow> sym \<Rightarrow> kst \<Rightarrow> (sym option \<times> kst) option" where
  "sym_calc_choice calc s st =
     do { (d, st) \<leftarrow> (case s_user_val (tab st s) of
                         VSym (Some v) \<Rightarrow> first_visible calc [v] st
                       | _ \<Rightarrow> Some (None, st));
          if d \<noteq> None then Some (d, st)
          else do { (d, st) \<leftarrow> choice_default calc s (props st s) st;
                    if d \<noteq> None then Some (d, st)
                    else do { vs \<leftarrow> choice_values st s;
                              (d, st) \<leftarrow> first_visible calc vs st;
                              if d \<noteq> None then Some (d, st)
                              else Some (None, upd_sym s (\<lambda>x. x\<lparr>s_tri := No\<rparr>) st) } } }"

section \<open>The value of a symbol\<close>

text \<open>The new tristate value of a boolean or tristate symbol: of the value of a visible choice, of a
  symbol that is visible or selected, and of one that is not.\<close>

definition choice_value_tri :: "sym \<Rightarrow> kst \<Rightarrow> (tristate \<times> kst) option" where
  "choice_value_tri s st =
     do { p \<leftarrow> sym_get_choice_prop st s;
          c \<leftarrow> prop_get_symbol p;
          Some (if s_val (tab st c) = VSym (Some s) then Yes else No, st) }"

definition visible_tri :: "calc \<Rightarrow> sym \<Rightarrow> kst \<Rightarrow> (tristate \<times> kst) option" where
  "visible_tri calc s st =
     do { let st = upd_sym s (\<lambda>x. x\<lparr>s_write := True\<rparr>) st;
          (v, st) \<leftarrow>
            (if s_def_user (tab st s) then Some (s_user_tri (tab st s), st)
             else if \<not> s_choice (tab st s)
             then do { (p, st) \<leftarrow> sym_get_default_prop calc s st;
                       case p of None \<Rightarrow> Some (No, st) | Some p \<Rightarrow> prop_expr_value calc p st }
             else Some (No, st));
          Some (tri_or (tri_and v (s_visible (tab st s))) (s_rev_tri (tab st s)), st) }"

definition invisible_tri :: "calc \<Rightarrow> sym \<Rightarrow> kst \<Rightarrow> (tristate \<times> kst) option" where
  "invisible_tri calc s st =
     do { (p, st) \<leftarrow> sym_get_default_prop calc s st;
          case p of
            None \<Rightarrow> Some (No, st)
          | Some p \<Rightarrow> prop_expr_value calc p (upd_sym s (\<lambda>x. x\<lparr>s_write := True\<rparr>) st) }"

definition tri_value :: "calc \<Rightarrow> sym \<Rightarrow> kst \<Rightarrow> (tristate \<times> kst) option" where
  "tri_value calc s st =
     do { (v, st) \<leftarrow>
            (if s_choiceval (tab st s) \<and> s_visible (tab st s) = Yes then choice_value_tri s st
             else if tri_or (s_visible (tab st s)) (s_rev_tri (tab st s)) \<noteq> No then visible_tri calc s st
             else if \<not> s_choice (tab st s) then invisible_tri calc s st
             else Some (No, st));
          Some (if v = Mod \<and> sym_get_type st s = S_BOOLEAN then Yes else v, st) }"

text \<open>The new value of a string, integer or hexadecimal symbol.\<close>

definition default_str :: "calc \<Rightarrow> sym \<Rightarrow> kst \<Rightarrow> (kval \<times> kst) option" where
  "default_str calc s st =
     do { (p, st) \<leftarrow> sym_get_default_prop calc s st;
          case Option.bind p prop_get_symbol of
            None \<Rightarrow> Some (VStr [], st)
          | Some ds \<Rightarrow>
              do { st \<leftarrow> calc ds (upd_sym s (\<lambda>x. x\<lparr>s_write := True\<rparr>) st);
                   Some (s_val (tab st ds), st) } }"

definition str_value :: "calc \<Rightarrow> sym \<Rightarrow> kst \<Rightarrow> (kval \<times> kst) option" where
  "str_value calc s st =
     (if s_visible (tab st s) \<noteq> No
      then let st = upd_sym s (\<lambda>x. x\<lparr>s_write := True\<rparr>) st in
           if s_def_user (tab st s) then Some (s_user_val (tab st s), st) else default_str calc s st
      else default_str calc s st)"

text \<open>The marks of a choice are passed on to its values.\<close>

definition mark_value :: "bool \<Rightarrow> bool \<Rightarrow> sym \<Rightarrow> kst \<Rightarrow> kst" where
  "mark_value ch wr v st =
     (let st = upd_sym v (\<lambda>x. x\<lparr>s_changed := s_changed x \<or> ch, s_write := s_write x \<or> wr\<rparr>) st in
      if ch then sym_set_changed v st else st)"

definition set_curr :: "sym \<Rightarrow> kval \<Rightarrow> tristate \<Rightarrow> kst \<Rightarrow> kst" where
  "set_curr s v t = upd_sym s (\<lambda>x. x\<lparr>s_val := v, s_tri := t\<rparr>)"

text \<open>What follows the calculation of the new value.\<close>

definition note_change :: "sym \<Rightarrow> kval \<times> tristate \<Rightarrow> kst \<Rightarrow> kst" where
  "note_change s old st =
     (if (s_val (tab st s), s_tri (tab st s)) \<noteq> old
      then let st = sym_set_changed s st in
           if modules_sym st = Some s
           then (sym_set_all_changed st)\<lparr>modules_val := s_tri (tab st s)\<rparr> else st
      else st)"

definition sym_finish_value :: "calc \<Rightarrow> sym \<Rightarrow> kval \<times> tristate \<Rightarrow> kst \<Rightarrow> kst option" where
  "sym_finish_value calc s old st =
     do { st \<leftarrow> sym_validate_range calc s st;
          let st = note_change s old st;
          if s_choice (tab st s)
          then do { vs \<leftarrow> choice_values st s;
                    Some (fold (mark_value (s_changed (tab st s)) (s_write (tab st s))) vs st) }
          else Some st }"

text \<open>The value of a boolean or tristate symbol, which may be a choice, and that of the other types.\<close>

definition set_tri_value :: "calc \<Rightarrow> sym \<Rightarrow> kst \<Rightarrow> kst option" where
  "set_tri_value calc s st =
     do { (v, st) \<leftarrow> tri_value calc s (set_curr s (VStr ''n'') No st);
          let st = set_curr s (VStr ''n'') v st;
          if s_choice (tab st s) \<and> v = Yes
          then do { (d, st) \<leftarrow> sym_calc_choice calc s st; Some (upd_sym s (\<lambda>x. x\<lparr>s_val := VSym d\<rparr>) st) }
          else Some st }"

definition set_str_value :: "calc \<Rightarrow> sym \<Rightarrow> kst \<Rightarrow> kst option" where
  "set_str_value calc s st =
     do { (v, st) \<leftarrow> str_value calc s (set_curr s (VStr []) No st); Some (set_curr s v No st) }"

definition sym_value_body :: "calc \<Rightarrow> sym \<Rightarrow> kst \<Rightarrow> kst option" where
  "sym_value_body calc s st =
     (let x = tab st s; st = upd_sym s (\<lambda>x. x\<lparr>s_valid := True\<rparr>) st in
      if s_type x = S_UNKNOWN \<or> s_type x = S_OTHER
      then Some (set_curr s (case s_name x of Some n \<Rightarrow> VStr n | None \<Rightarrow> VSym None) No st)
      else
        do { let st = (if s_choiceval x then st else upd_sym s (\<lambda>x. x\<lparr>s_write := False\<rparr>) st);
             st \<leftarrow> sym_calc_visibility calc s st;
             st \<leftarrow> (if s_type x = S_BOOLEAN \<or> s_type x = S_TRISTATE then set_tri_value calc s st
                   else set_str_value calc s st);
             sym_finish_value calc s (s_val x, s_tri x) st })"

primrec sym_calc_value :: "nat \<Rightarrow> sym \<Rightarrow> kst \<Rightarrow> kst option" where
  "sym_calc_value 0 s st = None"
| "sym_calc_value (Suc n) s st =
     (if s_valid (tab st s) then Some st else sym_value_body (sym_calc_value n) s st)"

definition sym_clear_all_valid :: "nat \<Rightarrow> kst \<Rightarrow> kst option" where
  "sym_clear_all_valid n st =
     (let st = fold (\<lambda>s. upd_sym s (\<lambda>x. x\<lparr>s_valid := False\<rparr>)) (all_symbols st) st;
          st = st\<lparr>sym_change_count := cint (sym_change_count st + 1)\<rparr> in
      case modules_sym st of None \<Rightarrow> Some st | Some m \<Rightarrow> sym_calc_value n m st)"

end
