(* ===== verification/Kconf_Symbol_Props.thy ===== *)
theory Kconf_Symbol_Props
  imports Kconf_Symbol
begin

text \<open>
  The evaluation of symbols ends, also when symbols depend on each other in a circle, and keeps
  the typing of their values. The contract between \<open>sym_calc_value\<close> and the functions it calls,
  which call it back, is the locale \<open>evaluator\<close>.
\<close>

section \<open>Well-formed tables\<close>

fun is_str :: "kval \<Rightarrow> bool" where
  "is_str (VStr _) = True"
| "is_str (VSym _) = False"

abbreviation boolish :: "symbol_type \<Rightarrow> bool" where
  "boolish ty \<equiv> ty = S_BOOLEAN \<or> ty = S_TRISTATE"

text \<open>What the parser and \<open>sym_check_prop\<close> of \<open>menu.c\<close> guarantee of a symbol \<open>s\<close>: a choice is boolean or
  tristate and has a list of values and defaults that are symbols; the choice property of a choice
  value names its choice; the bounds of a range and the default of a string or number are not
  boolean or tristate; a string or number that the user has set has a string; and a symbol without
  a type has a name.\<close>

definition wf_symbol :: "kst \<Rightarrow> sym \<Rightarrow> bool" where
  "wf_symbol st s \<longleftrightarrow>
     (s_choice (tab st s) \<longrightarrow> choice_values st s \<noteq> None \<and> (s_type (tab st s) = S_BOOLEAN \<or> s_type (tab st s) = S_TRISTATE) \<and>
       (\<forall>p \<in> set (s_props (tab st s)). p_type p = P_DEFAULT \<longrightarrow> prop_get_symbol p \<noteq> None)) \<and>
     (s_choiceval (tab st s) \<longrightarrow> (\<exists>p c. sym_get_choice_prop st s = Some p \<and> prop_get_symbol p = Some c)) \<and>
     (\<forall>p \<in> set (s_props (tab st s)). p_type p = P_RANGE \<longrightarrow>
       (\<exists>a b. p_expr p = PRange a b \<and> \<not> boolish (s_type (tab st a)) \<and> \<not> boolish (s_type (tab st b)))) \<and>
     (\<not> boolish (s_type (tab st s)) \<longrightarrow> (s_def_user (tab st s) \<longrightarrow> is_str (s_user_val (tab st s))) \<and>
       (\<forall>p \<in> set (s_props (tab st s)). p_type p = P_DEFAULT \<longrightarrow>
         (\<forall>d. prop_get_symbol p = Some d \<longrightarrow> \<not> boolish (s_type (tab st d))))) \<and>
     (s_type (tab st s) = S_UNKNOWN \<or> s_type (tab st s) = S_OTHER \<longrightarrow> s_name (tab st s) \<noteq> None)"

abbreviation untyped :: "symbol_type \<Rightarrow> bool" where
  "untyped ty \<equiv> ty = S_UNKNOWN \<or> ty = S_OTHER"

text \<open>The typing of the current values: a string or number has a string, a symbol without a type has its
  name once it is valid, and a boolean symbol is not \<open>m\<close>.\<close>

definition typed :: "symbol \<Rightarrow> bool" where
  "typed x \<longleftrightarrow>
     (\<not> boolish (s_type x) \<and> \<not> untyped (s_type x) \<longrightarrow> is_str (s_val x)) \<and>
     (untyped (s_type x) \<and> s_valid x \<longrightarrow> (\<exists>n. s_name x = Some n \<and> s_val x = VStr n)) \<and>
     (s_type x = S_BOOLEAN \<longrightarrow> s_tri x \<noteq> Mod)"

definition invalid :: "kst \<Rightarrow> sym set" where
  "invalid st = {s. \<not> s_valid (tab st s)}"

definition good :: "kst \<Rightarrow> bool" where
  "good st \<longleftrightarrow> (\<forall>s. wf_symbol st s) \<and> (\<forall>s. typed (tab st s)) \<and> finite (invalid st)"

section \<open>What an evaluation may change\<close>

definition same_static :: "symbol \<Rightarrow> symbol \<Rightarrow> bool" where
  "same_static x y \<longleftrightarrow>
     s_name y = s_name x \<and> s_type y = s_type x \<and> s_user_val y = s_user_val x \<and> s_user_tri y = s_user_tri x \<and>
     s_props y = s_props x \<and> s_rev_dep y = s_rev_dep x \<and> s_const y = s_const x \<and> s_choice y = s_choice x \<and>
     s_choiceval y = s_choiceval x \<and> s_def_user y = s_def_user x \<and> s_auto y = s_auto x \<and>
     s_def_auto y = s_def_auto x \<and> s_auto_val y = s_auto_val x \<and> s_auto_tri y = s_auto_tri x"

text \<open>Evaluation computes missing values; the value of a valid symbol outside of \<open>A\<close> stays.\<close>

definition evolves :: "sym set \<Rightarrow> kst \<Rightarrow> kst \<Rightarrow> bool" where
  "evolves A st st' \<longleftrightarrow> hash st' = hash st \<and> used st' = used st \<and> modules_sym st' = modules_sym st \<and>
     (\<forall>s. same_static (tab st s) (tab st' s) \<and> (s_valid (tab st s) \<longrightarrow> s_valid (tab st' s)) \<and>
       (s_valid (tab st s) \<and> s \<notin> A \<longrightarrow> s_val (tab st' s) = s_val (tab st s) \<and> s_tri (tab st' s) = s_tri (tab st s)))"

lemma same_static_refl [simp]: "same_static x x"
  by (simp add: same_static_def)

lemma evolves_refl [simp]: "evolves A st st"
  by (simp add: evolves_def)

lemma evolves_trans:
  assumes "evolves A st st'" and "evolves A st' st''"
  shows "evolves A st st''"
  using assms unfolding evolves_def same_static_def by simp

lemma evolves_mono: "evolves A st st' \<Longrightarrow> A \<subseteq> B \<Longrightarrow> evolves B st st'"
  unfolding evolves_def by blast

lemma evolves_static: "evolves A st st' \<Longrightarrow> same_static (tab st s) (tab st' s)"
  by (simp add: evolves_def)

lemma evolves_simps:
  assumes "evolves A st st'"
  shows "s_props (tab st' s) = s_props (tab st s)" "s_choice (tab st' s) = s_choice (tab st s)"
    "s_type (tab st' s) = s_type (tab st s)" "s_choiceval (tab st' s) = s_choiceval (tab st s)"
    "s_user_val (tab st' s) = s_user_val (tab st s)" "s_name (tab st' s) = s_name (tab st s)"
    "sym_get_choice_prop st' s = sym_get_choice_prop st s" "choice_values st' s = choice_values st s"
    "props st' s = props st s" "s_def_user (tab st' s) = s_def_user (tab st s)"
  using evolves_static [OF assms, of s]
  by (simp_all add: same_static_def sym_get_choice_prop_def choice_values_def props_def)

lemma wf_symbol_evolves:
  assumes "evolves A st st'" and "wf_symbol st s"
  shows "wf_symbol st' s"
  using assms(2) unfolding wf_symbol_def evolves_simps [OF assms(1)] .

lemma invalid_evolves: "evolves A st st' \<Longrightarrow> invalid st' \<subseteq> invalid st"
  by (auto simp: evolves_def invalid_def)

definition step :: "sym set \<Rightarrow> kst \<Rightarrow> kst \<Rightarrow> bool" where
  "step A st st' \<longleftrightarrow> evolves A st st' \<and> good st'"

lemma step_refl: "good st \<Longrightarrow> step A st st"
  by (simp add: step_def)

lemma step_trans: "step A st st' \<Longrightarrow> step A st' st'' \<Longrightarrow> step A st st''"
  using evolves_trans by (auto simp: step_def)

lemma step_mono: "step A st st' \<Longrightarrow> A \<subseteq> B \<Longrightarrow> step B st st'"
  using evolves_mono by (auto simp: step_def)

lemma step_into: "step A st0 st \<Longrightarrow> step {} st st' \<Longrightarrow> step A st0 st'"
  using step_trans step_mono by blast

lemma step_card:
  assumes "step A st st'" and "good st"
  shows "card (invalid st') \<le> card (invalid st)"
  using assms card_mono [OF _ invalid_evolves] by (auto simp: step_def good_def)

lemma evolves_good:
  assumes "evolves A st st'" and "good st" and "\<And>s. typed (tab st' s)"
  shows "step A st st'"
proof -
  have "wf_symbol st' s" for s using wf_symbol_evolves [OF assms(1)] assms(2) by (simp add: good_def)
  moreover have "finite (invalid st')"
    using invalid_evolves [OF assms(1)] assms(2) by (auto simp: good_def intro: finite_subset)
  ultimately show ?thesis using assms(1,3) by (simp add: step_def good_def)
qed

text \<open>An update of one symbol that keeps what is typed and declared.\<close>

lemma step_upd_sym:
  assumes "good st" and "\<And>x. same_static x (f x)" and "\<And>x. s_valid x \<Longrightarrow> s_valid (f x)"
    and "s \<in> A \<or> (\<forall>x. s_val (f x) = s_val x \<and> s_tri (f x) = s_tri x)" and "typed (f (tab st s))"
  shows "step A st (upd_sym s f st)"
proof (rule evolves_good)
  show "evolves A st (upd_sym s f st)" using assms(2-4) by (auto simp: evolves_def upd_sym_def)
  show "typed (tab (upd_sym s f st) t)" for t using assms(1,5) by (auto simp: upd_sym_def good_def)
qed (rule assms(1))

lemma typed_quiet:
  "typed x \<Longrightarrow> same_static x y \<Longrightarrow> s_val y = s_val x \<Longrightarrow> s_tri y = s_tri x \<Longrightarrow> s_valid y = s_valid x \<Longrightarrow> typed y"
  by (simp add: typed_def same_static_def)

lemma step_quiet:
  assumes "good st" and "\<And>x. same_static x (f x) \<and> s_val (f x) = s_val x \<and> s_tri (f x) = s_tri x \<and> s_valid (f x) = s_valid x"
  shows "step A st (upd_sym s f st)"
proof (rule step_upd_sym [OF assms(1)])
  have "typed (tab st s)" using assms(1) by (simp add: good_def)
  then show "typed (f (tab st s))" using assms(2) typed_quiet by blast
qed (use assms(2) in auto)

lemma step_tab:
  assumes "good st" and "tab st' = tab st" and "hash st' = hash st" and "used st' = used st" and "modules_sym st' = modules_sym st"
  shows "step A st st'"
proof (rule evolves_good)
  show "evolves A st st'" using assms(2-) by (simp add: evolves_def)
  show "typed (tab st' t)" for t using assms(1,2) by (auto simp: good_def)
qed (rule assms(1))

lemma step_prop_tri: "good st \<Longrightarrow> step A st (set_prop_tri s i v st)"
  by (rule step_tab) (simp_all add: set_prop_tri_def)

lemma step_changed: "good st \<Longrightarrow> step A st (sym_set_changed s st)"
proof -
  assume g: "good st"
  have a: "step A st (upd_sym s (\<lambda>x. x\<lparr>s_changed := True\<rparr>) st)"
    by (rule step_quiet [OF g]) (simp add: same_static_def)
  then have "good (upd_sym s (\<lambda>x. x\<lparr>s_changed := True\<rparr>) st)" by (simp add: step_def)
  from step_tab [OF this] have "step A (upd_sym s (\<lambda>x. x\<lparr>s_changed := True\<rparr>) st) (sym_set_changed s st)"
    by (simp add: sym_set_changed_def Let_def)
  with a show ?thesis by (rule step_trans)
qed

lemma step_fold:
  assumes "good st" and "\<And>x st. good st \<Longrightarrow> step A st (f x st)"
  shows "step A st (fold f xs st)"
  using assms(1)
proof (induction xs arbitrary: st)
  case Nil
  then show ?case by (simp add: step_refl)
next
  case (Cons x xs)
  from assms(2) [OF Cons.prems] have "step A st (f x st)" "good (f x st)" by (auto simp: step_def)
  with Cons.IH show ?case by (auto intro: step_trans)
qed

lemma step_all_changed: "good st \<Longrightarrow> step A st (sym_set_all_changed st)"
  unfolding sym_set_all_changed_def by (rule step_fold) (auto intro: step_changed)

section \<open>Computations that return\<close>

definition yields :: "('a \<Rightarrow> bool) \<Rightarrow> 'a option \<Rightarrow> bool" where
  "yields P r \<longleftrightarrow> (\<exists>x. r = Some x \<and> P x)"

lemma yields_Some [simp]: "yields P (Some x) \<longleftrightarrow> P x"
  by (simp add: yields_def)

lemma yields_bind:
  assumes "yields P m" and "\<And>x. P x \<Longrightarrow> yields Q (f x)"
  shows "yields Q (Option.bind m f)"
  using assms by (auto simp: yields_def)

lemma yields_bind_pair:
  assumes "yields (\<lambda>(v, st). P v st) m" and "\<And>v st. P v st \<Longrightarrow> yields Q (f v st)"
  shows "yields Q (Option.bind m (\<lambda>(v, st). f v st))"
  using assms by (auto simp: yields_def)

lemma yields_mono: "yields P m \<Longrightarrow> (\<And>x. P x \<Longrightarrow> Q x) \<Longrightarrow> yields Q m"
  by (auto simp: yields_def)

lemma step_good: "step A st st' \<Longrightarrow> good st'"
  by (simp add: step_def)

lemma good_typed: "good st \<Longrightarrow> typed (tab st s)"
  by (simp add: good_def)

lemma good_wf: "good st \<Longrightarrow> wf_symbol st s"
  by (simp add: good_def)

text \<open>The parts of well-formedness.\<close>

lemma good_choice_type: "good st \<Longrightarrow> s_choice (tab st s) \<Longrightarrow> boolish (s_type (tab st s))"
  using good_wf [of st s] unfolding wf_symbol_def by blast

lemma good_choice_values: "good st \<Longrightarrow> s_choice (tab st s) \<Longrightarrow> choice_values st s \<noteq> None"
  using good_wf [of st s] unfolding wf_symbol_def by blast

lemma good_choice_defaults:
  "good st \<Longrightarrow> s_choice (tab st s) \<Longrightarrow> p \<in> set (s_props (tab st s)) \<Longrightarrow> p_type p = P_DEFAULT \<Longrightarrow> prop_get_symbol p \<noteq> None"
  using good_wf [of st s] unfolding wf_symbol_def by blast

lemma good_choice_value:
  "good st \<Longrightarrow> s_choiceval (tab st s) \<Longrightarrow> \<exists>p c. sym_get_choice_prop st s = Some p \<and> prop_get_symbol p = Some c"
  using good_wf [of st s] unfolding wf_symbol_def by blast

lemma good_range:
  "good st \<Longrightarrow> p \<in> set (s_props (tab st s)) \<Longrightarrow> p_type p = P_RANGE \<Longrightarrow>
    \<exists>a b. p_expr p = PRange a b \<and> \<not> boolish (s_type (tab st a)) \<and> \<not> boolish (s_type (tab st b))"
  using good_wf [of st s] unfolding wf_symbol_def by blast

lemma good_user: "good st \<Longrightarrow> \<not> boolish (s_type (tab st s)) \<Longrightarrow> s_def_user (tab st s) \<Longrightarrow> is_str (s_user_val (tab st s))"
  using good_wf [of st s] unfolding wf_symbol_def by blast

lemma good_default:
  "good st \<Longrightarrow> \<not> boolish (s_type (tab st s)) \<Longrightarrow> p \<in> set (s_props (tab st s)) \<Longrightarrow> p_type p = P_DEFAULT \<Longrightarrow>
    prop_get_symbol p = Some d \<Longrightarrow> \<not> boolish (s_type (tab st d))"
  using good_wf [of st s] unfolding wf_symbol_def by blast

lemma good_name:
  "good st \<Longrightarrow> s_type (tab st s) = S_UNKNOWN \<or> s_type (tab st s) = S_OTHER \<Longrightarrow> \<exists>n. s_name (tab st s) = Some n"
  using good_wf [of st s] unfolding wf_symbol_def by blast

text \<open>A state in which at most \<open>k\<close> symbols wait for their value.\<close>

definition fit :: "nat \<Rightarrow> kst \<Rightarrow> bool" where
  "fit k st \<longleftrightarrow> good st \<and> card (invalid st) < k"

lemma fit_step: "fit k st \<Longrightarrow> step A st st' \<Longrightarrow> fit k st'"
  using step_card by (fastforce simp: fit_def step_def)

lemma fit_good: "fit k st \<Longrightarrow> good st"
  by (simp add: fit_def)

section \<open>The contract of \<open>sym_calc_value\<close>\<close>

locale evaluator =
  fixes calc :: calc and k :: nat
  assumes calc_yields: "fit k st \<Longrightarrow> yields (\<lambda>st'. step {} st st' \<and> s_valid (tab st' s)) (calc s st)"
begin

lemma calc_step: "fit k st \<Longrightarrow> step A st0 st \<Longrightarrow> yields (\<lambda>st'. step A st0 st' \<and> fit k st') (calc s st)"
  using calc_yields [of st s] fit_step step_into by (fastforce simp: yields_def)

lemma step_type: "step A st st' \<Longrightarrow> s_type (tab st' s) = s_type (tab st s)"
  using evolves_simps(3) by (auto simp: step_def)

lemma step_valid: "step A st st' \<Longrightarrow> s_valid (tab st s) \<Longrightarrow> s_valid (tab st' s)"
  by (simp add: step_def evolves_def)

lemma valid_string: "good st \<Longrightarrow> s_valid (tab st s) \<Longrightarrow> \<exists>v. string_value st s = VStr v"
  using good_typed [of st s] by (cases "s_val (tab st s)") (auto simp: typed_def string_value_def)

text \<open>The two symbols of a comparison.\<close>

lemma compare_yields:
  assumes "fit k st" and "step A st0 st"
  shows "yields (\<lambda>(v, st'). step A st0 st' \<and> fit k st')
    (do { st \<leftarrow> calc x st; st \<leftarrow> calc y st; eq \<leftarrow> same_string st x y; Some (f eq :: tristate, st) })"
proof (rule yields_bind [OF calc_yields [OF assms(1), of x]], rule yields_bind [OF calc_yields [of _ y]])
  fix st1 st2
  assume st1: "step {} st st1 \<and> s_valid (tab st1 x)"
  show f1: "fit k st1" using st1 fit_step assms(1) by blast
  assume st2: "step {} st1 st2 \<and> s_valid (tab st2 y)"
  then have g: "good st2" "s_valid (tab st2 x)" using st1 step_valid step_good by blast+
  from valid_string [OF this] valid_string [OF g(1), of y] st2 obtain a b where
    "string_value st2 x = VStr a" "string_value st2 y = VStr b" by blast
  then have "same_string st2 x y = Some (a = b)" by (simp add: same_string_def)
  moreover have "step A st0 st2" using step_into [OF step_into [OF assms(2)]] st1 st2 by blast
  moreover have "fit k st2" using f1 st2 fit_step by blast
  ultimately show "yields (\<lambda>(v, st'). step A st0 st' \<and> fit k st') (do { eq \<leftarrow> same_string st2 x y; Some (f eq, st2) })"
    by simp
qed

lemma expr_eval_yields:
  "fit k st \<Longrightarrow> step A st0 st \<Longrightarrow> yields (\<lambda>(v, st'). step A st0 st' \<and> fit k st') (expr_eval calc e st)"
proof (induction e arbitrary: st)
  case (ESymbol s)
  then show ?case by (auto intro!: yields_bind [OF calc_step])
next
  case (ENot l)
  then show ?case by (auto intro!: yields_bind_pair [OF ENot.IH])
next
  case (EAnd l r)
  then show ?case by (auto intro!: yields_bind_pair [OF EAnd.IH(1)] yields_bind_pair [OF EAnd.IH(2)])
next
  case (EOr l r)
  then show ?case by (auto intro!: yields_bind_pair [OF EOr.IH(1)] yields_bind_pair [OF EOr.IH(2)])
next
  case (EEqual a b)
  then show ?case unfolding expr_eval.simps by (rule compare_yields)
next
  case (EUnequal a b)
  then show ?case unfolding expr_eval.simps by (rule compare_yields)
qed

lemma expr_eval_opt_yields:
  "fit k st \<Longrightarrow> step A st0 st \<Longrightarrow> yields (\<lambda>(v, st'). step A st0 st' \<and> fit k st') (expr_eval_opt calc e st)"
  by (cases e) (auto simp: expr_eval_opt_def intro: expr_eval_yields)

lemma prop_tri_step:
  "fit k st \<Longrightarrow> step A st0 st \<Longrightarrow> step A st0 (set_prop_tri s i v st) \<and> fit k (set_prop_tri s i v st)"
  using step_prop_tri fit_good fit_step step_trans by blast

lemma visible_prop_yields:
  "fit k st \<Longrightarrow> step A st0 st \<Longrightarrow>
    yields (\<lambda>(p, st'). step A st0 st' \<and> fit k st' \<and> (\<forall>q. p = Some q \<longrightarrow> q \<in> snd ` set ps \<and> p_type q = ty))
      (visible_prop calc ty s ps st)"
proof (induction ps arbitrary: st)
  case Nil
  then show ?case by simp
next
  case (Cons ip ps)
  obtain i p where ip: "ip = (i, p)" by (cases ip)
  have rest: "yields (\<lambda>(p', st'). step A st0 st' \<and> fit k st' \<and>
      (\<forall>q. p' = Some q \<longrightarrow> q \<in> snd ` set (ip # ps) \<and> p_type q = ty)) (visible_prop calc ty s ps st')"
    if "fit k st'" "step A st0 st'" for st'
    by (rule yields_mono [OF Cons.IH [OF that]]) auto
  show ?case
  proof (cases "p_type p = ty")
    case True
    show ?thesis
      unfolding ip visible_prop.simps
      using True prop_tri_step rest [unfolded ip]
      by (auto simp: Let_def intro!: yields_bind_pair [OF expr_eval_opt_yields [OF Cons.prems]])
  next
    case False
    with rest [OF Cons.prems] show ?thesis by (simp add: ip)
  qed
qed

lemma props_mem: "p \<in> snd ` set (props st s) \<longleftrightarrow> p \<in> set (s_props (tab st s))"
proof -
  have "snd ` set (props st s) = set (map snd (props st s))" by simp
  also have "map snd (props st s) = s_props (tab st s)" by (simp add: props_def)
  finally show ?thesis by blast
qed

lemma prop_expr_yields:
  "fit k st \<Longrightarrow> step A st0 st \<Longrightarrow> yields (\<lambda>(v, st'). step A st0 st' \<and> fit k st') (prop_expr_value calc p st)"
  by (cases "p_expr p") (auto simp: prop_expr_value_def intro: expr_eval_yields)

subsection \<open>Ranges\<close>

lemma strtol_yields:
  "good st \<Longrightarrow> \<not> boolish (s_type (tab st s)) \<Longrightarrow> s_valid (tab st s) \<Longrightarrow> \<exists>v. val_strtol (s_val (tab st s)) b = Some v"
  using good_typed [of st s] by (cases "s_val (tab st s)") (auto simp: typed_def val_strtol_def)

lemma step_choice: "step A st st' \<Longrightarrow> s_choice (tab st' s) = s_choice (tab st s)"
  using evolves_simps(2) by (auto simp: step_def)

lemma range_val_yields:
  assumes "fit k st" and "step A st0 st" and "\<not> boolish (s_type (tab st s))"
  shows "yields (\<lambda>(v, st'). step A st0 st' \<and> fit k st') (sym_get_range_val calc s base st)"
proof -
  have "yields (\<lambda>st'. step {} st st' \<and> s_valid (tab st' s)) (calc s st)" by (rule calc_yields [OF assms(1)])
  then show ?thesis unfolding sym_get_range_val_def
  proof (rule yields_bind)
    fix st'
    assume st': "step {} st st' \<and> s_valid (tab st' s)"
    then have "\<not> boolish (s_type (tab st' s))" using assms(3) step_type [of "{}" st st' s] by simp
    from strtol_yields [OF _ this] st' obtain v where
      "val_strtol (s_val (tab st' s)) (case s_type (tab st' s) of S_INT \<Rightarrow> 10 | S_HEX \<Rightarrow> 16 | _ \<Rightarrow> base) = Some v"
      using step_good by blast
    moreover have "step A st0 st'" using st' assms(2) step_into by blast
    ultimately show "yields (\<lambda>(v, st'). step A st0 st' \<and> fit k st')
        (let base = (case s_type (tab st' s) of S_INT \<Rightarrow> 10 | S_HEX \<Rightarrow> 16 | _ \<Rightarrow> base)
         in do { v \<leftarrow> val_strtol (s_val (tab st' s)) base; Some (v, st') })"
      using fit_step [OF assms(1)] st' by auto
  qed
qed

lemma set_str_step:
  assumes "fit k st" and "step A st0 st" and "s \<in> A" and "\<not> untyped (s_type (tab st s))"
  shows "step A st0 (upd_sym s (\<lambda>x. x\<lparr>s_val := VStr (g x)\<rparr>) st) \<and> fit k (upd_sym s (\<lambda>x. x\<lparr>s_val := VStr (g x)\<rparr>) st)"
proof -
  have "step A st (upd_sym s (\<lambda>x. x\<lparr>s_val := VStr (g x)\<rparr>) st)"
    using good_typed [OF fit_good [OF assms(1)], of s] assms(3,4)
    by (intro step_upd_sym [OF fit_good [OF assms(1)]]) (auto simp: same_static_def typed_def)
  with assms(1,2) fit_step step_trans show ?thesis by blast
qed

lemma range_check_yields:
  assumes "fit k st" and "step A st0 st" and "\<not> boolish (s_type (tab st hi))"
  shows "yields (\<lambda>(ok, v, st'). step A st0 st' \<and> fit k st') (range_check calc hi base val val2 st)"
  using assms(1,2) unfolding range_check_def by (auto intro!: yields_bind_pair [OF range_val_yields [OF assms]])

lemma range_clamp_yields:
  assumes f: "fit k st" and st: "step A st0 st" and s: "s \<in> A"
    and sv: "s_valid (tab st s)" and nt: "\<not> untyped (s_type (tab st s))"
    and nc: "\<not> boolish (s_type (tab st s))" "\<not> boolish (s_type (tab st lo))" "\<not> boolish (s_type (tab st hi))"
  shows "yields (\<lambda>st'. step A st0 st' \<and> fit k st') (range_clamp calc s base lo hi st)"
proof -
  from strtol_yields [OF fit_good [OF f] nc(1) sv] obtain val where v: "val_strtol (s_val (tab st s)) base = Some val" by blast
  show ?thesis unfolding range_clamp_def v bind.bind_lunit
  proof (rule yields_bind_pair [OF range_val_yields [OF f step_refl [OF fit_good [OF f]] nc(2)]])
    fix val2 st2
    assume st2: "step A st st2 \<and> fit k st2"
    then have s2: "step A st0 st2" using st step_trans by blast
    have "\<not> boolish (s_type (tab st2 hi))" using st2 nc(3) step_type [of A st st2 hi] by simp
    have nt2: "\<not> untyped (s_type (tab st3 s))" if "step A st0 st3" for st3
      using nt step_type [OF that, of s] step_type [OF st, of s] by simp
    with \<open>\<not> boolish (s_type (tab st2 hi))\<close> s2 show "yields (\<lambda>st'. step A st0 st' \<and> fit k st')
        (do { (ok, val2, st) \<leftarrow> range_check calc hi base val val2 st2;
              if ok then Some st
              else Some (upd_sym s (\<lambda>x. x\<lparr>s_val :=
                VStr (if s_type x = S_INT then sprintf_d val2 else sprintf_0x val2)\<rparr>) st) })"
      using st2 set_str_step [OF _ _ s nt2] by (intro yields_bind [OF range_check_yields]) (auto split: prod.splits)
  qed
qed

lemma validate_range_yields:
  assumes f: "fit k st" and st: "step A st0 st" and s: "s \<in> A" and sv: "s_valid (tab st s)"
  shows "yields (\<lambda>st'. step A st0 st' \<and> fit k st') (sym_validate_range calc s st)"
proof (cases "s_type (tab st s) = S_INT \<or> s_type (tab st s) = S_HEX")
  case False
  with f st show ?thesis by (auto simp: sym_validate_range_def)
next
  case True
  then have nc: "\<not> boolish (s_type (tab st s))" "\<not> untyped (s_type (tab st s))" by auto
  have rp: "yields (\<lambda>(p, st'). step {} st st' \<and> fit k st' \<and> (\<forall>q. p = Some q \<longrightarrow> q \<in> snd ` set (props st s) \<and> p_type q = P_RANGE))
      (sym_get_range_prop calc s st)"
    unfolding sym_get_range_prop_def by (rule visible_prop_yields [OF f step_refl [OF fit_good [OF f]]])
  have main: "yields (\<lambda>st'. step A st0 st' \<and> fit k st')
      (case p_expr q of PRange lo hi \<Rightarrow> range_clamp calc s base lo hi st1 | _ \<Rightarrow> None)"
    if st1: "step {} st st1" "fit k st1" and q: "q \<in> snd ` set (props st s)" "p_type q = P_RANGE" for q st1 base
  proof -
    from good_range [OF fit_good [OF f]] q obtain a b where ab: "p_expr q = PRange a b"
      "\<not> boolish (s_type (tab st a))" "\<not> boolish (s_type (tab st b))" unfolding props_mem by blast
    then show ?thesis
      using range_clamp_yields [OF st1(2) step_into [OF st st1(1)] s step_valid [OF st1(1) sv]] nc step_type [OF st1(1)] by simp
  qed
  show ?thesis
    unfolding sym_validate_range_def Let_def
    using True main step_into [OF st] by (auto intro!: yields_bind_pair [OF rp] split: option.splits)
qed

subsection \<open>Visibility and choices\<close>

lemma prompts_yields:
  "fit k st \<Longrightarrow> step A st0 st \<Longrightarrow>
    yields (\<lambda>(v, st'). step A st0 st' \<and> fit k st') (prompts_tri calc s ps tri st)"
proof (induction ps arbitrary: tri st)
  case Nil
  then show ?case by simp
next
  case (Cons ip ps)
  obtain i p where ip: "ip = (i, p)" by (cases ip)
  show ?case
  proof (cases "p_text p = None")
    case True
    with Cons ip show ?thesis by simp
  next
    case False
    then show ?thesis
      using Cons.IH prop_tri_step
      by (auto simp: ip intro!: yields_bind_pair [OF expr_eval_opt_yields [OF Cons.prems]])
  qed
qed

text \<open>Updates between two evaluations.\<close>

lemma quiet_then_changed:
  assumes "fit k st" and "step A st0 st"
    and "\<And>x. same_static x (g x) \<and> s_val (g x) = s_val x \<and> s_tri (g x) = s_tri x \<and> s_valid (g x) = s_valid x"
  shows "step A st0 (sym_set_changed s (upd_sym s g st)) \<and> fit k (sym_set_changed s (upd_sym s g st))"
proof -
  have a: "step A st (upd_sym s g st)" using step_quiet [OF fit_good [OF assms(1)] assms(3)] .
  then have "step A st (sym_set_changed s (upd_sym s g st))" using step_changed step_good step_trans by blast
  with assms(1,2) show ?thesis using step_trans fit_step by blast
qed

lemma quiet_step:
  assumes "fit k st" and "step A st0 st"
    and "\<And>x. same_static x (g x) \<and> s_val (g x) = s_val x \<and> s_tri (g x) = s_tri x \<and> s_valid (g x) = s_valid x"
  shows "step A st0 (upd_sym s g st) \<and> fit k (upd_sym s g st)"
  using step_quiet [OF fit_good [OF assms(1)] assms(3)] assms(1,2) step_trans fit_step by blast

lemma visible_step:
  assumes "fit k st" and "step A st0 st"
  shows "step A st0 (set_visible s t st) \<and> fit k (set_visible s t st)"
  unfolding set_visible_def Let_def
  using assms quiet_then_changed [OF assms, where s = s] by (simp add: same_static_def)

lemma rev_step:
  assumes "fit k st" and "step A st0 st"
  shows "step A st0 (set_rev_tri s t st) \<and> fit k (set_rev_tri s t st)"
  unfolding set_rev_tri_def Let_def
  using assms quiet_then_changed [OF assms, where s = s] by (simp add: same_static_def)

lemma rev_dep_yields:
  assumes "fit k st" and "step A st0 st"
  shows "yields (\<lambda>(v, st'). step A st0 st' \<and> fit k st') (case e of None \<Rightarrow> Some (No, st) | Some e \<Rightarrow> expr_eval calc e st)"
  using assms expr_eval_yields [OF assms] by (cases e) auto

lemma visibility_yields:
  assumes "fit k st" and "step A st0 st"
  shows "yields (\<lambda>st'. step A st0 st' \<and> fit k st') (sym_calc_visibility calc s st)"
  unfolding sym_calc_visibility_def Let_def
proof (rule yields_bind_pair [OF prompts_yields [OF assms]])
  fix tri st1
  assume "step A st0 st1 \<and> fit k st1"
  then have st: "step A st0 (set_visible s tri st1)" "fit k (set_visible s tri st1)" using visible_step by blast+
  then show "yields (\<lambda>st'. step A st0 st' \<and> fit k st')
      (if s_choiceval (tab (set_visible s tri st1) s) then Some (set_visible s tri st1)
       else do { (tri, st) \<leftarrow> (case s_rev_dep (tab (set_visible s tri st1) s) of None \<Rightarrow> Some (No, set_visible s tri st1)
                   | Some e \<Rightarrow> expr_eval calc e (set_visible s tri st1));
                 Some (set_rev_tri s tri st) })"
    using rev_step by (auto intro!: yields_bind_pair [OF rev_dep_yields [OF st(2,1)]])
qed

lemma first_visible_yields:
  "fit k st \<Longrightarrow> step A st0 st \<Longrightarrow> yields (\<lambda>(d, st'). step A st0 st' \<and> fit k st') (first_visible calc vs st)"
proof (induction vs arbitrary: st)
  case Nil
  then show ?case by simp
next
  case (Cons v vs)
  then show ?case by (auto intro!: yields_bind [OF visibility_yields [OF Cons.prems]])
qed

lemma choice_default_yields:
  "fit k st \<Longrightarrow> step A st0 st \<Longrightarrow> (\<forall>p \<in> snd ` set ps. p_type p = P_DEFAULT \<longrightarrow> prop_get_symbol p \<noteq> None) \<Longrightarrow>
    yields (\<lambda>(d, st'). step A st0 st' \<and> fit k st') (choice_default calc s ps st)"
proof (induction ps arbitrary: st)
  case Nil
  then show ?case by simp
next
  case (Cons ip ps)
  obtain i p where ip: "ip = (i, p)" by (cases ip)
  have rest: "yields (\<lambda>(d, st'). step A st0 st' \<and> fit k st') (choice_default calc s ps st')"
    if "step A st0 st' \<and> fit k st'" for st'
    using Cons.IH [of st'] Cons.prems(3) that by simp
  show ?case
  proof (cases "p_type p = P_DEFAULT")
    case False
    with rest Cons.prems ip show ?thesis by simp
  next
    case True
    with Cons.prems(3) ip obtain d where d: "prop_get_symbol p = Some d" by auto
    have "yields (\<lambda>(d, st'). step A st0 st' \<and> fit k st')
        (do { st \<leftarrow> sym_calc_visibility calc d st1;
              if s_visible (tab st d) \<noteq> No then Some (Some d, st) else choice_default calc s ps st })"
      if "step A st0 st1 \<and> fit k st1" for st1
      using that rest by (auto intro!: yields_bind [OF visibility_yields])
    then show ?thesis
      using True rest d prop_tri_step
      by (auto simp: ip Let_def intro!: yields_bind_pair [OF expr_eval_opt_yields [OF Cons.prems(1,2)]])
  qed
qed

lemma calc_choice_yields:
  assumes f: "fit k st" and st: "step A st0 st" and s: "s \<in> A" "s_choice (tab st s)"
  shows "yields (\<lambda>(d, st'). step A st0 st' \<and> fit k st') (sym_calc_choice calc s st)"
proof -
  note w = good_choice_defaults [OF fit_good [OF f] s(2)] good_choice_values [OF fit_good [OF f] s(2)]
  have user: "yields (\<lambda>(d, st'). step {} st st' \<and> fit k st')
      (case s_user_val (tab st s) of VSym (Some v) \<Rightarrow> first_visible calc [v] st | _ \<Rightarrow> Some (None, st))"
    using f step_refl [OF fit_good [OF f]] first_visible_yields [OF f step_refl [OF fit_good [OF f]]]
    by (auto split: kval.splits option.splits simp del: first_visible.simps)
  have defs: "yields (\<lambda>(d, st'). step {} st st' \<and> fit k st') (choice_default calc s (props st1 s) st1)"
    if st1: "step {} st st1 \<and> fit k st1" for st1
  proof -
    have "props st1 s = props st s" using st1 evolves_simps(9) by (auto simp: step_def)
    moreover have "\<forall>p \<in> snd ` set (props st s). p_type p = P_DEFAULT \<longrightarrow> prop_get_symbol p \<noteq> None"
      using w(1) by (simp add: props_mem Ball_def)
    ultimately show ?thesis using choice_default_yields st1 by auto
  qed
  have vals: "\<exists>vs. choice_values st1 s = Some vs" if "step {} st st1" for st1
    using that w(2) evolves_simps(8) [of "{}" st st1 s] by (auto simp: step_def)
  have reset: "step A st0 (upd_sym s (\<lambda>x. x\<lparr>s_tri := No\<rparr>) st1) \<and> fit k (upd_sym s (\<lambda>x. x\<lparr>s_tri := No\<rparr>) st1)"
    if st1: "step {} st st1 \<and> fit k st1" for st1
  proof -
    have "step A st1 (upd_sym s (\<lambda>x. x\<lparr>s_tri := No\<rparr>) st1)"
      using good_typed [of st1 s] st1 s(1) by (intro step_upd_sym) (auto simp: same_static_def typed_def fit_def)
    then show ?thesis using st1 step_into [OF st] step_trans fit_step by blast
  qed
  have last: "yields (\<lambda>(d, st'). step A st0 st' \<and> fit k st')
      (do { vs \<leftarrow> choice_values st1 s; (d, st) \<leftarrow> first_visible calc vs st1;
            if d \<noteq> None then Some (d, st) else Some (None, upd_sym s (\<lambda>x. x\<lparr>s_tri := No\<rparr>) st) })"
    if st1: "step {} st st1 \<and> fit k st1" for st1
    using vals [of st1] st1 step_into [OF st] reset
    by (auto intro!: yields_bind_pair [OF first_visible_yields [of st1 "{}" st]])
  show ?thesis
    unfolding sym_calc_choice_def
    using step_into [OF st]
    by (auto simp del: not_None_eq intro!: yields_bind_pair [OF user] yields_bind_pair [OF defs] last)
qed

subsection \<open>New values\<close>

lemma default_prop_yields:
  assumes "fit k st" and "step A st0 st"
  shows "yields (\<lambda>(p, st'). step A st0 st' \<and> fit k st' \<and>
    (\<forall>q. p = Some q \<longrightarrow> q \<in> set (s_props (tab st s)) \<and> p_type q = P_DEFAULT)) (sym_get_default_prop calc s st)"
  unfolding sym_get_default_prop_def
  by (rule yields_mono [OF visible_prop_yields [OF assms]]) (use props_mem in auto)

lemma write_step:
  assumes "fit k st" and "step A st0 st"
  shows "step A st0 (upd_sym s (\<lambda>x. x\<lparr>s_write := b\<rparr>) st) \<and> fit k (upd_sym s (\<lambda>x. x\<lparr>s_write := b\<rparr>) st)"
  using quiet_step [OF assms, of "\<lambda>x. x\<lparr>s_write := b\<rparr>" s] by (simp add: same_static_def)

lemma default_value_yields:
  assumes "fit k st" and "step A st0 st"
  shows "yields (\<lambda>(v, st'). step A st0 st' \<and> fit k st')
    (do { (p, st) \<leftarrow> sym_get_default_prop calc s st;
          case p of None \<Rightarrow> Some (No, st) | Some p \<Rightarrow> prop_expr_value calc p st })"
  by (auto intro!: yields_bind_pair [OF default_prop_yields [OF assms]] prop_expr_yields split: option.splits)

lemma choice_value_yields:
  assumes "fit k st" and "step A st0 st" and "s_choiceval (tab st s)"
  shows "yields (\<lambda>(v, st'). step A st0 st' \<and> fit k st') (choice_value_tri s st)"
  using good_choice_value [OF fit_good [OF assms(1)] assms(3)] assms by (auto simp: choice_value_tri_def)

lemma invisible_yields:
  assumes "fit k st" and "step A st0 st"
  shows "yields (\<lambda>(v, st'). step A st0 st' \<and> fit k st') (invisible_tri calc s st)"
  unfolding invisible_tri_def using write_step
  by (auto intro!: yields_bind_pair [OF default_prop_yields [OF assms]] prop_expr_yields split: option.splits)

lemma visible_yields:
  assumes "fit k st" and "step A st0 st"
  shows "yields (\<lambda>(v, st'). step A st0 st' \<and> fit k st') (visible_tri calc s st)"
proof -
  let ?st = "upd_sym s (\<lambda>x. x\<lparr>s_write := True\<rparr>) st"
  have w: "step A st0 ?st" "fit k ?st" using write_step [OF assms] by blast+
  have "yields (\<lambda>(v, st'). step A st0 st' \<and> fit k st')
      (if s_def_user (tab ?st s) then Some (s_user_tri (tab ?st s), ?st)
       else if \<not> s_choice (tab ?st s)
       then do { (p, st) \<leftarrow> sym_get_default_prop calc s ?st;
                 case p of None \<Rightarrow> Some (No, st) | Some p \<Rightarrow> prop_expr_value calc p st }
       else Some (No, ?st))"
    using w default_value_yields [OF w(2,1)] by simp
  then show ?thesis unfolding visible_tri_def Let_def by (rule yields_bind_pair) simp
qed

lemma tri_value_yields:
  assumes "fit k st" and "step A st0 st"
  shows "yields (\<lambda>(v, st'). step A st0 st' \<and> fit k st' \<and> (s_type (tab st' s) = S_BOOLEAN \<longrightarrow> v \<noteq> Mod)) (tri_value calc s st)"
  unfolding tri_value_def
proof (rule yields_bind_pair)
  show "yields (\<lambda>(v, st'). step A st0 st' \<and> fit k st')
      (if s_choiceval (tab st s) \<and> s_visible (tab st s) = Yes then choice_value_tri s st
       else if tri_or (s_visible (tab st s)) (s_rev_tri (tab st s)) \<noteq> No then visible_tri calc s st
       else if \<not> s_choice (tab st s) then invisible_tri calc s st
       else Some (No, st))"
    using assms choice_value_yields [OF assms] visible_yields [OF assms] invisible_yields [OF assms] by simp
qed (auto simp: sym_get_type_def)

lemma default_str_yields:
  assumes f: "fit k st" and st: "step A st0 st" and nc: "\<not> boolish (s_type (tab st s))"
  shows "yields (\<lambda>(v, st'). step A st0 st' \<and> fit k st' \<and> is_str v) (default_str calc s st)"
  unfolding default_str_def
proof (rule yields_bind_pair [OF default_prop_yields [OF f step_refl [OF fit_good [OF f]]]])
  fix p st1
  assume p: "step A st st1 \<and> fit k st1 \<and> (\<forall>q. p = Some q \<longrightarrow> q \<in> set (s_props (tab st s)) \<and> p_type q = P_DEFAULT)"
  then have st1: "step A st0 st1" "fit k st1" using st step_trans by blast+
  show "yields (\<lambda>(v, st'). step A st0 st' \<and> fit k st' \<and> is_str v)
      (case Option.bind p prop_get_symbol of None \<Rightarrow> Some (VStr [], st1)
       | Some ds \<Rightarrow> do { st \<leftarrow> calc ds (upd_sym s (\<lambda>x. x\<lparr>s_write := True\<rparr>) st1); Some (s_val (tab st ds), st) })"
  proof (cases "Option.bind p prop_get_symbol")
    case None
    with st1 show ?thesis by simp
  next
    case (Some d)
    then obtain q where "p = Some q" "prop_get_symbol q = Some d" by (cases p) auto
    with p good_default [OF fit_good [OF f] nc] have d: "\<not> boolish (s_type (tab st d))" by blast
    let ?u = "upd_sym s (\<lambda>x. x\<lparr>s_write := True\<rparr>) st1"
    have u: "step A st ?u" "fit k ?u" using write_step [of st1 A st] p by blast+
    have "yields (\<lambda>(v, st'). step A st0 st' \<and> fit k st' \<and> is_str v) (do { st \<leftarrow> calc d ?u; Some (s_val (tab st d), st) })"
    proof (rule yields_bind [OF calc_yields [OF u(2)]])
      fix st3
      assume c: "step {} ?u st3 \<and> s_valid (tab st3 d)"
      then have st3: "step A st st3 \<and> fit k st3" using u step_into fit_step by blast
      then have "\<not> boolish (s_type (tab st3 d))" using d step_type [of A st st3 d] by simp
      then have "is_str (s_val (tab st3 d))" using good_typed [of st3 d] st3 c by (auto simp: typed_def fit_def)
      then show "yields (\<lambda>(v, st'). step A st0 st' \<and> fit k st' \<and> is_str v) (Some (s_val (tab st3 d), st3))"
        using st3 step_trans [OF st] by simp
    qed
    with Some show ?thesis by simp
  qed
qed

lemma str_value_yields:
  assumes f: "fit k st" and st: "step A st0 st" and nc: "\<not> boolish (s_type (tab st s))"
  shows "yields (\<lambda>(v, st'). step A st0 st' \<and> fit k st' \<and> is_str v) (str_value calc s st)"
proof -
  let ?u = "upd_sym s (\<lambda>x. x\<lparr>s_write := True\<rparr>) st"
  have u: "step A st0 ?u" "fit k ?u" using write_step [OF f st] by blast+
  have nc': "\<not> boolish (s_type (tab ?u s))" using nc by (simp add: upd_sym_def)
  then have "s_def_user (tab ?u s) \<longrightarrow> is_str (s_user_val (tab ?u s))" using good_user [OF fit_good [OF u(2)]] by blast
  then show ?thesis
    using u default_str_yields [OF u(2,1) nc'] default_str_yields [OF f st nc] by (simp add: str_value_def Let_def)
qed

subsection \<open>The whole calculation\<close>

lemma curr_step:
  assumes "fit k st" and "step A st0 st" and "s \<in> A" and "\<not> untyped (s_type (tab st s))"
    and "\<not> boolish (s_type (tab st s)) \<longrightarrow> is_str v" and "s_type (tab st s) = S_BOOLEAN \<longrightarrow> t \<noteq> Mod"
  shows "step A st0 (set_curr s v t st) \<and> fit k (set_curr s v t st)"
proof -
  have "step A st (set_curr s v t st)" unfolding set_curr_def
    using assms(3-6) by (intro step_upd_sym [OF fit_good [OF assms(1)]]) (auto simp: same_static_def typed_def)
  then show ?thesis using assms(1,2) step_trans fit_step by blast
qed

lemma set_curr_fields [simp]:
  "s_choice (tab (set_curr s v t st) u) = s_choice (tab st u)" "s_type (tab (set_curr s v t st) u) = s_type (tab st u)"
  by (auto simp: set_curr_def upd_sym_def)

lemma choice_val_step:
  assumes "fit k st" and "step A st0 st" and "s \<in> A" and "s_choice (tab st s)"
  shows "step A st0 (upd_sym s (\<lambda>x. x\<lparr>s_val := VSym d\<rparr>) st) \<and> fit k (upd_sym s (\<lambda>x. x\<lparr>s_val := VSym d\<rparr>) st)"
proof -
  have "step A st (upd_sym s (\<lambda>x. x\<lparr>s_val := VSym d\<rparr>) st)"
    using good_typed [OF fit_good [OF assms(1)], of s] assms(3) good_choice_type [OF fit_good [OF assms(1)] assms(4)]
    by (intro step_upd_sym [OF fit_good [OF assms(1)]]) (auto simp: same_static_def typed_def)
  then show ?thesis using assms(1,2) step_trans fit_step by blast
qed

lemma set_tri_yields:
  assumes f: "fit k st" and st: "step A st0 st" and s: "s \<in> A" and ty: "\<not> untyped (s_type (tab st s))"
  shows "yields (\<lambda>st'. step A st0 st' \<and> fit k st') (set_tri_value calc s st)"
proof -
  let ?u = "set_curr s (VStr ''n'') No st"
  have u: "step A st0 ?u" "fit k ?u" using curr_step [OF f st s ty] by auto
  show ?thesis unfolding set_tri_value_def Let_def
  proof (rule yields_bind_pair [OF tri_value_yields [OF u(2,1)]])
    fix v st1
    assume st1: "step A st0 st1 \<and> fit k st1 \<and> (s_type (tab st1 s) = S_BOOLEAN \<longrightarrow> v \<noteq> Mod)"
    let ?w = "set_curr s (VStr ''n'') v st1"
    have "\<not> untyped (s_type (tab st1 s))"
      using ty step_type [of A st0 st1 s] step_type [OF st, of s] st1 by simp
    then have w: "step A st0 ?w" "fit k ?w" using curr_step [of st1 A st0 s "VStr ''n''" v] st1 s by auto
    have ch: "yields (\<lambda>st'. step A st0 st' \<and> fit k st')
        (do { (d, st) \<leftarrow> sym_calc_choice calc s ?w; Some (upd_sym s (\<lambda>x. x\<lparr>s_val := VSym d\<rparr>) st) })"
      if c: "s_choice (tab ?w s)"
    proof (rule yields_bind_pair [OF calc_choice_yields [OF w(2) step_refl [OF fit_good [OF w(2)]] s c]])
      fix d st2
      assume st2: "step A ?w st2 \<and> fit k st2"
      then have "s_choice (tab st2 s)" "step A st0 st2" using c step_choice w(1) step_trans by blast+
      with choice_val_step [of st2 A st0 s d] st2 s
      show "yields (\<lambda>st'. step A st0 st' \<and> fit k st') (Some (upd_sym s (\<lambda>x. x\<lparr>s_val := VSym d\<rparr>) st2))" by simp
    qed
    with w show "yields (\<lambda>st'. step A st0 st' \<and> fit k st')
        (if s_choice (tab ?w s) \<and> v = Yes
         then do { (d, st) \<leftarrow> sym_calc_choice calc s ?w; Some (upd_sym s (\<lambda>x. x\<lparr>s_val := VSym d\<rparr>) st) }
         else Some ?w)" by auto
  qed
qed

lemma set_str_yields:
  assumes f: "fit k st" and st: "step A st0 st" and s: "s \<in> A"
    and ty: "\<not> untyped (s_type (tab st s))" and nc: "\<not> boolish (s_type (tab st s))"
  shows "yields (\<lambda>st'. step A st0 st' \<and> fit k st') (set_str_value calc s st)"
proof -
  let ?u = "set_curr s (VStr []) No st"
  have u: "step A st0 ?u" "fit k ?u" using curr_step [OF f st s ty] by auto
  show ?thesis unfolding set_str_value_def
  proof (rule yields_bind_pair [OF str_value_yields [OF u(2,1)]])
    show "\<not> boolish (s_type (tab ?u s))" using nc by simp
    fix v st1
    assume st1: "step A st0 st1 \<and> fit k st1 \<and> is_str v"
    then have "\<not> untyped (s_type (tab st1 s))" using ty step_type [of A st0 st1 s] step_type [OF st, of s] by simp
    with st1 curr_step [OF _ _ s, of st1 st0 v No]
    show "yields (\<lambda>st'. step A st0 st' \<and> fit k st') (Some (set_curr s v No st1))" by simp
  qed
qed

lemma note_change_step:
  assumes "fit k st" and "step A st0 st"
  shows "step A st0 (note_change s old st) \<and> fit k (note_change s old st)"
proof -
  note g = fit_good [OF assms(1)]
  have "step A st (note_change s old st)"
  proof -
    have c: "step A st (sym_set_changed s st)" by (rule step_changed [OF g])
    have a: "step A st (sym_set_all_changed (sym_set_changed s st))"
      using c step_all_changed [OF step_good [OF c]] by (rule step_trans)
    have m: "step A st ((sym_set_all_changed (sym_set_changed s st))\<lparr>modules_val := v\<rparr>)" for v
      using a by (rule step_trans) (rule step_tab [OF step_good [OF a]], simp_all)
    show ?thesis using step_refl [OF g] c m by (simp add: note_change_def Let_def)
  qed
  then show ?thesis using assms step_trans fit_step by blast
qed

lemma mark_step: "good st \<Longrightarrow> step A st (mark_value c w v st)"
proof -
  assume g: "good st"
  have "step A st (upd_sym v (\<lambda>x. x\<lparr>s_changed := s_changed x \<or> c, s_write := s_write x \<or> w\<rparr>) st)"
    by (rule step_quiet [OF g]) (simp add: same_static_def)
  then show ?thesis using step_changed step_good step_trans by (auto simp: mark_value_def Let_def)
qed

lemma finish_yields:
  assumes f: "fit k st" and st: "step A st0 st" and s: "s \<in> A" and sv: "s_valid (tab st s)"
  shows "yields (\<lambda>st'. step A st0 st') (sym_finish_value calc s old st)"
  unfolding sym_finish_value_def Let_def
proof (rule yields_bind [OF validate_range_yields [OF f st s sv]])
  fix st1
  assume "step A st0 st1 \<and> fit k st1"
  then have n: "step A st0 (note_change s old st1)" "good (note_change s old st1)"
    using note_change_step fit_good by blast+
  have "step A st0 (fold (mark_value c w) vs (note_change s old st1))" for c w vs
    using n(1) step_fold [OF n(2) mark_step] by (rule step_trans)
  then show "yields (\<lambda>st'. step A st0 st')
      (if s_choice (tab (note_change s old st1) s)
       then do { vs \<leftarrow> choice_values (note_change s old st1) s;
                 Some (fold (mark_value (s_changed (tab (note_change s old st1) s))
                   (s_write (tab (note_change s old st1) s))) vs (note_change s old st1)) }
       else Some (note_change s old st1))"
    using n good_choice_values [OF n(2), of s] by auto
qed

end

lemma invalid_mark: "invalid (upd_sym s (\<lambda>x. x\<lparr>s_valid := True\<rparr>) st) = invalid st - {s}"
  by (auto simp: invalid_def upd_sym_def)

text \<open>The body of \<open>sym_calc_value\<close> for a symbol without a value: it is one of the symbols that wait, so
  that its callees find one less.\<close>

lemma value_body_untyped:
  assumes g: "good st" and s: "\<not> s_valid (tab st s)" and ty: "s_type (tab st s) = S_UNKNOWN \<or> s_type (tab st s) = S_OTHER"
  shows "yields (\<lambda>st'. step {} st st' \<and> s_valid (tab st' s)) (sym_value_body calc s st)"
proof -
  from good_name [OF g ty] obtain n where n: "s_name (tab st s) = Some n" by blast
  let ?f = "\<lambda>x. x\<lparr>s_valid := True, s_val := VStr n, s_tri := No\<rparr>"
  have "step {s} st (upd_sym s ?f st)"
    using ty n by (intro step_upd_sym [OF g]) (auto simp: same_static_def typed_def)
  then have "step {} st (upd_sym s ?f st)" using s by (auto simp: step_def evolves_def)
  moreover have "set_curr s (VStr n) No (upd_sym s (\<lambda>x. x\<lparr>s_valid := True\<rparr>) st) = upd_sym s ?f st"
    by (simp add: set_curr_def upd_sym_def)
  moreover have "s_valid (tab (upd_sym s ?f st) s)" by (simp add: upd_sym_def)
  ultimately show ?thesis using ty n by (simp add: sym_value_body_def Let_def)
qed

lemma mark_valid:
  assumes g: "good st" and c: "card (invalid st) < Suc k" and s: "\<not> s_valid (tab st s)"
    and ty: "\<not> untyped (s_type (tab st s))"
  defines "v \<equiv> upd_sym s (\<lambda>x. x\<lparr>s_valid := True\<rparr>) st"
  shows "fit k v" and "step {s} v st' \<Longrightarrow> step {} st st' \<and> s_valid (tab st' s)"
proof -
  have v: "step {s} st v" unfolding v_def
    using good_typed [OF g, of s] ty by (intro step_upd_sym [OF g]) (auto simp: same_static_def typed_def)
  have "s \<in> invalid st" "finite (invalid st)" using s g by (auto simp: invalid_def good_def)
  moreover from this have "0 < card (invalid st)" by (auto simp: card_gt_0_iff)
  ultimately show "fit k v"
    using c step_good [OF v] by (simp add: fit_def v_def invalid_mark card_Diff_singleton)
  assume st': "step {s} v st'"
  have "s_valid (tab v s)" by (simp add: v_def upd_sym_def)
  with st' have "s_valid (tab st' s)" by (simp add: step_def evolves_def)
  moreover have "step {s} st st'" using v st' by (rule step_trans)
  ultimately show "step {} st st' \<and> s_valid (tab st' s)" using s by (auto simp: step_def evolves_def)
qed

context evaluator
begin

lemma new_value_yields:
  assumes "fit k st" and "step {s} st0 st" and "s_type (tab st0 s) = ty" and "\<not> untyped ty"
  shows "yields (\<lambda>st'. step {s} st0 st' \<and> fit k st') (if boolish ty then set_tri_value calc s st else set_str_value calc s st)"
  using set_tri_yields [OF assms(1,2)] set_str_yields [OF assms(1,2)] step_type [OF assms(2), of s] assms(3,4) by auto

lemma value_body_yields:
  assumes g: "good st" and c: "card (invalid st) < Suc k" and s: "\<not> s_valid (tab st s)"
    and ty: "\<not> untyped (s_type (tab st s))"
  shows "yields (\<lambda>st'. step {} st st' \<and> s_valid (tab st' s)) (sym_value_body calc s st)"
proof -
  let ?v = "upd_sym s (\<lambda>x. x\<lparr>s_valid := True\<rparr>) st" and ?x = "tab st s"
  note fv = mark_valid(1) [OF g c s ty] and last = mark_valid(2) [OF g c s ty]
  let ?w = "if s_choiceval ?x then ?v else upd_sym s (\<lambda>x. x\<lparr>s_write := False\<rparr>) ?v"
  have r: "step {s} ?v ?v" by (rule step_refl [OF fit_good [OF fv]])
  have w: "step {s} ?v ?w" "fit k ?w" using write_step [OF fv r] r fv by auto
  have "s_type (tab ?v s) = s_type ?x" "s_valid (tab ?v s)" by (simp_all add: upd_sym_def)
  note nv = new_value_yields [OF _ _ this(1)] and valid = step_valid [OF _ this(2)]
  have "yields (\<lambda>st'. step {s} ?v st')
      (do { st \<leftarrow> sym_calc_visibility calc s ?w;
            st \<leftarrow> (if boolish (s_type ?x) then set_tri_value calc s st else set_str_value calc s st);
            sym_finish_value calc s (s_val ?x, s_tri ?x) st })"
    by (rule yields_bind [OF visibility_yields [OF w(2,1)]], rule yields_bind [OF nv], simp, simp, rule ty,
        rule finish_yields) (auto intro: valid)
  then have "yields (\<lambda>st'. step {} st st' \<and> s_valid (tab st' s))
      (do { st \<leftarrow> sym_calc_visibility calc s ?w;
            st \<leftarrow> (if boolish (s_type ?x) then set_tri_value calc s st else set_str_value calc s st);
            sym_finish_value calc s (s_val ?x, s_tri ?x) st })"
    using last by (rule yields_mono)
  with ty show ?thesis by (simp only: sym_value_body_def Let_def if_False)
qed

end

lemma evaluator_calc: "evaluator (sym_calc_value n) n"
proof (induction n)
  case 0
  show ?case by unfold_locales (simp add: fit_def)
next
  case (Suc n)
  show ?case
  proof
    fix st s
    assume f: "fit (Suc n) st"
    show "yields (\<lambda>st'. step {} st st' \<and> s_valid (tab st' s)) (sym_calc_value (Suc n) s st)"
    proof (cases "s_valid (tab st s)")
      case True
      with step_refl [OF fit_good [OF f]] show ?thesis by simp
    next
      case False
      with value_body_untyped [of st s] evaluator.value_body_yields [OF Suc.IH, of st s] f
      show ?thesis by (cases "s_type (tab st s) = S_UNKNOWN \<or> s_type (tab st s) = S_OTHER") (simp_all add: fit_def)
    qed
  qed
qed

interpretation ev: evaluator "sym_calc_value n" n for n
  by (rule evaluator_calc)

end
