(* ===== verification/Kconf_Symbol_Ops.thy ===== *)
theory Kconf_Symbol_Ops
  imports Kconf_Symbol_Props
begin

text \<open>
  The operations on the symbol table that the parser and the user interfaces call: lookup by name,
  setting and toggling values, and the check for circular dependencies.
\<close>

section \<open>Lookup by name\<close>

definition str_hash :: "string \<Rightarrow> nat" where
  "str_hash name = sum_list (map of_char name) mod 256"

definition builtin :: "string \<Rightarrow> sym option" where
  "builtin name =
     (if name = ''y'' then Some symbol_yes else if name = ''m'' then Some symbol_mod
      else if name = ''n'' then Some symbol_no else None)"

definition new_symbol :: "string option \<Rightarrow> bool \<Rightarrow> symbol" where
  "new_symbol name isconst =
     \<lparr>s_name = name, s_type = S_UNKNOWN, s_val = VSym None, s_tri = No, s_user_val = VSym None, s_user_tri = No,
      s_visible = No, s_props = [], s_rev_dep = None, s_rev_tri = No, s_const = isconst, s_check = False,
      s_choice = False, s_choiceval = False, s_valid = False, s_optional = False, s_write = False,
      s_changed = False, s_auto = False, s_checked = False, s_def_user = False,
      s_def_auto = False, s_auto_val = VSym None, s_auto_tri = No\<rparr>"

text \<open>The symbols \<open>y\<close>, \<open>m\<close> and \<open>n\<close>.\<close>

definition const_sym :: "string \<Rightarrow> tristate \<Rightarrow> symbol" where
  "const_sym n t = (new_symbol (Some n) True)\<lparr>s_valid := True, s_val := VStr n, s_tri := t\<rparr>"

definition insert_symbol :: "string option \<Rightarrow> bool \<Rightarrow> nat \<Rightarrow> kst \<Rightarrow> sym \<times> kst" where
  "insert_symbol name isconst h st =
     (let s = Sym (used st) in
      (s, st\<lparr>tab := (tab st)(s := new_symbol name isconst), hash := (hash st)(h := s # hash st h), used := Suc (used st)\<rparr>))"

definition sym_lookup :: "string option \<Rightarrow> bool \<Rightarrow> kst \<Rightarrow> sym \<times> kst" where
  "sym_lookup name isconst st =
     (case name of
        None \<Rightarrow> insert_symbol None isconst 256 st
      | Some n \<Rightarrow>
          (case builtin n of
             Some s \<Rightarrow> (s, st)
           | None \<Rightarrow>
               (case List.find (\<lambda>s. s_name (tab st s) = Some n \<and> s_const (tab st s) = isconst) (hash st (str_hash n)) of
                  Some s \<Rightarrow> (s, st)
                | None \<Rightarrow> insert_symbol (Some n) isconst (str_hash n) st)))"

definition sym_find :: "string option \<Rightarrow> kst \<Rightarrow> sym option" where
  "sym_find name st =
     (case name of
        None \<Rightarrow> None
      | Some n \<Rightarrow>
          (case builtin n of
             Some s \<Rightarrow> Some s
           | None \<Rightarrow> List.find (\<lambda>s. s_name (tab st s) = Some n \<and> \<not> s_const (tab st s)) (hash st (str_hash n))))"

text \<open>The matcher of the regular expression is an argument; \<open>None\<close> is a pattern that \<open>regcomp\<close>
  refuses.\<close>

definition sym_re_search :: "(string \<Rightarrow> (string \<Rightarrow> bool) option) \<Rightarrow> string \<Rightarrow> kst \<Rightarrow> sym list option" where
  "sym_re_search regcomp pattern st =
     (if pattern = [] then None
      else case regcomp pattern of
        None \<Rightarrow> None
      | Some re \<Rightarrow>
          (case filter (\<lambda>s. \<not> s_const (tab st s) \<and> (case s_name (tab st s) of None \<Rightarrow> False | Some n \<Rightarrow> re n)) (all_symbols st) of
             [] \<Rightarrow> None | ss \<Rightarrow> Some ss))"

text \<open>The new property is appended with its expression.\<close>

definition sym_add_default :: "sym \<Rightarrow> string \<Rightarrow> kst \<Rightarrow> kst" where
  "sym_add_default s d st =
     (let (c, st) = sym_lookup (Some d) True st in
      add_prop s ((prop_alloc P_DEFAULT s)\<lparr>p_expr := PExpr (ESymbol c)\<rparr>) st)"

text \<open>The three symbols that \<open>sym_init\<close> makes, with the values of \<open>getenv\<close> and \<open>uname\<close>.\<close>

definition init_symbol :: "string \<Rightarrow> string option \<Rightarrow> kst \<Rightarrow> kst" where
  "init_symbol name v st =
     (let (s, st) = sym_lookup (Some name) False st;
          st = upd_sym s (\<lambda>x. x\<lparr>s_type := S_STRING, s_auto := True\<rparr>) st in
      case v of None \<Rightarrow> st | Some v \<Rightarrow> sym_add_default s v st)"

definition sym_init :: "bool \<Rightarrow> string option \<Rightarrow> string option \<Rightarrow> string \<Rightarrow> kst \<Rightarrow> bool \<times> kst" where
  "sym_init inited arch kernelversion release st =
     (if inited then (inited, st)
      else (True, init_symbol ''UNAME_RELEASE'' (Some release)
                    (init_symbol ''KERNELVERSION'' kernelversion (init_symbol ''ARCH'' arch st))))"

section \<open>Setting values\<close>

definition sym_is_changable :: "kst \<Rightarrow> sym \<Rightarrow> bool" where
  "sym_is_changable st s \<longleftrightarrow> s_visible (tab st s) > s_rev_tri (tab st s)"

definition sym_tristate_within_range :: "kst \<Rightarrow> sym \<Rightarrow> tristate \<Rightarrow> bool" where
  "sym_tristate_within_range st s val =
     (let ty = sym_get_type st s; x = tab st s in
      if s_visible x = No then False
      else if ty \<noteq> S_BOOLEAN \<and> ty \<noteq> S_TRISTATE then False
      else if ty = S_BOOLEAN \<and> val = Mod then False
      else if s_visible x \<le> s_rev_tri x then False
      else if s_choiceval x \<and> s_visible x = Yes then val = Yes
      else val \<ge> s_rev_tri x \<and> val \<le> s_visible x)"

definition mark_user :: "sym \<Rightarrow> kst \<Rightarrow> kst" where
  "mark_user s st =
     (if s_def_user (tab st s) then st else sym_set_changed s (upd_sym s (\<lambda>x. x\<lparr>s_def_user := True\<rparr>) st))"

text \<open>Setting a choice value makes it the user's choice.\<close>

definition set_choice :: "sym \<Rightarrow> kst \<Rightarrow> kst option" where
  "set_choice s st =
     do { p \<leftarrow> sym_get_choice_prop st s;
          cs \<leftarrow> prop_get_symbol p;
          let st = upd_sym cs (\<lambda>x. x\<lparr>s_user_val := VSym (Some s), s_def_user := True\<rparr>) st;
          vs \<leftarrow> choice_values st cs;
          Some (fold (\<lambda>v st. if s_visible (tab st v) \<noteq> No then upd_sym v (\<lambda>x. x\<lparr>s_def_user := True\<rparr>) st else st) vs st) }"

definition sym_set_tristate_value :: "nat \<Rightarrow> sym \<Rightarrow> tristate \<Rightarrow> kst \<Rightarrow> (bool \<times> kst) option" where
  "sym_set_tristate_value n s val st =
     (let oldval = s_tri (tab st s) in
      if oldval \<noteq> val \<and> \<not> sym_tristate_within_range st s val then Some (False, st)
      else
        do { let st = mark_user s st;
             st \<leftarrow> (if s_choiceval (tab st s) \<and> val = Yes then set_choice s st else Some st);
             let st = upd_sym s (\<lambda>x. x\<lparr>s_user_tri := val\<rparr>) st;
             st \<leftarrow> (if oldval \<noteq> val then sym_clear_all_valid n st else Some st);
             Some (True, st) })"

fun next_tri :: "tristate \<Rightarrow> tristate" where
  "next_tri No = Mod"
| "next_tri Mod = Yes"
| "next_tri Yes = No"

text \<open>The loop of \<open>sym_toggle_tristate_value\<close>: \<open>d\<close> is the distance of the candidate from the old
  value in the cycle.\<close>

definition tri_dist :: "tristate \<Rightarrow> tristate \<Rightarrow> nat" where
  "tri_dist old v = (if v = old then 3 else if next_tri v = old then 1 else 2)"

function toggle_loop :: "nat \<Rightarrow> sym \<Rightarrow> tristate \<Rightarrow> tristate \<Rightarrow> kst \<Rightarrow> (tristate \<times> kst) option" where
  "toggle_loop n s oldval v st =
     (case sym_set_tristate_value n s (next_tri v) st of
        None \<Rightarrow> None
      | Some (ok, st') \<Rightarrow>
          if ok \<or> oldval = next_tri v then Some (next_tri v, st')
          else toggle_loop n s oldval (next_tri v) st')"
  by pat_completeness auto
termination
proof (relation "measure (\<lambda>(n, s, old, v, st). tri_dist old v)")
  fix n s old v st y ok st'
  assume "\<not> (ok \<or> old = next_tri v)"
  then show "((n, s, old, next_tri v, st'), n, s, old, v, st) \<in> measure (\<lambda>(n, s, old, v, st). tri_dist old v)"
    by (cases old; cases v) (simp_all add: tri_dist_def)
qed simp

definition sym_toggle_tristate_value :: "nat \<Rightarrow> sym \<Rightarrow> kst \<Rightarrow> (tristate \<times> kst) option" where
  "sym_toggle_tristate_value n s st = toggle_loop n s (s_tri (tab st s)) (s_tri (tab st s)) st"

definition tri_of_text :: "string \<Rightarrow> tristate option" where
  "tri_of_text str =
     (case str of
        c # _ \<Rightarrow> if c = CHR ''y'' \<or> c = CHR ''Y'' then Some Yes
                 else if c = CHR ''m'' \<or> c = CHR ''M'' then Some Mod
                 else if c = CHR ''n'' \<or> c = CHR ''N'' then Some No else None
      | [] \<Rightarrow> None)"

definition int_text_valid :: "string \<Rightarrow> bool" where
  "int_text_valid str =
     (let s = (case str of c # cs \<Rightarrow> if c = CHR ''-'' then cs else str | [] \<Rightarrow> []) in
      case s of
        [] \<Rightarrow> False
      | c # cs \<Rightarrow> isdigit c \<and> \<not> (c = CHR ''0'' \<and> cs \<noteq> []) \<and> list_all isdigit cs)"

definition hex_text_valid :: "string \<Rightarrow> bool" where
  "hex_text_valid str =
     (let s = (case str of c # x # cs \<Rightarrow> if c = CHR ''0'' \<and> (x = CHR ''x'' \<or> x = CHR ''X'') then cs else str | _ \<Rightarrow> str) in
      s \<noteq> [] \<and> list_all isxdigit s)"

definition sym_string_valid :: "symbol_type \<Rightarrow> string \<Rightarrow> bool" where
  "sym_string_valid ty str =
     (case ty of
        S_STRING \<Rightarrow> True
      | S_INT \<Rightarrow> int_text_valid str
      | S_HEX \<Rightarrow> hex_text_valid str
      | S_BOOLEAN \<Rightarrow> tri_of_text str \<noteq> None
      | S_TRISTATE \<Rightarrow> tri_of_text str \<noteq> None
      | _ \<Rightarrow> False)"

definition num_within_range :: "calc \<Rightarrow> sym \<Rightarrow> string \<Rightarrow> nat \<Rightarrow> kst \<Rightarrow> (bool \<times> kst) option" where
  "num_within_range calc s str base st =
     do { (pr, st) \<leftarrow> sym_get_range_prop calc s st;
          case pr of
            None \<Rightarrow> Some (True, st)
          | Some p \<Rightarrow>
              (case p_expr p of
                 PRange lo hi \<Rightarrow>
                   do { (a, st) \<leftarrow> sym_get_range_val calc lo base st;
                        if strtol str base \<ge> a
                        then do { (b, st) \<leftarrow> sym_get_range_val calc hi base st; Some (strtol str base \<le> b, st) }
                        else Some (False, st) }
               | _ \<Rightarrow> None) }"

definition sym_string_within_range :: "calc \<Rightarrow> sym \<Rightarrow> string \<Rightarrow> kst \<Rightarrow> (bool \<times> kst) option" where
  "sym_string_within_range calc s str st =
     (let ty = s_type (tab st s) in
      case ty of
        S_STRING \<Rightarrow> Some (sym_string_valid ty str, st)
      | S_INT \<Rightarrow> if \<not> sym_string_valid ty str then Some (False, st) else num_within_range calc s str 10 st
      | S_HEX \<Rightarrow> if \<not> sym_string_valid ty str then Some (False, st) else num_within_range calc s str 16 st
      | S_BOOLEAN \<Rightarrow> Some (case tri_of_text str of None \<Rightarrow> False | Some v \<Rightarrow> sym_tristate_within_range st s v, st)
      | S_TRISTATE \<Rightarrow> Some (case tri_of_text str of None \<Rightarrow> False | Some v \<Rightarrow> sym_tristate_within_range st s v, st)
      | _ \<Rightarrow> Some (False, st))"

text \<open>A hexadecimal number without its prefix gets it.\<close>

definition has_hex_prefix :: "string \<Rightarrow> bool" where
  "has_hex_prefix str =
     (case str of c # x # _ \<Rightarrow> c = CHR ''0'' \<and> (x = CHR ''x'' \<or> x = CHR ''X'') | _ \<Rightarrow> False)"

definition sym_set_string_value :: "nat \<Rightarrow> sym \<Rightarrow> string \<Rightarrow> kst \<Rightarrow> (bool \<times> kst) option" where
  "sym_set_string_value n s newval st =
     (if s_type (tab st s) = S_BOOLEAN \<or> s_type (tab st s) = S_TRISTATE
      then (case tri_of_text newval of None \<Rightarrow> Some (False, st) | Some v \<Rightarrow> sym_set_tristate_value n s v st)
      else
        do { (ok, st) \<leftarrow> sym_string_within_range (sym_calc_value n) s newval st;
             if \<not> ok then Some (False, st)
             else
               do { let st = mark_user s st;
                    let oldval = s_user_val (tab st s);
                    if s_type (tab st s) = S_HEX \<and> \<not> has_hex_prefix newval
                    then do { st \<leftarrow> sym_clear_all_valid n (upd_sym s (\<lambda>x. x\<lparr>s_user_val := VStr (''0x'' @ newval)\<rparr>) st);
                              Some (True, st) }
                    else if oldval \<noteq> VStr newval
                    then do { st \<leftarrow> sym_clear_all_valid n (upd_sym s (\<lambda>x. x\<lparr>s_user_val := VStr newval\<rparr>) st);
                              Some (True, st) }
                    else Some (True, st) } })"

section \<open>Circular dependencies\<close>

text \<open>A check returns the symbol at which a circle closes, what is printed, and the state. A sequence of
  checks ends with the first one that returns a symbol.\<close>

type_synonym check = "kst \<Rightarrow> (sym option \<times> string \<times> kst) option"

fun check_seq :: "check list \<Rightarrow> check" where
  "check_seq [] st = Some (None, [], st)"
| "check_seq (c # cs) st =
     do { (r, out, st) \<leftarrow> c st;
          case r of
            Some s \<Rightarrow> Some (Some s, out, st)
          | None \<Rightarrow> do { (r, out', st) \<leftarrow> check_seq cs st; Some (r, out @ out', st) } }"

primrec sym_check_expr_deps :: "(sym \<Rightarrow> check) \<Rightarrow> expr \<Rightarrow> check" where
  "sym_check_expr_deps chk (EOr l r) = check_seq [sym_check_expr_deps chk l, sym_check_expr_deps chk r]"
| "sym_check_expr_deps chk (EAnd l r) = check_seq [sym_check_expr_deps chk l, sym_check_expr_deps chk r]"
| "sym_check_expr_deps chk (ENot l) = sym_check_expr_deps chk l"
| "sym_check_expr_deps chk (EEqual a b) = check_seq [chk a, chk b]"
| "sym_check_expr_deps chk (EUnequal a b) = check_seq [chk a, chk b]"
| "sym_check_expr_deps chk (ESymbol s) = chk s"

definition check_opt_deps :: "(sym \<Rightarrow> check) \<Rightarrow> expr option \<Rightarrow> check" where
  "check_opt_deps chk e = (case e of None \<Rightarrow> check_seq [] | Some e \<Rightarrow> sym_check_expr_deps chk e)"

text \<open>The expression of a default that is no dependency expression is only complained about.\<close>

definition check_prop_expr :: "(sym \<Rightarrow> check) \<Rightarrow> pexpr \<Rightarrow> check" where
  "check_prop_expr chk pe =
     (case pe of
        PNone \<Rightarrow> check_seq []
      | PExpr e \<Rightarrow> sym_check_expr_deps chk e
      | PChoice vs \<Rightarrow> (\<lambda>st. Some (None, ''Oops! How to check 6?'' @ [CHR 0x0A], st))
      | PRange a b \<Rightarrow> (\<lambda>st. Some (None, ''Oops! How to check 8?'' @ [CHR 0x0A], st)))"

definition check_prop_deps :: "(sym \<Rightarrow> check) \<Rightarrow> bool \<Rightarrow> property \<Rightarrow> check list" where
  "check_prop_deps chk is_choice p =
     (if p_type p = P_CHOICE \<or> p_type p = P_SELECT then []
      else if p_type p \<noteq> P_DEFAULT \<or> is_choice then [check_opt_deps chk (p_visible p)]
      else [check_opt_deps chk (p_visible p), check_prop_expr chk (p_expr p)])"

definition printed_name :: "kst \<Rightarrow> sym \<Rightarrow> string" where
  "printed_name st s = (case s_name (tab st s) of Some n \<Rightarrow> n | None \<Rightarrow> ''(null)'')"

text \<open>The end of \<open>sym_check_deps\<close>: the circle is complete when it is back at the symbol.\<close>

definition check_out :: "sym \<Rightarrow> sym option \<times> string \<times> kst \<Rightarrow> sym option \<times> string \<times> kst" where
  "check_out s res =
     (case res of (r, out, st) \<Rightarrow>
        let st' = upd_sym s (\<lambda>x. x\<lparr>s_check := False\<rparr>) st in
        case r of
          None \<Rightarrow> (None, out, st')
        | Some s2 \<Rightarrow> if s2 = s then (None, out @ '' '' @ printed_name st s @ [CHR 0x0A], st')
                     else (Some s2, out @ '' '' @ printed_name st s, st'))"

primrec sym_check_deps :: "nat \<Rightarrow> sym \<Rightarrow> check" where
  "sym_check_deps 0 s st = None"
| "sym_check_deps (Suc n) s st =
     (let x = tab st s in
      if s_check x then Some (Some s, ''Warning! Found recursive dependency: '' @ printed_name st s, st)
      else if s_checked x then Some (None, [], st)
      else map_option (check_out s)
        (check_seq
          (check_opt_deps (sym_check_deps n) (s_rev_dep x) #
           concat (map (check_prop_deps (sym_check_deps n) (s_choice x)) (s_props x)))
          (upd_sym s (\<lambda>y. y\<lparr>s_check := True, s_checked := True\<rparr>) st)))"

end
