(* ===== verification/Kconf_Menu.thy ===== *)
theory Kconf_Menu
  imports Kconf_Symbol_Ops
begin

text \<open>
  The menus of the configurator, \<open>scripts/kconfig/menu.c\<close>: the tree that the parser builds, the
  properties it adds to symbols, and the questions the other parts ask about menus. A menu is a
  number, the root is 0, and the pointers of \<open>struct menu\<close> are optional numbers. Warnings are
  recorded as values. \<open>None\<close> as a result stands for a null pointer that is dereferenced, or for a
  loop over pointers that does not end.
\<close>

section \<open>Menus\<close>

text \<open>A prompt is a property of a symbol, given by its position, or a property that belongs to the
  menu alone. The value that \<open>menu_is_visible\<close> caches in a property of the second kind is set
  before each use and not kept here.\<close>

datatype prop_ref = SymProp sym nat | MenuProp property

record menu =
  m_next :: "nat option"
  m_parent :: "nat option"
  m_list :: "nat option"
  m_sym :: "sym option"
  m_prompt :: "prop_ref option"
  m_dep :: "expr option"

abbreviation (input) rootmenu :: nat where "rootmenu \<equiv> 0"

text \<open>What \<open>last_entry_ptr\<close> points at: the \<open>next\<close> or the \<open>list\<close> field of a menu.\<close>

datatype entry_ptr = NextOf nat | ListOf nat

datatype menu_warning =
    TypeRedefined "sym option" symbol_type symbol_type
  | LeadingSpace
  | PromptRedefined
  | DefaultNotSymbol sym
  | SelectNotBool sym
  | SelectUndefined sym sym
  | SelectWrongType sym
  | RangeNotNumber
  | RangeInvalid
  | DefconfigRedefined
  | ChoiceNoPrompt "sym option"
  | ChoicePrompts
  | ChoiceDefault
  | NoType sym
  | UnknownOption
  | MenuconfigNoPrompt

text \<open>\<open>warned\<close> is the flag \<open>SYMBOL_WARNED\<close> of symbols, which only \<open>menu_finalize\<close> uses.\<close>

record mst =
  menus :: "nat \<Rightarrow> menu"
  m_used :: nat
  current_entry :: nat
  current_menu :: "nat option"
  last_entry_ptr :: entry_ptr
  ksyms :: kst
  defconfig_list :: "sym option"
  warnings :: "menu_warning list"
  warned :: "sym \<Rightarrow> bool"

definition upd_menu :: "nat \<Rightarrow> (menu \<Rightarrow> menu) \<Rightarrow> mst \<Rightarrow> mst" where
  "upd_menu m f st = st\<lparr>menus := (menus st)(m := f (menus st m))\<rparr>"

definition new_menu :: "sym option \<Rightarrow> nat option \<Rightarrow> menu" where
  "new_menu s p = \<lparr>m_next = None, m_parent = p, m_list = None, m_sym = s, m_prompt = None, m_dep = None\<rparr>"

definition menu_warn :: "menu_warning \<Rightarrow> mst \<Rightarrow> mst" where
  "menu_warn w st = st\<lparr>warnings := warnings st @ [w]\<rparr>"

section \<open>Building the tree\<close>

definition menu_init :: "mst \<Rightarrow> mst" where
  "menu_init st = st\<lparr>current_entry := rootmenu, current_menu := Some rootmenu, last_entry_ptr := ListOf rootmenu\<rparr>"

text \<open>\<open>*last_entry_ptr = menu\<close>.\<close>

definition set_entry :: "entry_ptr \<Rightarrow> nat \<Rightarrow> mst \<Rightarrow> mst" where
  "set_entry p m =
     (case p of NextOf k \<Rightarrow> upd_menu k (\<lambda>x. x\<lparr>m_next := Some m\<rparr>) | ListOf k \<Rightarrow> upd_menu k (\<lambda>x. x\<lparr>m_list := Some m\<rparr>))"

definition menu_add_entry :: "sym option \<Rightarrow> mst \<Rightarrow> mst" where
  "menu_add_entry s st =
     (let m = m_used st;
          st = st\<lparr>menus := (menus st)(m := new_menu s (current_menu st)), m_used := Suc m\<rparr>;
          st = set_entry (last_entry_ptr st) m st in
      st\<lparr>last_entry_ptr := NextOf m, current_entry := m\<rparr>)"

definition menu_add_menu :: "mst \<Rightarrow> mst" where
  "menu_add_menu st = st\<lparr>last_entry_ptr := ListOf (current_entry st), current_menu := Some (current_entry st)\<rparr>"

definition menu_end_menu :: "mst \<Rightarrow> mst option" where
  "menu_end_menu st =
     do { m \<leftarrow> current_menu st;
          Some (st\<lparr>last_entry_ptr := NextOf m, current_menu := m_parent (menus st m)\<rparr>) }"

section \<open>Dependencies and properties\<close>

text \<open>The symbol \<open>m\<close> stands for \<open>m && MODULES\<close>.\<close>

primrec menu_check_dep :: "sym option \<Rightarrow> expr \<Rightarrow> expr option" where
  "menu_check_dep ms (ENot l) = do { l \<leftarrow> menu_check_dep ms l; Some (ENot l) }"
| "menu_check_dep ms (EOr l r) = do { l \<leftarrow> menu_check_dep ms l; r \<leftarrow> menu_check_dep ms r; Some (EOr l r) }"
| "menu_check_dep ms (EAnd l r) = do { l \<leftarrow> menu_check_dep ms l; r \<leftarrow> menu_check_dep ms r; Some (EAnd l r) }"
| "menu_check_dep ms (ESymbol s) =
     (if s = symbol_mod then do { m \<leftarrow> ms; expr_alloc_and (Some (ESymbol s)) (Some (ESymbol m)) } else Some (ESymbol s))"
| "menu_check_dep ms (EEqual a b) = Some (EEqual a b)"
| "menu_check_dep ms (EUnequal a b) = Some (EUnequal a b)"

definition check_dep :: "mst \<Rightarrow> expr option \<Rightarrow> expr option option" where
  "check_dep st e =
     (case e of None \<Rightarrow> Some None | Some e \<Rightarrow> map_option Some (menu_check_dep (modules_sym (ksyms st)) e))"

definition menu_add_dep :: "expr option \<Rightarrow> mst \<Rightarrow> mst option" where
  "menu_add_dep dep st =
     do { d \<leftarrow> check_dep st dep;
          Some (upd_menu (current_entry st) (\<lambda>x. x\<lparr>m_dep := expr_alloc_and (m_dep x) d\<rparr>) st) }"

definition upd_ksyms :: "(kst \<Rightarrow> kst) \<Rightarrow> mst \<Rightarrow> mst" where
  "upd_ksyms f st = st\<lparr>ksyms := f (ksyms st)\<rparr>"

definition menu_set_type :: "symbol_type \<Rightarrow> mst \<Rightarrow> mst option" where
  "menu_set_type ty st =
     do { s \<leftarrow> m_sym (menus st (current_entry st));
          let t = s_type (tab (ksyms st) s);
          Some (if t = ty then st
                else if t = S_UNKNOWN then upd_ksyms (upd_sym s (\<lambda>x. x\<lparr>s_type := ty\<rparr>)) st
                else menu_warn (TypeRedefined (Some s) t ty) st) }"

text \<open>A property is allocated with all its fields, at the end of the properties of the symbol of the
  current entry if it has one. Leading white space of a prompt is dropped.\<close>

definition attach_prop :: "property \<Rightarrow> mst \<Rightarrow> prop_ref \<times> mst" where
  "attach_prop p st =
     (case m_sym (menus st (current_entry st)) of
        None \<Rightarrow> (MenuProp p, st)
      | Some s \<Rightarrow> (SymProp s (length (s_props (tab (ksyms st) s))), upd_ksyms (add_prop s p) st))"

definition menu_add_prop ::
  "prop_type \<Rightarrow> string option \<Rightarrow> pexpr \<Rightarrow> expr option \<Rightarrow> mst \<Rightarrow> (prop_ref \<times> mst) option" where
  "menu_add_prop ty prompt e dep st =
     do { d \<leftarrow> check_dep st dep;
          let p = \<lparr>p_type = ty, p_text = map_option (dropWhile isspace) prompt, p_visible = d, p_expr = e,
                   p_menu = Some (current_entry st)\<rparr>;
          let (r, st) = attach_prop p st;
          case prompt of
            None \<Rightarrow> Some (r, st)
          | Some t \<Rightarrow>
              do { let st = (if t \<noteq> [] \<and> isspace (hd t) then menu_warn LeadingSpace st else st);
                   let st = (if m_prompt (menus st (current_entry st)) \<noteq> None then menu_warn PromptRedefined st else st);
                   Some (r, upd_menu (current_entry st) (\<lambda>x. x\<lparr>m_prompt := Some r\<rparr>) st) } }"

definition menu_add_prompt :: "prop_type \<Rightarrow> string option \<Rightarrow> expr option \<Rightarrow> mst \<Rightarrow> (prop_ref \<times> mst) option" where
  "menu_add_prompt ty prompt dep = menu_add_prop ty prompt PNone dep"

definition menu_add_expr :: "prop_type \<Rightarrow> pexpr \<Rightarrow> expr option \<Rightarrow> mst \<Rightarrow> mst option" where
  "menu_add_expr ty e dep st = map_option snd (menu_add_prop ty None e dep st)"

definition menu_add_symbol :: "prop_type \<Rightarrow> sym \<Rightarrow> expr option \<Rightarrow> mst \<Rightarrow> mst option" where
  "menu_add_symbol ty s dep st = map_option snd (menu_add_prop ty None (PExpr (ESymbol s)) dep st)"

datatype opt_token = T_OPT_MODULES | T_OPT_DEFCONFIG_LIST

definition menu_add_option :: "opt_token \<Rightarrow> mst \<Rightarrow> mst option" where
  "menu_add_option tok st =
     (let cur = m_sym (menus st (current_entry st)) in
      case tok of
        T_OPT_MODULES \<Rightarrow>
          do { m \<leftarrow> modules_sym (ksyms st);
               s \<leftarrow> cur;
               Some (upd_ksyms (add_prop m ((prop_alloc P_DEFAULT m)\<lparr>p_expr := PExpr (ESymbol s)\<rparr>)) st) }
      | T_OPT_DEFCONFIG_LIST \<Rightarrow>
          Some (if defconfig_list st = None then st\<lparr>defconfig_list := cur\<rparr>
                else if defconfig_list st \<noteq> cur then menu_warn DefconfigRedefined st else st))"

section \<open>Checking the properties of a symbol\<close>

text \<open>\<open>sym_string_valid\<close> reads the name only for some of the types.\<close>

definition name_valid :: "symbol_type \<Rightarrow> string option \<Rightarrow> bool option" where
  "name_valid ty name =
     (case name of
        Some n \<Rightarrow> Some (sym_string_valid ty n)
      | None \<Rightarrow> if ty = S_STRING then Some True else if ty = S_UNKNOWN \<or> ty = S_OTHER then Some False else None)"

definition menu_range_valid_sym :: "kst \<Rightarrow> sym \<Rightarrow> sym \<Rightarrow> bool option" where
  "menu_range_valid_sym st s s2 =
     (let ty = s_type (tab st s2) in
      if ty = S_INT \<or> ty = S_HEX then Some True
      else if ty = S_UNKNOWN then name_valid (s_type (tab st s)) (s_name (tab st s2))
      else Some False)"

definition is_bool_type :: "symbol_type \<Rightarrow> bool" where
  "is_bool_type ty \<longleftrightarrow> ty = S_BOOLEAN \<or> ty = S_TRISTATE"

definition check_default :: "kst \<Rightarrow> sym \<Rightarrow> property \<Rightarrow> menu_warning list option" where
  "check_default st s p =
     (if s_type (tab st s) = S_STRING \<or> s_type (tab st s) = S_INT \<or> s_type (tab st s) = S_HEX
      then (case p_expr p of
              PNone \<Rightarrow> None
            | PExpr (ESymbol _) \<Rightarrow> Some []
            | _ \<Rightarrow> Some [DefaultNotSymbol s])
      else Some [])"

definition check_select :: "kst \<Rightarrow> sym \<Rightarrow> property \<Rightarrow> menu_warning list option" where
  "check_select st s p =
     (if \<not> is_bool_type (s_type (tab st s)) then Some [SelectNotBool s]
      else do { s2 \<leftarrow> prop_get_symbol p;
                Some (if s_type (tab st s2) = S_UNKNOWN then [SelectUndefined s s2]
                      else if \<not> is_bool_type (s_type (tab st s2)) then [SelectWrongType s2] else []) })"

definition check_range :: "kst \<Rightarrow> sym \<Rightarrow> property \<Rightarrow> menu_warning list option" where
  "check_range st s p =
     (case p_expr p of
        PRange lo hi \<Rightarrow>
          do { a \<leftarrow> menu_range_valid_sym st s lo;
               b \<leftarrow> (if a then menu_range_valid_sym st s hi else Some False);
               Some ((if s_type (tab st s) \<noteq> S_INT \<and> s_type (tab st s) \<noteq> S_HEX then [RangeNotNumber] else []) @
                     (if b then [] else [RangeInvalid])) }
      | _ \<Rightarrow> None)"

definition check_prop :: "kst \<Rightarrow> sym \<Rightarrow> property \<Rightarrow> menu_warning list option" where
  "check_prop st s p =
     (case p_type p of
        P_DEFAULT \<Rightarrow> check_default st s p
      | P_SELECT \<Rightarrow> check_select st s p
      | P_RANGE \<Rightarrow> check_range st s p
      | _ \<Rightarrow> Some [])"

fun check_props :: "kst \<Rightarrow> sym \<Rightarrow> property list \<Rightarrow> menu_warning list option" where
  "check_props st s [] = Some []"
| "check_props st s (p # ps) = do { w \<leftarrow> check_prop st s p; ws \<leftarrow> check_props st s ps; Some (w @ ws) }"

definition sym_check_prop :: "sym \<Rightarrow> mst \<Rightarrow> mst option" where
  "sym_check_prop s st =
     do { ws \<leftarrow> check_props (ksyms st) s (s_props (tab (ksyms st) s));
          Some (st\<lparr>warnings := warnings st @ ws\<rparr>) }"

section \<open>Questions about menus\<close>

definition get_prop :: "kst \<Rightarrow> prop_ref \<Rightarrow> property option" where
  "get_prop st r =
     (case r of
        MenuProp p \<Rightarrow> Some p
      | SymProp s i \<Rightarrow> if i < length (s_props (tab st s)) then Some (s_props (tab st s) ! i) else None)"

text \<open>The part of \<open>menu_is_visible\<close> before its loop: the answer, or \<open>None\<close> if the children
  decide.\<close>

definition own_visible :: "calc \<Rightarrow> (nat \<Rightarrow> menu) \<Rightarrow> nat \<Rightarrow> kst \<Rightarrow> (bool option \<times> kst) option" where
  "own_visible calc M m st =
     (case m_prompt (M m) of
        None \<Rightarrow> Some (Some False, st)
      | Some r \<Rightarrow>
          do { (v, st) \<leftarrow>
                 (case m_sym (M m) of
                    Some s \<Rightarrow>
                      do { st \<leftarrow> calc s st;
                           case r of SymProp s' i \<Rightarrow> Some (prop_tri st (s', i), st) | MenuProp _ \<Rightarrow> None }
                  | None \<Rightarrow> do { p \<leftarrow> get_prop st r; expr_eval_opt calc (p_visible p) st });
               Some (if v \<noteq> No then (Some True, st)
                     else case m_sym (M m) of
                       None \<Rightarrow> (Some False, st)
                     | Some s \<Rightarrow> if s_tri (tab st s) = No then (Some False, st) else (None, st)) })"

text \<open>The loop over the children, which calls \<open>menu_is_visible\<close>.\<close>

partial_function (option) menus_visible ::
  "calc \<Rightarrow> (nat \<Rightarrow> menu) \<Rightarrow> nat option \<Rightarrow> kst \<Rightarrow> (bool \<times> kst) option" where
  "menus_visible calc M p st =
     (case p of
        None \<Rightarrow> Some (False, st)
      | Some m \<Rightarrow>
          do { (d, st) \<leftarrow> own_visible calc M m st;
               (v, st) \<leftarrow> (case d of Some v \<Rightarrow> Some (v, st) | None \<Rightarrow> menus_visible calc M (m_list (M m)) st);
               if v then Some (True, st) else menus_visible calc M (m_next (M m)) st })"

definition menu_is_visible :: "calc \<Rightarrow> (nat \<Rightarrow> menu) \<Rightarrow> nat \<Rightarrow> kst \<Rightarrow> (bool \<times> kst) option" where
  "menu_is_visible calc M m st =
     do { (d, st) \<leftarrow> own_visible calc M m st;
          case d of Some v \<Rightarrow> Some (v, st) | None \<Rightarrow> menus_visible calc M (m_list (M m)) st }"

text \<open>The translation of a prompt by \<open>gettext\<close> is the identity. The outer \<open>None\<close> is a null pointer
  that is dereferenced, the inner one the null pointer as a result.\<close>

definition menu_get_prompt :: "mst \<Rightarrow> nat \<Rightarrow> string option option" where
  "menu_get_prompt st m =
     (case m_prompt (menus st m) of
        Some r \<Rightarrow> do { p \<leftarrow> get_prop (ksyms st) r; Some (p_text p) }
      | None \<Rightarrow> (case m_sym (menus st m) of Some s \<Rightarrow> Some (s_name (tab (ksyms st) s)) | None \<Rightarrow> Some None))"

definition menu_get_root_menu :: "nat \<Rightarrow> nat" where
  "menu_get_root_menu m = rootmenu"

partial_function (option) menu_get_parent_menu :: "mst \<Rightarrow> nat \<Rightarrow> nat option" where
  "menu_get_parent_menu st m =
     (if m = rootmenu then Some m
      else case m_prompt (menus st m) of
        None \<Rightarrow> do { p \<leftarrow> m_parent (menus st m); menu_get_parent_menu st p }
      | Some r \<Rightarrow>
          do { q \<leftarrow> get_prop (ksyms st) r;
               if p_type q = P_MENU then Some m
               else do { p \<leftarrow> m_parent (menus st m); menu_get_parent_menu st p } })"

end
