(* ===== verification/Kconf_Util.thy ===== *)
theory Kconf_Util
  imports Prelude "HOL-Library.Monad_Syntax"
begin

text \<open>
  The helpers of the configurator in \<open>scripts/kconfig/util.c\<close>: growable strings, whose buffer is
  modelled with the number of bytes it really has, and the list of the files that were read.
\<close>

section \<open>Growable strings\<close>

text \<open>\<open>g_size\<close> is the number of bytes of the buffer, \<open>len\<close> what the code believes it is. The string
  needs a byte more than its length, and \<open>None\<close> is an access behind the buffer or a null pointer.\<close>

record gstr =
  g_s :: "string option"
  g_size :: nat
  g_len :: nat

definition str_new :: gstr where
  "str_new = \<lparr>g_s = Some [], g_size = 64, g_len = 16\<rparr>"

definition str_assign :: "string \<Rightarrow> gstr" where
  "str_assign s = \<lparr>g_s = Some s, g_size = length s + 1, g_len = length s + 1\<rparr>"

definition str_free :: "gstr \<Rightarrow> gstr" where
  "str_free gs = \<lparr>g_s = None, g_size = 0, g_len = 0\<rparr>"

text \<open>\<open>strcat\<close> into a buffer of \<open>sz\<close> bytes.\<close>

definition buf_strcat :: "nat \<Rightarrow> string \<Rightarrow> string \<Rightarrow> string option" where
  "buf_strcat sz d s = (if length d + length s < sz then Some (d @ s) else None)"

definition str_append :: "gstr \<Rightarrow> string \<Rightarrow> gstr option" where
  "str_append gs s =
     do { d \<leftarrow> g_s gs;
          let l = length d + length s + 1;
          let gs = (if l > g_len gs then gs\<lparr>g_size := l, g_len := l\<rparr> else gs);
          r \<leftarrow> buf_strcat (g_size gs) d s;
          Some (gs\<lparr>g_s := Some r\<rparr>) }"

text \<open>\<open>vsnprintf\<close> cuts the formatted text \<open>t\<close> to the buffer of 10000 bytes.\<close>

definition str_printf :: "gstr \<Rightarrow> string \<Rightarrow> gstr option" where
  "str_printf gs t = str_append gs (take 9999 t)"

definition str_get :: "gstr \<Rightarrow> string option" where
  "str_get gs = g_s gs"

text \<open>The code never believes in more bytes than there are, and the string is inside of the
  buffer.\<close>

definition gstr_ok :: "gstr \<Rightarrow> bool" where
  "gstr_ok gs \<longleftrightarrow> (case g_s gs of None \<Rightarrow> g_len gs = 0 | Some s \<Rightarrow> length s < g_size gs \<and> g_len gs \<le> g_size gs)"

lemma str_new_ok [simp]: "gstr_ok str_new"
  by (simp add: gstr_ok_def str_new_def)

lemma str_assign_ok [simp]: "gstr_ok (str_assign s)"
  by (simp add: gstr_ok_def str_assign_def)

lemma str_free_ok [simp]: "gstr_ok (str_free gs)"
  by (simp add: gstr_ok_def str_free_def)

lemma str_append_ok:
  assumes "gstr_ok gs" and "g_s gs = Some d"
  obtains gs' where "str_append gs s = Some gs'" and "gstr_ok gs'" and "g_s gs' = Some (d @ s)"
proof -
  let ?g = "if length d + length s + 1 > g_len gs
    then gs\<lparr>g_size := length d + length s + 1, g_len := length d + length s + 1\<rparr> else gs"
  have "str_append gs s = Some (?g\<lparr>g_s := Some (d @ s)\<rparr>)"
    using assms by (simp add: str_append_def gstr_ok_def buf_strcat_def Let_def)
  moreover have "gstr_ok (?g\<lparr>g_s := Some (d @ s)\<rparr>)" using assms by (simp add: gstr_ok_def)
  ultimately show thesis using that [of "?g\<lparr>g_s := Some (d @ s)\<rparr>"] by simp
qed

text \<open>Sequences of calls.\<close>

datatype gop = Append string | Printf string

primrec gstr_op :: "gop \<Rightarrow> gstr \<Rightarrow> gstr option" where
  "gstr_op (Append s) gs = str_append gs s"
| "gstr_op (Printf t) gs = str_printf gs t"

fun gstr_ops :: "gop list \<Rightarrow> gstr \<Rightarrow> gstr option" where
  "gstr_ops [] gs = Some gs"
| "gstr_ops (p # ps) gs = do { gs \<leftarrow> gstr_op p gs; gstr_ops ps gs }"

primrec gop_text :: "gop \<Rightarrow> string" where
  "gop_text (Append s) = s"
| "gop_text (Printf t) = take 9999 t"

section \<open>The list of files\<close>

text \<open>\<open>file_list\<close> with the newest file first; a file is its name. The file that \<open>file_lookup\<close> returns is
  the one of that name.\<close>

fun file_lookup :: "string \<Rightarrow> string list \<Rightarrow> string list" where
  "file_lookup name fl = (if name \<in> set fl then fl else name # fl)"

text \<open>The text of the dependency file.\<close>

fun dep_files :: "string list \<Rightarrow> string" where
  "dep_files [] = []"
| "dep_files [f] = CHR 0x09 # f @ [CHR 0x0A]"
| "dep_files (f # fs) = CHR 0x09 # f @ '' '' @ [CHR 0x5C, CHR 0x0A] @ dep_files fs"

definition dep_text :: "string list \<Rightarrow> string" where
  "dep_text fl =
     ''deps_config := '' @ [CHR 0x5C, CHR 0x0A] @ dep_files fl @
     CHR 0x0A # ''include/config/auto.conf: '' @ [CHR 0x5C, CHR 0x0A] @
     CHR 0x09 # ''$(deps_config)'' @ [CHR 0x0A, CHR 0x0A] @ ''$(deps_config): ;'' @ [CHR 0x0A]"

end
