(* ===== verification/Kconf_Conf.thy ===== *)
theory Kconf_Conf
  imports Kconf_Menu Kconf_Util
begin

text \<open>
  The configuration files of the configurator, \<open>scripts/kconfig/confdata.c\<close>: reading and writing
  of \<open>.config\<close>, and the files that the build derives from it. A file is the string of its
  characters; \<open>getenv\<close>, the success of file operations and the date are arguments. Warnings are
  recorded with the number of their line. \<open>None\<close> stands for a null pointer that is used, a buffer
  that is overrun, or a loop over pointers that does not end.
\<close>

abbreviation NUL :: char where "NUL \<equiv> CHR 0x00"
abbreviation NL :: char where "NL \<equiv> CHR 0x0A"
abbreviation CR :: char where "CR \<equiv> CHR 0x0D"
abbreviation BACKSLASH :: char where "BACKSLASH \<equiv> CHR 0x5C"
abbreviation QUOTE :: char where "QUOTE \<equiv> CHR 0x22"

section \<open>The two sets of saved values\<close>

datatype def_idx = S_DEF_USER | S_DEF_AUTO

definition def_flag :: "def_idx \<Rightarrow> symbol \<Rightarrow> bool" where
  "def_flag d x = (case d of S_DEF_USER \<Rightarrow> s_def_user x | S_DEF_AUTO \<Rightarrow> s_def_auto x)"

definition def_tri :: "def_idx \<Rightarrow> symbol \<Rightarrow> tristate" where
  "def_tri d x = (case d of S_DEF_USER \<Rightarrow> s_user_tri x | S_DEF_AUTO \<Rightarrow> s_auto_tri x)"

definition def_val :: "def_idx \<Rightarrow> symbol \<Rightarrow> kval" where
  "def_val d x = (case d of S_DEF_USER \<Rightarrow> s_user_val x | S_DEF_AUTO \<Rightarrow> s_auto_val x)"

definition set_def_flag :: "def_idx \<Rightarrow> bool \<Rightarrow> symbol \<Rightarrow> symbol" where
  "set_def_flag d b x = (case d of S_DEF_USER \<Rightarrow> x\<lparr>s_def_user := b\<rparr> | S_DEF_AUTO \<Rightarrow> x\<lparr>s_def_auto := b\<rparr>)"

definition set_def_tri :: "def_idx \<Rightarrow> tristate \<Rightarrow> symbol \<Rightarrow> symbol" where
  "set_def_tri d t x = (case d of S_DEF_USER \<Rightarrow> x\<lparr>s_user_tri := t\<rparr> | S_DEF_AUTO \<Rightarrow> x\<lparr>s_auto_tri := t\<rparr>)"

definition set_def_val :: "def_idx \<Rightarrow> kval \<Rightarrow> symbol \<Rightarrow> symbol" where
  "set_def_val d v x = (case d of S_DEF_USER \<Rightarrow> x\<lparr>s_user_val := v\<rparr> | S_DEF_AUTO \<Rightarrow> x\<lparr>s_auto_val := v\<rparr>)"

section \<open>Names of files\<close>

type_synonym env_fn = "string \<Rightarrow> string option"

definition conf_get_configname :: "env_fn \<Rightarrow> string" where
  "conf_get_configname getenv = (case getenv ''KCONFIG_CONFIG'' of Some n \<Rightarrow> n | None \<Rightarrow> ''.config'')"

abbreviation (input) SYMBOL_MAXLENGTH :: nat where "SYMBOL_MAXLENGTH \<equiv> 256"

definition isalnum :: "char \<Rightarrow> bool" where
  "isalnum c \<longleftrightarrow> isdigit c \<or> (65 \<le> (of_char c :: nat) \<and> (of_char c :: nat) \<le> 90) \<or>
     (97 \<le> (of_char c :: nat) \<and> (of_char c :: nat) \<le> 122)"

definition name_char :: "char \<Rightarrow> bool" where
  "name_char c \<longleftrightarrow> isalnum c \<or> c = CHR ''_''"

definition val_string :: "kval \<Rightarrow> string option" where
  "val_string v = (case v of VStr s \<Rightarrow> Some s | VSym _ \<Rightarrow> None)"

text \<open>The loop of \<open>conf_expand_value\<close>: \<open>res\<close> is what \<open>res_value\<close> holds.\<close>

function expand_loop :: "calc \<Rightarrow> string \<Rightarrow> string \<Rightarrow> kst \<Rightarrow> (string \<times> kst) option" where
  "expand_loop calc inp res st =
     (let pre = takeWhile (\<lambda>c. c \<noteq> CHR ''$'') inp in
      case dropWhile (\<lambda>c. c \<noteq> CHR ''$'') inp of
        [] \<Rightarrow> do { r \<leftarrow> buf_strcat SYMBOL_MAXLENGTH res inp; Some (r, st) }
      | _ # src \<Rightarrow>
          do { res \<leftarrow> buf_strcat SYMBOL_MAXLENGTH res pre;
               let name = takeWhile name_char src;
               if length name \<ge> SYMBOL_MAXLENGTH then None
               else
                 do { let (s, st) = sym_lookup (Some name) False st;
                      st \<leftarrow> calc s st;
                      v \<leftarrow> val_string (string_value st s);
                      res \<leftarrow> buf_strcat SYMBOL_MAXLENGTH res v;
                      expand_loop calc (dropWhile name_char src) res st } })"
  by pat_completeness auto
termination
proof (relation "measure (\<lambda>(_, inp, _, _). length inp)")
  fix calc inp res st pre x src
  assume "dropWhile (\<lambda>c. c \<noteq> CHR ''$'') inp = x # src"
  then have "length (x # src) \<le> length inp" by (metis length_dropWhile_le)
  then have "length (dropWhile name_char src) < length inp"
    using length_dropWhile_le [of name_char src] by simp
  then show "((calc, dropWhile name_char src, r, s), calc, inp, res, st) \<in> measure (\<lambda>(_, inp, _, _). length inp)"
    for r s by simp
qed simp

definition conf_expand_value :: "calc \<Rightarrow> string \<Rightarrow> kst \<Rightarrow> (string \<times> kst) option" where
  "conf_expand_value calc inp st = expand_loop calc inp [] st"

abbreviation (input) PATH_LIMIT :: nat where "PATH_LIMIT \<equiv> 4097"

definition conf_get_default_confname ::
  "calc \<Rightarrow> env_fn \<Rightarrow> (string \<Rightarrow> bool) \<Rightarrow> kst \<Rightarrow> (string \<times> kst) option" where
  "conf_get_default_confname calc getenv exists_file st =
     do { (name, st) \<leftarrow> conf_expand_value calc ''arch/$ARCH/defconfig'' st;
          case getenv ''srctree'' of
            None \<Rightarrow> Some (name, st)
          | Some env \<Rightarrow>
              do { fullname \<leftarrow> buf_strcat PATH_LIMIT (env @ ''/'') name;
                   Some (if exists_file fullname then fullname else name, st) } }"

section \<open>Reading\<close>

text \<open>\<open>fgets\<close> with a buffer of 1024 bytes: a line with its newline, or 1023 characters of it.\<close>

definition fgets_line :: "string \<Rightarrow> string \<times> string" where
  "fgets_line s =
     (let l = takeWhile (\<lambda>c. c \<noteq> NL) s; k = (if length l < 1023 then Suc (length l) else 1023) in
      (take k s, drop k s))"

function file_lines :: "string \<Rightarrow> string list" where
  "file_lines s = (if s = [] then [] else fst (fgets_line s) # file_lines (snd (fgets_line s)))"
  by pat_completeness auto
termination
  by (relation "measure length") (auto simp: fgets_line_def Let_def)

text \<open>The C string at a position of a buffer.\<close>

definition str_at :: "nat \<Rightarrow> string \<Rightarrow> string" where
  "str_at i buf = takeWhile (\<lambda>c. c \<noteq> NUL) (drop i buf)"

text \<open>The string up to the first \<open>c\<close> and the rest behind it, if there is one.\<close>

definition cut_at :: "char \<Rightarrow> string \<Rightarrow> (string \<times> string) option" where
  "cut_at c s = (case dropWhile (\<lambda>x. x \<noteq> c) s of [] \<Rightarrow> None | _ # r \<Rightarrow> Some (takeWhile (\<lambda>x. x \<noteq> c) s, r))"

text \<open>The symbol a line is about, with the type it gets when it is new among the saved values of the
  last build.\<close>

definition conf_symbol :: "def_idx \<Rightarrow> symbol_type \<Rightarrow> string \<Rightarrow> kst \<Rightarrow> sym option \<times> string list \<times> kst" where
  "conf_symbol d ty name st =
     (case d of
        S_DEF_USER \<Rightarrow>
          (case sym_find (Some name) st of
             None \<Rightarrow> (None, [''trying to assign nonexistent symbol '' @ name], st)
           | Some s \<Rightarrow> (Some s, [], st))
      | S_DEF_AUTO \<Rightarrow>
          (let (s, st) = sym_lookup (Some name) False st in
           (Some s, [], if s_type (tab st s) = S_UNKNOWN then upd_sym s (\<lambda>x. x\<lparr>s_type := ty\<rparr>) st else st)))"

text \<open>The unquoted string that follows an opening quote; a backslash protects the next character.\<close>

fun conf_unquote :: "string \<Rightarrow> string option" where
  "conf_unquote [] = None"
| "conf_unquote [c] = (if c = QUOTE then Some [] else None)"
| "conf_unquote (c # x # cs) =
     (if c = QUOTE then Some []
      else if c = BACKSLASH then map_option (Cons x) (conf_unquote cs)
      else map_option (Cons c) (conf_unquote (x # cs)))"

text \<open>The result of the part of the loop that depends on the first character of the line: whether
  the line is done (\<open>continue\<close>), the warnings, and the state.\<close>

type_synonym line_result = "bool \<times> string list \<times> kst"

definition reassigned :: "kst \<Rightarrow> sym \<Rightarrow> string list" where
  "reassigned st s = [''trying to reassign symbol '' @ printed_name st s]"

definition invalid_value :: "kst \<Rightarrow> sym \<Rightarrow> string \<Rightarrow> string list" where
  "invalid_value st s p = [''symbol value '' @ [CHR 0x27] @ p @ [CHR 0x27] @ '' invalid for '' @ printed_name st s]"

definition set_tri :: "def_idx \<Rightarrow> sym \<Rightarrow> tristate \<Rightarrow> kst \<Rightarrow> kst" where
  "set_tri d s t = upd_sym s (\<lambda>x. set_def_flag d True (set_def_tri d t x))"

text \<open>The label \<open>done\<close>.\<close>

definition set_string :: "def_idx \<Rightarrow> sym \<Rightarrow> string \<Rightarrow> kst \<Rightarrow> line_result" where
  "set_string d s p st =
     (if sym_string_valid (s_type (tab st s)) p
      then (False, [], upd_sym s (\<lambda>x. set_def_flag d True (set_def_val d (VStr p) x)) st)
      else (True, invalid_value st s p, st))"

definition set_quoted :: "def_idx \<Rightarrow> sym \<Rightarrow> string \<Rightarrow> kst \<Rightarrow> line_result" where
  "set_quoted d s p st =
     (case p of
        [] \<Rightarrow> (False, [], st)
      | c # q \<Rightarrow>
          if c \<noteq> QUOTE then (False, [], st)
          else case conf_unquote q of None \<Rightarrow> (True, [''invalid string found''], st) | Some v \<Rightarrow> set_string d s v st)"

definition assign_value :: "def_idx \<Rightarrow> sym \<Rightarrow> string \<Rightarrow> kst \<Rightarrow> line_result" where
  "assign_value d s p st =
     (let ty = s_type (tab st s); c = (case p of [] \<Rightarrow> NUL | c # _ \<Rightarrow> c) in
      if ty = S_TRISTATE \<and> c = CHR ''m'' then (False, [], set_tri d s Mod st)
      else if ty = S_TRISTATE \<or> ty = S_BOOLEAN
      then if c = CHR ''y'' then (False, [], set_tri d s Yes st)
           else if c = CHR ''n'' then (False, [], set_tri d s No st)
           else (False, invalid_value st s p, st)
      else if ty = S_OTHER
      then if c \<noteq> QUOTE then set_string d s p (upd_sym s (\<lambda>x. x\<lparr>s_type := S_STRING\<rparr>) st)
           else set_quoted d s p st
      else if ty = S_STRING then set_quoted d s p st
      else if ty = S_INT \<or> ty = S_HEX then set_string d s p st
      else (False, [], st))"

text \<open>A line \<open># CONFIG_FOO is not set\<close>.\<close>

definition unset_line :: "def_idx \<Rightarrow> string \<Rightarrow> kst \<Rightarrow> sym option \<times> line_result" where
  "unset_line d buf st =
     (if take 7 (drop 2 buf) \<noteq> ''CONFIG_'' then (None, True, [], st)
      else case cut_at (CHR '' '') (str_at 9 buf) of
        None \<Rightarrow> (None, True, [], st)
      | Some (name, p) \<Rightarrow>
          if take 10 p \<noteq> ''is not set'' then (None, True, [], st)
          else case conf_symbol d S_BOOLEAN name st of
            (None, w, st) \<Rightarrow> (None, False, w, st)
          | (Some s, w, st) \<Rightarrow>
              (Some s, False,
               if def_flag d (tab st s) then (reassigned st s, st)
               else if s_type (tab st s) = S_BOOLEAN \<or> s_type (tab st s) = S_TRISTATE then ([], set_tri d s No st)
               else ([], st)))"

text \<open>The text of a value ends at the newline, and a carriage return before the newline is
  dropped.\<close>

definition value_text :: "string \<Rightarrow> string" where
  "value_text p =
     (case cut_at NL p of
        None \<Rightarrow> p
      | Some (v, _) \<Rightarrow> if v \<noteq> [] \<and> last v = CR then butlast v else v)"

text \<open>A line \<open>CONFIG_FOO=...\<close>.\<close>

definition set_line :: "def_idx \<Rightarrow> string \<Rightarrow> kst \<Rightarrow> sym option \<times> line_result" where
  "set_line d buf st =
     (if take 7 buf \<noteq> ''CONFIG_'' then (None, True, [''unexpected data''], st)
      else case cut_at (CHR ''='') (str_at 7 buf) of
        None \<Rightarrow> (None, True, [], st)
      | Some (name, p) \<Rightarrow>
          (case conf_symbol d S_OTHER name st of
            (None, w, st) \<Rightarrow> (None, False, w, st)
          | (Some s, w, st) \<Rightarrow>
              (Some s, if def_flag d (tab st s) then (False, reassigned st s, st)
                       else assign_value d s (value_text p) st)))"

text \<open>What a value does to the choice it belongs to.\<close>

definition choice_line :: "def_idx \<Rightarrow> sym \<Rightarrow> kst \<Rightarrow> (string list \<times> kst) option" where
  "choice_line d s st =
     do { p \<leftarrow> sym_get_choice_prop st s;
          cs \<leftarrow> prop_get_symbol p;
          let t = def_tri d (tab st s);
          let ct = def_tri d (tab st cs);
          let clash = (t = Mod \<and> ct = Yes \<or> t = Yes \<and> ct \<noteq> No);
          let st = (if clash then upd_sym cs (set_def_flag d False) st
                    else if t = Yes then upd_sym cs (set_def_val d (VSym (Some s))) st else st);
          Some (if clash then [printed_name st s @ '' creates inconsistent choice state''] else [],
                upd_sym cs (\<lambda>x. set_def_tri d (tri_or (def_tri d x) t) x) st) }"

text \<open>The switch over the first character of the line.\<close>

definition conf_switch :: "def_idx \<Rightarrow> string \<Rightarrow> kst \<Rightarrow> sym option \<times> line_result" where
  "conf_switch d buf st =
     (if hd buf = CHR ''#'' then unset_line d buf st
      else if hd buf = CHR ''C'' then set_line d buf st
      else if hd buf = CR \<or> hd buf = NL then (None, False, [], st)
      else (None, True, [''unexpected data''], st))"

text \<open>One turn of the loop. The buffer holds the line, its terminator, and \<open>stale\<close>, what earlier lines
  have left behind it.\<close>

definition conf_line :: "def_idx \<Rightarrow> string \<Rightarrow> string \<Rightarrow> kst \<Rightarrow> (string list \<times> kst) option" where
  "conf_line d stale line st =
     (case conf_switch d (line @ NUL # stale) st of
        (None, _, w, st) \<Rightarrow> Some (w, st)
      | (Some s, stop, w, st) \<Rightarrow>
          if \<not> stop \<and> s_choiceval (tab st s)
          then do { (w', st) \<leftarrow> choice_line d s st; Some (w @ w', st) }
          else Some (w, st))"

fun conf_lines :: "def_idx \<Rightarrow> (nat \<Rightarrow> string) \<Rightarrow> nat \<Rightarrow> string list \<Rightarrow> kst \<Rightarrow> ((nat \<times> string) list \<times> kst) option" where
  "conf_lines d stale n [] st = Some ([], st)"
| "conf_lines d stale n (l # ls) st =
     do { (w, st) \<leftarrow> conf_line d (stale n) l st;
          (ws, st) \<leftarrow> conf_lines d stale (Suc n) ls st;
          Some (map (Pair (Suc n)) w @ ws, st) }"

text \<open>Before the first line all saved values are forgotten.\<close>

definition reset_symbol :: "def_idx \<Rightarrow> symbol \<Rightarrow> symbol" where
  "reset_symbol d x =
     set_def_flag d (s_choice x) (set_def_tri d No (set_def_val d (VSym None) (x\<lparr>s_changed := True, s_valid := False\<rparr>)))"

definition conf_reset :: "def_idx \<Rightarrow> kst \<Rightarrow> kst" where
  "conf_reset d st = fold (\<lambda>s. upd_sym s (reset_symbol d)) (all_symbols st) st"

text \<open>The text of a file that can be read, also below \<open>$srctree\<close>.\<close>

type_synonym files = "string \<Rightarrow> string option"

definition zconf_fopen :: "env_fn \<Rightarrow> files \<Rightarrow> string \<Rightarrow> string option option" where
  "zconf_fopen getenv fs name =
     (if fs name \<noteq> None \<or> (name \<noteq> [] \<and> hd name = CHR ''/'') then Some (fs name)
      else case getenv ''srctree'' of
        None \<Rightarrow> Some None
      | Some env \<Rightarrow> do { fullname \<leftarrow> buf_strcat PATH_LIMIT (env @ ''/'') name; Some (fs fullname) })"

text \<open>The search for a default configuration: the defaults of \<open>sym_defconfig_list\<close> in order.\<close>

fun default_config :: "calc \<Rightarrow> env_fn \<Rightarrow> files \<Rightarrow> property list \<Rightarrow> kst \<Rightarrow> (string option \<times> kst) option" where
  "default_config calc getenv fs [] st = Some (None, st)"
| "default_config calc getenv fs (p # ps) st =
     (if p_type p \<noteq> P_DEFAULT then default_config calc getenv fs ps st
      else
        do { (v, st) \<leftarrow> expr_eval_opt calc (p_visible p) st;
             if v = No then default_config calc getenv fs ps st
             else case p_expr p of
               PNone \<Rightarrow> None
             | PExpr (ESymbol s) \<Rightarrow>
                 do { n \<leftarrow> s_name (tab st s);
                      (name, st) \<leftarrow> conf_expand_value calc n st;
                      inp \<leftarrow> zconf_fopen getenv fs name;
                      if inp \<noteq> None then Some (inp, st) else default_config calc getenv fs ps st }
             | _ \<Rightarrow> default_config calc getenv fs ps st })"

text \<open>The file that \<open>conf_read_simple\<close> reads.\<close>

definition conf_open ::
  "calc \<Rightarrow> env_fn \<Rightarrow> files \<Rightarrow> sym option \<Rightarrow> string option \<Rightarrow> kst \<Rightarrow> (string option \<times> kst) option" where
  "conf_open calc getenv fs deflist name st =
     (case name of
        Some n \<Rightarrow> do { inp \<leftarrow> zconf_fopen getenv fs n; Some (inp, st) }
      | None \<Rightarrow>
          do { inp \<leftarrow> zconf_fopen getenv fs (conf_get_configname getenv);
               if inp \<noteq> None then Some (inp, st)
               else
                 do { let st = st\<lparr>sym_change_count := cint (sym_change_count st + 1)\<rparr>;
                      case deflist of
                        None \<Rightarrow> Some (None, st)
                      | Some l \<Rightarrow> default_config calc getenv fs (s_props (tab st l)) st } })"

text \<open>The result is \<open>None\<close> for the return value 1, and the warnings for 0.\<close>

definition conf_read_simple ::
  "nat \<Rightarrow> env_fn \<Rightarrow> files \<Rightarrow> (nat \<Rightarrow> string) \<Rightarrow> sym option \<Rightarrow> string option \<Rightarrow> def_idx \<Rightarrow> kst \<Rightarrow>
     ((nat \<times> string) list option \<times> kst) option" where
  "conf_read_simple n getenv fs stale deflist name d st =
     do { (inp, st) \<leftarrow> conf_open (sym_calc_value n) getenv fs deflist name st;
          case inp of
            None \<Rightarrow> Some (None, st)
          | Some text \<Rightarrow>
              do { (ws, st) \<leftarrow> conf_lines d stale 0 (file_lines text) (conf_reset d st);
                   st \<leftarrow> (case modules_sym st of None \<Rightarrow> Some st | Some m \<Rightarrow> sym_calc_value n m st);
                   Some (Some ws, st) } }"

end
