(* ===== verification/Kconf_Conf_Write.thy ===== *)
theory Kconf_Conf_Write
  imports Kconf_Conf
begin

text \<open>
  The second half of \<open>scripts/kconfig/confdata.c\<close>: the check of the values after reading, the
  writing of \<open>.config\<close>, and \<open>auto.conf\<close>, \<open>autoconf.h\<close> and the files that the dependencies of the
  build are made of.
\<close>

section \<open>Checking what was read\<close>

text \<open>Whether the calculated value of a symbol agrees with the saved one.\<close>

definition saved_agrees :: "symbol \<Rightarrow> bool option" where
  "saved_agrees x =
     (if s_choice x \<or> s_auto x then Some True
      else if s_def_user x \<and> s_write x
      then if s_type x = S_BOOLEAN \<or> s_type x = S_TRISTATE then Some (s_user_tri x = s_tri x)
           else do { a \<leftarrow> val_string (s_val x); b \<leftarrow> val_string (s_user_val x); Some (a = b) }
      else Some (\<not> s_def_user x \<and> \<not> s_write x))"

text \<open>A saved value that cannot be used is dropped.\<close>

definition drop_saved :: "calc \<Rightarrow> sym \<Rightarrow> kst \<Rightarrow> kst option" where
  "drop_saved calc s st =
     (if \<not> s_def_user (tab st s) \<or> s_choiceval (tab st s) then Some st
      else
        do { let st = (if s_visible (tab st s) = No then upd_sym s (\<lambda>x. x\<lparr>s_def_user := False\<rparr>) st else st);
             if s_type (tab st s) = S_INT \<or> s_type (tab st s) = S_HEX
             then do { v \<leftarrow> val_string (s_user_val (tab st s));
                       (ok, st) \<leftarrow> sym_string_within_range calc s v st;
                       Some (if ok then st else upd_sym s (\<lambda>x. x\<lparr>s_valid := False, s_def_user := False\<rparr>) st) }
             else Some st })"

text \<open>A choice counts as set by the user if all its visible values are.\<close>

definition check_choice :: "sym \<Rightarrow> kst \<Rightarrow> kst option" where
  "check_choice s st =
     (if \<not> s_choice (tab st s) then Some st
      else
        do { vs \<leftarrow> choice_values st s;
             let all = list_all (\<lambda>v. s_visible (tab st v) = No \<or> s_def_user (tab st v)) vs;
             Some (upd_sym s (\<lambda>x. x\<lparr>s_def_user := s_def_user x \<and> all\<rparr>) st) })"

fun conf_check :: "calc \<Rightarrow> sym list \<Rightarrow> kst \<Rightarrow> (nat \<times> kst) option" where
  "conf_check calc [] st = Some (0, st)"
| "conf_check calc (s # ss) st =
     do { st \<leftarrow> calc s st;
          ok \<leftarrow> saved_agrees (tab st s);
          st \<leftarrow> drop_saved calc s st;
          st \<leftarrow> check_choice s st;
          (k, st) \<leftarrow> conf_check calc ss st;
          Some (if ok then k else Suc k, st) }"

text \<open>\<open>True\<close> is the return value 1.\<close>

definition conf_read ::
  "nat \<Rightarrow> env_fn \<Rightarrow> files \<Rightarrow> (nat \<Rightarrow> string) \<Rightarrow> sym option \<Rightarrow> string option \<Rightarrow> kst \<Rightarrow> (bool \<times> kst) option" where
  "conf_read n getenv fs stale deflist name st =
     do { (ws, st) \<leftarrow> conf_read_simple n getenv fs stale deflist name S_DEF_USER (st\<lparr>sym_change_count := 0\<rparr>);
          case ws of
            None \<Rightarrow> Some (True, st)
          | Some ws \<Rightarrow>
              do { (unsaved, st) \<leftarrow> conf_check (sym_calc_value n) (all_symbols st) st;
                   Some (False, st\<lparr>sym_change_count :=
                     cint (sym_change_count st + (if ws \<noteq> [] \<or> unsaved \<noteq> 0 then 1 else 0))\<rparr>) } }"

section \<open>Writing values\<close>

fun conf_quote :: "string \<Rightarrow> string" where
  "conf_quote [] = []"
| "conf_quote (c # cs) = (if c = QUOTE \<or> c = BACKSLASH then BACKSLASH # c # conf_quote cs else c # conf_quote cs)"

text \<open>The line of a symbol in \<open>.config\<close>; for a hexadecimal number both branches of the code print
  the same.\<close>

definition config_line :: "kst \<Rightarrow> sym \<Rightarrow> string option" where
  "config_line st s =
     (let x = tab st s; name = printed_name st s in
      case s_type x of
        S_BOOLEAN \<Rightarrow> Some (if s_tri x = No then ''# CONFIG_'' @ name @ '' is not set'' @ [NL]
                           else ''CONFIG_'' @ name @ ''='' @ tri_name (s_tri x) @ [NL])
      | S_TRISTATE \<Rightarrow> Some (if s_tri x = No then ''# CONFIG_'' @ name @ '' is not set'' @ [NL]
                           else ''CONFIG_'' @ name @ ''='' @ tri_name (s_tri x) @ [NL])
      | S_STRING \<Rightarrow> do { v \<leftarrow> val_string (s_val x);
                         Some (''CONFIG_'' @ name @ ''='' @ QUOTE # conf_quote v @ [QUOTE, NL]) }
      | S_HEX \<Rightarrow> do { v \<leftarrow> val_string (s_val x); Some (''CONFIG_'' @ name @ ''='' @ v @ [NL]) }
      | S_INT \<Rightarrow> do { v \<leftarrow> val_string (s_val x); Some (''CONFIG_'' @ name @ ''='' @ v @ [NL]) }
      | _ \<Rightarrow> Some [])"

text \<open>A tristate symbol makes \<open>conf_write\<close> evaluate \<open>modules_sym\<close> first.\<close>

definition write_symbol :: "calc \<Rightarrow> sym \<Rightarrow> kst \<Rightarrow> (string \<times> kst) option" where
  "write_symbol calc s st =
     (if s_choice (tab st s) then Some ([], st)
      else
        do { st \<leftarrow> calc s st;
             if \<not> s_write (tab st s) then Some ([], st)
             else
               do { let st = upd_sym s (\<lambda>x. x\<lparr>s_write := False\<rparr>) st;
                    st \<leftarrow> (if s_type (tab st s) = S_TRISTATE then do { m \<leftarrow> modules_sym st; calc m st } else Some st);
                    l \<leftarrow> config_line st s;
                    Some (l, st) } })"

definition printed :: "string option \<Rightarrow> string" where
  "printed s = (case s of Some t \<Rightarrow> t | None \<Rightarrow> ''(null)'')"

definition write_title :: "calc \<Rightarrow> mst \<Rightarrow> nat \<Rightarrow> kst \<Rightarrow> (string \<times> kst) option" where
  "write_title calc st m k =
     do { (v, k) \<leftarrow> menu_is_visible calc (menus st) m k;
          if \<not> v then Some ([], k)
          else do { str \<leftarrow> menu_get_prompt (st\<lparr>ksyms := k\<rparr>) m;
                    Some ([NL] @ ''#'' @ [NL] @ ''# '' @ printed str @ [NL] @ ''#'' @ [NL], k) } }"

definition write_menu :: "calc \<Rightarrow> mst \<Rightarrow> nat \<Rightarrow> string \<times> kst \<Rightarrow> (string \<times> kst) option" where
  "write_menu calc st m ok =
     do { (l, k) \<leftarrow> (case m_sym (menus st m) of
                        None \<Rightarrow> write_title calc st m (snd ok)
                      | Some s \<Rightarrow> write_symbol calc s (snd ok));
          Some (fst ok @ l, k) }"

section \<open>The walk over the menus\<close>

text \<open>The menu that follows when a menu has neither children nor a next one: the next one of the
  closest ancestor that has one.\<close>

partial_function (option) menu_climb :: "(nat \<Rightarrow> menu) \<Rightarrow> nat \<Rightarrow> nat option option" where
  "menu_climb M m =
     (case m_parent (M m) of
        None \<Rightarrow> Some None
      | Some p \<Rightarrow> (case m_next (M p) of Some q \<Rightarrow> Some (Some q) | None \<Rightarrow> menu_climb M p))"

definition menu_succ :: "(nat \<Rightarrow> menu) \<Rightarrow> nat \<Rightarrow> nat option option" where
  "menu_succ M m =
     (case m_list (M m) of
        Some c \<Rightarrow> Some (Some c)
      | None \<Rightarrow> (case m_next (M m) of Some q \<Rightarrow> Some (Some q) | None \<Rightarrow> menu_climb M m))"

partial_function (option) menu_walk ::
  "(nat \<Rightarrow> 'a \<Rightarrow> 'a option) \<Rightarrow> (nat \<Rightarrow> menu) \<Rightarrow> nat option \<Rightarrow> 'a \<Rightarrow> 'a option" where
  "menu_walk visit M cur a =
     (case cur of
        None \<Rightarrow> Some a
      | Some m \<Rightarrow> do { a \<leftarrow> visit m a; nxt \<leftarrow> menu_succ M m; menu_walk visit M nxt a })"

section \<open>Writing \<open>.config\<close>\<close>

text \<open>What the system answers: the environment, which paths are directories, which files can be
  opened and which renamings succeed, the date and the process number.\<close>

record conf_os =
  o_getenv :: env_fn
  o_is_dir :: "string \<Rightarrow> bool"
  o_open :: "string \<Rightarrow> bool"
  o_rename :: "string \<Rightarrow> string \<Rightarrow> bool"
  o_ctime :: string
  o_pid :: string

abbreviation (input) PATH_BUF :: nat where "PATH_BUF \<equiv> 128"

definition fits_buf :: "string \<Rightarrow> string option" where
  "fits_buf s = (if length s < PATH_BUF then Some s else None)"

definition env_set :: "env_fn \<Rightarrow> string \<Rightarrow> bool" where
  "env_set getenv v = (case getenv v of None \<Rightarrow> False | Some x \<Rightarrow> x \<noteq> [])"

text \<open>The directory and the base name of the file to write.\<close>

definition write_name :: "conf_os \<Rightarrow> string option \<Rightarrow> (string \<times> string) option" where
  "write_name os name =
     (let conf = conf_get_configname (o_getenv os) in
      case name of
        None \<Rightarrow> Some ([], conf)
      | Some n \<Rightarrow>
          if n = [] then Some ([], conf)
          else if o_is_dir os n then do { d \<leftarrow> fits_buf (n @ ''/''); Some (d, conf) }
          else if CHR ''/'' \<in> set n
          then do { let base = rev (takeWhile (\<lambda>c. c \<noteq> CHR ''/'') (rev n));
                    d \<leftarrow> fits_buf (take (length n - length base) n);
                    Some (d, if base \<noteq> [] then base else conf) }
          else Some ([], n))"

definition rename_file :: "conf_os \<Rightarrow> string \<Rightarrow> string \<Rightarrow> files \<Rightarrow> bool \<times> files" where
  "rename_file os old new fs =
     (if fs old \<noteq> None \<and> o_rename os old new
      then (True, if old = new then fs else (fs(new := fs old))(old := None)) else (False, fs))"

definition config_header :: "conf_os \<Rightarrow> string \<Rightarrow> string" where
  "config_header os version =
     ''#'' @ [NL] @ ''# Automatically generated make config: don'' @ [CHR 0x27] @ ''t edit'' @ [NL] @
     ''# Linux kernel version: '' @ version @ [NL] @
     (if env_set (o_getenv os) ''KCONFIG_NOTIMESTAMP'' then [] else ''# '' @ o_ctime os) @ ''#'' @ [NL]"

definition kernel_version :: "calc \<Rightarrow> kst \<Rightarrow> (string \<times> kst) option" where
  "kernel_version calc st =
     do { let (s, st) = sym_lookup (Some ''KERNELVERSION'') False st;
          st \<leftarrow> calc s st;
          Some (case string_value st s of VStr v \<Rightarrow> v | VSym _ \<Rightarrow> ''(null)'', st) }"

text \<open>The text of the file.\<close>

definition config_text :: "nat \<Rightarrow> conf_os \<Rightarrow> mst \<Rightarrow> (string \<times> kst) option" where
  "config_text n os st =
     do { (version, k) \<leftarrow> kernel_version (sym_calc_value n) (ksyms st);
          k \<leftarrow> (if sym_change_count k = 0 then sym_clear_all_valid n k else Some k);
          menu_walk (write_menu (sym_calc_value n) st) (menus st) (m_list (menus st rootmenu)) (config_header os version, k) }"

text \<open>The end of \<open>conf_write\<close>: the old file is kept under another name, and the temporary file
  takes its place.\<close>

definition replace_config :: "conf_os \<Rightarrow> string \<Rightarrow> string \<Rightarrow> files \<Rightarrow> (bool \<times> files) option" where
  "replace_config os tmpname newname fs =
     (if tmpname = [] then Some (True, fs)
      else do { old \<leftarrow> fits_buf (newname @ ''.old'');
                Some (rename_file os tmpname newname (snd (rename_file os newname old fs))) })"

text \<open>\<open>True\<close> is the return value 1, an error.\<close>

definition conf_write :: "nat \<Rightarrow> conf_os \<Rightarrow> string option \<Rightarrow> mst \<Rightarrow> files \<Rightarrow> (bool \<times> files \<times> kst) option" where
  "conf_write n os name st fs =
     do { (dir, base) \<leftarrow> write_name os name;
          newname \<leftarrow> fits_buf (dir @ base);
          tmpname \<leftarrow> (if env_set (o_getenv os) ''KCONFIG_OVERWRITECONFIG'' then Some []
                      else fits_buf (dir @ ''.tmpconfig.'' @ o_pid os));
          let outname = (if tmpname = [] then newname else tmpname);
          if \<not> o_open os outname then Some (True, fs, ksyms st)
          else
            do { (text, k) \<leftarrow> config_text n os st;
                 (ok, fs) \<leftarrow> replace_config os tmpname newname (fs(outname \<mapsto> text));
                 Some (if ok then (False, fs, k\<lparr>sym_change_count := 0\<rparr>) else (True, fs, k)) } }"

section \<open>The files of the build\<close>

text \<open>Whether the value of a symbol differs from the one of the last build.\<close>

definition conf_changed :: "symbol \<Rightarrow> bool option" where
  "conf_changed x =
     (if s_auto x \<or> s_name x = None then Some False
      else if s_write x
      then if s_def_auto x
           then if s_type x = S_BOOLEAN \<or> s_type x = S_TRISTATE then Some (s_tri x \<noteq> s_auto_tri x)
                else if s_type x = S_STRING \<or> s_type x = S_HEX \<or> s_type x = S_INT
                then do { a \<leftarrow> val_string (s_val x); b \<leftarrow> val_string (s_auto_val x); Some (a \<noteq> b) }
                else Some True
           else if s_type x = S_BOOLEAN \<or> s_type x = S_TRISTATE then Some (s_tri x \<noteq> No) else Some True
      else Some (s_def_auto x))"

definition tolower :: "char \<Rightarrow> char" where
  "tolower c = (if 65 \<le> (of_char c :: nat) \<and> (of_char c :: nat) \<le> 90 then char_of (of_char c + 32 :: nat) else c)"

definition path_of :: "string \<Rightarrow> string" where
  "path_of name = map (\<lambda>c. if tolower c = CHR ''_'' then CHR ''/'' else tolower c) name @ ''.h''"

definition config_path :: "string \<Rightarrow> string option" where
  "config_path name = fits_buf (path_of name)"

text \<open>The operations on files that \<open>conf_split_config\<close> uses: \<open>b_open\<close> creates an empty file or returns
  an error number, \<open>b_stat\<close> tells whether a path exists, \<open>b_mkdir\<close> whether the directory was
  made.\<close>

record 'f build_os =
  b_open :: "string \<Rightarrow> 'f \<Rightarrow> nat \<times> 'f"
  b_stat :: "string \<Rightarrow> 'f \<Rightarrow> bool"
  b_mkdir :: "string \<Rightarrow> 'f \<Rightarrow> bool \<times> 'f"
  b_chdir :: "string \<Rightarrow> bool"

abbreviation (input) ENOENT :: nat where "ENOENT \<equiv> 2"

text \<open>The directories above a path: \<open>pre\<close> is the part of the path before the rest.\<close>

fun make_dirs :: "'f build_os \<Rightarrow> string \<Rightarrow> string \<Rightarrow> 'f \<Rightarrow> bool \<times> 'f" where
  "make_dirs os pre [] f = (True, f)"
| "make_dirs os pre (c # cs) f =
     (if c = CHR ''/''
      then if b_stat os pre f then make_dirs os (pre @ [c]) cs f
           else (case b_mkdir os pre f of (ok, f) \<Rightarrow> if ok then make_dirs os (pre @ [c]) cs f else (False, f))
      else make_dirs os (pre @ [c]) cs f)"

definition touch_file :: "'f build_os \<Rightarrow> string \<Rightarrow> 'f \<Rightarrow> bool \<times> 'f" where
  "touch_file os path f =
     (case b_open os path f of (err, f) \<Rightarrow>
        if err = 0 then (True, f)
        else if err \<noteq> ENOENT then (False, f)
        else case make_dirs os [] path f of (ok, f) \<Rightarrow>
          if \<not> ok then (False, f) else case b_open os path f of (err, f) \<Rightarrow> (err = 0, f))"

fun split_loop :: "calc \<Rightarrow> 'f build_os \<Rightarrow> sym list \<Rightarrow> kst \<Rightarrow> 'f \<Rightarrow> (bool \<times> kst \<times> 'f) option" where
  "split_loop calc os [] st f = Some (False, st, f)"
| "split_loop calc os (s # ss) st f =
     do { st \<leftarrow> calc s st;
          ch \<leftarrow> conf_changed (tab st s);
          if \<not> ch then split_loop calc os ss st f
          else
            do { name \<leftarrow> s_name (tab st s);
                 path \<leftarrow> config_path name;
                 let (ok, f) = touch_file os path f;
                 if ok then split_loop calc os ss st f else Some (True, st, f) } }"

definition autoconf_name :: "env_fn \<Rightarrow> string" where
  "autoconf_name getenv = (case getenv ''KCONFIG_AUTOCONFIG'' of Some n \<Rightarrow> n | None \<Rightarrow> ''include/config/auto.conf'')"

definition conf_split_config ::
  "nat \<Rightarrow> env_fn \<Rightarrow> files \<Rightarrow> (nat \<Rightarrow> string) \<Rightarrow> 'f build_os \<Rightarrow> kst \<Rightarrow> 'f \<Rightarrow> (bool \<times> kst \<times> 'f) option" where
  "conf_split_config n getenv fs stale os st f =
     do { (_, st) \<leftarrow> conf_read_simple n getenv fs stale None (Some (autoconf_name getenv)) S_DEF_AUTO st;
          if \<not> b_chdir os ''include/config'' then Some (True, st, f)
          else
            do { (res, st, f) \<leftarrow> split_loop (sym_calc_value n) os (all_symbols st) st f;
                 Some (res \<or> \<not> b_chdir os ''../..'', st, f) } }"

text \<open>The lines of a symbol in \<open>auto.conf\<close> and in \<open>autoconf.h\<close>.\<close>

definition autoconf_line :: "kst \<Rightarrow> sym \<Rightarrow> (string \<times> string) option" where
  "autoconf_line st s =
     (let x = tab st s; name = printed_name st s; def = ''#define CONFIG_'' @ name in
      if \<not> s_write x \<or> s_name x = None then Some ([], [])
      else case s_type x of
        S_STRING \<Rightarrow>
          do { v \<leftarrow> val_string (s_val x);
               Some (''CONFIG_'' @ name @ ''='' @ QUOTE # conf_quote v @ [QUOTE, NL],
                     def @ '' '' @ QUOTE # conf_quote v @ [QUOTE, NL]) }
      | S_HEX \<Rightarrow>
          do { v \<leftarrow> val_string (s_val x);
               Some (''CONFIG_'' @ name @ ''='' @ v @ [NL],
                     def @ '' '' @ (if has_hex_prefix v then v else ''0x'' @ v) @ [NL]) }
      | S_INT \<Rightarrow> do { v \<leftarrow> val_string (s_val x); Some (''CONFIG_'' @ name @ ''='' @ v @ [NL], def @ '' '' @ v @ [NL]) }
      | ty \<Rightarrow>
          Some (if (ty = S_BOOLEAN \<or> ty = S_TRISTATE) \<and> s_tri x \<noteq> No
                then (''CONFIG_'' @ name @ ''='' @ tri_name (s_tri x) @ [NL],
                      def @ (if s_tri x = Mod then ''_MODULE 1'' else '' 1'') @ [NL])
                else ([], [])))"

fun autoconf_lines :: "calc \<Rightarrow> sym list \<Rightarrow> kst \<Rightarrow> ((string list \<times> string list) \<times> kst) option" where
  "autoconf_lines calc [] st = Some (([], []), st)"
| "autoconf_lines calc (s # ss) st =
     do { st \<leftarrow> calc s st;
          (l, h) \<leftarrow> autoconf_line st s;
          ((ls, hs), st) \<leftarrow> autoconf_lines calc ss st;
          Some ((l # ls, h # hs), st) }"

definition autoconf_headers :: "string \<Rightarrow> string \<Rightarrow> string \<times> string" where
  "autoconf_headers version date =
     (''#'' @ [NL] @ ''# Automatically generated make config: don'' @ [CHR 0x27] @ ''t edit'' @ [NL] @
      ''# Linux kernel version: '' @ version @ [NL] @ ''# '' @ date @ ''#'' @ [NL],
      ''/*'' @ [NL] @ '' * Automatically generated C config: don'' @ [CHR 0x27] @ ''t edit'' @ [NL] @
      '' * Linux kernel version: '' @ version @ [NL] @ '' * '' @ date @ '' */'' @ [NL] @
      ''#define AUTOCONF_INCLUDED'' @ [NL])"

text \<open>The dependency file of \<open>util.c\<close>, written to a temporary file and renamed whether or not that succeeds.\<close>

definition file_write_dep :: "conf_os \<Rightarrow> string option \<Rightarrow> string list \<Rightarrow> files \<Rightarrow> bool \<times> files" where
  "file_write_dep os name file_list fs =
     (let name = (case name of Some n \<Rightarrow> n | None \<Rightarrow> ''.kconfig.d'') in
      if \<not> o_open os ''..config.tmp'' then (True, fs)
      else (False, snd (rename_file os ''..config.tmp'' name (fs(''..config.tmp'' \<mapsto> dep_text file_list)))))"

text \<open>\<open>True\<close> is the return value 1. The headers go first, then \<open>auto.conf\<close>.\<close>

definition conf_write_autoconf ::
  "nat \<Rightarrow> conf_os \<Rightarrow> (nat \<Rightarrow> string) \<Rightarrow> 'f build_os \<Rightarrow> string list \<Rightarrow> kst \<Rightarrow> 'f \<Rightarrow> files \<Rightarrow> (bool \<times> kst \<times> 'f \<times> files) option" where
  "conf_write_autoconf n os stale bos file_list st f fs =
     do { st \<leftarrow> sym_clear_all_valid n st;
          let fs = snd (file_write_dep os (Some ''include/config/auto.conf.cmd'') file_list fs);
          (res, st, f) \<leftarrow> conf_split_config n (o_getenv os) fs stale bos st f;
          if res \<or> \<not> o_open os ''.tmpconfig'' then Some (True, st, f, fs)
          else if \<not> o_open os ''.tmpconfig.h'' then Some (True, st, f, fs(''.tmpconfig'' \<mapsto> []))
          else
            do { (version, st) \<leftarrow> kernel_version (sym_calc_value n) st;
                 ((ls, hs), st) \<leftarrow> autoconf_lines (sym_calc_value n) (all_symbols st) st;
                 let (hd_c, hd_h) = autoconf_headers version (o_ctime os);
                 let fs = fs(''.tmpconfig'' \<mapsto> hd_c @ concat ls, ''.tmpconfig.h'' \<mapsto> hd_h @ concat hs);
                 let hname = (case o_getenv os ''KCONFIG_AUTOHEADER'' of Some x \<Rightarrow> x | None \<Rightarrow> ''include/linux/autoconf.h'');
                 let (ok, fs) = rename_file os ''.tmpconfig.h'' hname fs;
                 if \<not> ok then Some (True, st, f, fs)
                 else do { let (ok, fs) = rename_file os ''.tmpconfig'' (autoconf_name (o_getenv os)) fs;
                           Some (\<not> ok, st, f, fs) } } }"

end
