(* ===== verification/Kconf_Deps.thy ===== *)
theory Kconf_Deps
  imports Kconf_Symbol_Ops
begin

text \<open>
  The check for circular dependencies is a depth-first search: what it reports is there, and when
  it reports nothing there is none.
\<close>

section \<open>The dependencies of a symbol\<close>

primrec expr_syms :: "expr \<Rightarrow> sym list" where
  "expr_syms (ESymbol s) = [s]"
| "expr_syms (ENot l) = expr_syms l"
| "expr_syms (EAnd l r) = expr_syms l @ expr_syms r"
| "expr_syms (EOr l r) = expr_syms l @ expr_syms r"
| "expr_syms (EEqual a b) = [a, b]"
| "expr_syms (EUnequal a b) = [a, b]"

definition opt_syms :: "expr option \<Rightarrow> sym list" where
  "opt_syms e = (case e of None \<Rightarrow> [] | Some e \<Rightarrow> expr_syms e)"

definition prop_syms :: "bool \<Rightarrow> property \<Rightarrow> sym list" where
  "prop_syms is_choice p =
     (if p_type p = P_CHOICE \<or> p_type p = P_SELECT then []
      else if p_type p \<noteq> P_DEFAULT \<or> is_choice then opt_syms (p_visible p)
      else opt_syms (p_visible p) @ (case p_expr p of PExpr e \<Rightarrow> expr_syms e | _ \<Rightarrow> []))"

definition dep_syms :: "symbol \<Rightarrow> sym list" where
  "dep_syms x = opt_syms (s_rev_dep x) @ concat (map (prop_syms (s_choice x)) (s_props x))"

definition deps :: "kst \<Rightarrow> (sym \<times> sym) set" where
  "deps st = {(s, t). t \<in> set (dep_syms (tab st s))}"

text \<open>The defaults are dependency expressions, as the grammar has them.\<close>

definition plain_defaults :: "symbol \<Rightarrow> bool" where
  "plain_defaults x \<longleftrightarrow>
     list_all (\<lambda>p. p_type p = P_DEFAULT \<longrightarrow> (case p_expr p of PNone \<Rightarrow> True | PExpr _ \<Rightarrow> True | _ \<Rightarrow> False)) (s_props x)"

section \<open>The search visits these symbols in order\<close>

definition then_check :: "check \<Rightarrow> check \<Rightarrow> check" where
  "then_check c d st =
     do { (r, out, st) \<leftarrow> c st;
          case r of
            Some s \<Rightarrow> Some (Some s, out, st)
          | None \<Rightarrow> do { (r, out', st) \<leftarrow> d st; Some (r, out @ out', st) } }"

lemma check_seq_Cons: "check_seq (c # cs) = then_check c (check_seq cs)"
  by (simp add: fun_eq_iff then_check_def)

lemma then_check_unit: "then_check c (check_seq []) = c" "then_check (check_seq []) c = c"
  by (auto simp: fun_eq_iff then_check_def split: Option.bind_splits option.splits)

lemma then_check_assoc: "then_check (then_check a b) c = then_check a (then_check b c)"
  by (auto simp: fun_eq_iff then_check_def split: Option.bind_splits option.splits)

lemma check_seq_append: "check_seq (xs @ ys) = then_check (check_seq xs) (check_seq ys)"
  by (induction xs) (simp_all only: append.simps check_seq_Cons then_check_assoc then_check_unit)

lemma check_seq_one: "check_seq [c] = c"
  by (simp only: check_seq_Cons then_check_unit)

lemma check_seq_concat: "check_seq (map check_seq css) = check_seq (concat css)"
  by (induction css) (simp_all only: list.map concat.simps check_seq_Cons check_seq_append)

lemma check_expr_flat: "sym_check_expr_deps chk e = check_seq (map chk (expr_syms e))"
  by (induction e)
    (simp_all only: sym_check_expr_deps.simps expr_syms.simps list.map map_append check_seq_Cons check_seq_append then_check_unit)

lemma check_opt_flat: "check_opt_deps chk e = check_seq (map chk (opt_syms e))"
  by (cases e) (simp_all add: check_opt_deps_def opt_syms_def check_expr_flat)

lemma check_prop_flat:
  assumes "p_type p = P_DEFAULT \<longrightarrow> (case p_expr p of PNone \<Rightarrow> True | PExpr _ \<Rightarrow> True | _ \<Rightarrow> False)"
  shows "check_seq (check_prop_deps chk c p) = check_seq (map chk (prop_syms c p))"
  using assms
  by (auto simp: check_prop_deps_def prop_syms_def check_opt_flat check_prop_expr_def check_expr_flat
      check_seq_Cons check_seq_append then_check_unit split: pexpr.splits simp del: check_seq.simps)

lemma check_props_flat:
  "list_all (\<lambda>p. p_type p = P_DEFAULT \<longrightarrow> (case p_expr p of PNone \<Rightarrow> True | PExpr _ \<Rightarrow> True | _ \<Rightarrow> False)) ps \<Longrightarrow>
    check_seq (concat (map (check_prop_deps chk c) ps)) = check_seq (map chk (concat (map (prop_syms c) ps)))"
  by (induction ps) (simp_all add: check_seq_append check_prop_flat del: check_seq.simps)

lemma check_deps_flat:
  assumes "plain_defaults (tab st s)"
  shows "sym_check_deps (Suc n) s st =
    (if s_check (tab st s) then Some (Some s, ''Warning! Found recursive dependency: '' @ printed_name st s, st)
     else if s_checked (tab st s) then Some (None, [], st)
     else map_option (check_out s) (check_seq (map (sym_check_deps n) (dep_syms (tab st s)))
       (upd_sym s (\<lambda>y. y\<lparr>s_check := True, s_checked := True\<rparr>) st)))"
  using check_props_flat [OF assms [unfolded plain_defaults_def]]
  by (simp add: Let_def dep_syms_def check_seq_Cons check_seq_append check_opt_flat del: check_seq.simps)

section \<open>The marks of the search\<close>

definition grey :: "kst \<Rightarrow> sym set" where
  "grey st = {s. s_check (tab st s)}"

definition seen :: "kst \<Rightarrow> sym set" where
  "seen st = {s. s_checked (tab st s)}"

abbreviation black :: "kst \<Rightarrow> sym set" where
  "black st \<equiv> seen st - grey st"

definition unmark :: "symbol \<Rightarrow> symbol" where
  "unmark x = x\<lparr>s_check := False, s_checked := False\<rparr>"

text \<open>A state of the search on the table \<open>st0\<close>.\<close>

definition searching :: "kst \<Rightarrow> kst \<Rightarrow> bool" where
  "searching st0 st \<longleftrightarrow> (\<forall>s. unmark (tab st s) = unmark (tab st0 s)) \<and> hash st = hash st0 \<and> grey st \<subseteq> seen st"

text \<open>Nothing that has been left is part of a circle.\<close>

definition clean :: "kst \<Rightarrow> kst \<Rightarrow> bool" where
  "clean st0 st \<longleftrightarrow> (\<forall>b \<in> black st. deps st0 `` {b} \<subseteq> black st \<and> (b, b) \<notin> (deps st0)\<^sup>+)"

lemma unmark_deps: "unmark x = unmark y \<Longrightarrow> dep_syms x = dep_syms y \<and> plain_defaults x = plain_defaults y"
  by (cases x; cases y) (simp add: unmark_def dep_syms_def plain_defaults_def)

lemma searching_deps:
  assumes "searching st0 st"
  shows "dep_syms (tab st s) = dep_syms (tab st0 s)" "plain_defaults (tab st s) = plain_defaults (tab st0 s)"
  using assms unmark_deps [of "tab st s" "tab st0 s"] by (simp_all add: searching_def)

definition enter :: "sym \<Rightarrow> kst \<Rightarrow> kst" where
  "enter s = upd_sym s (\<lambda>y. y\<lparr>s_check := True, s_checked := True\<rparr>)"

definition leave_sym :: "sym \<Rightarrow> kst \<Rightarrow> kst" where
  "leave_sym s = upd_sym s (\<lambda>x. x\<lparr>s_check := False\<rparr>)"

lemma marks_enter: "grey (enter s st) = insert s (grey st)" "seen (enter s st) = insert s (seen st)"
  by (auto simp: grey_def seen_def enter_def upd_sym_def)

lemma marks_leave: "grey (leave_sym s st) = grey st - {s}" "seen (leave_sym s st) = seen st"
  by (auto simp: grey_def seen_def leave_sym_def upd_sym_def)

lemma searching_enter: "searching st0 st \<Longrightarrow> searching st0 (enter s st)"
  using marks_enter [of s st] by (auto simp: searching_def enter_def upd_sym_def unmark_def)

lemma searching_leave: "searching st0 st \<Longrightarrow> searching st0 (leave_sym s st)"
  using marks_leave [of s st] by (auto simp: searching_def leave_sym_def upd_sym_def unmark_def)

text \<open>Closed sets of symbols that are not on a circle grow by a symbol whose dependencies they contain.\<close>

lemma closed_trancl: "(x, y) \<in> r\<^sup>+ \<Longrightarrow> r `` A \<subseteq> A \<Longrightarrow> r `` {x} \<subseteq> A \<Longrightarrow> y \<in> A"
  by (induction rule: trancl_induct) auto

lemma clean_leave:
  assumes c: "clean st0 st" and d: "deps st0 `` {s} \<subseteq> black st" and g: "s \<in> grey st" "grey st \<subseteq> seen st"
  shows "clean st0 (leave_sym s st)"
proof -
  have b: "black (leave_sym s st) = insert s (black st)" using g by (auto simp: marks_leave)
  have "deps st0 `` black st \<subseteq> black st" using c by (auto simp: clean_def)
  then have "(s, s) \<notin> (deps st0)\<^sup>+" using closed_trancl [OF _ _ d, of s] g by blast
  with c d show ?thesis unfolding clean_def b by blast
qed

section \<open>Correctness of the search\<close>

text \<open>What a check that starts at one of the symbols \<open>xs\<close> returns.\<close>

definition found :: "kst \<Rightarrow> sym set \<Rightarrow> kst \<Rightarrow> sym option \<times> string \<times> kst \<Rightarrow> bool" where
  "found st0 xs st res \<longleftrightarrow>
     (case res of (r, out, st') \<Rightarrow>
        searching st0 st' \<and> grey st' = grey st \<and> seen st \<subseteq> seen st' \<and>
        (\<forall>t. r = Some t \<longrightarrow> t \<in> grey st \<and> t \<in> (deps st0)\<^sup>* `` xs \<and> out \<noteq> []) \<and>
        (out \<noteq> [] \<longrightarrow> r \<noteq> None \<or> (\<exists>t \<in> (deps st0)\<^sup>* `` xs. (t, t) \<in> (deps st0)\<^sup>+)) \<and>
        (out = [] \<and> clean st0 st \<longrightarrow> xs \<subseteq> black st' \<and> clean st0 st'))"

lemma found_Nil: "searching st0 st \<Longrightarrow> found st0 {} st (None, [], st)"
  by (simp add: found_def)

lemma found_first: "found st0 {x} st (Some t, out, st') \<Longrightarrow> found st0 (insert x xs) st (Some t, out, st')"
  by (auto simp: found_def)

lemma found_then:
  assumes "found st0 {x} st (None, out, st1)" and "found st0 xs st1 (r, out', st2)"
  shows "found st0 (insert x xs) st (r, out @ out', st2)"
proof -
  have "black st1 \<subseteq> black st2" using assms(2) by (auto simp: found_def)
  then show ?thesis using assms unfolding found_def by (auto 0 3)
qed

lemma found_seq:
  assumes "searching st0 st" and "card (K - seen st) < n" and "set xs \<subseteq> K" and "finite K"
    and chk: "\<And>x st. searching st0 st \<Longrightarrow> card (K - seen st) < n \<Longrightarrow> x \<in> K \<Longrightarrow> yields (found st0 {x} st) (chk x st)"
  shows "yields (found st0 (set xs) st) (check_seq (map chk xs) st)"
  using assms(1-3)
proof (induction xs arbitrary: st)
  case Nil
  then show ?case by (simp add: found_Nil)
next
  case (Cons x xs)
  from chk [OF Cons.prems(1,2), of x] Cons.prems(3) obtain r out st1 where
    c: "chk x st = Some (r, out, st1)" and f: "found st0 {x} st (r, out, st1)" by (auto simp: yields_def)
  show ?case
  proof (cases r)
    case (Some t)
    with c f found_first show ?thesis by (simp add: found_first)
  next
    case None
    have "seen st \<subseteq> seen st1" "searching st0 st1" using f by (auto simp: found_def)
    moreover from this have "card (K - seen st1) < n"
      using Cons.prems(2) \<open>finite K\<close> card_mono [of "K - seen st" "K - seen st1"] by fastforce
    ultimately obtain r' out' st2 where
      d: "check_seq (map chk xs) st1 = Some (r', out', st2)" and g: "found st0 (set xs) st1 (r', out', st2)"
      using Cons.IH [of st1] Cons.prems(3) by (auto simp: yields_def)
    with c None found_then [OF f [unfolded None] g] show ?thesis by simp
  qed
qed

text \<open>The end of a visit.\<close>

lemma found_out:
  assumes "searching st0 st" and "s \<notin> seen st"
    and f: "found st0 (deps st0 `` {s}) (enter s st) (r, out, st')"
  shows "found st0 {s} st (check_out s (r, out, st'))"
proof -
  from f have g: "searching st0 st'" "grey st' = insert s (grey st)" "insert s (seen st) \<subseteq> seen st'"
    by (auto simp: found_def marks_enter)
  have s: "s \<notin> grey st" using assms(1,2) by (auto simp: searching_def)
  have h: "searching st0 (leave_sym s st')" "grey (leave_sym s st') = grey st" "seen st \<subseteq> seen (leave_sym s st')"
    using g s searching_leave by (auto simp: marks_leave)
  have reach: "(deps st0)\<^sup>* `` (deps st0 `` {s}) \<subseteq> (deps st0)\<^sup>* `` {s}" by (auto intro: converse_rtrancl_into_rtrancl)
  have cyc: "(s, s) \<in> (deps st0)\<^sup>+" if "s \<in> (deps st0)\<^sup>* `` (deps st0 `` {s})" using that by auto
  have same: "clean st0 (enter s st) = clean st0 st"
  proof -
    have "black (enter s st) = black st" using assms(2) by (auto simp: marks_enter)
    then show ?thesis by (simp add: clean_def)
  qed
  have cl: "s \<in> black (leave_sym s st') \<and> clean st0 (leave_sym s st')" if "out = []" "clean st0 st"
  proof -
    have "deps st0 `` {s} \<subseteq> black st'" "clean st0 st'" using f that same by (auto simp: found_def)
    then show ?thesis using clean_leave [of st0 st' s] g s by (auto simp: marks_leave searching_def)
  qed
  show ?thesis
  proof (cases r)
    case None
    with f h cl reach show ?thesis by (auto simp: check_out_def found_def leave_sym_def Let_def)
  next
    case (Some t)
    with f have t: "t \<in> insert s (grey st)" "t \<in> (deps st0)\<^sup>* `` (deps st0 `` {s})" "out \<noteq> []"
      by (auto simp: found_def marks_enter)
    with Some h reach cyc show ?thesis by (auto simp: check_out_def found_def leave_sym_def Let_def)
  qed
qed

lemma check_deps_found:
  assumes fin: "finite K" and cl: "deps st0 `` K \<subseteq> K" and pl: "\<And>s. plain_defaults (tab st0 s)"
  shows "searching st0 st \<Longrightarrow> card (K - seen st) < n \<Longrightarrow> s \<in> K \<Longrightarrow> yields (found st0 {s} st) (sym_check_deps n s st)"
proof (induction n arbitrary: s st)
  case 0
  then show ?case by simp
next
  case (Suc n)
  note flat = check_deps_flat [of st s n, unfolded searching_deps [OF Suc.prems(1)], OF pl]
  show ?case
  proof (cases "s \<in> seen st")
    case True
    then have "s_check (tab st s) \<or> s_checked (tab st s)" by (simp add: seen_def)
    with Suc.prems(1) show ?thesis unfolding flat by (auto simp: found_def grey_def seen_def)
  next
    case False
    then have ns: "\<not> s_check (tab st s)" "\<not> s_checked (tab st s)"
      using Suc.prems(1) by (auto simp: searching_def seen_def grey_def)
    have "card (K - seen (enter s st)) < card (K - seen st)"
      using fin False Suc.prems(3) by (intro psubset_card_mono) (auto simp: marks_enter)
    then have card: "card (K - seen (enter s st)) < n" using Suc.prems(2) by simp
    have D: "set (dep_syms (tab st0 s)) = deps st0 `` {s}" by (auto simp: deps_def)
    then have "set (dep_syms (tab st0 s)) \<subseteq> K" using cl Suc.prems(3) by blast
    from found_seq [OF searching_enter [OF Suc.prems(1)] card this fin Suc.IH]
    obtain r out st' where "check_seq (map (sym_check_deps n) (dep_syms (tab st0 s))) (enter s st) = Some (r, out, st')"
      and "found st0 (deps st0 `` {s}) (enter s st) (r, out, st')" unfolding D by (auto simp: yields_def)
    with found_out [OF Suc.prems(1) False] show ?thesis unfolding flat using ns by (simp add: enter_def)
  qed
qed

end
