(* ===== verification/Kconf_Table.thy ===== *)
theory Kconf_Table
  imports Kconf_Deps
begin

text \<open>
  The hash table of the symbols under lookup and evaluation, the evaluation of an expression in a
  table without pending values, and the clamping of numbers to their range.
\<close>

section \<open>The hash table\<close>

definition chained :: "kst \<Rightarrow> sym set" where
  "chained st = (\<Union>h \<in> {..256}. set (hash st h))"

text \<open>A symbol in one of the first 256 chains has a name that hashes to the chain and is not \<open>y\<close>, \<open>m\<close> or
  \<open>n\<close>, those in the last chain have none; symbols in the chains are allocated; there is one symbol for a
  name and kind; the constants \<open>y\<close>, \<open>m\<close> and \<open>n\<close> are as \<open>symbol.c\<close> defines them and every other
  constant is in a chain and has no type.\<close>

definition builtin_ok :: "kst \<Rightarrow> sym \<Rightarrow> tristate \<Rightarrow> bool" where
  "builtin_ok st s t \<longleftrightarrow> s_name (tab st s) = Some (tri_name t) \<and> s_type (tab st s) = S_UNKNOWN \<and>
     s_const (tab st s) \<and> s_valid (tab st s) \<and> s_tri (tab st s) = t"

definition names_ok :: "kst \<Rightarrow> bool" where
  "names_ok st \<longleftrightarrow>
     (\<forall>h < 256. \<forall>s \<in> set (hash st h). \<exists>n. s_name (tab st s) = Some n \<and> str_hash n = h \<and> builtin n = None) \<and>
     (\<forall>s \<in> set (hash st 256). s_name (tab st s) = None)"

definition alloc_ok :: "kst \<Rightarrow> bool" where
  "alloc_ok st \<longleftrightarrow> (\<forall>s \<in> chained st. \<exists>i < used st. s = Sym i)"

definition unique_ok :: "kst \<Rightarrow> bool" where
  "unique_ok st \<longleftrightarrow>
     (\<forall>s \<in> chained st. \<forall>t \<in> chained st. s_name (tab st s) = s_name (tab st t) \<longrightarrow> s_name (tab st s) \<noteq> None \<longrightarrow>
       s_const (tab st s) = s_const (tab st t) \<longrightarrow> s = t)"

definition consts_ok :: "kst \<Rightarrow> bool" where
  "consts_ok st \<longleftrightarrow>
     builtin_ok st symbol_yes Yes \<and> builtin_ok st symbol_mod Mod \<and> builtin_ok st symbol_no No \<and>
     (\<forall>i. s_const (tab st (Sym i)) \<longrightarrow> s_type (tab st (Sym i)) = S_UNKNOWN \<and> Sym i \<in> chained st)"

definition table_inv :: "kst \<Rightarrow> bool" where
  "table_inv st \<longleftrightarrow> names_ok st \<and> alloc_ok st \<and> unique_ok st \<and> consts_ok st"

lemma str_hash_less [simp]: "str_hash n < 256"
  by (simp add: str_hash_def)

lemma chainedI: "s \<in> set (hash st h) \<Longrightarrow> h \<le> 256 \<Longrightarrow> s \<in> chained st"
  by (auto simp: chained_def)

text \<open>Evaluation does not touch the table.\<close>

lemma builtin_ok_step: "step {} st st' \<Longrightarrow> builtin_ok st s t \<Longrightarrow> builtin_ok st' s t"
  by (auto simp: builtin_ok_def step_def evolves_def same_static_def)

lemma table_inv_step:
  assumes "step {} st st'" and "table_inv st"
  shows "table_inv st'"
proof -
  have h: "hash st' = hash st" "used st' = used st" using assms(1) by (simp_all add: step_def evolves_def)
  have s: "s_name (tab st' s) = s_name (tab st s)" "s_const (tab st' s) = s_const (tab st s)"
    "s_type (tab st' s) = s_type (tab st s)" for s using assms(1) by (auto simp: step_def evolves_def same_static_def)
  have c: "chained st' = chained st" by (simp add: chained_def h)
  have "names_ok st'" "alloc_ok st'" "unique_ok st'"
    using assms(2) by (simp_all add: table_inv_def names_ok_def alloc_ok_def unique_ok_def h s c)
  moreover have "consts_ok st'"
    using assms(2) builtin_ok_step [OF assms(1)] by (simp add: table_inv_def consts_ok_def h s c)
  ultimately show ?thesis by (simp add: table_inv_def)
qed

section \<open>Lookup\<close>

definition matches :: "string \<Rightarrow> bool \<Rightarrow> kst \<Rightarrow> sym \<Rightarrow> bool" where
  "matches n c st s \<longleftrightarrow> s_name (tab st s) = Some n \<and> s_const (tab st s) = c"

lemma matches_eq: "matches n c st = (\<lambda>s. s_name (tab st s) = Some n \<and> s_const (tab st s) = c)"
  by (simp add: fun_eq_iff matches_def)

lemma sym_lookup_named:
  "sym_lookup (Some n) c st =
     (case builtin n of
        Some s \<Rightarrow> (s, st)
      | None \<Rightarrow> (case List.find (matches n c st) (hash st (str_hash n)) of
          Some s \<Rightarrow> (s, st) | None \<Rightarrow> insert_symbol (Some n) c (str_hash n) st))"
  unfolding sym_lookup_def matches_eq by simp

lemma sym_find_named:
  "sym_find (Some n) st = (case builtin n of Some s \<Rightarrow> Some s | None \<Rightarrow> List.find (matches n False st) (hash st (str_hash n)))"
  unfolding sym_find_def matches_eq by (simp cong: option.case_cong)

lemma insert_symbol_state:
  assumes "insert_symbol nm c h st = (s, st')"
  shows "s = Sym (used st)" "tab st' = (tab st)(s := new_symbol nm c)" "hash st' = (hash st)(h := s # hash st h)"
    "used st' = Suc (used st)"
  using assms by (auto simp: insert_symbol_def Let_def)

lemma find_cong_set: "(\<And>x. x \<in> set xs \<Longrightarrow> P x = Q x) \<Longrightarrow> List.find P xs = List.find Q xs"
  by (induction xs) auto

lemma new_not_chained:
  assumes "table_inv st" and "insert_symbol nm c h st = (s, st')"
  shows "s \<notin> chained st"
  using assms(1) insert_symbol_state(1) [OF assms(2)] by (auto simp: table_inv_def alloc_ok_def)

text \<open>A new symbol does not hide the others.\<close>

lemma matches_insert:
  assumes "table_inv st" and "insert_symbol (Some n) c (str_hash n) st = (s, st')"
  shows "List.find (matches m d st') (hash st (str_hash m)) = List.find (matches m d st) (hash st (str_hash m))"
proof (rule find_cong_set)
  fix x assume "x \<in> set (hash st (str_hash m))"
  then have "x \<in> chained st" by (rule chainedI) (simp add: less_imp_le)
  then have "x \<noteq> s" using new_not_chained [OF assms] by blast
  then show "matches m d st' x = matches m d st x" by (simp add: matches_def insert_symbol_state(2) [OF assms(2)])
qed

lemma chained_insert:
  assumes "insert_symbol nm c h st = (s, st')" and "h \<le> 256"
  shows "chained st' = insert s (chained st)"
  using assms(2) unfolding chained_def insert_symbol_state(3) [OF assms(1)] by (auto split: if_splits)

lemma no_match:
  assumes inv: "table_inv st" and new: "List.find (matches n c st) (hash st (str_hash n)) = None" and t: "t \<in> chained st"
  shows "\<not> (s_name (tab st t) = Some n \<and> s_const (tab st t) = c)"
proof
  assume a: "s_name (tab st t) = Some n \<and> s_const (tab st t) = c"
  from t obtain h where h: "h \<le> 256" "t \<in> set (hash st h)" by (auto simp: chained_def)
  with inv a have "h \<noteq> 256" by (auto simp: table_inv_def names_ok_def)
  with h have "h < 256" by simp
  with h(2) inv obtain m where "s_name (tab st t) = Some m" "str_hash m = h" unfolding table_inv_def names_ok_def by blast
  with a have "str_hash n = h" by simp
  with new h(2) a show False by (auto simp: find_None_iff matches_def)
qed

lemma table_inv_insert:
  assumes inv: "table_inv st" and ins: "insert_symbol (Some n) c (str_hash n) st = (s, st')"
    and b: "builtin n = None" and new: "List.find (matches n c st) (hash st (str_hash n)) = None"
  shows "table_inv st'"
proof -
  note e = insert_symbol_state [OF ins] and ch = chained_insert [OF ins less_imp_le [OF str_hash_less]]
  have ns: "s_name (tab st' s) = Some n" "s_const (tab st' s) = c" "s_type (tab st' s) = S_UNKNOWN"
    by (simp_all add: e(2) new_symbol_def)
  have old: "tab st' x = tab st x" if "x \<noteq> s" for x using that by (simp add: e(2))
  note fresh = new_not_chained [OF inv ins]
  have ne: "x \<noteq> s" if "x \<in> set (hash st h)" "h \<le> 256" for x h using chainedI [OF that] fresh by blast
  have "names_ok st'" unfolding names_ok_def
  proof (intro conjI allI impI ballI)
    fix h x assume h: "h < 256" "x \<in> set (hash st' h)"
    show "\<exists>m. s_name (tab st' x) = Some m \<and> str_hash m = h \<and> builtin m = None"
    proof (cases "x = s")
      case True
      with h ne [of s h] b ns show ?thesis by (auto simp: e(3) split: if_splits)
    next
      case False
      with h inv show ?thesis by (auto simp: e(3) old table_inv_def names_ok_def split: if_splits)
    qed
  next
    fix x assume "x \<in> set (hash st' 256)"
    then have "x \<in> set (hash st 256)" using str_hash_less [of n] by (auto simp: e(3) split: if_splits)
    with inv ne [OF this] show "s_name (tab st' x) = None" by (simp add: old table_inv_def names_ok_def)
  qed
  moreover have "alloc_ok st'" using inv e(1,4) by (auto simp: table_inv_def alloc_ok_def ch less_Suc_eq)
  moreover have "unique_ok st'" unfolding unique_ok_def ch
  proof (intro ballI impI)
    fix x y
    assume x: "x \<in> insert s (chained st)" and y: "y \<in> insert s (chained st)"
      and n: "s_name (tab st' x) = s_name (tab st' y)" "s_name (tab st' x) \<noteq> None" "s_const (tab st' x) = s_const (tab st' y)"
    show "x = y"
    proof (cases "x = s \<or> y = s")
      case True
      with x y n ns no_match [OF inv new, of x] no_match [OF inv new, of y] show ?thesis using old by (metis insertE)
    next
      case False
      with x y n inv show ?thesis by (simp add: old table_inv_def unique_ok_def)
    qed
  qed
  moreover have "consts_ok st'"
  proof -
    have "builtin_ok st' symbol_yes Yes" "builtin_ok st' symbol_mod Mod" "builtin_ok st' symbol_no No"
      using inv e(1) by (simp_all add: table_inv_def consts_ok_def builtin_ok_def old)
    moreover have "s_type (tab st' (Sym i)) = S_UNKNOWN \<and> Sym i \<in> chained st'" if "s_const (tab st' (Sym i))" for i
      using that inv ns ch by (cases "Sym i = s") (auto simp: old table_inv_def consts_ok_def)
    ultimately show ?thesis by (simp add: consts_ok_def)
  qed
  ultimately show ?thesis by (simp add: table_inv_def)
qed

text \<open>The symbol that a lookup returns is the one that later lookups and \<open>sym_find\<close> return.\<close>

lemma lookup_cases:
  assumes "sym_lookup (Some n) c st = (s, st')"
  obtains (builtin) "builtin n = Some s" "st' = st"
    | (old) "builtin n = None" "List.find (matches n c st) (hash st (str_hash n)) = Some s" "st' = st"
    | (new) "builtin n = None" "List.find (matches n c st) (hash st (str_hash n)) = None"
        "insert_symbol (Some n) c (str_hash n) st = (s, st')"
  using assms unfolding sym_lookup_named by (auto split: option.splits)

lemma lookup_inv: "sym_lookup (Some n) c st = (s, st') \<Longrightarrow> table_inv st \<Longrightarrow> table_inv st'"
  by (erule lookup_cases) (auto intro: table_inv_insert)

lemma lookup_match:
  assumes "sym_lookup (Some n) c st = (s, st')" and "builtin n = None"
  shows "matches n c st' s" and "List.find (matches n c st') (hash st' (str_hash n)) = Some s"
proof -
  have "matches n c st' s \<and> List.find (matches n c st') (hash st' (str_hash n)) = Some s"
    using assms(1)
  proof (cases rule: lookup_cases)
    case old
    then show ?thesis by (auto simp: find_Some_iff)
  next
    case new
    note e = insert_symbol_state [OF new(3)]
    have "matches n c st' s" by (simp add: e(2) matches_def new_symbol_def)
    then show ?thesis by (simp add: e(3))
  qed (use assms(2) in simp)
  then show "matches n c st' s" "List.find (matches n c st') (hash st' (str_hash n)) = Some s" by blast+
qed

lemma lookup_keeps:
  assumes "sym_lookup (Some n) c st = (s, st')" and "table_inv st" and "sym_find (Some m) st = Some t"
  shows "sym_find (Some m) st' = Some t"
  using assms(1)
proof (cases rule: lookup_cases)
  case new
  note e = insert_symbol_state [OF new(3)]
  have s: "matches n c st' s" by (simp add: e(2) matches_def new_symbol_def)
  show ?thesis
  proof (cases "builtin m")
    case None
    then have f: "List.find (matches m False st) (hash st (str_hash m)) = Some t" using assms(3) by (simp add: sym_find_named)
    have "\<not> matches m False st' s"
    proof
      assume "matches m False st' s"
      with s have "m = n" "c = False" by (simp_all add: matches_def)
      with f new(2) show False by simp
    qed
    then have "List.find (matches m False st') (hash st' (str_hash m)) = Some t"
      using f matches_insert [OF assms(2) new(3), of m False] by (cases "str_hash m = str_hash n") (simp_all add: e(3))
    with None show ?thesis by (simp add: sym_find_named)
  qed (use assms(3) in \<open>simp add: sym_find_named\<close>)
qed (use assms(3) in simp_all)

lemma good_insert:
  assumes g: "good st" and ins: "insert_symbol (Some n) c h st = (s, st')"
  shows "good st'"
proof -
  note e = insert_symbol_state [OF ins]
  have old: "tab st' x = tab st x" if "x \<noteq> s" for x using that by (simp add: e(2))
  have ns: "tab st' s = new_symbol (Some n) c" by (simp add: e(2))
  have ty: "\<not> boolish (s_type (tab st' a))" if "\<not> boolish (s_type (tab st a))" for a
    using that old [of a] by (cases "a = s") (simp_all add: ns new_symbol_def)
  have "wf_symbol st' x" for x
  proof (cases "x = s")
    case True
    then show ?thesis by (simp add: wf_symbol_def ns new_symbol_def)
  next
    case False
    have c: "choice_values st' x = choice_values st x" "sym_get_choice_prop st' x = sym_get_choice_prop st x"
      by (simp_all add: choice_values_def sym_get_choice_prop_def old [OF False])
    note w = good_wf [OF g, of x, unfolded wf_symbol_def]
    show ?thesis unfolding wf_symbol_def old [OF False] c
    proof (intro conjI)
      show "\<forall>p \<in> set (s_props (tab st x)). p_type p = P_RANGE \<longrightarrow>
          (\<exists>a b. p_expr p = PRange a b \<and> \<not> boolish (s_type (tab st' a)) \<and> \<not> boolish (s_type (tab st' b)))"
        using w ty by meson
      show "\<not> boolish (s_type (tab st x)) \<longrightarrow> (s_def_user (tab st x) \<longrightarrow> is_str (s_user_val (tab st x))) \<and>
          (\<forall>p \<in> set (s_props (tab st x)). p_type p = P_DEFAULT \<longrightarrow>
            (\<forall>d. prop_get_symbol p = Some d \<longrightarrow> \<not> boolish (s_type (tab st' d))))"
        using w ty by meson
    qed (use w in blast)+
  qed
  moreover have "typed (tab st' x)" for x
    using good_typed [OF g, of x] old [of x] by (cases "x = s") (auto simp: ns new_symbol_def typed_def)
  moreover have "invalid st' \<subseteq> insert s (invalid st)" using old by (auto simp: invalid_def)
  then have "finite (invalid st')" using g by (auto simp: good_def intro: finite_subset)
  ultimately show ?thesis by (simp add: good_def)
qed

lemma good_lookup: "sym_lookup (Some n) c st = (s, st') \<Longrightarrow> good st \<Longrightarrow> good st'"
  by (erule lookup_cases) (auto intro: good_insert)

section \<open>Tables without pending values\<close>

definition env_of :: "kst \<Rightarrow> kenv" where
  "env_of st =
     \<lparr>k_type = (\<lambda>s. s_type (tab st s)), k_tri = (\<lambda>s. s_tri (tab st s)),
      k_val = (\<lambda>s. case s_val (tab st s) of VStr v \<Rightarrow> v | VSym _ \<Rightarrow> []),
      k_const = (\<lambda>s. s_const (tab st s)), k_name = (\<lambda>s. s_name (tab st s))\<rparr>"

lemma env_string:
  assumes "good st" and "s_valid (tab st s)"
  shows "string_value st s = VStr (sym_get_string_value (env_of st) s)"
  using ev.valid_string [OF assms] by (auto simp: string_value_def env_of_def sym_get_string_value_def)

lemma eval_valid:
  "good st \<Longrightarrow> set (expr_syms e) \<inter> invalid st = {} \<Longrightarrow>
    expr_eval (sym_calc_value (Suc n)) e st = Some (expr_calc_value (env_of st) e, st)"
proof (induction e)
  case (ESymbol s)
  then show ?case by (simp add: invalid_def env_of_def)
next
  case (EEqual a b)
  then have v: "s_valid (tab st a)" "s_valid (tab st b)" by (auto simp: invalid_def)
  with EEqual(1) show ?case by (simp add: same_string_def env_string)
next
  case (EUnequal a b)
  then have v: "s_valid (tab st a)" "s_valid (tab st b)" by (auto simp: invalid_def)
  with EUnequal(1) show ?case by (simp add: same_string_def env_string)
qed (auto simp: Int_Un_distrib2 simp del: sym_calc_value.simps)

text \<open>The name of a constant is its value.\<close>

lemma const_name:
  assumes "good st" and "table_inv st" and "invalid st = {}" and "s_const (tab st s)"
  shows "s_name (tab st s) = Some (sym_get_string_value (env_of st) s)"
proof -
  have "s_type (tab st s) = S_UNKNOWN"
    using assms(2,4) by (cases s) (auto simp: table_inv_def consts_ok_def builtin_ok_def)
  moreover have "s_valid (tab st s)" using assms(3) by (auto simp: invalid_def)
  ultimately show ?thesis
    using good_typed [OF assms(1), of s] by (auto simp: typed_def env_of_def sym_get_string_value_def)
qed

lemma const_unique:
  assumes inv: "table_inv st" and c: "s_const (tab st s)" "s_const (tab st t)"
    and n: "s_name (tab st s) = Some n" "s_name (tab st t) = Some n"
  shows "s = t"
proof -
  have b: "builtin n = Some u" if "u \<in> {symbol_yes, symbol_mod, symbol_no}" "s_name (tab st u) = Some n" for u
    using that inv by (auto simp: table_inv_def consts_ok_def builtin_ok_def builtin_def)
  have f: "builtin n = None \<and> u \<in> chained st" if "u = Sym i" "s_const (tab st u)" "s_name (tab st u) = Some n" for u i
  proof -
    have u: "u \<in> chained st" using that inv by (simp add: table_inv_def consts_ok_def)
    then obtain h where "h \<le> 256" "u \<in> set (hash st h)" by (auto simp: chained_def)
    with that inv have "h < 256" by (cases "h = 256") (auto simp: table_inv_def names_ok_def)
    with \<open>u \<in> set (hash st h)\<close> inv that(3) u show ?thesis unfolding table_inv_def names_ok_def by force
  qed
  show ?thesis
  proof (cases "builtin n")
    case None
    then obtain i j where "s = Sym i" "t = Sym j" using b [of s] b [of t] n by (cases s; cases t) auto
    then have "s \<in> chained st" "t \<in> chained st" using f [of s i] f [of t j] c n by blast+
    then show ?thesis using inv c n unfolding table_inv_def unique_ok_def by simp
  next
    case (Some u)
    then show ?thesis using b [of s] b [of t] f [of s] f [of t] c n by (cases s; cases t) auto
  qed
qed

lemma table_kenv_ok:
  assumes "good st" and "table_inv st" and "invalid st = {}"
  shows "kenv_ok (env_of st)"
proof -
  have c: "k_type (env_of st) s = S_UNKNOWN \<and> k_tri (env_of st) s = t \<and> k_val (env_of st) s = tri_name t \<and> k_const (env_of st) s"
    if "builtin_ok st s t" for s t
    using that good_typed [OF assms(1), of s] by (auto simp: builtin_ok_def typed_def env_of_def)
  have u: "s = t" if "s_const (tab st s)" "s_const (tab st t)"
    "sym_get_string_value (env_of st) s = sym_get_string_value (env_of st) t" for s t
    using const_unique [OF assms(2) that(1,2)] const_name [OF assms that(1)] const_name [OF assms that(2)] that(3) by simp
  have b: "s_type (tab st s) = S_BOOLEAN \<Longrightarrow> s_tri (tab st s) \<noteq> Mod" for s
    using good_typed [OF assms(1), of s] by (simp add: typed_def)
  show ?thesis
    using c [of symbol_yes Yes] c [of symbol_mod Mod] c [of symbol_no No] u b assms(2)
    by (auto simp: kenv_ok_def table_inv_def consts_ok_def) (auto simp: env_of_def)
qed

section \<open>Ranges\<close>

definition range_base :: "symbol_type \<Rightarrow> nat \<Rightarrow> nat" where
  "range_base ty base = (case ty of S_INT \<Rightarrow> 10 | S_HEX \<Rightarrow> 16 | _ \<Rightarrow> base)"

lemma range_val_valid:
  assumes "s_valid (tab st s)" and "s_val (tab st s) = VStr x"
  shows "sym_get_range_val (sym_calc_value (Suc n)) s base st = Some (strtol x (range_base (s_type (tab st s)) base), st)"
  using assms by (simp add: sym_get_range_val_def val_strtol_def range_base_def)

text \<open>The printed bound is read as the bound.\<close>

definition fits :: "symbol_type \<Rightarrow> int \<Rightarrow> bool" where
  "fits ty v \<longleftrightarrow> ty = S_INT \<or> ty = S_HEX \<and> 0 \<le> v"

lemma bound_read_back:
  assumes "fits ty (strtol x b)"
  shows "strtol (if ty = S_INT then sprintf_d (strtol x b) else sprintf_0x (strtol x b)) (if ty = S_INT then 10 else 16) = strtol x b"
  using assms strtol_bounds [of x b] by (auto simp: fits_def strtol_sprintf_d strtol_sprintf_0x)

lemma range_clamp_value:
  fixes st :: kst and s lo hi :: sym and n :: nat
  defines "ty \<equiv> s_type (tab st s)"
  defines "base \<equiv> (if ty = S_INT then 10 else 16)"
  assumes lo: "s_valid (tab st lo)" "s_val (tab st lo) = VStr x" and hi: "s_valid (tab st hi)" "s_val (tab st hi) = VStr y"
    and v: "s_val (tab st s) = VStr v"
    and a: "a = strtol x (range_base (s_type (tab st lo)) base)" and b: "b = strtol y (range_base (s_type (tab st hi)) base)"
    and fits: "fits ty a" and ab: "a \<le> b"
  shows "\<exists>w. range_clamp (sym_calc_value (Suc n)) s base lo hi st = Some (upd_sym s (\<lambda>z. z\<lparr>s_val := VStr w\<rparr>) st) \<and>
    strtol w base = max a (min b (strtol v base)) \<and> (a \<le> strtol v base \<and> strtol v base \<le> b \<longrightarrow> w = v)"
proof -
  let ?p = "\<lambda>z. if ty = S_INT then sprintf_d z else sprintf_0x z"
  have ra: "strtol (?p a) base = a" unfolding a base_def using fits unfolding a base_def by (rule bound_read_back)
  have "fits ty b" using fits ab by (auto simp: fits_def)
  then have rb: "strtol (?p b) base = b" unfolding b base_def by (rule bound_read_back)
  note r = range_val_valid [OF lo] range_val_valid [OF hi]
  have same: "upd_sym s (\<lambda>z. z\<lparr>s_val := VStr v\<rparr>) st = st"
  proof -
    have "(tab st s)\<lparr>s_val := VStr v\<rparr> = tab st s" using v by (cases "tab st s") simp
    then show ?thesis by (simp add: upd_sym_def)
  qed
  have sp: "upd_sym s (\<lambda>z. z\<lparr>s_val := VStr (if s_type z = S_INT then sprintf_d w else sprintf_0x w)\<rparr>) st =
      upd_sym s (\<lambda>z. z\<lparr>s_val := VStr (?p w)\<rparr>) st" for w by (simp add: upd_sym_def ty_def)
  consider (below) "strtol v base < a" | (above) "b < strtol v base" | (inside) "a \<le> strtol v base" "strtol v base \<le> b" by linarith
  then show ?thesis
  proof cases
    case below
    then show ?thesis
      by (intro exI [of _ "?p a"]) (use ab ra in \<open>auto simp: range_clamp_def range_check_def v val_strtol_def r a [symmetric] sp simp del: sym_calc_value.simps\<close>)
  next
    case above
    then show ?thesis
      by (intro exI [of _ "?p b"]) (use ab rb in \<open>auto simp: range_clamp_def range_check_def v val_strtol_def r a [symmetric] b [symmetric] sp simp del: sym_calc_value.simps\<close>)
  next
    case inside
    then show ?thesis
      by (intro exI [of _ v]) (auto simp: range_clamp_def range_check_def v val_strtol_def r a [symmetric] b [symmetric] same simp del: sym_calc_value.simps)
  qed
qed

section \<open>Tables made from a list of symbols\<close>

definition hash_of :: "(sym \<Rightarrow> symbol) \<Rightarrow> sym list \<Rightarrow> nat \<Rightarrow> sym list" where
  "hash_of T ss h = filter (\<lambda>s. case s_name (T s) of None \<Rightarrow> False | Some n \<Rightarrow> str_hash n = h) ss"

lemma hash_of_mem: "s \<in> set (hash_of T ss h) \<longleftrightarrow> s \<in> set ss \<and> (\<exists>n. s_name (T s) = Some n \<and> str_hash n = h)"
  by (auto simp: hash_of_def split: option.splits)

lemma table_of_list:
  assumes h: "hash st = hash_of (tab st) ss"
    and n: "list_all (\<lambda>s. case s_name (tab st s) of None \<Rightarrow> False | Some n \<Rightarrow> builtin n = None) ss"
    and u: "list_all (\<lambda>s. s \<in> Sym ` {..<used st}) ss"
    and d: "distinct (map (\<lambda>s. (s_name (tab st s), s_const (tab st s))) ss)"
  shows "chained st = set ss" and "consts_ok st \<Longrightarrow> table_inv st"
proof -
  have named: "\<exists>m. s_name (tab st s) = Some m \<and> builtin m = None" if "s \<in> set ss" for s
    using n that by (auto simp: list_all_iff split: option.splits)
  have "s \<in> chained st" if "s \<in> set ss" for s
  proof -
    from named [OF that] obtain m where "s_name (tab st s) = Some m" by blast
    with that have "s \<in> set (hash st (str_hash m))" by (simp add: h hash_of_mem)
    then show ?thesis by (rule chainedI) (simp add: less_imp_le)
  qed
  then show c: "chained st = set ss" by (auto simp: chained_def h hash_of_mem)
  assume k: "consts_ok st"
  have "names_ok st" unfolding names_ok_def
  proof (intro conjI allI impI ballI)
    show "\<exists>m. s_name (tab st s) = Some m \<and> str_hash m = x \<and> builtin m = None" if "x < 256" "s \<in> set (hash st x)" for x s
      using that(2) named [of s] unfolding h hash_of_mem by auto
    show "s_name (tab st s) = None" if "s \<in> set (hash st 256)" for s
    proof -
      from that obtain m where "str_hash m = 256" unfolding h hash_of_mem by blast
      with str_hash_less [of m] show ?thesis by simp
    qed
  qed
  moreover have "alloc_ok st" unfolding alloc_ok_def c using u by (auto simp: list_all_iff)
  moreover have "unique_ok st" unfolding unique_ok_def c using d by (auto simp: distinct_map inj_on_def)
  ultimately show "table_inv st" using k by (simp add: table_inv_def)
qed

lemma distinct_buckets:
  assumes "\<And>i. distinct (f i)" and "\<And>i j. i \<noteq> j \<Longrightarrow> set (f i) \<inter> set (f j) = {}"
  shows "distinct (concat (map f [0..<n :: nat]))"
proof (induction n)
  case (Suc n)
  have "x \<notin> set (f n)" if "x \<in> set (f i)" "i < n" for x i using assms(2) [of i n] that by blast
  then have "set (concat (map f [0..<n])) \<inter> set (f n) = {}" by auto
  with Suc assms(1) show ?case by simp
qed simp

lemma distinct_symbols:
  assumes "hash st = hash_of (tab st) ss" and "distinct ss"
  shows "distinct (all_symbols st)"
proof -
  have "distinct (concat (map (hash st) [0..<SYMBOL_HASHSIZE]))"
    unfolding assms(1) by (rule distinct_buckets) (use assms(2) in \<open>auto simp: hash_of_def split: option.splits\<close>)
  then show ?thesis by (simp add: all_symbols_def)
qed

lemma all_symbols_set: "set (all_symbols st) = {s \<in> chained st. s_type (tab st s) \<noteq> S_OTHER}"
proof -
  have "set [0..<SYMBOL_HASHSIZE] = {..256}" by auto
  then show ?thesis by (auto simp: all_symbols_def chained_def)
qed

end
