(* ===== verification/Kconf_Conf_Props.thy ===== *)
theory Kconf_Conf_Props
  imports Kconf_Conf_Write Kconf_Table
begin

text \<open>
  Lemmas on configuration files: what reading a file may change of the symbol table, that it
  succeeds on every file, and that the lines which the configurator writes are read back.
\<close>

section \<open>What reading changes\<close>

lemma def_simps [simp]:
  "def_flag d (set_def_flag d b x) = b" "def_tri d (set_def_flag d b x) = def_tri d x" "def_val d (set_def_flag d b x) = def_val d x"
  "def_flag d (set_def_tri d t x) = def_flag d x" "def_tri d (set_def_tri d t x) = t" "def_val d (set_def_tri d t x) = def_val d x"
  "def_flag d (set_def_val d v x) = def_flag d x" "def_tri d (set_def_val d v x) = def_tri d x" "def_val d (set_def_val d v x) = v"
  by (cases d; simp add: def_flag_def def_tri_def def_val_def set_def_flag_def set_def_tri_def set_def_val_def)+

text \<open>A symbol without the saved value.\<close>

definition strip :: "def_idx \<Rightarrow> symbol \<Rightarrow> symbol" where
  "strip d x = set_def_flag d False (set_def_tri d No (set_def_val d (VSym None) x))"

lemmas strip_defs = strip_def set_def_flag_def set_def_tri_def set_def_val_def

lemma strip_set [simp]:
  "strip d (set_def_flag d b x) = strip d x" "strip d (set_def_tri d t x) = strip d x" "strip d (set_def_val d v x) = strip d x"
  by (cases d; simp add: strip_defs)+

lemma strip_fields [simp]:
  "s_name (strip d x) = s_name x" "s_type (strip d x) = s_type x" "s_val (strip d x) = s_val x" "s_tri (strip d x) = s_tri x"
  "s_props (strip d x) = s_props x" "s_const (strip d x) = s_const x" "s_choice (strip d x) = s_choice x"
  "s_choiceval (strip d x) = s_choiceval x" "s_valid (strip d x) = s_valid x" "s_write (strip d x) = s_write x"
  "s_auto (strip d x) = s_auto x"
  by (cases d; simp add: strip_defs)+

definition reads :: "def_idx \<Rightarrow> kst \<Rightarrow> kst \<Rightarrow> bool" where
  "reads d st st' \<longleftrightarrow> st' = st\<lparr>tab := tab st'\<rparr> \<and> (\<forall>s. strip d (tab st' s) = strip d (tab st s))"

lemma reads_refl [simp]: "reads d st st"
  by (simp add: reads_def)

lemma reads_trans: "reads d st st' \<Longrightarrow> reads d st' st'' \<Longrightarrow> reads d st st''"
proof -
  assume a: "reads d st st'" "reads d st' st''"
  have "st'' = (st\<lparr>tab := tab st'\<rparr>)\<lparr>tab := tab st''\<rparr>" using a by (simp add: reads_def)
  then show ?thesis using a by (simp add: reads_def)
qed

lemma reads_upd: "strip d (f (tab st s)) = strip d (tab st s) \<Longrightarrow> reads d st (upd_sym s f st)"
  by (simp add: reads_def upd_sym_def)

lemma reads_field:
  assumes "reads d st st'"
  shows "s_name (tab st' s) = s_name (tab st s)" "s_type (tab st' s) = s_type (tab st s)" "s_val (tab st' s) = s_val (tab st s)"
    "s_tri (tab st' s) = s_tri (tab st s)" "s_props (tab st' s) = s_props (tab st s)" "s_const (tab st' s) = s_const (tab st s)"
    "s_choice (tab st' s) = s_choice (tab st s)" "s_choiceval (tab st' s) = s_choiceval (tab st s)"
    "s_valid (tab st' s) = s_valid (tab st s)" "s_write (tab st' s) = s_write (tab st s)" "s_auto (tab st' s) = s_auto (tab st s)"
proof -
  have e: "strip d (tab st' s) = strip d (tab st s)" using assms by (simp add: reads_def)
  show "s_name (tab st' s) = s_name (tab st s)" using arg_cong [OF e, of s_name] by simp
  show "s_type (tab st' s) = s_type (tab st s)" using arg_cong [OF e, of s_type] by simp
  show "s_val (tab st' s) = s_val (tab st s)" using arg_cong [OF e, of s_val] by simp
  show "s_tri (tab st' s) = s_tri (tab st s)" using arg_cong [OF e, of s_tri] by simp
  show "s_props (tab st' s) = s_props (tab st s)" using arg_cong [OF e, of s_props] by simp
  show "s_const (tab st' s) = s_const (tab st s)" using arg_cong [OF e, of s_const] by simp
  show "s_choice (tab st' s) = s_choice (tab st s)" using arg_cong [OF e, of s_choice] by simp
  show "s_choiceval (tab st' s) = s_choiceval (tab st s)" using arg_cong [OF e, of s_choiceval] by simp
  show "s_valid (tab st' s) = s_valid (tab st s)" using arg_cong [OF e, of s_valid] by simp
  show "s_write (tab st' s) = s_write (tab st s)" using arg_cong [OF e, of s_write] by simp
  show "s_auto (tab st' s) = s_auto (tab st s)" using arg_cong [OF e, of s_auto] by simp
qed

lemma reads_hash: "reads d st st' \<Longrightarrow> hash st' = hash st"
proof -
  assume "reads d st st'"
  then have "hash st' = hash (st\<lparr>tab := tab st'\<rparr>)" by (simp only: reads_def)
  then show ?thesis by simp
qed

lemma reads_choice_prop: "reads d st st' \<Longrightarrow> sym_get_choice_prop st' s = sym_get_choice_prop st s"
  by (simp add: sym_get_choice_prop_def reads_field(5))

section \<open>Characters of names and values\<close>

definition name_ok :: "string \<Rightarrow> bool" where
  "name_ok n \<longleftrightarrow> n \<noteq> [] \<and> list_all name_char n"

lemma name_ok_chars:
  assumes "name_ok n"
  shows "NUL \<notin> set n" "CHR '' '' \<notin> set n" "CHR ''='' \<notin> set n" "NL \<notin> set n"
proof -
  have "\<not> name_char NUL" "\<not> name_char (CHR '' '')" "\<not> name_char (CHR ''='')" "\<not> name_char NL" by code_simp+
  with assms show "NUL \<notin> set n" "CHR '' '' \<notin> set n" "CHR ''='' \<notin> set n" "NL \<notin> set n"
    by (auto simp: name_ok_def list_all_iff)
qed

lemma str_at_append: "length a = i \<Longrightarrow> NUL \<notin> set b \<Longrightarrow> str_at i (a @ b @ NUL # r) = b"
  by (simp add: str_at_def takeWhile_tail takeWhile_append)

lemma cut_at_append: "c \<notin> set a \<Longrightarrow> cut_at c (a @ c # r) = Some (a, r)"
proof -
  assume "c \<notin> set a"
  then have "takeWhile (\<lambda>x. x \<noteq> c) (a @ c # r) = a" "dropWhile (\<lambda>x. x \<noteq> c) (a @ c # r) = c # r"
    by (simp_all add: takeWhile_append dropWhile_append)
  then show ?thesis by (simp add: cut_at_def)
qed

lemma value_text_line: "NL \<notin> set v \<Longrightarrow> (v \<noteq> [] \<Longrightarrow> last v \<noteq> CR) \<Longrightarrow> value_text (v @ [NL]) = v"
  using cut_at_append [of NL v "[]"] by (auto simp: value_text_def)

text \<open>The characters of a valid number.\<close>

lemma digit_chars: "isxdigit c \<Longrightarrow> c \<noteq> NL \<and> c \<noteq> NUL \<and> c \<noteq> CR"
proof -
  assume x: "isxdigit c"
  have "\<not> isxdigit NL" "\<not> isxdigit NUL" "\<not> isxdigit CR" by code_simp+
  with x show ?thesis by blast
qed

section \<open>Quoting\<close>

lemma unquote_char: "c \<noteq> QUOTE \<Longrightarrow> c \<noteq> BACKSLASH \<Longrightarrow> conf_unquote (c # cs) = map_option (Cons c) (conf_unquote cs)"
  by (cases cs) auto

lemma unquote_quote: "conf_unquote (conf_quote v @ QUOTE # r) = Some v"
proof (induction v)
  case Nil
  show ?case by (cases r) auto
next
  case (Cons c v)
  show ?case
  proof (cases "c = QUOTE \<or> c = BACKSLASH")
    case True
    then have "conf_unquote (conf_quote (c # v) @ QUOTE # r) = conf_unquote (BACKSLASH # c # (conf_quote v @ QUOTE # r))" by simp
    also have "\<dots> = Some (c # v)" using Cons.IH by simp
    finally show ?thesis .
  next
    case False
    then show ?thesis using unquote_char [of c "conf_quote v @ QUOTE # r"] Cons.IH by simp
  qed
qed

lemma quote_chars: "c \<noteq> BACKSLASH \<Longrightarrow> c \<in> set (conf_quote v) \<longleftrightarrow> c \<in> set v"
  by (induction v) auto

section \<open>Reading back a line\<close>

text \<open>The current value of \<open>cur\<close> as the saved value of \<open>x\<close>.\<close>

definition save :: "def_idx \<Rightarrow> symbol \<Rightarrow> symbol \<Rightarrow> symbol" where
  "save d cur x = set_def_flag d True (if boolish (s_type cur) then set_def_tri d (s_tri cur) x else set_def_val d (s_val cur) x)"

lemma save_simps [simp]: "strip d (save d cur x) = strip d x" "def_flag d (save d cur x)"
  by (simp_all add: save_def)

lemma save_tri: "boolish (s_type cur) \<Longrightarrow> save d cur = (\<lambda>x. set_def_flag d True (set_def_tri d (s_tri cur) x))"
  by (simp add: fun_eq_iff save_def)

lemma save_val: "\<not> boolish (s_type cur) \<Longrightarrow> save d cur = (\<lambda>x. set_def_flag d True (set_def_val d (s_val cur) x))"
  by (simp add: fun_eq_iff save_def)

text \<open>A value that can be written: no \<open>m\<close> for a boolean symbol, no newline in a string, and numbers
  are valid.\<close>

definition value_ok :: "symbol \<Rightarrow> bool" where
  "value_ok x =
     (case s_type x of
        S_BOOLEAN \<Rightarrow> s_tri x \<noteq> Mod
      | S_TRISTATE \<Rightarrow> True
      | S_STRING \<Rightarrow> (case s_val x of VStr v \<Rightarrow> NL \<notin> set v \<and> NUL \<notin> set v | VSym _ \<Rightarrow> False)
      | S_INT \<Rightarrow> (case s_val x of VStr v \<Rightarrow> int_text_valid v | VSym _ \<Rightarrow> False)
      | S_HEX \<Rightarrow> (case s_val x of VStr v \<Rightarrow> hex_text_valid v | VSym _ \<Rightarrow> False)
      | _ \<Rightarrow> False)"

text \<open>Reading finds the symbol by its name.\<close>

definition finds :: "def_idx \<Rightarrow> kst \<Rightarrow> string \<Rightarrow> sym \<Rightarrow> bool" where
  "finds d k n s \<longleftrightarrow> (case d of S_DEF_USER \<Rightarrow> sym_find (Some n) k = Some s
     | S_DEF_AUTO \<Rightarrow> sym_lookup (Some n) False k = (s, k) \<and> s_type (tab k s) \<noteq> S_UNKNOWN)"

lemma finds_symbol: "finds d k n s \<Longrightarrow> conf_symbol d ty n k = (Some s, [], k)"
  by (cases d) (simp_all add: finds_def conf_symbol_def)

lemma unset_line_read:
  assumes "name_ok n" and "finds d k n s" and "\<not> def_flag d (tab k s)" and "boolish (s_type (tab k s))"
  shows "conf_switch d ((''# CONFIG_'' @ n @ '' is not set'' @ [NL]) @ NUL # stale) k = (Some s, False, [], set_tri d s No k)"
proof -
  let ?buf = "(''# CONFIG_'' @ n @ '' is not set'' @ [NL]) @ NUL # stale"
  have "str_at 9 ?buf = n @ '' is not set'' @ [NL]"
    using str_at_append [of "''# CONFIG_''" 9 "n @ '' is not set'' @ [NL]" stale] name_ok_chars [OF assms(1)] by simp
  then have "cut_at (CHR '' '') (str_at 9 ?buf) = Some (n, ''is not set'' @ [NL])"
    using cut_at_append [of "CHR '' ''" n "''is not set'' @ [NL]"] name_ok_chars [OF assms(1)] by simp
  moreover have "take 7 (drop 2 ?buf) = ''CONFIG_''" by simp
  moreover have "take 10 (''is not set'' @ [NL]) = ''is not set''" by simp
  ultimately have "unset_line d ?buf k = (Some s, False, [], set_tri d s No k)"
    using assms(3,4) by (simp add: unset_line_def finds_symbol [OF assms(2)])
  then show ?thesis by (simp add: conf_switch_def)
qed

lemma set_line_read:
  assumes "name_ok n" and "finds d k n s" and "\<not> def_flag d (tab k s)" and "NL \<notin> set v" and "NUL \<notin> set v"
    and "v \<noteq> [] \<Longrightarrow> last v \<noteq> CR"
  shows "conf_switch d ((''CONFIG_'' @ n @ ''='' @ v @ [NL]) @ NUL # stale) k = (Some s, assign_value d s v k)"
proof -
  let ?buf = "(''CONFIG_'' @ n @ ''='' @ v @ [NL]) @ NUL # stale"
  have "str_at 7 ?buf = n @ ''='' @ v @ [NL]"
    using str_at_append [of "''CONFIG_''" 7 "n @ ''='' @ v @ [NL]" stale] name_ok_chars [OF assms(1)] assms(5) by simp
  then have "cut_at (CHR ''='') (str_at 7 ?buf) = Some (n, v @ [NL])"
    using cut_at_append [of "CHR ''=''" n "v @ [NL]"] name_ok_chars [OF assms(1)] by simp
  moreover have "take 7 ?buf = ''CONFIG_''" by simp
  ultimately have "set_line d ?buf k = (Some s, assign_value d s v k)"
    using assms(3) value_text_line [OF assms(4,6)] by (simp add: set_line_def finds_symbol [OF assms(2)])
  then show ?thesis by (simp add: conf_switch_def)
qed

lemma number_chars:
  assumes "int_text_valid v \<or> hex_text_valid v"
  shows "NL \<notin> set v" "NUL \<notin> set v" "v \<noteq> []" "last v \<noteq> CR"
proof -
  let ?ok = "\<lambda>c. c \<noteq> NL \<and> c \<noteq> NUL \<and> c \<noteq> CR"
  have dig: "?ok c" if "isdigit c" for c
    using digit_chars [of c] that by (simp add: isdigit_iff isxdigit_def)
  have "v \<noteq> [] \<and> list_all ?ok v"
  proof (cases "int_text_valid v")
    case True
    then show ?thesis
      by (auto simp: int_text_valid_def list_all_iff Let_def dest: dig split: list.splits if_splits)
  next
    case False
    with assms have "hex_text_valid v" by simp
    then show ?thesis
      by (auto simp: hex_text_valid_def list_all_iff Let_def dest: digit_chars split: list.splits if_splits)
  qed
  then show "NL \<notin> set v" "NUL \<notin> set v" "v \<noteq> []" "last v \<noteq> CR" by (auto simp: list_all_iff)
qed

lemma printed_name_Some: "s_name (tab st s) = Some n \<Longrightarrow> printed_name st s = n"
  by (simp add: printed_name_def)

lemma assign_tri:
  assumes "boolish (s_type (tab k s))" and "t \<noteq> No" and "s_type (tab k s) = S_BOOLEAN \<Longrightarrow> t \<noteq> Mod"
  shows "assign_value d s (tri_name t) k = (False, [], set_tri d s t k)"
  using assms by (cases t) (auto simp: assign_value_def Let_def)

text \<open>The line of a symbol gives the symbol its value back.\<close>

lemma config_line_read:
  assumes l: "config_line st s = Some l" and v: "value_ok (tab st s)" and n: "s_name (tab st s) = Some n" "name_ok n"
    and f: "finds d k n s" "\<not> def_flag d (tab k s)" and ty: "s_type (tab k s) = s_type (tab st s)"
  shows "conf_switch d (l @ NUL # stale) k = (Some s, False, [], upd_sym s (save d (tab st s)) k)"
proof -
  let ?x = "tab st s"
  have tri: ?thesis if b: "boolish (s_type ?x)"
  proof (cases "s_tri ?x = No")
    case True
    with l b n have "l = ''# CONFIG_'' @ n @ '' is not set'' @ [NL]" by (auto simp: config_line_def printed_name_Some)
    with unset_line_read [OF n(2) f] b ty True show ?thesis by (simp add: set_tri_def save_tri)
  next
    case False
    with l b n have l': "l = ''CONFIG_'' @ n @ ''='' @ tri_name (s_tri ?x) @ [NL]" by (auto simp: config_line_def printed_name_Some)
    have "NL \<notin> set (tri_name (s_tri ?x))" "NUL \<notin> set (tri_name (s_tri ?x))" "last (tri_name (s_tri ?x)) \<noteq> CR"
      by (cases "s_tri ?x"; simp)+
    note r = set_line_read [OF n(2) f this]
    have "assign_value d s (tri_name (s_tri ?x)) k = (False, [], set_tri d s (s_tri ?x) k)"
      using assign_tri [of k s "s_tri ?x" d] b ty False v by (auto simp: value_ok_def)
    then show ?thesis unfolding l' r using b by (simp add: set_tri_def save_tri)
  qed
  have str: ?thesis if t: "s_type ?x = S_STRING"
  proof -
    from v t obtain w where w: "s_val ?x = VStr w" "NL \<notin> set w" "NUL \<notin> set w"
      by (auto simp: value_ok_def split: kval.splits)
    with l t n have l': "l = ''CONFIG_'' @ n @ ''='' @ (QUOTE # conf_quote w @ [QUOTE]) @ [NL]"
      by (auto simp: config_line_def printed_name_Some val_string_def)
    have "NL \<notin> set (QUOTE # conf_quote w @ [QUOTE])" "NUL \<notin> set (QUOTE # conf_quote w @ [QUOTE])"
      "last (QUOTE # conf_quote w @ [QUOTE]) \<noteq> CR" using w(2,3) quote_chars [of NL w] quote_chars [of NUL w] by auto
    from set_line_read [OF n(2) f this] t ty w(1) unquote_quote [of w "[]"] show ?thesis unfolding l'
      by (simp add: assign_value_def set_quoted_def set_string_def save_val sym_string_valid_def)
  qed
  have num: ?thesis if t: "s_type ?x = S_INT \<or> s_type ?x = S_HEX"
  proof -
    from v t obtain w where w: "s_val ?x = VStr w" "int_text_valid w \<or> hex_text_valid w" "sym_string_valid (s_type ?x) w"
      by (auto simp: value_ok_def sym_string_valid_def split: kval.splits)
    with l t n have l': "l = ''CONFIG_'' @ n @ ''='' @ w @ [NL]"
      by (auto simp: config_line_def printed_name_Some val_string_def)
    from set_line_read [OF n(2) f number_chars(1,2,4) [OF w(2)]] t ty w(1,3) show ?thesis unfolding l'
      by (auto simp: assign_value_def set_string_def save_val)
  qed
  from tri str num v show ?thesis by (cases "s_type ?x") (simp_all add: value_ok_def)
qed

section \<open>Any file can be read\<close>

text \<open>A string or number with a saved value has a string, and a saved value is valid for its type.\<close>

definition user_str :: "symbol \<Rightarrow> bool" where
  "user_str x \<longleftrightarrow> (\<not> boolish (s_type x) \<and> s_def_user x \<longrightarrow> is_str (s_user_val x))"

definition saved_ok :: "symbol \<Rightarrow> bool" where
  "saved_ok x \<longleftrightarrow> (s_def_user x \<and> \<not> s_choice x \<longrightarrow>
     (if boolish (s_type x) then s_type x = S_BOOLEAN \<longrightarrow> s_user_tri x \<noteq> Mod
      else \<exists>v. s_user_val x = VStr v \<and> sym_string_valid (s_type x) v))"

definition keeps :: "kst \<Rightarrow> kst \<Rightarrow> bool" where
  "keeps st st' \<longleftrightarrow> reads S_DEF_USER st st' \<and>
     (\<forall>t. (user_str (tab st t) \<longrightarrow> user_str (tab st' t)) \<and> (saved_ok (tab st t) \<longrightarrow> saved_ok (tab st' t)))"

lemma keeps_refl [simp]: "keeps st st"
  by (simp add: keeps_def)

lemma keeps_trans: "keeps st st' \<Longrightarrow> keeps st' st'' \<Longrightarrow> keeps st st''"
  unfolding keeps_def using reads_trans by blast

lemma keeps_reads: "keeps st st' \<Longrightarrow> reads S_DEF_USER st st'"
  by (simp add: keeps_def)

lemma keeps_upd:
  assumes "strip S_DEF_USER (f (tab st s)) = strip S_DEF_USER (tab st s)"
    and "user_str (f (tab st s))" and "saved_ok (f (tab st s))"
  shows "keeps st (upd_sym s f st)"
  unfolding keeps_def using reads_upd [where f = f, OF assms(1)] assms(2,3) by (simp add: upd_sym_def)

lemmas user_defs = set_def_flag_def set_def_tri_def set_def_val_def def_flag_def def_tri_def def_val_def

lemma set_tri_keeps:
  assumes "boolish (s_type (tab st s))" and "s_type (tab st s) = S_BOOLEAN \<Longrightarrow> t \<noteq> Mod"
  shows "keeps st (set_tri S_DEF_USER s t st)"
  unfolding set_tri_def using assms by (intro keeps_upd) (auto simp: user_str_def saved_ok_def user_defs strip_def)

lemma set_string_keeps:
  assumes "\<not> boolish (s_type (tab st s))" and "set_string S_DEF_USER s p st = (b, w, st')"
  shows "keeps st st'"
proof (cases "sym_string_valid (s_type (tab st s)) p")
  case True
  have "keeps st (upd_sym s (\<lambda>x. set_def_flag S_DEF_USER True (set_def_val S_DEF_USER (VStr p) x)) st)"
    using assms(1) True by (intro keeps_upd) (auto simp: user_str_def saved_ok_def user_defs strip_def)
  with assms(2) True show ?thesis by (auto simp: set_string_def)
next
  case False
  with assms(2) show ?thesis by (auto simp: set_string_def)
qed

lemma set_quoted_keeps:
  assumes "\<not> boolish (s_type (tab st s))" and "set_quoted S_DEF_USER s p st = (b, w, st')"
  shows "keeps st st'"
  using assms(2) set_string_keeps [OF assms(1)] by (auto simp: set_quoted_def split: list.splits if_splits option.splits)

lemma assign_keeps:
  assumes "s_type (tab st s) \<noteq> S_OTHER" and "assign_value S_DEF_USER s p st = (b, w, st')"
  shows "keeps st st'"
proof (cases "boolish (s_type (tab st s))")
  case True
  then show ?thesis using assms(2) set_tri_keeps [OF True]
    by (auto simp: assign_value_def Let_def split: if_splits)
next
  case False
  then show ?thesis using assms set_quoted_keeps [OF False] set_string_keeps [OF False]
    by (auto simp: assign_value_def Let_def split: if_splits)
qed

lemma conf_symbol_user: "conf_symbol S_DEF_USER ty n st = (so, w, st') \<Longrightarrow> st' = st"
  by (auto simp: conf_symbol_def split: option.splits)

lemma switch_keeps:
  assumes "\<And>s. s_type (tab st s) \<noteq> S_OTHER" and "conf_switch S_DEF_USER buf st = (so, b, w, st')"
  shows "keeps st st'"
proof -
  have u: "keeps st st'" if "unset_line S_DEF_USER buf st = (so, b, w, st')"
    using that set_tri_keeps [where st = st and t = No]
    by (auto simp: unset_line_def split: if_splits option.splits prod.splits dest: conf_symbol_user)
  have s: "keeps st st'" if "set_line S_DEF_USER buf st = (so, b, w, st')"
    using that assign_keeps [OF assms(1)]
    by (auto simp: set_line_def split: if_splits option.splits prod.splits dest: conf_symbol_user)
  show ?thesis using assms(2) u s by (auto simp: conf_switch_def split: if_splits)
qed

text \<open>The choice that a choice value names is a choice.\<close>

definition choices_ok :: "kst \<Rightarrow> bool" where
  "choices_ok st \<longleftrightarrow> (\<forall>s. s_choiceval (tab st s) \<longrightarrow>
     (\<exists>p c. sym_get_choice_prop st s = Some p \<and> prop_get_symbol p = Some c \<and> s_choice (tab st c)))"

lemma choices_ok_reads: "reads d st st' \<Longrightarrow> choices_ok st \<Longrightarrow> choices_ok st'"
  unfolding choices_ok_def by (simp add: reads_field(7,8) reads_choice_prop)

text \<open>A choice value changes only the saved value of its choice.\<close>

lemma choice_line_effect:
  assumes "choices_ok st" and "s_choiceval (tab st s)"
  obtains w c f where "choice_line d s st = Some (w, upd_sym c f st)" and "s_choice (tab st c)"
    and "strip d (f (tab st c)) = strip d (tab st c)"
proof -
  from assms obtain p c where p: "sym_get_choice_prop st s = Some p" "prop_get_symbol p = Some c" "s_choice (tab st c)"
    unfolding choices_ok_def by blast
  let ?t = "def_tri d (tab st s)" and ?ct = "def_tri d (tab st c)"
  let ?clash = "?t = Mod \<and> ?ct = Yes \<or> ?t = Yes \<and> ?ct \<noteq> No"
  let ?g = "if ?clash then set_def_flag d False else if ?t = Yes then set_def_val d (VSym (Some s)) else id"
  let ?f = "\<lambda>x. set_def_tri d (tri_or (def_tri d (?g x)) ?t) (?g x)"
  have "\<exists>w. choice_line d s st = Some (w, upd_sym c ?f st)"
    by (simp add: choice_line_def p Let_def upd_sym_def)
  moreover have "strip d (?f (tab st c)) = strip d (tab st c)" by simp
  ultimately show thesis using that p(3) by blast
qed

lemma conf_line_keeps:
  assumes "\<And>s. s_type (tab st s) \<noteq> S_OTHER" and "choices_ok st" and "good st"
  obtains w st' where "conf_line S_DEF_USER stale l st = Some (w, st')" and "keeps st st'"
proof -
  obtain so b w st1 where sw: "conf_switch S_DEF_USER (l @ NUL # stale) st = (so, b, w, st1)" by (metis prod_cases4)
  note k = switch_keeps [OF assms(1) sw]
  note r = keeps_reads [OF k]
  show thesis
  proof (cases "\<exists>s. so = Some s \<and> \<not> b \<and> s_choiceval (tab st1 s)")
    case True
    then obtain s where s: "so = Some s" "\<not> b" "s_choiceval (tab st1 s)" by blast
    from choice_line_effect [OF choices_ok_reads [OF r assms(2)] s(3)] obtain w' c f where
      c: "choice_line S_DEF_USER s st1 = Some (w', upd_sym c f st1)" "s_choice (tab st1 c)"
      and f: "strip S_DEF_USER (f (tab st1 c)) = strip S_DEF_USER (tab st1 c)" by blast
    have e: "s_choice (f (tab st1 c)) = s_choice (tab st1 c)" "s_type (f (tab st1 c)) = s_type (tab st1 c)"
      using arg_cong [OF f, of s_choice] arg_cong [OF f, of s_type] by simp_all
    have "boolish (s_type (tab st c))" using good_choice_type [OF assms(3), of c] c(2) reads_field(7) [OF r] by simp
    then have "user_str (f (tab st1 c))" "saved_ok (f (tab st1 c))"
      using c(2) e reads_field(2) [OF r, of c] by (auto simp: user_str_def saved_ok_def)
    then have "keeps st1 (upd_sym c f st1)" by (rule keeps_upd [where f = f, OF f])
    then show thesis using that [of "w @ w'" "upd_sym c f st1"] keeps_trans [OF k] sw s c(1) by (simp add: conf_line_def)
  next
    case False
    then show thesis using that [of w st1] k sw by (cases so) (auto simp: conf_line_def)
  qed
qed

lemma good_keeps:
  assumes "keeps st st'" and "good st"
  shows "good st'"
proof -
  note r = keeps_reads [OF assms(1)]
  have cv: "choice_values st' s = choice_values st s" for s by (simp add: choice_values_def reads_choice_prop [OF r])
  have "user_str (tab st s)" for s using good_user [OF assms(2)] by (simp add: user_str_def)
  then have u: "\<not> boolish (s_type (tab st s)) \<Longrightarrow> s_def_user (tab st' s) \<longrightarrow> is_str (s_user_val (tab st' s))" for s
    using assms(1) reads_field(2) [OF r, of s] by (auto simp: keeps_def user_str_def)
  have "wf_symbol st' s" for s
    using good_wf [OF assms(2), of s] u [of s]
    unfolding wf_symbol_def reads_field [OF r] cv reads_choice_prop [OF r] by blast
  moreover have "typed (tab st' s)" for s
    using good_typed [OF assms(2), of s] unfolding typed_def reads_field [OF r] .
  moreover have "invalid st' = invalid st" by (simp add: invalid_def reads_field(9) [OF r])
  ultimately show ?thesis using assms(2) by (simp add: good_def)
qed

lemma conf_lines_keep:
  assumes "\<And>s. s_type (tab st s) \<noteq> S_OTHER" and "choices_ok st" and "good st"
  shows "\<exists>ws st'. conf_lines S_DEF_USER stale n ls st = Some (ws, st') \<and> keeps st st'"
  using assms
proof (induction ls arbitrary: n st)
  case (Cons l ls)
  from conf_line_keeps [OF Cons.prems] obtain w st1 where
    l: "conf_line S_DEF_USER (stale n) l st = Some (w, st1)" and k: "keeps st st1" by blast
  note r = keeps_reads [OF k]
  from Cons.IH [of st1 "Suc n"] obtain ws st2 where
    "conf_lines S_DEF_USER stale (Suc n) ls st1 = Some (ws, st2)" "keeps st1 st2"
    using choices_ok_reads [OF r Cons.prems(2)] good_keeps [OF k Cons.prems(3)] Cons.prems(1) reads_field(2) [OF r] by auto
  with l keeps_trans [OF k] show ?case by auto
qed auto

section \<open>The reset\<close>

lemma fold_upd:
  assumes "\<And>x. f (f x) = f x"
  shows "fold (\<lambda>s. upd_sym s f) ss st = st\<lparr>tab := (\<lambda>t. if t \<in> set ss then f (tab st t) else tab st t)\<rparr>"
proof (induction ss arbitrary: st)
  case (Cons s ss)
  have t: "tab (upd_sym s f st) = (tab st)(s := f (tab st s))" by (simp add: upd_sym_def)
  have "fold (\<lambda>s. upd_sym s f) (s # ss) st =
      (upd_sym s f st)\<lparr>tab := (\<lambda>t. if t \<in> set ss then f (tab (upd_sym s f st) t) else tab (upd_sym s f st) t)\<rparr>"
    by (simp add: Cons.IH)
  also have "\<dots> = st\<lparr>tab := (\<lambda>t. if t \<in> set ss then f (tab (upd_sym s f st) t) else tab (upd_sym s f st) t)\<rparr>"
    by (simp add: upd_sym_def)
  also have "(\<lambda>t. if t \<in> set ss then f (tab (upd_sym s f st) t) else tab (upd_sym s f st) t) =
      (\<lambda>t. if t \<in> set (s # ss) then f (tab st t) else tab st t)" using assms unfolding t by (auto simp: fun_eq_iff)
  finally show ?case .
qed simp

lemma reset_idem: "reset_symbol d (reset_symbol d x) = reset_symbol d x"
  by (cases d) (simp_all add: reset_symbol_def user_defs)

lemma conf_reset_state:
  "conf_reset d st = st\<lparr>tab := (\<lambda>t. if t \<in> set (all_symbols st) then reset_symbol d (tab st t) else tab st t)\<rparr>"
  unfolding conf_reset_def by (rule fold_upd) (rule reset_idem)

lemma reset_fields [simp]:
  "s_name (reset_symbol d x) = s_name x" "s_type (reset_symbol d x) = s_type x" "s_val (reset_symbol d x) = s_val x"
  "s_tri (reset_symbol d x) = s_tri x" "s_props (reset_symbol d x) = s_props x" "s_const (reset_symbol d x) = s_const x"
  "s_choice (reset_symbol d x) = s_choice x" "s_choiceval (reset_symbol d x) = s_choiceval x"
  "s_valid (reset_symbol d x) = False" "def_flag d (reset_symbol d x) = s_choice x" "s_write (reset_symbol d x) = s_write x"
  "s_auto (reset_symbol d x) = s_auto x"
  by (cases d; simp add: reset_symbol_def user_defs)+

lemma reset_field:
  "s_name (tab (conf_reset d st) s) = s_name (tab st s)" "s_type (tab (conf_reset d st) s) = s_type (tab st s)"
  "s_val (tab (conf_reset d st) s) = s_val (tab st s)" "s_tri (tab (conf_reset d st) s) = s_tri (tab st s)"
  "s_props (tab (conf_reset d st) s) = s_props (tab st s)" "s_const (tab (conf_reset d st) s) = s_const (tab st s)"
  "s_choice (tab (conf_reset d st) s) = s_choice (tab st s)" "s_choiceval (tab (conf_reset d st) s) = s_choiceval (tab st s)"
  "s_valid (tab (conf_reset d st) s) \<longleftrightarrow> s_valid (tab st s) \<and> s \<notin> set (all_symbols st)"
  "sym_get_choice_prop (conf_reset d st) s = sym_get_choice_prop st s"
  by (simp_all add: conf_reset_state sym_get_choice_prop_def)

lemma choices_ok_reset: "choices_ok st \<Longrightarrow> choices_ok (conf_reset d st)"
  unfolding choices_ok_def by (simp add: reset_field)

lemma reset_user_str:
  assumes "good st"
  shows "user_str (tab (conf_reset S_DEF_USER st) s)"
  using good_user [OF assms, of s] good_choice_type [OF assms, of s]
  by (auto simp: conf_reset_state user_str_def reset_symbol_def user_defs)

lemma good_reset:
  assumes "good st"
  shows "good (conf_reset S_DEF_USER st)"
proof -
  let ?st = "conf_reset S_DEF_USER st"
  have cv: "choice_values ?st s = choice_values st s" for s by (simp add: choice_values_def reset_field)
  have u: "\<not> boolish (s_type (tab st s)) \<Longrightarrow> s_def_user (tab ?st s) \<longrightarrow> is_str (s_user_val (tab ?st s))" for s
    using reset_user_str [OF assms, of s] by (simp add: user_str_def reset_field)
  have "wf_symbol ?st s" for s
    using good_wf [OF assms, of s] u [of s] unfolding wf_symbol_def reset_field cv by blast
  moreover have "typed (tab ?st s)" for s
    using good_typed [OF assms, of s] unfolding typed_def reset_field by blast
  moreover have "invalid ?st \<subseteq> invalid st \<union> set (all_symbols st)" by (auto simp: invalid_def reset_field)
  then have "finite (invalid ?st)" using assms by (auto simp: good_def intro: finite_subset)
  ultimately show ?thesis by (simp add: good_def)
qed

section \<open>The table stays intact\<close>

lemma all_symbols_chained: "s \<in> set (all_symbols st) \<Longrightarrow> s \<in> chained st"
  by (auto simp: all_symbols_def chained_def)

text \<open>What the invariant of the table reads of a symbol.\<close>

lemma table_inv_fields:
  assumes "table_inv st" and "hash st' = hash st" and "used st' = used st"
    and "\<And>s. s_name (tab st' s) = s_name (tab st s)" and "\<And>s. s_const (tab st' s) = s_const (tab st s)"
    and "\<And>s. s_type (tab st' s) = s_type (tab st s)"
    and "\<And>s. s \<in> {symbol_yes, symbol_mod, symbol_no} \<Longrightarrow> s_valid (tab st' s) = s_valid (tab st s) \<and> s_tri (tab st' s) = s_tri (tab st s)"
  shows "table_inv st'"
proof -
  have c: "chained st' = chained st" by (simp add: chained_def assms(2))
  have b: "builtin_ok st' s t = builtin_ok st s t" if "s \<in> {symbol_yes, symbol_mod, symbol_no}" for s t
    using assms(7) [OF that] by (simp add: builtin_ok_def assms(4-6))
  show ?thesis using assms(1)
    unfolding table_inv_def names_ok_def alloc_ok_def unique_ok_def consts_ok_def c assms(2-6)
    by (simp add: b)
qed

lemma builtin_not_chained: "table_inv st \<Longrightarrow> s \<in> {symbol_yes, symbol_mod, symbol_no} \<Longrightarrow> s \<notin> chained st"
  unfolding table_inv_def alloc_ok_def by blast

lemma table_inv_reads: "reads d st st' \<Longrightarrow> table_inv st \<Longrightarrow> table_inv st'"
proof -
  assume r: "reads d st st'" and t: "table_inv st"
  have "used st' = used (st\<lparr>tab := tab st'\<rparr>)" using r by (simp only: reads_def)
  then have u: "used st' = used st" by simp
  show ?thesis
    by (rule table_inv_fields [OF t reads_hash [OF r] u])
      (simp_all add: reads_field(1) [OF r] reads_field(2) [OF r] reads_field(4) [OF r] reads_field(6) [OF r] reads_field(9) [OF r])
qed

lemma table_inv_reset: "table_inv st \<Longrightarrow> table_inv (conf_reset d st)"
proof (rule table_inv_fields [of st])
  show "s_valid (tab (conf_reset d st) s) = s_valid (tab st s) \<and> s_tri (tab (conf_reset d st) s) = s_tri (tab st s)"
    if "table_inv st" "s \<in> {symbol_yes, symbol_mod, symbol_no}" for s
    using builtin_not_chained [OF that] all_symbols_chained by (auto simp: reset_field)
qed (simp_all add: reset_field, simp_all add: conf_reset_state)

end
