(* ===== verification/Kconf_Conf_Read.thy ===== *)
theory Kconf_Conf_Read
  imports Kconf_Conf_Props
begin

text \<open>
  Reading a configuration file as a whole: \<open>conf_read\<close> returns on every file, and leaves a
  well-formed table whose saved values are valid; and the text that the configurator writes is
  read back.
\<close>

section \<open>Reading any file\<close>

text \<open>What holds of the table at every symbol of the loop of \<open>conf_read\<close>: \<open>U\<close> bounds the symbols
  that have to be evaluated, and the saved values of the symbols in \<open>S\<close> are valid.\<close>

definition conf_inv :: "sym set \<Rightarrow> sym set \<Rightarrow> kst \<Rightarrow> bool" where
  "conf_inv U S st \<longleftrightarrow> good st \<and> table_inv st \<and> invalid st \<subseteq> U \<and> (\<forall>s \<in> S. saved_ok (tab st s)) \<and> S \<subseteq> chained st"

lemma conf_inv_fit:
  assumes "conf_inv U S st" and "finite U" and "card U < n"
  shows "fit n st"
proof -
  have "card (invalid st) \<le> card U" using assms by (intro card_mono) (auto simp: conf_inv_def)
  with assms show ?thesis by (simp add: fit_def conf_inv_def)
qed

lemma saved_ok_static: "same_static x y \<Longrightarrow> saved_ok x \<Longrightarrow> saved_ok y"
  by (simp add: same_static_def saved_ok_def)

lemma conf_inv_step:
  assumes "conf_inv U S st" and "step {} st st'"
  shows "conf_inv U S st'"
proof -
  have e: "evolves {} st st'" "good st'" using assms(2) by (simp_all add: step_def)
  have "saved_ok (tab st' s)" if "s \<in> S" for s
    using saved_ok_static [OF evolves_static [OF e(1)]] assms(1) that by (simp add: conf_inv_def)
  moreover have "chained st' = chained st" using e(1) by (simp add: chained_def evolves_def)
  ultimately show ?thesis
    using assms(1) e table_inv_step [OF assms(2)] invalid_evolves [OF e(1)] by (auto simp: conf_inv_def)
qed

lemma conf_inv_keeps:
  assumes "conf_inv U S st" and "keeps st st'"
  shows "conf_inv U S st'"
proof -
  note r = keeps_reads [OF assms(2)]
  have "invalid st' = invalid st" "chained st' = chained st"
    by (simp_all add: invalid_def reads_field(9) [OF r] chained_def reads_hash [OF r])
  then show ?thesis
    using assms good_keeps [OF assms(2)] table_inv_reads [OF r] by (auto simp: conf_inv_def keeps_def)
qed

text \<open>Dropping the saved value, and the validity, of a symbol.\<close>

lemma conf_inv_drop: "conf_inv U S st \<Longrightarrow> conf_inv U S (upd_sym s (\<lambda>x. x\<lparr>s_def_user := False\<rparr>) st)"
  by (erule conf_inv_keeps, rule keeps_upd) (simp_all add: strip_defs user_str_def saved_ok_def)

lemma conf_inv_invalidate:
  assumes "conf_inv U S st" and "s \<in> U" and "s \<in> S"
  shows "conf_inv U S (upd_sym s (\<lambda>x. x\<lparr>s_valid := False\<rparr>) st)"
proof -
  let ?st = "upd_sym s (\<lambda>x. x\<lparr>s_valid := False\<rparr>) st"
  have f: "s_name (tab ?st t) = s_name (tab st t)" "s_const (tab ?st t) = s_const (tab st t)" "s_type (tab ?st t) = s_type (tab st t)"
    "s_tri (tab ?st t) = s_tri (tab st t)" "s_val (tab ?st t) = s_val (tab st t)" "s_choice (tab ?st t) = s_choice (tab st t)"
    "s_props (tab ?st t) = s_props (tab st t)" "s_choiceval (tab ?st t) = s_choiceval (tab st t)"
    "s_def_user (tab ?st t) = s_def_user (tab st t)" "s_user_val (tab ?st t) = s_user_val (tab st t)"
    "s_user_tri (tab ?st t) = s_user_tri (tab st t)" "s_valid (tab ?st t) \<longleftrightarrow> s_valid (tab st t) \<and> t \<noteq> s"
    "sym_get_choice_prop ?st t = sym_get_choice_prop st t" for t
    by (simp_all add: upd_sym_def sym_get_choice_prop_def)
  have cv: "choice_values ?st t = choice_values st t" for t by (simp add: choice_values_def f)
  have h: "hash ?st = hash st" "used ?st = used st" by (simp_all add: upd_sym_def)
  have g: "good st" and t: "table_inv st" using assms(1) by (simp_all add: conf_inv_def)
  have "wf_symbol ?st t" for t using good_wf [OF g, of t] unfolding wf_symbol_def f cv .
  moreover have "typed (tab ?st t)" for t using good_typed [OF g, of t] unfolding typed_def f by blast
  moreover have i: "invalid ?st = insert s (invalid st)" by (auto simp: invalid_def f)
  ultimately have "good ?st" using g by (simp add: good_def)
  moreover have "table_inv ?st"
  proof (rule table_inv_fields [OF t h])
    fix x assume x: "x \<in> {symbol_yes, symbol_mod, symbol_no}"
    have "x \<noteq> s" using builtin_not_chained [OF t x] assms(1,3) by (auto simp: conf_inv_def)
    then show "s_valid (tab ?st x) = s_valid (tab st x) \<and> s_tri (tab ?st x) = s_tri (tab st x)" by (simp add: f)
  qed (simp_all only: f)
  moreover have "saved_ok (tab ?st t) = saved_ok (tab st t)" for t by (simp add: saved_ok_def f)
  moreover have "chained ?st = chained st" by (simp add: chained_def h)
  ultimately show ?thesis using assms(1,2) i by (simp add: conf_inv_def)
qed

text \<open>The test of a number against its range returns.\<close>

lemma range_test_yields:
  assumes f: "fit n st" and t: "s_type (tab st s) = S_INT \<or> s_type (tab st s) = S_HEX"
  shows "yields (\<lambda>(ok, st'). step {} st st' \<and> fit n st') (num_within_range (sym_calc_value n) s v base st)"
  unfolding num_within_range_def sym_get_range_prop_def
proof (rule yields_bind_pair [OF ev.visible_prop_yields [OF f step_refl [OF fit_good [OF f]]]])
  fix pr st1
  assume a: "step {} st st1 \<and> fit n st1 \<and> (\<forall>q. pr = Some q \<longrightarrow> q \<in> snd ` set (props st s) \<and> p_type q = P_RANGE)"
  show "yields (\<lambda>(ok, st'). step {} st st' \<and> fit n st')
    (case pr of None \<Rightarrow> Some (True, st1)
     | Some p \<Rightarrow> (case p_expr p of
          PRange lo hi \<Rightarrow>
            do { (a, st) \<leftarrow> sym_get_range_val (sym_calc_value n) lo base st1;
                 if strtol v base \<ge> a
                 then do { (b, st) \<leftarrow> sym_get_range_val (sym_calc_value n) hi base st; Some (strtol v base \<le> b, st) }
                 else Some (False, st) }
        | _ \<Rightarrow> None))"
  proof (cases pr)
    case None
    with a show ?thesis by simp
  next
    case (Some p)
    with a have "p \<in> set (s_props (tab st s))" "p_type p = P_RANGE" using ev.props_mem by blast+
    from good_range [OF fit_good [OF f] this] obtain lo hi where p: "p_expr p = PRange lo hi"
      "\<not> boolish (s_type (tab st lo))" "\<not> boolish (s_type (tab st hi))" by blast
    have ty: "s_type (tab st2 x) = s_type (tab st x)" if "step {} st st2" for st2 x using ev.step_type [OF that] .
    have lo: "yields (\<lambda>(v, st'). step {} st st' \<and> fit n st') (sym_get_range_val (sym_calc_value n) lo base st1)"
      using a p(2) ty [of st1 lo] by (intro ev.range_val_yields) auto
    have hi: "yields (\<lambda>(v, st'). step {} st st' \<and> fit n st') (sym_get_range_val (sym_calc_value n) hi base st2)"
      if "step {} st st2 \<and> fit n st2" for st2
      using that p(3) ty [of st2 hi] by (intro ev.range_val_yields) auto
    show ?thesis using Some p(1) by (auto intro!: yields_bind_pair [OF lo] yields_bind_pair [OF hi])
  qed
qed

lemma within_range_yields:
  assumes "fit n st" and "s_type (tab st s) = S_INT \<or> s_type (tab st s) = S_HEX"
  shows "yields (\<lambda>(ok, st'). step {} st st' \<and> fit n st') (sym_string_within_range (sym_calc_value n) s v st)"
  using assms(2) range_test_yields [OF assms] step_refl [OF fit_good [OF assms(1)]] assms(1)
  by (auto simp: sym_string_within_range_def Let_def)

lemma drop_saved_yields:
  assumes U: "finite U" "card U < n" and i: "conf_inv U S st" and s: "s \<in> U" "s \<in> S"
  shows "yields (conf_inv U S) (drop_saved (sym_calc_value n) s st)"
proof (cases "\<not> s_def_user (tab st s) \<or> s_choiceval (tab st s)")
  case True
  with i show ?thesis by (simp add: drop_saved_def)
next
  case False
  let ?st = "if s_visible (tab st s) = No then upd_sym s (\<lambda>x. x\<lparr>s_def_user := False\<rparr>) st else st"
  have i1: "conf_inv U S ?st" using i conf_inv_drop by simp
  have ty: "s_type (tab ?st s) = s_type (tab st s)" "s_user_val (tab ?st s) = s_user_val (tab st s)" by (simp_all add: upd_sym_def)
  show ?thesis
  proof (cases "s_type (tab st s) = S_INT \<or> s_type (tab st s) = S_HEX")
    case num: True
    then have "is_str (s_user_val (tab st s))" using good_user [of st s] i False by (auto simp: conf_inv_def)
    then obtain v where v: "val_string (s_user_val (tab ?st s)) = Some v"
      unfolding ty by (cases "s_user_val (tab st s)") (auto simp: val_string_def)
    have fin: "conf_inv U S (if ok then st2 else upd_sym s (\<lambda>x. x\<lparr>s_valid := False, s_def_user := False\<rparr>) st2)"
      if "step {} ?st st2" for ok st2
    proof -
      from conf_inv_drop [OF conf_inv_invalidate [OF conf_inv_step [OF i1 that] s], of s]
      have "conf_inv U S (upd_sym s (\<lambda>x. x\<lparr>s_valid := False, s_def_user := False\<rparr>) st2)" by (simp add: upd_sym_def)
      with conf_inv_step [OF i1 that] show ?thesis by simp
    qed
    have "yields (conf_inv U S) (do { (ok, st) \<leftarrow> sym_string_within_range (sym_calc_value n) s v ?st;
        Some (if ok then st else upd_sym s (\<lambda>x. x\<lparr>s_valid := False, s_def_user := False\<rparr>) st) })"
      using num fin by (intro yields_bind_pair [OF within_range_yields [OF conf_inv_fit [OF i1 U]]]) (simp_all add: ty)
    with False num v ty show ?thesis by (simp add: drop_saved_def Let_def)
  next
    case False
    with i1 ty \<open>\<not> (\<not> s_def_user (tab st s) \<or> s_choiceval (tab st s))\<close> show ?thesis by (simp add: drop_saved_def Let_def)
  qed
qed

lemma check_choice_yields:
  assumes "conf_inv U S st"
  shows "yields (conf_inv U S) (check_choice s st)"
proof (cases "s_choice (tab st s)")
  case False
  with assms show ?thesis by (simp add: check_choice_def)
next
  case True
  have g: "good st" using assms by (simp add: conf_inv_def)
  from good_choice_values [OF g True] obtain vs where vs: "choice_values st s = Some vs" by blast
  have "keeps st (upd_sym s (\<lambda>x. x\<lparr>s_def_user := s_def_user x \<and> b\<rparr>) st)" for b
    using True good_choice_type [OF g True] by (intro keeps_upd) (auto simp: strip_defs user_str_def saved_ok_def)
  with conf_inv_keeps [OF assms] True vs show ?thesis by (simp add: check_choice_def Let_def)
qed

lemma saved_agrees_yields:
  assumes "good st" and "s_valid (tab st s)"
  shows "\<exists>b. saved_agrees (tab st s) = Some b"
proof (cases "boolish (s_type (tab st s))")
  case True
  then show ?thesis by (auto simp: saved_agrees_def)
next
  case False
  have "s_def_user (tab st s) \<Longrightarrow> is_str (s_user_val (tab st s))" using good_user [OF assms(1) False] .
  moreover obtain v where "s_val (tab st s) = VStr v"
    using ev.valid_string [OF assms] False by (auto simp: string_value_def)
  ultimately show ?thesis by (cases "s_user_val (tab st s)") (auto simp: saved_agrees_def val_string_def)
qed

lemma conf_check_yields:
  assumes U: "finite U" "card U < n" and i: "conf_inv U S st" and ss: "set ss \<subseteq> U" "set ss \<subseteq> S"
  shows "yields (\<lambda>(k, st'). conf_inv U S st') (conf_check (sym_calc_value n) ss st)"
  using i ss
proof (induction ss arbitrary: st)
  case (Cons s ss)
  from ev.calc_yields [OF conf_inv_fit [OF Cons.prems(1) U], of s] obtain st1 where
    c: "sym_calc_value n s st = Some st1" "step {} st st1" "s_valid (tab st1 s)" by (auto simp: yields_def)
  note i1 = conf_inv_step [OF Cons.prems(1) c(2)]
  from saved_agrees_yields [OF step_good [OF c(2)] c(3)] obtain ok where ok: "saved_agrees (tab st1 s) = Some ok" by blast
  from drop_saved_yields [OF U i1, of s] Cons.prems(2,3) obtain st2 where
    d: "drop_saved (sym_calc_value n) s st1 = Some st2" and i2: "conf_inv U S st2" by (auto simp: yields_def)
  from check_choice_yields [OF i2, of s] obtain st3 where
    e: "check_choice s st2 = Some st3" and i3: "conf_inv U S st3" by (auto simp: yields_def)
  from Cons.IH [OF i3] Cons.prems(2,3) obtain k st4 where
    "conf_check (sym_calc_value n) ss st3 = Some (k, st4)" "conf_inv U S st4" by (auto simp: yields_def)
  with c(1) ok d e show ?case by simp
qed simp

text \<open>The whole of \<open>conf_read_simple\<close> for the user's values.\<close>

lemma read_simple_yields:
  assumes g: "good st" "table_inv st" "choices_ok st" and o: "\<And>s. s_type (tab st s) \<noteq> S_OTHER"
    and f: "zconf_fopen getenv fs name = Some (Some text)"
    and U: "U = invalid st \<union> set (all_symbols st)" "card U < n"
  obtains ws st' where "conf_read_simple n getenv fs stale dl (Some name) S_DEF_USER st = Some (Some ws, st')"
    and "conf_inv U (set (all_symbols st)) st'" and "all_symbols st' = all_symbols st"
proof -
  let ?S = "set (all_symbols st)" and ?st = "conf_reset S_DEF_USER st"
  have fin: "finite U" using g(1) U(1) by (simp add: good_def)
  have as: "all_symbols st' = all_symbols st" if "hash st' = hash st" "\<And>s. s_type (tab st' s) = s_type (tab st s)" for st'
    by (simp add: all_symbols_def that)
  have "saved_ok (tab ?st s)" if "s \<in> ?S" for s
    using that by (auto simp: conf_reset_state saved_ok_def reset_symbol_def user_defs)
  moreover have "invalid ?st \<subseteq> U" by (auto simp: U(1) invalid_def reset_field)
  moreover have "?S \<subseteq> chained ?st" using all_symbols_chained by (auto simp: chained_def conf_reset_state)
  ultimately have i0: "conf_inv U ?S ?st"
    using good_reset [OF g(1)] table_inv_reset [OF g(2)] by (simp add: conf_inv_def)
  have "\<exists>ws st1. conf_lines S_DEF_USER stale 0 (file_lines text) ?st = Some (ws, st1) \<and> keeps ?st st1"
    using conf_lines_keep [of ?st stale 0 "file_lines text"] o choices_ok_reset [OF g(3)] good_reset [OF g(1)] by (simp add: reset_field)
  then obtain ws st1 where l: "conf_lines S_DEF_USER stale 0 (file_lines text) ?st = Some (ws, st1)" and k: "keeps ?st st1" by blast
  note i1 = conf_inv_keeps [OF i0 k]
  have a1: "all_symbols st1 = all_symbols st"
    using reads_hash [OF keeps_reads [OF k]] reads_field(2) [OF keeps_reads [OF k]]
    by (intro as) (simp_all add: reset_field, simp add: conf_reset_state)
  show thesis
  proof (cases "modules_sym st1")
    case None
    then show thesis using that [OF _ i1 a1] f l by (simp add: conf_read_simple_def conf_open_def)
  next
    case (Some m)
    from ev.calc_yields [OF conf_inv_fit [OF i1 fin U(2)], of m] obtain st2 where
      c: "sym_calc_value n m st1 = Some st2" "step {} st1 st2" by (auto simp: yields_def)
    have "all_symbols st2 = all_symbols st1"
      using c(2) ev.step_type [OF c(2)] by (simp add: all_symbols_def step_def evolves_def)
    with that [OF _ conf_inv_step [OF i1 c(2)]] a1 f l c(1) Some show thesis
      by (simp add: conf_read_simple_def conf_open_def)
  qed
qed

section \<open>Reading back what was written\<close>

lemma finds_reads:
  assumes "reads d k k'" and "finds d k n s"
  shows "finds d k' n s"
proof -
  have m: "matches m c k' = matches m c k" for m c
    by (simp add: matches_eq reads_field(1) [OF assms(1)] reads_field(6) [OF assms(1)])
  show ?thesis
  proof (cases d)
    case S_DEF_USER
    with assms(2) show ?thesis by (cases "builtin n") (simp_all add: finds_def sym_find_named m reads_hash [OF assms(1)])
  next
    case S_DEF_AUTO
    with assms(2) have l: "sym_lookup (Some n) False k = (s, k)" "s_type (tab k s) \<noteq> S_UNKNOWN" by (simp_all add: finds_def)
    from l(1) have "sym_lookup (Some n) False k' = (s, k')"
    proof (cases rule: lookup_cases)
      case new
      then have "used k = Suc (used k)" using insert_symbol_state(4) by blast
      then show ?thesis by simp
    qed (simp_all add: sym_lookup_named m reads_hash [OF assms(1)])
    with l(2) S_DEF_AUTO show ?thesis by (simp add: finds_def reads_field(2) [OF assms(1)])
  qed
qed

text \<open>A symbol of the table \<open>st\<close> whose line can be read into the table \<open>k\<close>.\<close>

definition readable :: "def_idx \<Rightarrow> kst \<Rightarrow> kst \<Rightarrow> sym \<Rightarrow> bool" where
  "readable d st k s \<longleftrightarrow> value_ok (tab st s) \<and> \<not> def_flag d (tab k s) \<and> \<not> s_choice (tab k s) \<and>
     s_type (tab k s) = s_type (tab st s) \<and>
     (\<exists>n. s_name (tab st s) = Some n \<and> name_ok n \<and> finds d k n s)"

lemma readable_reads:
  "readable d st k s \<Longrightarrow> reads d k k' \<Longrightarrow> def_flag d (tab k' s) = def_flag d (tab k s) \<Longrightarrow> readable d st k' s"
  unfolding readable_def using reads_field(2,7) finds_reads by metis

lemma value_ok_line: "value_ok (tab st s) \<Longrightarrow> \<exists>l. config_line st s = Some l"
  by (auto simp: value_ok_def config_line_def Let_def val_string_def split: symbol_type.splits kval.splits)

lemma conf_line_symbol:
  assumes r: "readable d st k s" and c: "choices_ok k" and l: "config_line st s = Some l"
  obtains w k' where "conf_line d stale l k = Some (w, k')" and "reads d k k'"
    and "tab k' s = save d (tab st s) (tab k s)" and "\<And>t. t \<noteq> s \<Longrightarrow> \<not> s_choice (tab k t) \<Longrightarrow> tab k' t = tab k t"
proof -
  let ?k = "upd_sym s (save d (tab st s)) k"
  have sw: "conf_switch d (l @ NUL # stale) k = (Some s, False, [], ?k)"
    using r config_line_read [OF l] unfolding readable_def by blast
  have k: "reads d k ?k" by (rule reads_upd) simp
  have t: "tab ?k s = save d (tab st s) (tab k s)" "\<And>t. t \<noteq> s \<Longrightarrow> tab ?k t = tab k t" by (simp_all add: upd_sym_def)
  show thesis
  proof (cases "s_choiceval (tab ?k s)")
    case False
    with that [OF _ k t(1)] t(2) sw show thesis by (simp add: conf_line_def)
  next
    case True
    from choice_line_effect [OF choices_ok_reads [OF k c] True] obtain w c f where
      e: "choice_line d s ?k = Some (w, upd_sym c f ?k)" "s_choice (tab ?k c)" "strip d (f (tab ?k c)) = strip d (tab ?k c)" by blast
    have ns: "t \<noteq> c" if "\<not> s_choice (tab k t)" for t using e(2) that reads_field(7) [OF k, of c] by auto
    have "s \<noteq> c" using ns r by (simp add: readable_def)
    moreover have "tab (upd_sym c f ?k) t = tab ?k t" if "t \<noteq> c" for t using that by (simp add: upd_sym_def)
    ultimately show thesis
      using that [of w "upd_sym c f ?k"] sw True e(1) t ns reads_trans [OF k reads_upd [where f = f, OF e(3)]]
      by (simp add: conf_line_def)
  qed
qed

end
