(* ===== verification/Kconf_Menu_Tree.thy ===== *)
theory Kconf_Menu_Tree
  imports Kconf_Conf_Write
begin

text \<open>
  The pointers of the menus as a tree: when the fields \<open>next\<close>, \<open>list\<close> and \<open>parent\<close> represent a
  list of trees, that the walk of \<open>conf_write\<close> visits the menus of such a structure in the order of
  the text, and that the functions the parser calls build one.
\<close>

section \<open>Trees of menus\<close>

datatype mtree = MNode nat "mtree list"

fun preorder :: "mtree \<Rightarrow> nat list" where
  "preorder (MNode m ts) = m # concat (map preorder ts)"

abbreviation preorders :: "mtree list \<Rightarrow> nat list" where
  "preorders ts \<equiv> concat (map preorder ts)"

primrec root :: "mtree \<Rightarrow> nat" where
  "root (MNode m ts) = m"

text \<open>The menus from \<open>p\<close> along \<open>next\<close> up to \<open>q\<close> have the parent \<open>par\<close> and are the roots of the given
  trees.\<close>

fun fseg :: "(nat \<Rightarrow> menu) \<Rightarrow> nat \<Rightarrow> nat option \<Rightarrow> mtree list \<Rightarrow> nat option \<Rightarrow> bool" where
  "fseg M par p [] q \<longleftrightarrow> p = q"
| "fseg M par p (MNode m ts # us) q \<longleftrightarrow>
     p = Some m \<and> m_parent (M m) = Some par \<and> fseg M m (m_list (M m)) ts None \<and> fseg M par (m_next (M m)) us q"

lemma fseg_append: "fseg M par p (ts @ us) q \<longleftrightarrow> (\<exists>r. fseg M par p ts r \<and> fseg M par r us q)"
proof (induction ts arbitrary: p)
  case (Cons t ts)
  then show ?case by (cases t) auto
qed simp

lemma fseg_snoc:
  "fseg M par p (ts @ [MNode m us]) q \<longleftrightarrow>
     fseg M par p ts (Some m) \<and> m_parent (M m) = Some par \<and> fseg M m (m_list (M m)) us None \<and> m_next (M m) = q"
  by (auto simp: fseg_append)

text \<open>Only the pointers of the menus of the trees matter.\<close>

definition same_links :: "menu \<Rightarrow> menu \<Rightarrow> bool" where
  "same_links x y \<longleftrightarrow> m_next x = m_next y \<and> m_list x = m_list y \<and> m_parent x = m_parent y"

lemma same_links_refl [simp]: "same_links x x"
  by (simp add: same_links_def)

lemma fseg_cong:
  assumes "fseg M par p ts q" and "\<And>m. m \<in> set (preorders ts) \<Longrightarrow> same_links (M' m) (M m)"
  shows "fseg M' par p ts q"
  using assms
proof (induction M par p ts q rule: fseg.induct)
  case (2 M par p m ts us q)
  have l: "same_links (M' m) (M m)" using 2(4) by simp
  have "fseg M' m (m_list (M m)) ts None" using 2(1) 2(3,4) by simp
  moreover have "fseg M' par (m_next (M m)) us q" using 2(2) 2(3,4) by simp
  ultimately show ?case using 2(3) l by (simp add: same_links_def)
qed simp

section \<open>The walk\<close>

fun visits :: "(nat \<Rightarrow> 'a \<Rightarrow> 'a option) \<Rightarrow> nat list \<Rightarrow> 'a \<Rightarrow> 'a option" where
  "visits visit [] a = Some a"
| "visits visit (m # ms) a = do { a \<leftarrow> visit m a; visits visit ms a }"

lemma visits_append: "visits visit (ms @ ns) a = do { a \<leftarrow> visits visit ms a; visits visit ns a }"
  by (induction ms arbitrary: a) (auto simp: Option.bind_assoc split: Option.bind_splits)

text \<open>Where the walk goes when the children of a menu are done.\<close>

definition after :: "(nat \<Rightarrow> menu) \<Rightarrow> nat \<Rightarrow> nat option option" where
  "after M m = (case m_next (M m) of Some q \<Rightarrow> Some (Some q) | None \<Rightarrow> menu_climb M m)"

lemma climb_after: "m_parent (M m) = Some p \<Longrightarrow> menu_climb M m = after M p"
  by (subst menu_climb.simps) (simp add: after_def split: option.splits)

lemma succ_after: "menu_succ M m = (case m_list (M m) of Some c \<Rightarrow> Some (Some c) | None \<Rightarrow> after M m)"
  by (simp add: menu_succ_def after_def split: option.splits)

lemma walk_Some: "menu_walk visit M (Some m) a = do { a \<leftarrow> visit m a; nxt \<leftarrow> menu_succ M m; menu_walk visit M nxt a }"
  by (subst menu_walk.simps) simp

lemma walk_None [simp]: "menu_walk visit M None a = Some a"
  by (subst menu_walk.simps) simp

lemma walk_fseg:
  assumes "fseg M par p ts None" and "ts \<noteq> []" and "after M par = Some k"
  shows "menu_walk visit M p a = do { a \<leftarrow> visits visit (preorders ts) a; menu_walk visit M k a }"
  using assms
proof (induction M par p ts "None :: nat option" arbitrary: k a rule: fseg.induct)
  case (2 M par p m ts us)
  note p = \<open>fseg M par p (MNode m ts # us) None\<close>
  obtain k' where k': "after M m = Some k'" and
    rest: "menu_walk visit M k' b = do { b \<leftarrow> visits visit (preorders us) b; menu_walk visit M k b }" for b
  proof (cases us)
    case Nil
    with p have "m_next (M m) = None" "m_parent (M m) = Some par" by auto
    then have "after M m = Some k" using 2(5) climb_after [of M m par] by (simp add: after_def)
    then show thesis using that [of k] Nil by simp
  next
    case (Cons u us')
    with p obtain n where n: "m_next (M m) = Some n" by (cases u) auto
    have "menu_walk visit M (Some n) b = do { b \<leftarrow> visits visit (preorders us) b; menu_walk visit M k b }" for b
      using 2(2) [of k b] p n Cons 2(5) by simp
    with n show thesis using that [of "Some n"] by (simp add: after_def)
  qed
  have inner: "do { nxt \<leftarrow> menu_succ M m; menu_walk visit M nxt b } =
      do { b \<leftarrow> visits visit (preorders ts) b; menu_walk visit M k' b }" for b
  proof (cases ts)
    case Nil
    with p k' show ?thesis by (simp add: succ_after)
  next
    case (Cons t ts')
    with p obtain c where c: "m_list (M m) = Some c" by (cases t) auto
    with 2(1) [of k' b] p k' Cons show ?thesis by (simp add: succ_after)
  qed
  have "menu_walk visit M p a = do { a \<leftarrow> visit m a; nxt \<leftarrow> menu_succ M m; menu_walk visit M nxt a }"
    using p by (simp add: walk_Some)
  also have "\<dots> = do { a \<leftarrow> visit m a; a \<leftarrow> visits visit (preorders ts) a; a \<leftarrow> visits visit (preorders us) a; menu_walk visit M k a }"
    by (simp only: inner rest)
  also have "\<dots> = do { a \<leftarrow> visits visit (preorders (MNode m ts # us)) a; menu_walk visit M k a }"
    by (simp add: visits_append Option.bind_assoc)
  finally show ?case .
qed simp

definition root_ok :: "(nat \<Rightarrow> menu) \<Rightarrow> bool" where
  "root_ok M \<longleftrightarrow> m_parent (M rootmenu) = None \<and> m_next (M rootmenu) = None"

lemma after_root: "root_ok M \<Longrightarrow> after M rootmenu = Some None"
  by (simp add: after_def root_ok_def menu_climb.simps)

lemma walk_tree:
  assumes "root_ok M" and "fseg M rootmenu (m_list (M rootmenu)) ts None"
  shows "menu_walk visit M (m_list (M rootmenu)) a = visits visit (preorders ts) a"
proof (cases "ts = []")
  case True
  with assms(2) show ?thesis by simp
next
  case False
  from walk_fseg [OF assms(2) False after_root [OF assms(1)]] show ?thesis by simp
qed

section \<open>What the parser builds\<close>

text \<open>The grammar opens a menu right after its entry.\<close>

datatype menu_event = Entry "sym option" | Open "sym option" | Close

fun do_event :: "menu_event \<Rightarrow> mst \<Rightarrow> mst option" where
  "do_event (Entry s) st = Some (menu_add_entry s st)"
| "do_event (Open s) st = Some (menu_add_menu (menu_add_entry s st))"
| "do_event Close st = menu_end_menu st"

fun run_events :: "menu_event list \<Rightarrow> mst \<Rightarrow> mst option" where
  "run_events [] st = Some st"
| "run_events (e # es) st = do { st \<leftarrow> do_event e st; run_events es st }"

text \<open>Every \<open>Close\<close> has its \<open>Open\<close>; \<open>d\<close> menus are open at the beginning.\<close>

fun balanced :: "nat \<Rightarrow> menu_event list \<Rightarrow> bool" where
  "balanced d [] = True"
| "balanced d (Entry s # es) = balanced d es"
| "balanced d (Open s # es) = balanced (Suc d) es"
| "balanced d (Close # es) = (0 < d \<and> balanced (d - 1) es)"

fun entries :: "menu_event list \<Rightarrow> sym option list" where
  "entries [] = []"
| "entries (Entry s # es) = s # entries es"
| "entries (Open s # es) = s # entries es"
| "entries (Close # es) = entries es"

text \<open>The open menus, the innermost first, each with the trees of its children so far. The last
  pointer of a menu's children leads to the next inner menu.\<close>

type_synonym frames = "(nat \<times> mtree list) list"

fun spine :: "(nat \<Rightarrow> menu) \<Rightarrow> frames \<Rightarrow> nat option \<Rightarrow> bool" where
  "spine M [] q \<longleftrightarrow> False"
| "spine M [(m, ts)] q \<longleftrightarrow> m = rootmenu \<and> root_ok M \<and> fseg M m (m_list (M m)) ts q"
| "spine M ((m, ts) # (p, us) # fr) q \<longleftrightarrow>
     m_parent (M m) = Some p \<and> m_next (M m) = None \<and> fseg M m (m_list (M m)) ts q \<and> spine M ((p, us) # fr) (Some m)"

fun frame_ids :: "frames \<Rightarrow> nat list" where
  "frame_ids [] = []"
| "frame_ids ((m, ts) # fr) = frame_ids fr @ m # preorders ts"

fun close_frames :: "frames \<Rightarrow> mtree list" where
  "close_frames [] = []"
| "close_frames [(m, ts)] = ts"
| "close_frames ((m, ts) # (p, us) # fr) = close_frames ((p, us @ [MNode m ts]) # fr)"

lemma spine_pop: "spine M ((m, ts) # (p, us) # fr) None \<Longrightarrow> spine M ((p, us @ [MNode m ts]) # fr) None"
  by (cases fr) (auto simp: fseg_snoc)

lemma spine_close:
  assumes "spine M fr None"
  shows "root_ok M \<and> fseg M rootmenu (m_list (M rootmenu)) (close_frames fr) None \<and>
    frame_ids fr = rootmenu # preorders (close_frames fr)"
  using assms
proof (induction fr rule: close_frames.induct)
  case (3 m ts p us fr)
  from 3(1) [OF spine_pop [OF 3(2)]] show ?case by simp
qed auto

lemma spine_cong:
  assumes "spine M fr q" and "\<And>m. m \<in> set (frame_ids fr) \<Longrightarrow> same_links (M' m) (M m)"
  shows "spine M' fr q"
  using assms
proof (induction M fr q rule: spine.induct)
  case (2 M m ts q)
  have l: "same_links (M' m) (M m)" using 2(2) by simp
  have "fseg M m (m_list (M m)) ts q" using 2(1) unfolding spine.simps by (elim conjE)
  then have "fseg M' m (m_list (M m)) ts q"
    by (rule fseg_cong) (use 2(2) in simp)
  with l 2(1) show ?case by (simp add: same_links_def root_ok_def)
next
  case (3 M m ts p us fr q)
  have l: "same_links (M' m) (M m)" using 3(3) by simp
  have "fseg M' m (m_list (M m)) ts q"
    by (rule fseg_cong [of M]) (use 3(2,3) in simp_all)
  moreover have "spine M' ((p, us) # fr) (Some m)"
  proof (rule 3(1))
    show "spine M ((p, us) # fr) (Some m)" using 3(2) by simp
    show "same_links (M' x) (M x)" if "x \<in> set (frame_ids ((p, us) # fr))" for x
      by (rule 3(3)) (use that in auto)
  qed
  ultimately show ?case using 3(2) l by (simp add: same_links_def)
qed simp

text \<open>The place where the next entry is linked in.\<close>

definition tail_ptr :: "nat \<Rightarrow> mtree list \<Rightarrow> entry_ptr" where
  "tail_ptr m ts = (if ts = [] then ListOf m else NextOf (root (last ts)))"

definition building :: "mst \<Rightarrow> frames \<Rightarrow> bool" where
  "building st fr \<longleftrightarrow>
     spine (menus st) fr None \<and> frame_ids fr = [0..<m_used st] \<and>
     current_menu st = Some (fst (hd fr)) \<and> last_entry_ptr st = tail_ptr (fst (hd fr)) (snd (hd fr))"

lemma root_ok_cong: "root_ok M \<Longrightarrow> m_parent (M' rootmenu) = m_parent (M rootmenu) \<Longrightarrow>
    m_next (M' rootmenu) = m_next (M rootmenu) \<Longrightarrow> root_ok M'"
  by (simp add: root_ok_def)

text \<open>The frames below the innermost one.\<close>

definition below :: "(nat \<Rightarrow> menu) \<Rightarrow> nat \<Rightarrow> frames \<Rightarrow> bool" where
  "below M m fr =
     (case fr of
        [] \<Rightarrow> m = rootmenu \<and> root_ok M
      | (p, us) # _ \<Rightarrow> m_parent (M m) = Some p \<and> m_next (M m) = None \<and> spine M fr (Some m))"

lemma spine_below: "spine M ((m, ts) # fr) q \<longleftrightarrow> fseg M m (m_list (M m)) ts q \<and> below M m fr"
  by (cases fr) (auto simp: below_def)

lemma below_cong:
  assumes "below M m fr" and "m_parent (M' m) = m_parent (M m)" "m_next (M' m) = m_next (M m)"
    and "\<And>x. x \<in> set (frame_ids fr) \<Longrightarrow> same_links (M' x) (M x)"
  shows "below M' m fr"
proof (cases fr)
  case Nil
  with assms(1-3) show ?thesis by (simp add: below_def root_ok_def)
next
  case (Cons f fr')
  then have "spine M' fr (Some m)" using spine_cong [of M fr "Some m" M'] assms(1,4) by (simp add: below_def split: prod.splits)
  with Cons assms(1-3) show ?thesis by (simp add: below_def split: prod.splits)
qed

text \<open>Linking a new menu behind the last child, or as the first one.\<close>

lemma link_first:
  assumes "spine M ((m, []) # fr) None" and "n \<notin> set (frame_ids ((m, []) # fr))" and "distinct (frame_ids ((m, []) # fr))"
  shows "spine (M(n := new_menu s (Some m), m := (M m)\<lparr>m_list := Some n\<rparr>)) ((m, [MNode n []]) # fr) None"
proof -
  let ?M = "M(n := new_menu s (Some m), m := (M m)\<lparr>m_list := Some n\<rparr>)"
  have nm: "n \<noteq> m" using assms(2) by auto
  have "below ?M m fr"
  proof (rule below_cong)
    show "below M m fr" using assms(1) by (simp only: spine_below)
    show "same_links (?M x) (M x)" if "x \<in> set (frame_ids fr)" for x
    proof -
      have "x \<noteq> m" "x \<noteq> n" using that assms(2,3) by auto
      then show ?thesis by simp
    qed
  qed (use nm in simp_all)
  with nm show ?thesis by (simp add: spine_below new_menu_def)
qed

lemma link_next:
  assumes "spine M ((m, ts @ [MNode c us]) # fr) None" and "n \<notin> set (frame_ids ((m, ts @ [MNode c us]) # fr))"
    and "distinct (frame_ids ((m, ts @ [MNode c us]) # fr))"
  shows "spine (M(n := new_menu s (Some m), c := (M c)\<lparr>m_next := Some n\<rparr>)) ((m, ts @ [MNode c us, MNode n []]) # fr) None"
proof -
  let ?M = "M(n := new_menu s (Some m), c := (M c)\<lparr>m_next := Some n\<rparr>)"
  have ne: "n \<noteq> m" "n \<noteq> c" "c \<noteq> m" using assms(2,3) by auto
  have b: "below ?M m fr"
  proof (rule below_cong)
    show "below M m fr" using assms(1) by (simp only: spine_below)
    show "same_links (?M x) (M x)" if "x \<in> set (frame_ids fr)" for x
    proof -
      have "x \<noteq> c" "x \<noteq> n" using that assms(2,3) by auto
      then show ?thesis by simp
    qed
  qed (use ne in simp_all)
  have s: "fseg M m (m_list (M m)) ts (Some c)" "m_parent (M c) = Some m" "fseg M c (m_list (M c)) us None"
    using assms(1) by (auto simp: spine_below fseg_snoc)
  have "fseg ?M m (m_list (M m)) ts (Some c)" using assms(2,3) s by (intro fseg_cong [OF s(1)]) auto
  moreover have "fseg ?M c (m_list (M c)) us None" using assms(2,3) by (intro fseg_cong [OF s(3)]) auto
  ultimately have "fseg ?M m (m_list (?M m)) (ts @ [MNode c us]) (Some n)" using ne s(2) by (simp add: fseg_snoc)
  then have "fseg ?M m (m_list (?M m)) ((ts @ [MNode c us]) @ [MNode n []]) None"
    using ne by (simp only: fseg_snoc) (simp add: new_menu_def)
  with b show ?thesis by (simp add: spine_below)
qed

lemma building_entry:
  assumes "building st ((m, ts) # fr)"
  shows "building (menu_add_entry s st) ((m, ts @ [MNode (m_used st) []]) # fr)"
proof -
  let ?n = "m_used st"
  let ?fr = "(m, ts) # fr"
  have sp: "spine (menus st) ?fr None" and ids: "frame_ids ?fr = [0..<?n]" and cm: "current_menu st = Some m"
    and lp: "last_entry_ptr st = tail_ptr m ts" using assms by (auto simp: building_def)
  have fresh: "?n \<notin> set (frame_ids ?fr)" and dist: "distinct (frame_ids ?fr)" unfolding ids by auto
  have ids': "frame_ids ((m, ts @ [MNode ?n []]) # fr) = [0..<Suc ?n]" using ids by simp
  have "spine (menus (menu_add_entry s st)) ((m, ts @ [MNode ?n []]) # fr) None"
  proof (cases ts rule: rev_cases)
    case Nil
    have "m \<noteq> ?n" using fresh by auto
    with link_first [OF sp [unfolded Nil] fresh [unfolded Nil] dist [unfolded Nil], of s] show ?thesis
      using Nil cm lp by (simp add: menu_add_entry_def set_entry_def upd_menu_def tail_ptr_def Let_def)
  next
    case (snoc ts0 t)
    obtain c us where t: "t = MNode c us" by (cases t)
    have "c \<noteq> ?n" using fresh snoc t by auto
    with link_next [OF sp [unfolded snoc t] fresh [unfolded snoc t] dist [unfolded snoc t], of s] show ?thesis
      using snoc t cm lp by (simp add: menu_add_entry_def set_entry_def upd_menu_def tail_ptr_def Let_def)
  qed
  with ids' cm show ?thesis
    by (simp add: building_def menu_add_entry_def tail_ptr_def set_entry_def upd_menu_def Let_def split: entry_ptr.splits)
qed

lemma building_down:
  assumes "building st ((m, ts @ [MNode (current_entry st) []]) # fr)"
  shows "building (menu_add_menu st) ((current_entry st, []) # (m, ts) # fr)"
proof -
  have sp: "spine (menus st) ((m, ts @ [MNode (current_entry st) []]) # fr) None"
    and ids: "frame_ids ((m, ts @ [MNode (current_entry st) []]) # fr) = [0..<m_used st]"
    using assms unfolding building_def by blast+
  have "spine (menus st) ((current_entry st, []) # (m, ts) # fr) None"
    using sp by (simp add: spine_below fseg_snoc below_def [of _ _ "(m, ts) # fr"])
  then show ?thesis using ids by (simp add: building_def menu_add_menu_def tail_ptr_def)
qed

lemma building_open:
  assumes "building st ((m, ts) # fr)"
  shows "building (menu_add_menu (menu_add_entry s st)) ((m_used st, []) # (m, ts) # fr)"
proof -
  have e: "current_entry (menu_add_entry s st) = m_used st" by (simp add: menu_add_entry_def Let_def)
  from building_down [of "menu_add_entry s st"] building_entry [OF assms, of s] show ?thesis unfolding e by blast
qed

lemma building_close:
  assumes "building st ((m, ts) # (p, us) # fr)"
  obtains st' where "menu_end_menu st = Some st'" and "building st' ((p, us @ [MNode m ts]) # fr)"
    and "menus st' = menus st" and "m_used st' = m_used st"
proof -
  have sp: "spine (menus st) ((m, ts) # (p, us) # fr) None" and cm: "current_menu st = Some m"
    and ids: "frame_ids ((m, ts) # (p, us) # fr) = [0..<m_used st]" using assms by (simp_all add: building_def)
  let ?st = "st\<lparr>last_entry_ptr := NextOf m, current_menu := m_parent (menus st m)\<rparr>"
  have e: "menu_end_menu st = Some ?st" using cm by (simp add: menu_end_menu_def)
  have "building ?st ((p, us @ [MNode m ts]) # fr)"
    using spine_pop [OF sp] sp ids by (simp add: building_def tail_ptr_def)
  with e show thesis using that [of ?st] by simp
qed

text \<open>The symbols of the menus are those of the entries.\<close>

definition menu_syms :: "mst \<Rightarrow> sym option list" where
  "menu_syms st = map (\<lambda>m. m_sym (menus st m)) [1..<m_used st]"

lemma menu_syms_entry:
  assumes "0 < m_used st" and "building st fr"
  shows "menu_syms (menu_add_entry s st) = menu_syms st @ [s]"
proof -
  have "m_sym (menus (menu_add_entry s st) m) = (if m = m_used st then s else m_sym (menus st m))" for m
    by (simp add: menu_add_entry_def set_entry_def upd_menu_def new_menu_def Let_def split: entry_ptr.splits)
  moreover have "m_used (menu_add_entry s st) = Suc (m_used st)"
    by (simp add: menu_add_entry_def set_entry_def upd_menu_def Let_def split: entry_ptr.splits)
  ultimately show ?thesis using assms(1) by (simp add: menu_syms_def)
qed

lemma menu_syms_open [simp]: "menu_syms (menu_add_menu st) = menu_syms st"
  by (simp add: menu_syms_def menu_add_menu_def)

lemma building_used: "building st fr \<Longrightarrow> 0 < m_used st"
proof -
  assume b: "building st fr"
  then have "frame_ids fr = [0..<m_used st]" "spine (menus st) fr None" by (simp_all add: building_def)
  then show ?thesis by (cases "m_used st = 0"; cases fr) auto
qed

lemma building_events:
  assumes "building st fr" and "balanced (length fr - 1) es"
  shows "\<exists>st' fr'. run_events es st = Some st' \<and> building st' fr' \<and> menu_syms st' = menu_syms st @ entries es"
  using assms
proof (induction es arbitrary: st fr)
  case (Cons e es)
  obtain m ts fr0 where fr: "fr = (m, ts) # fr0" using Cons.prems(1) by (cases fr) (auto simp: building_def)
  note used = building_used [OF Cons.prems(1)]
  show ?case
  proof (cases e)
    case (Entry s)
    from Cons.IH [OF building_entry [OF Cons.prems(1) [unfolded fr], of s]] Cons.prems(2) show ?thesis
      using menu_syms_entry [OF used Cons.prems(1), of s] by (simp add: Entry fr)
  next
    case (Open s)
    from Cons.IH [OF building_open [OF Cons.prems(1) [unfolded fr], of s]] Cons.prems(2) show ?thesis
      using menu_syms_entry [OF used Cons.prems(1), of s] by (simp add: Open fr)
  next
    case Close
    with Cons.prems(2) fr obtain p us fr1 where fr0: "fr0 = (p, us) # fr1" by (cases fr0) auto
    from building_close [OF Cons.prems(1) [unfolded fr fr0]] obtain st' where
      st': "menu_end_menu st = Some st'" "building st' ((p, us @ [MNode m ts]) # fr1)" and
      same: "menus st' = menus st" "m_used st' = m_used st" by blast
    have "menu_syms st' = menu_syms st" by (simp add: menu_syms_def same)
    with Cons.IH [OF st'(2)] Cons.prems(2) show ?thesis by (simp add: Close fr fr0 st'(1))
  qed
qed auto

end
