(* ===== verification/Kconf_Conf_Round.thy ===== *)
theory Kconf_Conf_Round
  imports Kconf_Conf_Read Kconf_Menu_Tree
begin

text \<open>
  The text of a configuration file as a list of lines: how \<open>fgets\<close> cuts it, which lines reading
  ignores, and which lines the walk of \<open>conf_write\<close> over the menus produces.
\<close>

section \<open>Lines\<close>

declare file_lines.simps [simp del]

definition text_line :: "string \<Rightarrow> bool" where
  "text_line l \<longleftrightarrow> (\<exists>l0. l = l0 @ [NL] \<and> NL \<notin> set l0 \<and> length l0 < 1023)"

lemma fgets_text_line: "text_line l \<Longrightarrow> fgets_line (l @ r) = (l, r)"
proof -
  assume "text_line l"
  then obtain l0 where l: "l = l0 @ [NL]" "NL \<notin> set l0" "length l0 < 1023" by (auto simp: text_line_def)
  then have "takeWhile (\<lambda>c. c \<noteq> NL) (l @ r) = l0" by (simp add: takeWhile_append)
  with l show ?thesis by (simp add: fgets_line_def Let_def)
qed

lemma file_lines_concat: "list_all text_line ls \<Longrightarrow> file_lines (concat ls) = ls"
proof (induction ls)
  case (Cons l ls)
  then have "l \<noteq> []" by (auto simp: text_line_def)
  with Cons show ?case by (subst file_lines.simps) (simp add: fgets_text_line)
qed (simp add: file_lines.simps)

text \<open>Empty lines and comments other than those about a symbol.\<close>

definition noise :: "string \<Rightarrow> bool" where
  "noise l \<longleftrightarrow> text_line l \<and> (l = [NL] \<or> hd l = CHR ''#'' \<and> 2 \<le> length l \<and> take 7 (drop 2 l) \<noteq> ''CONFIG_'')"

lemma take_terminated:
  assumes "NUL \<notin> set w" and "take (length w) (a @ NUL # r) = w"
  shows "take (length w) a = w"
proof (cases "length w \<le> length a")
  case True
  with assms(2) show ?thesis by simp
next
  case False
  then have "NUL \<in> set (take (length w) (a @ NUL # r))"
    by (simp add: take_Cons')
  with assms show ?thesis by simp
qed

lemma noise_ignored: "noise l \<Longrightarrow> conf_line d stale l k = Some ([], k)"
proof -
  assume n: "noise l"
  show ?thesis
  proof (cases "l = [NL]")
    case True
    then show ?thesis by (simp add: conf_line_def conf_switch_def)
  next
    case False
    with n have h: "hd l = CHR ''#''" "2 \<le> length l" "take 7 (drop 2 l) \<noteq> ''CONFIG_''" by (auto simp: noise_def)
    have seven: "length ''CONFIG_'' = 7" and z: "NUL \<notin> set ''CONFIG_''" by simp_all
    have e: "drop 2 (l @ NUL # stale) = drop 2 l @ NUL # stale" using h(2) by simp
    have "take 7 (drop 2 (l @ NUL # stale)) \<noteq> ''CONFIG_''"
    proof
      assume "take 7 (drop 2 (l @ NUL # stale)) = ''CONFIG_''"
      from take_terminated [OF z, unfolded seven, OF this [unfolded e]] h(3) show False by simp
    qed
    moreover have "hd (l @ NUL # stale) = CHR ''#''" using h(1,2) by (cases l) auto
    ultimately show ?thesis by (simp add: conf_line_def conf_switch_def unset_line_def)
  qed
qed

section \<open>Files as lists of items\<close>

datatype item = Text string | Value sym

fun item_line :: "kst \<Rightarrow> item \<Rightarrow> string" where
  "item_line st (Text l) = l"
| "item_line st (Value s) = the (config_line st s)"

fun item_values :: "item list \<Rightarrow> sym list" where
  "item_values [] = []"
| "item_values (Text l # its) = item_values its"
| "item_values (Value s # its) = s # item_values its"

lemma item_values_append [simp]: "item_values (its @ js) = item_values its @ item_values js"
  by (induction its rule: item_values.induct) auto

definition item_ok :: "kst \<Rightarrow> item \<Rightarrow> bool" where
  "item_ok st i = (case i of Text l \<Rightarrow> noise l | Value s \<Rightarrow> text_line (the (config_line st s)))"

lemma items_lines: "list_all (item_ok st) its \<Longrightarrow> list_all text_line (map (item_line st) its)"
  by (induction its) (auto simp: item_ok_def noise_def split: item.splits)

lemma conf_lines_items:
  assumes "list_all (item_ok st) its" and "distinct (item_values its)" and "choices_ok k"
    and "\<And>s. s \<in> set (item_values its) \<Longrightarrow> readable d st k s"
  shows "\<exists>ws k'. conf_lines d stale n (map (item_line st) its) k = Some (ws, k') \<and> reads d k k' \<and>
    (\<forall>s \<in> set (item_values its). tab k' s = save d (tab st s) (tab k s)) \<and>
    (\<forall>t. t \<notin> set (item_values its) \<longrightarrow> \<not> s_choice (tab k t) \<longrightarrow> tab k' t = tab k t)"
  using assms
proof (induction its arbitrary: n k rule: item_values.induct)
  case (2 l its)
  from 2(1) [of k "Suc n"] 2(2-) noise_ignored [of l d "stale n" k] show ?case by (auto simp: item_ok_def)
next
  case (3 s its)
  have r: "readable d st k s" using 3(5) by simp
  then obtain l where l: "config_line st s = Some l" using value_ok_line by (auto simp: readable_def)
  from conf_line_symbol [OF r 3(4) l] obtain w k1 where
    k1: "conf_line d (stale n) l k = Some (w, k1)" "reads d k k1" "tab k1 s = save d (tab st s) (tab k s)"
    and o1: "\<And>t. t \<noteq> s \<Longrightarrow> \<not> s_choice (tab k t) \<Longrightarrow> tab k1 t = tab k t" by blast
  have nc: "t \<noteq> s \<and> \<not> s_choice (tab k t)" if "t \<in> set (item_values its)" for t
    using 3(3,5) that by (auto simp: readable_def)
  have "readable d st k1 t" if "t \<in> set (item_values its)" for t
    using readable_reads [OF _ k1(2)] 3(5) that o1 nc by simp
  with 3(1) [of k1 "Suc n"] 3(2,3) choices_ok_reads [OF k1(2) 3(4)] obtain ws k2 where
    k2: "conf_lines d stale (Suc n) (map (item_line st) its) k1 = Some (ws, k2)" "reads d k1 k2"
    and o2: "\<And>t. t \<in> set (item_values its) \<Longrightarrow> tab k2 t = save d (tab st t) (tab k1 t)"
    and o3: "\<And>t. t \<notin> set (item_values its) \<Longrightarrow> \<not> s_choice (tab k1 t) \<Longrightarrow> tab k2 t = tab k1 t" by auto
  have "conf_lines d stale n (map (item_line st) (Value s # its)) k = Some (map (Pair (Suc n)) w @ ws, k2)"
    using k1(1) k2(1) l by simp
  moreover have "tab k2 s = save d (tab st s) (tab k s)"
    using o3 [of s] 3(3) k1(3) r reads_field(7) [OF k1(2), of s] by (simp add: readable_def)
  moreover have "tab k2 t = save d (tab st t) (tab k t)" if "t \<in> set (item_values its)" for t
    using o2 [OF that] o1 nc [OF that] by simp
  moreover have "tab k2 t = tab k t" if "t \<notin> set (item_values (Value s # its))" "\<not> s_choice (tab k t)" for t
    using that o1 [of t] o3 [of t] by simp
  ultimately show ?case using reads_trans [OF k1(2) k2(2)] by auto
qed auto

section \<open>The lines of the walk\<close>

text \<open>While the file is written only the flags \<open>SYMBOL_WRITE\<close> change, when all values are known.\<close>

definition wstate :: "kst \<Rightarrow> (sym \<Rightarrow> bool) \<Rightarrow> kst" where
  "wstate k w = k\<lparr>tab := (\<lambda>s. (tab k s)\<lparr>s_write := w s\<rparr>)\<rparr>"

lemma wstate_tab: "tab (wstate k w) s = (tab k s)\<lparr>s_write := w s\<rparr>"
  by (simp add: wstate_def)

lemma wstate_self: "wstate k (\<lambda>s. s_write (tab k s)) = k"
  by (simp add: wstate_def)

lemma wstate_upd: "upd_sym s (\<lambda>x. x\<lparr>s_write := False\<rparr>) (wstate k w) = wstate k (w(s := False))"
  by (simp add: wstate_def upd_sym_def fun_eq_iff)

lemma wstate_good:
  assumes "good k"
  shows "good (wstate k w)" "invalid (wstate k w) = invalid k"
proof -
  have "evolves {} k (wstate k w)" by (simp add: wstate_def evolves_def same_static_def)
  moreover have "typed (tab (wstate k w) s)" for s
    using good_typed [OF assms, of s] by (simp add: wstate_tab typed_def)
  ultimately have "step {} k (wstate k w)" using evolves_good [OF _ assms] by blast
  then show "good (wstate k w)" by (rule step_good)
  show "invalid (wstate k w) = invalid k" by (simp add: invalid_def wstate_tab)
qed

lemma wstate_calc: "invalid k = {} \<Longrightarrow> sym_calc_value (Suc n) s (wstate k w) = Some (wstate k w)"
  by (auto simp: invalid_def wstate_tab)

declare sym_calc_value.simps [simp del]

lemma wstate_line: "config_line (wstate k w) s = config_line k s"
  by (cases "s_type (tab k s)") (simp_all add: config_line_def wstate_tab printed_name_def Let_def)

lemma write_symbol_wstate:
  assumes "invalid k = {}" and "modules_sym k \<noteq> None" and "w s \<Longrightarrow> \<not> s_choice (tab k s) \<Longrightarrow> config_line k s = Some l"
  shows "write_symbol (sym_calc_value (Suc n)) s (wstate k w) =
    Some (if s_choice (tab k s) \<or> \<not> w s then ([], wstate k w) else (l, wstate k (w(s := False))))"
proof (cases "s_choice (tab k s) \<or> \<not> w s")
  case True
  then show ?thesis using wstate_calc [OF assms(1), of n s w] by (auto simp: write_symbol_def wstate_tab)
next
  case False
  have m: "modules_sym (wstate k v) = modules_sym k" for v by (simp add: wstate_def)
  have t: "tab (wstate k w) s = (tab k s)\<lparr>s_write := True\<rparr>" using False by (simp add: wstate_tab)
  obtain ms where ms: "modules_sym k = Some ms" using assms(2) by blast
  show ?thesis using False assms(3) ms
    by (simp add: write_symbol_def t wstate_calc [OF assms(1)] wstate_upd wstate_line m Let_def)
qed

text \<open>A title that cannot be taken for the line of a symbol.\<close>

definition title_ok :: "string \<Rightarrow> bool" where
  "title_ok t \<longleftrightarrow> NL \<notin> set t \<and> length t < 1000 \<and> take 7 (t @ [NL]) \<noteq> ''CONFIG_''"

definition title_items :: "string \<Rightarrow> item list" where
  "title_items t = [Text [NL], Text (''#'' @ [NL]), Text (''# '' @ t @ [NL]), Text (''#'' @ [NL])]"

lemma hash_noise: "noise (''#'' @ [NL])"
proof -
  have "text_line (''#'' @ [NL])" unfolding text_line_def by (rule exI [of _ "''#''"]) simp
  then show ?thesis by (simp add: noise_def)
qed

lemma comment_noise: "title_ok t \<Longrightarrow> noise (''# '' @ t @ [NL])"
proof -
  assume t: "title_ok t"
  then have "text_line (''# '' @ t @ [NL])"
    unfolding text_line_def title_ok_def by (intro exI [of _ "''# '' @ t"]) simp
  with t show ?thesis by (simp add: noise_def title_ok_def)
qed

lemma title_items_ok: "title_ok t \<Longrightarrow> list_all (item_ok k) (title_items t)"
proof -
  assume t: "title_ok t"
  have "text_line [NL]" by (simp add: text_line_def)
  then have "noise [NL]" by (simp add: noise_def)
  with hash_noise comment_noise [OF t] show ?thesis by (simp add: title_items_def item_ok_def)
qed

definition menu_ok :: "kst \<Rightarrow> (nat \<Rightarrow> menu) \<Rightarrow> nat \<Rightarrow> bool" where
  "menu_ok k M m =
     (case m_sym (M m) of
        None \<Rightarrow> (case m_prompt (M m) of
                   None \<Rightarrow> True | Some (MenuProp p) \<Rightarrow> title_ok (printed (p_text p)) | Some (SymProp _ _) \<Rightarrow> False)
      | Some s \<Rightarrow> s_choice (tab k s) \<or> \<not> s_write (tab k s) \<or>
                  value_ok (tab k s) \<and> text_line (the (config_line k s)))"

text \<open>The items of one menu.\<close>

lemma write_title_items:
  assumes k: "good k" "invalid k = {}" and m: "m_sym (menus st m) = None" "menu_ok k (menus st) m"
  shows "\<exists>its. write_title (sym_calc_value (Suc n)) st m (wstate k w) = Some (concat (map (item_line k) its), wstate k w) \<and>
    list_all (item_ok k) its \<and> item_values its = []"
proof (cases "m_prompt (menus st m)")
  case None
  then show ?thesis
    by (intro exI [of _ "[]"]) (simp add: write_title_def menu_is_visible_def own_visible_def)
next
  case (Some r)
  with m obtain p where r: "r = MenuProp p" and t: "title_ok (printed (p_text p))"
    by (cases r) (auto simp: menu_ok_def)
  let ?k = "wstate k w"
  have e: "expr_eval_opt (sym_calc_value (Suc n)) (p_visible p) ?k =
      Some (case p_visible p of None \<Rightarrow> Yes | Some e \<Rightarrow> expr_calc_value (env_of ?k) e, ?k)"
    using eval_valid [OF wstate_good(1) [OF k(1)]] wstate_good(2) [OF k(1)] k(2)
    by (cases "p_visible p") (simp_all add: expr_eval_opt_def)
  let ?v = "(case p_visible p of None \<Rightarrow> Yes | Some e \<Rightarrow> expr_calc_value (env_of ?k) e) \<noteq> No"
  have v: "menu_is_visible (sym_calc_value (Suc n)) (menus st) m ?k = Some (?v, ?k)"
    using m(1) Some r e by (simp add: menu_is_visible_def own_visible_def get_prop_def)
  have pr: "menu_get_prompt (st\<lparr>ksyms := ?k\<rparr>) m = Some (p_text p)"
    using Some r by (simp add: menu_get_prompt_def get_prop_def)
  show ?thesis
  proof (cases ?v)
    case True
    with v pr title_items_ok [OF t, of k] show ?thesis
      by (intro exI [of _ "title_items (printed (p_text p))"]) (simp add: write_title_def title_items_def)
  next
    case False
    with v show ?thesis by (intro exI [of _ "[]"]) (simp add: write_title_def)
  qed
qed

definition menu_values :: "kst \<Rightarrow> (nat \<Rightarrow> menu) \<Rightarrow> nat \<Rightarrow> sym set" where
  "menu_values k M m = {s. m_sym (M m) = Some s \<and> \<not> s_choice (tab k s)}"

lemma write_menu_items:
  assumes k: "good k" "invalid k = {}" "modules_sym k \<noteq> None" and m: "menu_ok k (menus st) m"
    and w: "\<And>s. w s \<Longrightarrow> s_write (tab k s)"
  shows "\<exists>its. write_menu (sym_calc_value (Suc n)) st m (out, wstate k w) =
      Some (out @ concat (map (item_line k) its), wstate k (\<lambda>s. w s \<and> s \<notin> menu_values k (menus st) m)) \<and>
    list_all (item_ok k) its \<and> distinct (item_values its) \<and> set (item_values its) = {s \<in> menu_values k (menus st) m. w s}"
proof (cases "m_sym (menus st m)")
  case None
  have "(\<lambda>s. w s \<and> s \<notin> menu_values k (menus st) m) = w" using None by (simp add: menu_values_def)
  with write_title_items [OF k(1,2) None m, of n w] None show ?thesis
    by (auto simp: write_menu_def menu_values_def)
next
  case (Some s)
  have v: "value_ok (tab k s) \<and> text_line (the (config_line k s))" if "w s" "\<not> s_choice (tab k s)"
    using m Some w that by (auto simp: menu_ok_def)
  have l: "config_line k s = Some (the (config_line k s))" if "w s" "\<not> s_choice (tab k s)"
    using v [OF that] value_ok_line [of k s] by auto
  note ws = write_symbol_wstate [of k w s "the (config_line k s)" n, OF k(2,3) l]
  show ?thesis
  proof (cases "s_choice (tab k s) \<or> \<not> w s")
    case True
    have "(\<lambda>s. w s \<and> s \<notin> menu_values k (menus st) m) = w" using True Some by (auto simp: menu_values_def)
    with True Some ws show ?thesis
      by (intro exI [of _ "[]"]) (auto simp: write_menu_def menu_values_def)
  next
    case False
    have "(\<lambda>t. w t \<and> t \<notin> menu_values k (menus st) m) = w(s := False)" using False Some by (auto simp: menu_values_def fun_eq_iff)
    with False Some ws v show ?thesis
      by (intro exI [of _ "[Value s]"]) (auto simp: write_menu_def menu_values_def item_ok_def)
  qed
qed

lemma visits_items:
  assumes k: "good k" "invalid k = {}" "modules_sym k \<noteq> None" and m: "\<And>m. m \<in> set ms \<Longrightarrow> menu_ok k (menus st) m"
    and w: "\<And>s. w s \<Longrightarrow> s_write (tab k s)"
  shows "\<exists>its w'. visits (write_menu (sym_calc_value (Suc n)) st) ms (out, wstate k w) =
      Some (out @ concat (map (item_line k) its), wstate k w') \<and>
    list_all (item_ok k) its \<and> distinct (item_values its) \<and>
    set (item_values its) = {s. w s \<and> (\<exists>m \<in> set ms. s \<in> menu_values k (menus st) m)}"
  using m w
proof (induction ms arbitrary: out w)
  case (Cons m ms)
  let ?w = "\<lambda>s. w s \<and> s \<notin> menu_values k (menus st) m"
  from write_menu_items [OF k, of st m w n out] Cons.prems obtain is1 where
    i1: "write_menu (sym_calc_value (Suc n)) st m (out, wstate k w) = Some (out @ concat (map (item_line k) is1), wstate k ?w)"
    "list_all (item_ok k) is1" "distinct (item_values is1)" "set (item_values is1) = {s \<in> menu_values k (menus st) m. w s}" by auto
  from Cons.IH [of ?w "out @ concat (map (item_line k) is1)"] Cons.prems obtain is2 w' where
    i2: "visits (write_menu (sym_calc_value (Suc n)) st) ms (out @ concat (map (item_line k) is1), wstate k ?w) =
      Some ((out @ concat (map (item_line k) is1)) @ concat (map (item_line k) is2), wstate k w')"
    "list_all (item_ok k) is2" "distinct (item_values is2)"
    "set (item_values is2) = {s. ?w s \<and> (\<exists>m \<in> set ms. s \<in> menu_values k (menus st) m)}" by auto
  show ?case
  proof (intro exI conjI)
    show "visits (write_menu (sym_calc_value (Suc n)) st) (m # ms) (out, wstate k w) =
      Some (out @ concat (map (item_line k) (is1 @ is2)), wstate k w')"
      using i1(1) i2(1) by (simp)
    show "list_all (item_ok k) (is1 @ is2)" using i1(2) i2(2) by simp
    show "distinct (item_values (is1 @ is2))" using i1(3,4) i2(3,4) by auto
    show "set (item_values (is1 @ is2)) = {s. w s \<and> (\<exists>m \<in> set (m # ms). s \<in> menu_values k (menus st) m)}"
      unfolding item_values_append set_append i1(4) i2(4) by auto
  qed
qed (auto intro!: exI [of _ "[]"])

section \<open>The header\<close>

definition header_items :: "conf_os \<Rightarrow> string \<Rightarrow> item list" where
  "header_items os version =
     [Text (''#'' @ [NL]), Text (''# '' @ (''Automatically generated make config: don'' @ [CHR 0x27] @ ''t edit'') @ [NL]),
      Text (''# '' @ (''Linux kernel version: '' @ version) @ [NL])] @
     (if env_set (o_getenv os) ''KCONFIG_NOTIMESTAMP'' then [] else [Text (''# '' @ butlast (o_ctime os) @ [NL])]) @
     [Text (''#'' @ [NL])]"

text \<open>The version and the date are single lines; \<open>ctime\<close> ends with a newline.\<close>

definition header_ok :: "conf_os \<Rightarrow> string \<Rightarrow> bool" where
  "header_ok os version \<longleftrightarrow> title_ok (''Linux kernel version: '' @ version) \<and>
     (\<exists>c. o_ctime os = c @ [NL] \<and> title_ok c)"

lemma header_items_text:
  "header_ok os v \<Longrightarrow> concat (map (item_line k) (header_items os v)) = config_header os v"
  by (auto simp: header_items_def config_header_def header_ok_def)

lemma header_items_ok:
  assumes "header_ok os v"
  shows "list_all (item_ok k) (header_items os v)" "item_values (header_items os v) = []"
proof -
  have "title_ok (''Automatically generated make config: don'' @ [CHR 0x27] @ ''t edit'')" by (simp add: title_ok_def)
  from comment_noise [OF this] hash_noise assms show "list_all (item_ok k) (header_items os v)"
    unfolding header_items_def header_ok_def
    by (auto simp: item_ok_def simp del: append_Cons append_assoc dest: comment_noise)
  show "item_values (header_items os v) = []" by (simp add: header_items_def)
qed

section \<open>What is read back\<close>

lemma find_chained:
  assumes t: "table_inv k" and s: "s \<in> chained k" "s_name (tab k s) = Some n" "\<not> s_const (tab k s)"
  shows "builtin n = None" "List.find (matches n False k) (hash k (str_hash n)) = Some s"
proof -
  from s(1) obtain h where h: "h \<le> 256" "s \<in> set (hash k h)" by (auto simp: chained_def)
  have "h \<noteq> 256" using t h(2) s(2) by (auto simp: table_inv_def names_ok_def)
  then have "h < 256" using h(1) by simp
  with t h(2) have "\<exists>m. s_name (tab k s) = Some m \<and> str_hash m = h \<and> builtin m = None"
    unfolding table_inv_def names_ok_def by blast
  then have n: "str_hash n = h" "builtin n = None" using s(2) by auto
  show "builtin n = None" by (rule n(2))
  have m: "matches n False k s" using s by (simp add: matches_def)
  have "List.find (matches n False k) (hash k (str_hash n)) \<noteq> None"
    using m h(2) unfolding find_None_iff n(1) by blast
  then obtain x where x: "List.find (matches n False k) (hash k (str_hash n)) = Some x" by blast
  then have xm: "x \<in> set (hash k (str_hash n))" "matches n False k x" unfolding find_Some_iff by (auto simp: in_set_conv_nth)
  have xc: "x \<in> chained k" using chainedI [OF xm(1)] str_hash_less [of n] by simp
  have u: "unique_ok k" using t by (simp add: table_inv_def)
  have "s_name (tab k x) = s_name (tab k s) \<longrightarrow> s_name (tab k x) \<noteq> None \<longrightarrow>
      s_const (tab k x) = s_const (tab k s) \<longrightarrow> x = s"
    using bspec [OF bspec [OF u [unfolded unique_ok_def] xc] s(1)] .
  with xm(2) s have "x = s" by (simp add: matches_def)
  with x show "List.find (matches n False k) (hash k (str_hash n)) = Some s" by simp
qed

lemma value_ok_typed: "value_ok x \<Longrightarrow> s_type x \<noteq> S_UNKNOWN \<and> s_type x \<noteq> S_OTHER"
  by (auto simp: value_ok_def)

text \<open>Two tables made from the same declarations.\<close>

definition same_decls :: "kst \<Rightarrow> kst \<Rightarrow> bool" where
  "same_decls st k \<longleftrightarrow> hash k = hash st \<and> (\<forall>s. s_name (tab k s) = s_name (tab st s) \<and>
     s_type (tab k s) = s_type (tab st s) \<and> s_choice (tab k s) = s_choice (tab st s))"

lemma same_decls_refl [simp]: "same_decls k k"
  by (simp add: same_decls_def)

lemma readable_reset:
  assumes t: "table_inv k" and d: "same_decls st k" and s: "s \<in> set (all_symbols st)" "value_ok (tab st s)"
    and n: "s_name (tab st s) = Some n" "name_ok n" "\<not> s_choice (tab st s)"
  shows "readable d st (conf_reset d k) s"
proof -
  let ?k = "conf_reset d k"
  have a: "all_symbols k = all_symbols st" using d by (simp add: all_symbols_def same_decls_def)
  have e: "s_name (tab k s) = Some n" "s_type (tab k s) = s_type (tab st s)" "\<not> s_choice (tab k s)"
    using d n by (simp_all add: same_decls_def)
  have ch: "s \<in> chained ?k" using all_symbols_chained [of s k] s(1) a by (simp add: chained_def conf_reset_state)
  obtain i where "s = Sym i"
    using all_symbols_chained [of s k] s(1) a t by (auto simp: table_inv_def alloc_ok_def)
  then have "\<not> s_const (tab k s)" using t value_ok_typed [OF s(2)] e(2) by (auto simp: table_inv_def consts_ok_def)
  then have c: "\<not> s_const (tab ?k s)" by (simp add: reset_field)
  have nm: "s_name (tab ?k s) = Some n" using e(1) by (simp add: reset_field)
  note f = find_chained [OF table_inv_reset [OF t] ch nm c]
  have "finds d ?k n s"
    using f value_ok_typed [OF s(2)] e(2) by (cases d) (simp_all add: finds_def sym_find_named sym_lookup_named reset_field)
  moreover have "\<not> def_flag d (tab ?k s)" using s(1) a e(3) by (simp add: conf_reset_state)
  ultimately show ?thesis using s(2) e n by (auto simp: readable_def reset_field)
qed

end
