(* ===== verification/Kconf_Build.thy ===== *)
theory Kconf_Build
  imports Kconf_Conf_Round
begin

text \<open>
  The files that the build depends on: what \<open>conf_split_config\<close> creates in a file system that keeps
  the laws of the locale \<open>build_fs\<close>, and that \<open>auto.conf\<close> is read back by the next run.
\<close>

section \<open>The file system\<close>

text \<open>The directory of a path, and paths without an empty component; \<open>b\<close> tells whether a slash may
  come next.\<close>

definition dir_of :: "string \<Rightarrow> string" where
  "dir_of p = rev (drop 1 (dropWhile (\<lambda>c. c \<noteq> CHR ''/'') (rev p)))"

fun slash_ok :: "bool \<Rightarrow> string \<Rightarrow> bool" where
  "slash_ok b [] = True"
| "slash_ok b (c # cs) = (if c = CHR ''/'' then b \<and> slash_ok False cs else slash_ok True cs)"

definition proper :: "string \<Rightarrow> bool" where
  "proper p \<longleftrightarrow> p \<noteq> [] \<and> last p \<noteq> CHR ''/''"

lemma dir_of_slash [simp]: "dir_of (p @ ''/'') = p"
  by (simp add: dir_of_def)

lemma dir_of_char: "c \<noteq> CHR ''/'' \<Longrightarrow> dir_of (p @ [c]) = dir_of p"
  by (simp add: dir_of_def)

lemma dir_of_Nil [simp]: "dir_of [] = []"
  by (simp add: dir_of_def)

text \<open>No name is used for a directory and for a file: files end in \<open>.h\<close> and directories do not.\<close>

definition sorted_out :: "string set \<Rightarrow> string set \<Rightarrow> bool" where
  "sorted_out ds fs \<longleftrightarrow> (\<forall>p \<in> fs. CHR ''.'' \<in> set p) \<and> (\<forall>p \<in> ds. CHR ''.'' \<notin> set p)"

text \<open>What the operations of the system promise, for the directories and the regular files below
  \<open>include/config\<close>; the directory itself is the empty path.\<close>

locale build_fs =
  fixes os :: "'f build_os" and dirs :: "'f \<Rightarrow> string set" and files :: "'f \<Rightarrow> string set"
  assumes here: "[] \<in> dirs f"
    and open_ok: "proper p \<Longrightarrow> dir_of p \<in> dirs f \<Longrightarrow> p \<notin> dirs f \<Longrightarrow>
      \<exists>f'. b_open os p f = (0, f') \<and> files f' = insert p (files f) \<and> dirs f' = dirs f"
    and open_missing: "proper p \<Longrightarrow> dir_of p \<notin> dirs f \<Longrightarrow> b_open os p f = (2, f)"
    and stat_dir: "proper p \<Longrightarrow> p \<notin> files f \<Longrightarrow> b_stat os p f \<longleftrightarrow> p \<in> dirs f"
    and mkdir_ok: "proper p \<Longrightarrow> dir_of p \<in> dirs f \<Longrightarrow> p \<notin> dirs f \<Longrightarrow> p \<notin> files f \<Longrightarrow>
      \<exists>f'. b_mkdir os p f = (True, f') \<and> dirs f' = insert p (dirs f) \<and> files f' = files f"
begin

lemma make_dirs_ok:
  assumes "sorted_out (dirs f) (files f)" and "dir_of pre \<in> dirs f" and "slash_ok (proper pre) cs" and "CHR ''.'' \<notin> set pre"
    and "\<And>a b. cs = a @ CHR ''/'' # b \<Longrightarrow> CHR ''.'' \<notin> set a"
  shows "\<exists>f'. make_dirs os pre cs f = (True, f') \<and> files f' = files f \<and> sorted_out (dirs f') (files f') \<and> dir_of (pre @ cs) \<in> dirs f'"
  using assms
proof (induction cs arbitrary: pre f)
  case (Cons c cs)
  have dot: "CHR ''.'' \<notin> set a" if "cs = a @ CHR ''/'' # b" for a b
    using Cons.prems(5) [of "c # a" b] that by simp
  show ?case
  proof (cases "c = CHR ''/''")
    case True
    have pr: "proper pre" using Cons.prems(3) True by simp
    have nf: "pre \<notin> files f" using Cons.prems(1,4) by (auto simp: sorted_out_def)
    have sl: "slash_ok (proper (pre @ ''/'')) cs" using Cons.prems(3) True by (simp add: proper_def)
    have rest: "\<exists>f''. make_dirs os (pre @ ''/'') cs f' = (True, f'') \<and> files f'' = files f' \<and> sorted_out (dirs f'') (files f'') \<and>
        dir_of ((pre @ ''/'') @ cs) \<in> dirs f''" if "sorted_out (dirs f') (files f')" "pre \<in> dirs f'" for f'
      by (rule Cons.IH) (use that sl Cons.prems(4) dot in auto)
    show ?thesis
    proof (cases "pre \<in> dirs f")
      case e: True
      with rest [OF Cons.prems(1)] stat_dir [OF pr nf] True show ?thesis by simp
    next
      case False
      from mkdir_ok [OF pr Cons.prems(2) False nf] obtain f' where
        m: "b_mkdir os pre f = (True, f')" "dirs f' = insert pre (dirs f)" "files f' = files f" by blast
      have "sorted_out (dirs f') (files f')" using Cons.prems(1,4) m by (auto simp: sorted_out_def)
      with rest [of f'] m stat_dir [OF pr nf] False True show ?thesis by auto
    qed
  next
    case False
    have "\<exists>f'. make_dirs os (pre @ [c]) cs f = (True, f') \<and> files f' = files f \<and> sorted_out (dirs f') (files f') \<and>
        dir_of ((pre @ [c]) @ cs) \<in> dirs f'" if "CHR ''/'' \<in> set cs"
    proof (rule Cons.IH)
      show "slash_ok (proper (pre @ [c])) cs" using Cons.prems(3) False by (simp add: proper_def)
      from that obtain a b where ab: "cs = a @ CHR ''/'' # b" by (auto dest: split_list)
      show "CHR ''.'' \<notin> set (pre @ [c])" using Cons.prems(5) [of "c # a" b] Cons.prems(4) ab by simp
    qed (use Cons.prems(1,2) False dot in \<open>auto simp: dir_of_char\<close>)
    moreover have "make_dirs os q ds f = (True, f)" if "CHR ''/'' \<notin> set ds" for q ds
      using that by (induction ds arbitrary: q) auto
    moreover have "dir_of (q @ ds) = dir_of q" if "CHR ''/'' \<notin> set ds" for q ds
      using that by (induction ds rule: rev_induct) (auto simp: dir_of_char simp flip: append_assoc)
    ultimately show ?thesis
      using False Cons.prems(1,2) by (cases "CHR ''/'' \<in> set cs") (auto simp: dir_of_char)
  qed
qed auto

lemma touch_ok:
  assumes s: "sorted_out (dirs f) (files f)" and p: "p = q @ ''.h''" "CHR ''.'' \<notin> set q" "slash_ok False p"
  shows "\<exists>f'. touch_file os p f = (True, f') \<and> files f' = insert p (files f) \<and> sorted_out (dirs f') (files f')"
proof -
  have pr: "proper p" using p(1) by (simp add: proper_def)
  have nd: "p \<notin> dirs g" if "sorted_out (dirs g) (files g)" for g using that p(1) by (auto simp: sorted_out_def)
  have op: "\<exists>g'. b_open os p g = (0, g') \<and> files g' = insert p (files g) \<and> sorted_out (dirs g') (files g')"
    if g: "sorted_out (dirs g) (files g)" "dir_of p \<in> dirs g" for g
    using open_ok [OF pr g(2) nd [OF g(1)]] g(1) p(1) by (auto simp: sorted_out_def)
  show ?thesis
  proof (cases "dir_of p \<in> dirs f")
    case True
    with op [OF s] show ?thesis by (auto simp: touch_file_def)
  next
    case False
    have dots: "CHR ''.'' \<notin> set a" if ab: "p = a @ CHR ''/'' # b" for a b
    proof (rule ccontr)
      assume d: "\<not> CHR ''.'' \<notin> set a"
      have "length a \<le> length q"
      proof (rule ccontr)
        assume "\<not> length a \<le> length q"
        then have "p ! length a \<in> set ''.h''" using p(1) ab by (auto simp: nth_append nth_Cons' dest: arg_cong [of _ _ length])
        then show False using ab by (simp add: nth_append)
      qed
      then have "a = take (length a) q" using ab p(1) by (metis append_eq_conv_conj take_append diff_is_0_eq take_0 append_Nil2)
      then show False using d p(2) by (metis in_set_takeD)
    qed
    have "\<exists>g. make_dirs os [] p f = (True, g) \<and> files g = files f \<and> sorted_out (dirs g) (files g) \<and> dir_of ([] @ p) \<in> dirs g"
      by (rule make_dirs_ok) (use s here p(3) dots in \<open>simp_all add: proper_def\<close>)
    then obtain g where g: "make_dirs os [] p f = (True, g)" "files g = files f" "sorted_out (dirs g) (files g)" "dir_of p \<in> dirs g" by auto
    from op [OF g(3,4)] g(1,2) open_missing [OF pr False] show ?thesis by (auto simp: touch_file_def)
  qed
qed

end

section \<open>What is created\<close>

text \<open>Names whose path has no empty component.\<close>

definition tidy_name :: "string \<Rightarrow> bool" where
  "tidy_name n \<longleftrightarrow> name_ok n \<and> length n < 120 \<and> slash_ok False (path_of n)"

lemma tolower_dot: "tolower c = CHR ''.'' \<longleftrightarrow> c = CHR ''.''"
proof -
  have "tolower c \<noteq> CHR ''.''" if "65 \<le> (of_char c :: nat)" "(of_char c :: nat) \<le> 90"
  proof
    assume "tolower c = CHR ''.''"
    then have "char_of (of_char c + 32 :: nat) = CHR ''.''" using that by (simp add: tolower_def)
    then have "of_char (char_of (of_char c + 32 :: nat)) = (of_char (CHR ''.'') :: nat)" by simp
    then show False using that by simp
  qed
  then show ?thesis by (auto simp: tolower_def)
qed

lemma path_no_dot: "name_ok n \<Longrightarrow> CHR ''.'' \<notin> set (map (\<lambda>c. if tolower c = CHR ''_'' then CHR ''/'' else tolower c) n)"
proof -
  assume n: "name_ok n"
  have "\<not> name_char (CHR ''.'')" by code_simp
  with n show ?thesis by (auto simp: name_ok_def list_all_iff tolower_dot eq_commute [of "CHR ''.''"] split: if_splits)
qed

lemma tidy_path: "tidy_name n \<Longrightarrow> config_path n = Some (path_of n)"
  by (simp add: tidy_name_def config_path_def fits_buf_def path_of_def)

text \<open>The paths of the symbols whose value has changed.\<close>

definition touched :: "kst \<Rightarrow> sym \<Rightarrow> string set" where
  "touched st s = {path_of m | m. conf_changed (tab st s) = Some True \<and> s_name (tab st s) = Some m}"

lemma split_loop_files:
  assumes fs: "build_fs os dirs files" and v: "invalid st = {}"
    and c: "\<And>s. s \<in> set ss \<Longrightarrow> \<exists>b. conf_changed (tab st s) = Some b"
    and n: "\<And>s m. s \<in> set ss \<Longrightarrow> s_name (tab st s) = Some m \<Longrightarrow> tidy_name m"
    and s: "sorted_out (dirs f) (files f)"
  shows "\<exists>f'. split_loop (sym_calc_value (Suc k)) os ss st f = Some (False, st, f') \<and> sorted_out (dirs f') (files f') \<and>
    files f' = files f \<union> (\<Union>s \<in> set ss. touched st s)"
  using c n s
proof (induction ss arbitrary: f)
  case (Cons x ss)
  have calc: "sym_calc_value (Suc k) x st = Some st"
    using wstate_calc [OF v, of k x "\<lambda>s. s_write (tab st s)"] by (simp add: wstate_self)
  from Cons.prems(1) obtain b where b: "conf_changed (tab st x) = Some b" by auto
  show ?case
  proof (cases b)
    case False
    have "\<exists>f'. split_loop (sym_calc_value (Suc k)) os ss st f = Some (False, st, f') \<and> sorted_out (dirs f') (files f') \<and>
        files f' = files f \<union> (\<Union>s \<in> set ss. touched st s)" by (rule Cons.IH) (use Cons.prems in auto)
    moreover have "touched st x = {}" using b False by (simp add: touched_def)
    ultimately show ?thesis using calc b False by simp
  next
    case True
    then obtain m where m: "s_name (tab st x) = Some m" using b by (cases "s_name (tab st x)") (auto simp: conf_changed_def)
    have t: "tidy_name m" using Cons.prems(2) [of x m] m by simp
    let ?q = "map (\<lambda>c. if tolower c = CHR ''_'' then CHR ''/'' else tolower c) m"
    from build_fs.touch_ok [OF fs Cons.prems(3), of "path_of m" ?q] t obtain f1 where
      f1: "touch_file os (path_of m) f = (True, f1)" "files f1 = insert (path_of m) (files f)" "sorted_out (dirs f1) (files f1)"
      using path_no_dot [of m] by (auto simp: path_of_def tidy_name_def)
    have "\<exists>f'. split_loop (sym_calc_value (Suc k)) os ss st f1 = Some (False, st, f') \<and> sorted_out (dirs f') (files f') \<and>
        files f' = files f1 \<union> (\<Union>s \<in> set ss. touched st s)" by (rule Cons.IH) (use Cons.prems(1,2) f1(3) in auto)
    then obtain f2 where
      f2: "split_loop (sym_calc_value (Suc k)) os ss st f1 = Some (False, st, f2)" "sorted_out (dirs f2) (files f2)"
      "files f2 = files f1 \<union> (\<Union>s \<in> set ss. touched st s)" by auto
    have "touched st x = {path_of m}" using b True m by (simp add: touched_def)
    with f2 calc b True m f1 tidy_path [OF t] show ?thesis by auto
  qed
qed auto

text \<open>A file system of this kind.\<close>

record disk =
  d_dirs :: "string list"
  d_files :: "string list"

definition disk_dirs :: "disk \<Rightarrow> string set" where
  "disk_dirs f = insert [] (set (d_dirs f))"

definition disk_files :: "disk \<Rightarrow> string set" where
  "disk_files f = set (d_files f)"

definition disk_os :: "disk build_os" where
  "disk_os =
     \<lparr>b_open = (\<lambda>p f. if dir_of p \<notin> disk_dirs f then (2, f)
                      else if p \<in> disk_dirs f then (21, f) else (0, f\<lparr>d_files := p # d_files f\<rparr>)),
      b_stat = (\<lambda>p f. p \<in> disk_dirs f \<or> p \<in> disk_files f),
      b_mkdir = (\<lambda>p f. if dir_of p \<in> disk_dirs f \<and> p \<notin> disk_dirs f \<and> p \<notin> disk_files f
                       then (True, f\<lparr>d_dirs := p # d_dirs f\<rparr>) else (False, f)),
      b_chdir = (\<lambda>_. True)\<rparr>"

interpretation disk_fs: build_fs disk_os disk_dirs disk_files
  by unfold_locales (auto simp: disk_os_def disk_dirs_def disk_files_def)

section \<open>Reading \<open>auto.conf\<close> back\<close>

text \<open>The symbols that have a line in \<open>auto.conf\<close>.\<close>

definition in_auto :: "kst \<Rightarrow> sym \<Rightarrow> bool" where
  "in_auto st s \<longleftrightarrow> s_write (tab st s) \<and> s_name (tab st s) \<noteq> None \<and> \<not> (boolish (s_type (tab st s)) \<and> s_tri (tab st s) = No)"

lemma autoconf_line_text:
  assumes "s_write (tab st s) \<Longrightarrow> s_name (tab st s) \<noteq> None \<Longrightarrow> value_ok (tab st s)"
  shows "\<exists>h. autoconf_line st s = Some (if in_auto st s then the (config_line st s) else [], h)"
proof (cases "s_write (tab st s) \<and> s_name (tab st s) \<noteq> None")
  case False
  then show ?thesis by (auto simp: autoconf_line_def in_auto_def)
next
  case True
  with assms have "value_ok (tab st s)" by simp
  with True show ?thesis
    by (cases "s_type (tab st s)"; cases "s_val (tab st s)")
      (auto simp: autoconf_line_def in_auto_def value_ok_def config_line_def val_string_def Let_def)
qed

lemma autoconf_lines_text:
  assumes v: "invalid st = {}"
    and o: "\<And>s. s \<in> set ss \<Longrightarrow> s_write (tab st s) \<Longrightarrow> s_name (tab st s) \<noteq> None \<Longrightarrow> value_ok (tab st s)"
  shows "\<exists>ls hs. autoconf_lines (sym_calc_value (Suc n)) ss st = Some ((ls, hs), st) \<and>
    concat ls = concat (map (item_line st) (map Value (filter (in_auto st) ss)))"
  using o
proof (induction ss)
  case (Cons s ss)
  have calc: "sym_calc_value (Suc n) s st = Some st"
    using wstate_calc [OF v, of n s "\<lambda>s. s_write (tab st s)"] by (simp add: wstate_self)
  from autoconf_line_text [of st s] Cons.prems obtain h where
    h: "autoconf_line st s = Some (if in_auto st s then the (config_line st s) else [], h)" by auto
  from Cons.IH Cons.prems obtain ls hs where
    "autoconf_lines (sym_calc_value (Suc n)) ss st = Some ((ls, hs), st)"
    "concat ls = concat (map (item_line st) (map Value (filter (in_auto st) ss)))" by auto
  with calc h show ?case by auto
qed simp

definition auto_os :: "string \<Rightarrow> conf_os" where
  "auto_os date = \<lparr>o_getenv = (\<lambda>_. None), o_is_dir = (\<lambda>_. False), o_open = (\<lambda>_. True), o_rename = (\<lambda>_ _. True),
     o_ctime = date, o_pid = []\<rparr>"

lemma auto_header: "fst (autoconf_headers version date) = config_header (auto_os date) version"
  by (simp add: autoconf_headers_def config_header_def auto_os_def env_set_def)

lemma item_values_Value [simp]: "item_values (map Value ss) = ss"
  by (induction ss) auto

text \<open>When the saved values of the last build are the current ones, nothing has changed.\<close>

lemma saved_unchanged:
  assumes r: "reads S_DEF_AUTO (conf_reset S_DEF_AUTO st) k" and s: "s \<in> set (all_symbols st)"
    and v: "s_write (tab st s) \<Longrightarrow> s_name (tab st s) \<noteq> None \<Longrightarrow> value_ok (tab st s)"
    and ch: "s_choice (tab st s) \<Longrightarrow> s_name (tab st s) = None"
    and i: "in_auto st s \<Longrightarrow> tab k s = save S_DEF_AUTO (tab st s) (tab (conf_reset S_DEF_AUTO st) s)"
    and o: "\<not> in_auto st s \<Longrightarrow> \<not> s_choice (tab st s) \<Longrightarrow> tab k s = tab (conf_reset S_DEF_AUTO st) s"
  shows "conf_changed (tab k s) = Some False"
proof (cases "s_name (tab st s) = None \<or> s_auto (tab st s)")
  case True
  have "s_name (tab k s) = s_name (tab st s)" "s_auto (tab k s) = s_auto (tab st s)"
    using reads_field(1,11) [OF r, of s] by (simp_all add: conf_reset_state)
  with True show ?thesis by (auto simp: conf_changed_def)
next
  case False
  have f: "s_name (tab k s) = s_name (tab st s)" "s_auto (tab k s) = s_auto (tab st s)" "s_write (tab k s) = s_write (tab st s)"
    "s_type (tab k s) = s_type (tab st s)" "s_tri (tab k s) = s_tri (tab st s)" "s_val (tab k s) = s_val (tab st s)"
    using reads_field [OF r, of s] by (simp_all add: conf_reset_state)
  show ?thesis
  proof (cases "in_auto st s")
    case True
    have "value_ok (tab st s)" using v True by (simp add: in_auto_def)
    moreover have "s_def_auto (tab k s)" "boolish (s_type (tab st s)) \<Longrightarrow> s_auto_tri (tab k s) = s_tri (tab st s)"
      "\<not> boolish (s_type (tab st s)) \<Longrightarrow> s_auto_val (tab k s) = s_val (tab st s)"
      using i [OF True] by (simp_all add: save_def user_defs)
    moreover have "s_write (tab st s)" using True by (simp add: in_auto_def)
    ultimately show ?thesis using False
      by (cases "s_type (tab st s)"; cases "s_val (tab st s)") (simp_all add: conf_changed_def f value_ok_def val_string_def)
  next
    case ni: False
    have nc: "\<not> s_choice (tab st s)" using False ch by auto
    have "\<not> s_def_auto (tab k s)" using o [OF ni nc] s nc by (simp add: conf_reset_state reset_symbol_def user_defs)
    with False ni show ?thesis by (auto simp: conf_changed_def f in_auto_def)
  qed
qed

end
