(* ===== verification/Kconf_Symbol_Theorems.thy ===== *)
theory Kconf_Symbol_Theorems
  imports Kconf_Table
begin

text \<open>
  What the operations on symbols guarantee.
\<close>

section \<open>An example table\<close>

text \<open>The boolean FOO with a prompt and the default \<open>y\<close>; the number NUM, which the user has set to 42, with a prompt that
  depends on FOO and a range from 1 to 10; the constants of the range; and the booleans A and B, of which each
  depends on the other.\<close>

definition bool_sym :: "string \<Rightarrow> property list \<Rightarrow> symbol" where
  "bool_sym n ps = (new_symbol (Some n) False)\<lparr>s_type := S_BOOLEAN, s_props := ps\<rparr>"

definition prompt :: "sym option \<Rightarrow> property" where
  "prompt d = (prop_alloc P_PROMPT symbol_no)\<lparr>p_text := Some ''prompt'', p_visible := map_option ESymbol d\<rparr>"

primrec demo_tab :: "sym \<Rightarrow> symbol" where
  "demo_tab symbol_yes = const_sym ''y'' Yes"
| "demo_tab symbol_mod = const_sym ''m'' Mod"
| "demo_tab symbol_no = const_sym ''n'' No"
| "demo_tab (Sym i) =
     (if i = 0 then bool_sym ''FOO'' [prompt None, (prop_alloc P_DEFAULT (Sym 0))\<lparr>p_expr := PExpr (ESymbol symbol_yes)\<rparr>]
      else if i = 1 then
        (new_symbol (Some ''NUM'') False)\<lparr>s_type := S_INT, s_val := VStr [], s_user_val := VStr ''42'', s_def_user := True,
          s_props := [prompt (Some (Sym 0)), (prop_alloc P_RANGE (Sym 1))\<lparr>p_expr := PRange (Sym 2) (Sym 3)\<rparr>]\<rparr>
      else if i = 2 then const_sym ''1'' No
      else if i = 3 then const_sym ''10'' No
      else if i = 4 then bool_sym ''A'' [prompt (Some (Sym 5))]
      else if i = 5 then bool_sym ''B'' [prompt (Some (Sym 4))]
      else (const_sym [] No)\<lparr>s_const := False\<rparr>)"

definition demo_syms :: "sym list" where
  "demo_syms = [Sym 0, Sym 1, Sym 2, Sym 3, Sym 4, Sym 5]"

definition demo_st :: kst where
  "demo_st =
     \<lparr>tab = demo_tab,
      hash = hash_of demo_tab demo_syms,
      used = 6, prop_tri = (\<lambda>_. No), menu_changed = (\<lambda>_. False), modules_sym = None, modules_val = No,
      sym_change_count = 0\<rparr>"

lemmas demo_defs = demo_st_def const_sym_def bool_sym_def new_symbol_def prompt_def prop_alloc_def

lemma demo_invalid: "invalid demo_st = {Sym 0, Sym 1, Sym 4, Sym 5}"
proof (rule set_eqI)
  show "s \<in> invalid demo_st \<longleftrightarrow> s \<in> {Sym 0, Sym 1, Sym 4, Sym 5}" for s
    by (cases s) (simp_all add: invalid_def demo_defs)
qed

lemma demo_good: "good demo_st"
proof -
  have "wf_symbol demo_st s" for s
    by (cases s) (simp_all add: wf_symbol_def prop_get_symbol_def demo_defs)
  moreover have "typed (tab demo_st s)" for s by (cases s) (simp_all add: typed_def demo_defs)
  ultimately show ?thesis by (simp add: good_def demo_invalid)
qed

lemma demo_list:
  "hash demo_st = hash_of (tab demo_st) demo_syms"
  "list_all (\<lambda>s. case s_name (tab demo_st s) of None \<Rightarrow> False | Some n \<Rightarrow> builtin n = None) demo_syms"
  "list_all (\<lambda>s. s \<in> Sym ` {..<used demo_st}) demo_syms"
  "distinct (map (\<lambda>s. (s_name (tab demo_st s), s_const (tab demo_st s))) demo_syms)"
proof -
  show "list_all (\<lambda>s. case s_name (tab demo_st s) of None \<Rightarrow> False | Some n \<Rightarrow> builtin n = None) demo_syms" by code_simp
  show "distinct (map (\<lambda>s. (s_name (tab demo_st s), s_const (tab demo_st s))) demo_syms)" by code_simp
qed (simp_all add: demo_st_def demo_syms_def)

lemmas demo_chained = table_of_list(1) [OF demo_list]

lemma demo_table: "table_inv demo_st"
proof (rule table_of_list(2) [OF demo_list])
  show "consts_ok demo_st"
    unfolding consts_ok_def demo_chained by (auto simp: builtin_ok_def demo_syms_def demo_defs)
qed

section \<open>Properties\<close>

text \<open>C7: in a well-formed table \<open>sym_calc_value\<close> returns, also when symbols depend on each other in a
  circle, as long as its bound exceeds the number of symbols without a value. The symbol is then valid, the table is
  well-formed again with values that fit the types, the hash table is intact, and no value that was valid has
  changed.\<close>

theorem sym_calc_value_sound:
  assumes "good st" and "table_inv st" and "card (invalid st) < n"
  shows "\<exists>st'. sym_calc_value n s st = Some st' \<and> s_valid (tab st' s) \<and> good st' \<and> table_inv st' \<and>
    (\<forall>t. s_valid (tab st t) \<longrightarrow>
      s_valid (tab st' t) \<and> s_val (tab st' t) = s_val (tab st t) \<and> s_tri (tab st' t) = s_tri (tab st t))"
proof -
  have "fit n st" using assms by (simp add: fit_def)
  from ev.calc_yields [OF this, of s] obtain st' where
    "sym_calc_value n s st = Some st'" "step {} st st'" "s_valid (tab st' s)" by (auto simp: yields_def)
  with table_inv_step [OF this(2) assms(2)] show ?thesis by (auto simp: step_def evolves_def)
qed

theorem sym_calc_value_sound_witness:
  "\<exists>st'. sym_calc_value 5 (Sym 1) demo_st = Some st' \<and> s_valid (tab st' (Sym 1)) \<and> good st' \<and>
    map_option (\<lambda>st. (s_tri (tab st (Sym 0)), s_val (tab st (Sym 1)))) (sym_calc_value 5 (Sym 1) demo_st) = Some (Yes, VStr ''10'')"
proof -
  have "card (invalid demo_st) < 5" by (simp add: demo_invalid)
  moreover have "map_option (\<lambda>st. (s_tri (tab st (Sym 0)), s_val (tab st (Sym 1)))) (sym_calc_value 5 (Sym 1) demo_st) =
    Some (Yes, VStr ''10'')" by code_simp
  ultimately show ?thesis using sym_calc_value_sound [OF demo_good demo_table, of 5 "Sym 1"] by blast
qed

text \<open>C22: in a table without pending values the evaluation of an expression is the pure
  \<open>expr_calc_value\<close> on what the table holds and does not change the table; and what the transformations of
  expressions rely on holds of that table.\<close>

theorem expr_eval_pure:
  assumes "good st" and "table_inv st" and "invalid st = {}"
  shows "kenv_ok (env_of st) \<and> expr_eval (sym_calc_value (Suc n)) e st = Some (expr_calc_value (env_of st) e, st)"
  using table_kenv_ok [OF assms] eval_valid [OF assms(1)] assms(3) by simp

text \<open>The example table with its values marked as valid.\<close>

definition demo_done :: kst where
  "demo_done = demo_st\<lparr>tab := (\<lambda>s. if s \<in> set demo_syms then (demo_tab s)\<lparr>s_valid := True\<rparr> else demo_tab s)\<rparr>"

lemma demo_done: "good demo_done" "table_inv demo_done" "invalid demo_done = {}"
proof -
  show "invalid demo_done = {}"
    using demo_invalid by (auto simp: demo_done_def invalid_def demo_syms_def demo_st_def split: if_splits)
  have st: "step UNIV demo_st demo_done"
  proof (rule evolves_good [OF _ demo_good])
    show "evolves UNIV demo_st demo_done" by (auto simp: evolves_def same_static_def demo_done_def demo_st_def)
    show "typed (tab demo_done s)" for s
      using good_typed [OF demo_good, of s] by (cases s) (auto simp: demo_done_def demo_syms_def typed_def demo_defs)
  qed
  moreover have "step {} demo_st demo_done"
    using st by (auto simp: step_def evolves_def demo_done_def demo_st_def)
  ultimately show "good demo_done" "table_inv demo_done" using table_inv_step [OF _ demo_table] step_good by blast+
qed

theorem expr_eval_pure_witness:
  "expr_eval (sym_calc_value (Suc 0)) (EAnd (EUnequal (Sym 2) (Sym 3)) (ENot (ESymbol (Sym 0)))) demo_done = Some (Yes, demo_done)"
proof -
  have "expr_calc_value (env_of demo_done) (EAnd (EUnequal (Sym 2) (Sym 3)) (ENot (ESymbol (Sym 0)))) = Yes" by code_simp
  then show ?thesis using expr_eval_pure [OF demo_done, of 0 "EAnd (EUnequal (Sym 2) (Sym 3)) (ENot (ESymbol (Sym 0)))"]
    by simp
qed

text \<open>C20: on an unmarked table the check for circular dependencies ends and returns the null pointer, whatever it
  finds; it prints something if and only if a symbol that the given one depends on, directly or not, depends on itself.\<close>

theorem sym_check_deps_reports:
  assumes "grey st = {}" and "seen st = {}" and "\<And>t. plain_defaults (tab st t)"
    and "finite K" and "deps st `` K \<subseteq> K" and "s \<in> K" and "card K < n"
  shows "\<exists>out st'. sym_check_deps n s st = Some (None, out, st') \<and>
    (out \<noteq> [] \<longleftrightarrow> (\<exists>t \<in> (deps st)\<^sup>* `` {s}. (t, t) \<in> (deps st)\<^sup>+))"
proof -
  have s: "searching st st" using assms(1) by (simp add: searching_def)
  have "clean st st" using assms(2) by (simp add: clean_def)
  moreover obtain r out st' where c: "sym_check_deps n s st = Some (r, out, st')" and f: "found st {s} st (r, out, st')"
    using check_deps_found [OF assms(4,5,3) s _ assms(6), of n] assms(2,7) by (auto simp: yields_def)
  ultimately have r: "r = None" and pos: "out \<noteq> [] \<Longrightarrow> \<exists>t \<in> (deps st)\<^sup>* `` {s}. (t, t) \<in> (deps st)\<^sup>+"
    and neg: "out = [] \<Longrightarrow> s \<in> black st' \<and> clean st st'"
    using assms(1) by (cases r; auto simp: found_def)+
  have "\<not> (\<exists>t \<in> (deps st)\<^sup>* `` {s}. (t, t) \<in> (deps st)\<^sup>+)" if "out = []"
  proof -
    have cl: "deps st `` black st' \<subseteq> black st'" using neg [OF that] by (auto simp: clean_def)
    have "t \<in> black st'" if "(s, t) \<in> (deps st)\<^sup>*" for t
      using that by induction (use neg [OF \<open>out = []\<close>] cl in blast)+
    then show ?thesis using neg [OF that] by (auto simp: clean_def)
  qed
  with c r pos show ?thesis by blast
qed

lemma demo_deps:
  "grey demo_st = {}" "seen demo_st = {}" "plain_defaults (tab demo_st t)"
  "deps demo_st = {(Sym 0, symbol_yes), (Sym 1, Sym 0), (Sym 4, Sym 5), (Sym 5, Sym 4)}"
proof -
  have m: "\<not> s_check (tab demo_st s) \<and> \<not> s_checked (tab demo_st s) \<and> plain_defaults (tab demo_st s)" for s
    by (cases s) (simp_all add: plain_defaults_def demo_defs)
  then show "grey demo_st = {}" "seen demo_st = {}" "plain_defaults (tab demo_st t)" by (auto simp: grey_def seen_def)
  show "deps demo_st = {(Sym 0, symbol_yes), (Sym 1, Sym 0), (Sym 4, Sym 5), (Sym 5, Sym 4)}"
  proof (rule set_eqI)
    fix x :: "sym \<times> sym"
    obtain a b where x: "x = (a, b)" by (cases x)
    show "x \<in> deps demo_st \<longleftrightarrow> x \<in> {(Sym 0, symbol_yes), (Sym 1, Sym 0), (Sym 4, Sym 5), (Sym 5, Sym 4)}"
      unfolding x by (cases a) (auto simp: deps_def dep_syms_def opt_syms_def prop_syms_def demo_defs)
  qed
qed

theorem sym_check_deps_reports_witness:
  "\<exists>out st'. sym_check_deps 8 (Sym 4) demo_st = Some (None, out, st') \<and> out \<noteq> []"
proof -
  let ?K = "{Sym 4, Sym 5}"
  have "(Sym 4, Sym 5) \<in> deps demo_st" "(Sym 5, Sym 4) \<in> deps demo_st" by (simp_all add: demo_deps(4))
  then have "(Sym 4, Sym 4) \<in> (deps demo_st)\<^sup>+" by (rule trancl_into_trancl [OF r_into_trancl])
  then have c: "\<exists>t \<in> (deps demo_st)\<^sup>* `` {Sym 4}. (t, t) \<in> (deps demo_st)\<^sup>+" by blast
  have "deps demo_st `` ?K \<subseteq> ?K" unfolding demo_deps(4) by auto
  from sym_check_deps_reports [OF demo_deps(1-3) _ this, of "Sym 4" 8]
  obtain out st' where "sym_check_deps 8 (Sym 4) demo_st = Some (None, out, st')"
    "out \<noteq> [] \<longleftrightarrow> (\<exists>t \<in> (deps demo_st)\<^sup>* `` {Sym 4}. (t, t) \<in> (deps demo_st)\<^sup>+)" by auto
  with c show ?thesis by blast
qed

text \<open>C8: a lookup keeps the hash table and the table of symbols well-formed. The symbol it returns is
  the one that every later lookup returns and, unless it is a constant, that \<open>sym_find\<close> finds; it has the name and
  the kind asked for; and what \<open>sym_find\<close> found before is still found.\<close>

theorem sym_lookup_correct:
  assumes "table_inv st" and "good st" and "sym_lookup (Some n) c st = (s, st')"
  shows "table_inv st' \<and> good st' \<and> sym_lookup (Some n) c st' = (s, st') \<and>
    (builtin n = None \<longrightarrow> s_name (tab st' s) = Some n \<and> s_const (tab st' s) = c \<and> (\<not> c \<longrightarrow> sym_find (Some n) st' = Some s)) \<and>
    (\<forall>m t. sym_find (Some m) st = Some t \<longrightarrow> sym_find (Some m) st' = Some t)"
proof (cases "builtin n")
  case None
  with lookup_match [OF assms(3) None] lookup_inv [OF assms(3,1)] good_lookup [OF assms(3,2)] lookup_keeps [OF assms(3,1)]
  show ?thesis by (auto simp: matches_def sym_lookup_named sym_find_named)
next
  case (Some b)
  with assms show ?thesis by (auto simp: sym_lookup_named)
qed

theorem sym_lookup_correct_witness:
  "fst (sym_lookup (Some ''BAR'') False demo_st) = Sym 6 \<and> table_inv (snd (sym_lookup (Some ''BAR'') False demo_st)) \<and>
   sym_find (Some ''BAR'') (snd (sym_lookup (Some ''BAR'') False demo_st)) = Some (Sym 6)"
proof -
  let ?st = "snd (sym_lookup (Some ''BAR'') False demo_st)"
  have s: "fst (sym_lookup (Some ''BAR'') False demo_st) = Sym 6" by code_simp
  then have "sym_lookup (Some ''BAR'') False demo_st = (Sym 6, ?st)" by (simp add: prod_eq_iff)
  from sym_lookup_correct [OF demo_table demo_good this] s show ?thesis by (simp add: builtin_def)
qed

text \<open>C26: the value of a number is clamped to the range of its first visible range property, whose
  bounds have their values: afterwards it is read as the old value if that is in the range, and then it is not even
  written, and as the nearest bound otherwise. For hexadecimal numbers the lower bound must not be negative.\<close>

theorem sym_validate_range_clamps:
  assumes ty: "ty = S_INT \<or> ty = S_HEX" "s_type (tab st s) = ty" "s_type (tab st1 s) = ty"
    and pr: "sym_get_range_prop (sym_calc_value (Suc n)) s st = Some (Some p, st1)" "p_expr p = PRange lo hi"
    and lo: "s_valid (tab st1 lo)" "s_val (tab st1 lo) = VStr x" and hi: "s_valid (tab st1 hi)" "s_val (tab st1 hi) = VStr y"
    and v: "s_val (tab st1 s) = VStr v" and base: "base = (if ty = S_INT then 10 else 16)"
    and a: "a = strtol x (range_base (s_type (tab st1 lo)) base)" and b: "b = strtol y (range_base (s_type (tab st1 hi)) base)"
    and ab: "a \<le> b" "ty = S_HEX \<Longrightarrow> 0 \<le> a"
  shows "\<exists>w. sym_validate_range (sym_calc_value (Suc n)) s st = Some (upd_sym s (\<lambda>z. z\<lparr>s_val := VStr w\<rparr>) st1) \<and>
    strtol w base = max a (min b (strtol v base)) \<and> (a \<le> strtol v base \<and> strtol v base \<le> b \<longrightarrow> w = v)"
proof -
  have "fits ty a" using ty ab by (auto simp: fits_def)
  with range_clamp_value [OF lo hi v, where n = n and a = a and b = b] ty a b base ab(1)
  have "\<exists>w. range_clamp (sym_calc_value (Suc n)) s base lo hi st1 = Some (upd_sym s (\<lambda>z. z\<lparr>s_val := VStr w\<rparr>) st1) \<and>
    strtol w base = max a (min b (strtol v base)) \<and> (a \<le> strtol v base \<and> strtol v base \<le> b \<longrightarrow> w = v)" by simp
  then show ?thesis
    using ty pr unfolding sym_validate_range_def Let_def base by (auto simp del: sym_calc_value.simps)
qed

theorem sym_validate_range_clamps_witness:
  "\<exists>w. sym_validate_range (sym_calc_value (Suc 0)) (Sym 1) demo_done =
      Some (upd_sym (Sym 1) (\<lambda>z. z\<lparr>s_val := VStr w\<rparr>) (set_prop_tri (Sym 1) 1 Yes demo_done)) \<and> strtol w 10 = 1"
proof -
  let ?p = "(prop_alloc P_RANGE (Sym 1))\<lparr>p_expr := PRange (Sym 2) (Sym 3)\<rparr>" and ?st = "set_prop_tri (Sym 1) 1 Yes demo_done"
  have t: "tab ?st = tab demo_done" by (simp add: set_prop_tri_def)
  have "sym_get_range_prop (sym_calc_value (Suc 0)) (Sym 1) demo_done = Some (Some ?p, ?st)"
    by (simp add: sym_get_range_prop_def props_def expr_eval_opt_def demo_done_def demo_syms_def demo_defs)
  moreover have "s_type (tab demo_done (Sym 1)) = S_INT" "s_valid (tab demo_done (Sym 2))" "s_val (tab demo_done (Sym 2)) = VStr ''1''"
    "s_valid (tab demo_done (Sym 3))" "s_val (tab demo_done (Sym 3)) = VStr ''10''" "s_val (tab demo_done (Sym 1)) = VStr []"
    "strtol ''1'' (range_base (s_type (tab demo_done (Sym 2))) 10) = 1" "strtol ''10'' (range_base (s_type (tab demo_done (Sym 3))) 10) = 10"
    "strtol [] 10 = 0" by code_simp+
  ultimately show ?thesis
    using sym_validate_range_clamps [of S_INT demo_done "Sym 1" ?st 0 ?p "Sym 2" "Sym 3" "''1''" "''10''" "[]" 10 1 10] by (simp add: t del: One_nat_def)
qed

text \<open>The first evaluation of a string symbol whose prompt depends on the string itself compares a
  null pointer, whatever the bound of the recursion is.\<close>

theorem string_compares_null:
  assumes "\<not> s_valid (tab st s)" and "s_type (tab st s) = S_STRING" and "s_val (tab st s) = VSym None"
    and "s_props (tab st s) = [p]" and "p_text p = Some x" and "p_visible p = Some (EEqual s c)"
    and "s_valid (tab st c)"
  shows "sym_calc_value n s st = None"
proof (cases n)
  case (Suc m)
  have "c \<noteq> s" using assms(1,7) by auto
  let ?v = "upd_sym s (\<lambda>x. x\<lparr>s_valid := True\<rparr>) st"
  let ?w = "if s_choiceval (tab st s) then ?v else upd_sym s (\<lambda>x. x\<lparr>s_write := False\<rparr>) ?v"
  have w: "s_valid (tab ?w s)" "s_valid (tab ?w c)" "s_type (tab ?w s) = S_STRING" "s_val (tab ?w s) = VSym None"
    "s_props (tab ?w s) = [p]" using assms \<open>c \<noteq> s\<close> by (auto simp: upd_sym_def)
  have "expr_eval (sym_calc_value m) (EEqual s c) ?w = None"
    using w by (cases m) (simp_all add: same_string_def string_value_def)
  then have "sym_calc_visibility (sym_calc_value m) s ?w = None"
    using w(5) assms(5,6) by (simp add: sym_calc_visibility_def props_def expr_eval_opt_def)
  with assms(1,2) Suc show ?thesis by (simp add: sym_value_body_def Let_def)
qed simp

definition null_st :: kst where
  "null_st = demo_st\<lparr>tab := (demo_tab(Sym 4 := (new_symbol (Some ''STR'') False)\<lparr>s_type := S_STRING,
     s_props := [(prompt None)\<lparr>p_visible := Some (EEqual (Sym 4) (Sym 3))\<rparr>]\<rparr>))\<rparr>"

theorem string_compares_null_witness: "sym_calc_value 100 (Sym 4) null_st = None"
  by (rule string_compares_null [of _ _ "(prompt None)\<lparr>p_visible := Some (EEqual (Sym 4) (Sym 3))\<rparr>" _ "Sym 3"])
    (simp_all add: null_st_def demo_defs)

section \<open>Toggling\<close>

lemma set_refused: "s_tri (tab st s) \<noteq> v \<Longrightarrow> \<not> sym_tristate_within_range st s v \<Longrightarrow> sym_set_tristate_value n s v st = Some (False, st)"
  by (simp add: sym_set_tristate_value_def Let_def)

lemma set_accepted:
  "s_tri (tab st s) = v \<or> sym_tristate_within_range st s v \<Longrightarrow> sym_set_tristate_value n s v st = Some (ok, st') \<Longrightarrow> ok"
  by (auto simp: sym_set_tristate_value_def Let_def split: Option.bind_splits)

lemma toggle_accepted:
  assumes "s_tri (tab st s) = next_tri v \<or> sym_tristate_within_range st s (next_tri v)"
  shows "toggle_loop n s old v st = map_option (\<lambda>r. (next_tri v, snd r)) (sym_set_tristate_value n s (next_tri v) st)"
proof (cases "sym_set_tristate_value n s (next_tri v) st")
  case (Some r)
  then obtain ok st' where "r = (ok, st')" by (cases r)
  with Some set_accepted [OF assms] show ?thesis by (subst toggle_loop.simps) auto
qed (subst toggle_loop.simps, simp)

lemma toggle_refused:
  assumes "s_tri (tab st s) \<noteq> next_tri v" and "\<not> sym_tristate_within_range st s (next_tri v)" and "old \<noteq> next_tri v"
  shows "toggle_loop n s old v st = toggle_loop n s old (next_tri v) st"
  using assms by (subst toggle_loop.simps) (simp add: set_refused)

text \<open>Toggling a symbol sets the first of the two values that follow its value in the cycle n, m, y that
  the symbol may have, or its own value when it may have neither; a refused value leaves the table as it was.\<close>

theorem sym_toggle_first_allowed:
  "sym_toggle_tristate_value n s st =
     (let old = s_tri (tab st s);
          v = (if sym_tristate_within_range st s (next_tri old) then next_tri old
               else if sym_tristate_within_range st s (next_tri (next_tri old)) then next_tri (next_tri old)
               else old)
      in map_option (\<lambda>r. (v, snd r)) (sym_set_tristate_value n s v st))"
proof -
  let ?old = "s_tri (tab st s)"
  have cyc: "next_tri (next_tri (next_tri ?old)) = ?old" "next_tri ?old \<noteq> ?old" "next_tri (next_tri ?old) \<noteq> ?old"
    by (cases ?old; simp)+
  consider (1) "sym_tristate_within_range st s (next_tri ?old)"
    | (2) "\<not> sym_tristate_within_range st s (next_tri ?old)" "sym_tristate_within_range st s (next_tri (next_tri ?old))"
    | (3) "\<not> sym_tristate_within_range st s (next_tri ?old)" "\<not> sym_tristate_within_range st s (next_tri (next_tri ?old))" by blast
  then show ?thesis
    by cases (use cyc in \<open>simp_all add: sym_toggle_tristate_value_def toggle_accepted toggle_refused Let_def del: toggle_loop.simps\<close>)
qed

end
