(* ===== verification/Kconf_Finalize.thy ===== *)
theory Kconf_Finalize
  imports Kconf_Menu Kconf_Table Kconf_Dups
begin

text \<open>
  \<open>menu_finalize\<close> of \<open>scripts/kconfig/menu.c\<close>, which the parser calls on the root when the tree is
  complete: it passes the dependencies of a menu on to its children and their properties, makes
  the entries that follow a symbol and depend on it its submenu, gives the children of menus
  without a prompt to the parent, and sets up the values of choices. The expressions that are
  shared in the code are never changed in place afterwards, so that values model them. The recursion has a
  bound, and \<open>None\<close> stands for a null pointer, a loop over pointers that does not end, or a recursion
  deeper than the bound.
\<close>

section \<open>Loops over menus\<close>

text \<open>\<open>for (menu = p; menu; menu = menu->next)\<close>, where the body may change the links.\<close>

partial_function (option) for_menus :: "(nat \<Rightarrow> mst \<Rightarrow> mst option) \<Rightarrow> nat option \<Rightarrow> mst \<Rightarrow> mst option" where
  "for_menus f p st =
     (case p of
        None \<Rightarrow> Some st
      | Some m \<Rightarrow> do { st \<leftarrow> f m st; for_menus f (m_next (menus st m)) st })"

section \<open>Dependencies\<close>

definition elim_dups :: "kenv \<Rightarrow> expr option \<Rightarrow> expr option option" where
  "elim_dups env e = (case e of None \<Rightarrow> Some None | Some e \<Rightarrow> map_option Some (expr_eliminate_dups env e))"

text \<open>A dependency together with the one it inherits.\<close>

definition inherit_dep :: "kenv \<Rightarrow> expr option \<Rightarrow> expr option \<Rightarrow> expr option option" where
  "inherit_dep env base dep = elim_dups env (expr_alloc_and (map_option expr_copy base) (map_option (expr_transform env) dep))"

text \<open>\<open>menu->prompt ? menu->prompt->visible.expr : menu->dep\<close>.\<close>

definition menu_dep :: "mst \<Rightarrow> nat \<Rightarrow> expr option option" where
  "menu_dep st m =
     (case m_prompt (menus st m) of
        Some r \<Rightarrow> map_option p_visible (get_prop (ksyms st) r)
      | None \<Rightarrow> Some (m_dep (menus st m)))"

text \<open>The first child with a symbol gives a choice its type and takes it from it.\<close>

partial_function (option) first_value :: "(nat \<Rightarrow> menu) \<Rightarrow> nat option \<Rightarrow> nat option option" where
  "first_value M p =
     (case p of
        None \<Rightarrow> Some None
      | Some m \<Rightarrow> if m_sym (M m) \<noteq> None then Some (Some m) else first_value M (m_next (M m)))"

definition choice_type :: "nat \<Rightarrow> sym \<Rightarrow> mst \<Rightarrow> mst option" where
  "choice_type parent s st =
     do { v \<leftarrow> first_value (menus st) (m_list (menus st parent));
          case v of
            None \<Rightarrow> Some st
          | Some m \<Rightarrow>
              do { c \<leftarrow> m_sym (menus st m);
                   st \<leftarrow> menu_set_type (s_type (tab (ksyms st) c)) (st\<lparr>current_entry := parent\<rparr>);
                   menu_set_type (s_type (tab (ksyms st) s)) (st\<lparr>current_entry := m\<rparr>) } }"

definition parent_dep :: "nat \<Rightarrow> mst \<Rightarrow> (expr option \<times> mst) option" where
  "parent_dep parent st =
     (case m_sym (menus st parent) of
        Some s \<Rightarrow>
          if s_choice (tab (ksyms st) s)
          then do { st \<leftarrow> choice_type parent s st; Some (Some (ESymbol s), st) }
          else do { d \<leftarrow> menu_dep st parent; Some (d, st) }
      | None \<Rightarrow> do { d \<leftarrow> menu_dep st parent; Some (d, st) })"

text \<open>A property of the symbol \<open>s\<close> of the menu \<open>m\<close>, whose dependency is \<open>base\<close>.\<close>

definition dep_prop :: "nat \<Rightarrow> expr option \<Rightarrow> sym \<Rightarrow> nat \<Rightarrow> kst \<Rightarrow> kst option" where
  "dep_prop m base s i k =
     (let p = s_props (tab k s) ! i in
      if p_menu p \<noteq> Some m then Some k
      else do { d \<leftarrow> inherit_dep (env_of k) base (p_visible p);
                let d = (if s_type (tab k s) \<noteq> S_TRISTATE then map_option (expr_trans_bool (env_of k)) d else d);
                let k = upd_sym s (\<lambda>x. x\<lparr>s_props := (s_props x)[i := p\<lparr>p_visible := d\<rparr>]\<rparr>) k;
                if p_type p \<noteq> P_SELECT then Some k
                else do { es \<leftarrow> prop_get_symbol p;
                          Some (upd_sym es (\<lambda>x. x\<lparr>s_rev_dep :=
                            expr_alloc_or (s_rev_dep x) (expr_alloc_and (Some (ESymbol s)) (map_option expr_copy d))\<rparr>) k) } })"

fun dep_props :: "nat \<Rightarrow> expr option \<Rightarrow> sym \<Rightarrow> nat list \<Rightarrow> kst \<Rightarrow> kst option" where
  "dep_props m base s [] k = Some k"
| "dep_props m base s (i # is) k = do { k \<leftarrow> dep_prop m base s i k; dep_props m base s is k }"

text \<open>The prompt of a menu without a symbol is no \<open>select\<close>, for which there would be no symbol.\<close>

definition finalize_dep :: "expr option \<Rightarrow> nat \<Rightarrow> mst \<Rightarrow> mst option" where
  "finalize_dep pdep m st =
     do { base \<leftarrow> inherit_dep (env_of (ksyms st)) pdep (m_dep (menus st m));
          let st = upd_menu m (\<lambda>x. x\<lparr>m_dep := base\<rparr>) st;
          case m_sym (menus st m) of
            Some s \<Rightarrow>
              do { k \<leftarrow> dep_props m base s [0..<length (s_props (tab (ksyms st) s))] (ksyms st);
                   Some (st\<lparr>ksyms := k\<rparr>) }
          | None \<Rightarrow>
              (case m_prompt (menus st m) of
                 None \<Rightarrow> Some st
               | Some (SymProp _ _) \<Rightarrow> None
               | Some (MenuProp p) \<Rightarrow>
                   if p_menu p \<noteq> Some m then Some st
                   else if p_type p = P_SELECT then None
                   else do { d \<leftarrow> inherit_dep (env_of (ksyms st)) base (p_visible p);
                             Some (upd_menu m (\<lambda>x. x\<lparr>m_prompt := Some (MenuProp (p\<lparr>p_visible := d\<rparr>))\<rparr>) st) }) }"

section \<open>Submenus\<close>

text \<open>\<open>expr_trans_compare (e, E_UNEQUAL, &symbol_no)\<close>, transformed.\<close>

definition not_no :: "kenv \<Rightarrow> expr option \<Rightarrow> expr option option" where
  "not_no env e =
     elim_dups env (map_option (expr_transform env)
       (case e of
          None \<Rightarrow> Some (trans_compare_null E_UNEQUAL symbol_no)
        | Some e \<Rightarrow> expr_trans_compare e E_UNEQUAL symbol_no))"

definition elim_common :: "expr option \<Rightarrow> expr option \<Rightarrow> expr option \<times> expr option" where
  "elim_common e1 e2 =
     (case (e1, e2) of
        (Some a, Some b) \<Rightarrow> (case expr_eliminate_eq a b of (a, b, _) \<Rightarrow> (Some a, Some b))
      | _ \<Rightarrow> (e1, e2))"

text \<open>Whether an entry with the dependency \<open>dep\<close> belongs below the symbol \<open>s\<close>, whose own condition is
  \<open>base\<close>.\<close>

definition belongs_below :: "kenv \<Rightarrow> sym \<Rightarrow> expr option \<Rightarrow> expr option \<Rightarrow> bool option" where
  "belongs_below env s base dep =
     (case dep of
        None \<Rightarrow> Some False
      | Some d \<Rightarrow>
          if \<not> expr_contains_symbol d s then Some False
          else if expr_depends_symbol d s then Some True
          else do { d \<leftarrow> not_no env (Some d);
                    Some (expr_is_yes (snd (elim_common d (map_option expr_copy base)))) })"

partial_function (option) submenu_loop ::
  "(nat \<Rightarrow> mst \<Rightarrow> mst option) \<Rightarrow> nat \<Rightarrow> sym \<Rightarrow> expr option \<Rightarrow> nat option \<Rightarrow> nat option \<Rightarrow> mst \<Rightarrow> (nat option \<times> mst) option" where
  "submenu_loop fin parent s base last_menu p st =
     (case p of
        None \<Rightarrow> Some (last_menu, st)
      | Some m \<Rightarrow>
          do { dep \<leftarrow> menu_dep st m;
               b \<leftarrow> belongs_below (env_of (ksyms st)) s base dep;
               if \<not> b then Some (last_menu, st)
               else do { st \<leftarrow> fin m st;
                         let st = upd_menu m (\<lambda>x. x\<lparr>m_parent := Some parent\<rparr>) st;
                         submenu_loop fin parent s base (Some m) (m_next (menus st m)) st } })"

text \<open>The entries up to \<open>l\<close> become the list of \<open>parent\<close>.\<close>

definition relink :: "nat \<Rightarrow> nat \<Rightarrow> mst \<Rightarrow> mst" where
  "relink parent l st =
     (let st = upd_menu parent (\<lambda>x. x\<lparr>m_list := m_next x\<rparr>) st;
          st = upd_menu parent (\<lambda>x. x\<lparr>m_next := m_next (menus st l)\<rparr>) st in
      upd_menu l (\<lambda>x. x\<lparr>m_next := None\<rparr>) st)"

definition make_submenu :: "(nat \<Rightarrow> mst \<Rightarrow> mst option) \<Rightarrow> nat \<Rightarrow> sym \<Rightarrow> mst \<Rightarrow> mst option" where
  "make_submenu fin parent s st =
     do { d \<leftarrow> (case m_prompt (menus st parent) of
                 None \<Rightarrow> Some None
               | Some r \<Rightarrow> map_option p_visible (get_prop (ksyms st) r));
          base \<leftarrow> not_no (env_of (ksyms st)) d;
          (l, st) \<leftarrow> submenu_loop fin parent s base None (m_next (menus st parent)) st;
          Some (case l of None \<Rightarrow> st | Some l \<Rightarrow> relink parent l st) }"

section \<open>Choices and menus without a prompt\<close>

fun value_warnings :: "nat \<Rightarrow> property list \<Rightarrow> menu_warning list" where
  "value_warnings m [] = []"
| "value_warnings m (p # ps) =
     (if p_type p = P_PROMPT \<and> p_menu p \<noteq> Some m then [ChoicePrompts] else []) @
     (if p_type p = P_DEFAULT then [ChoiceDefault] else []) @ value_warnings m ps"

text \<open>A new value at the end of the values of the choice property.\<close>

fun add_value :: "sym \<Rightarrow> property list \<Rightarrow> property list option" where
  "add_value v [] = None"
| "add_value v (p # ps) =
     (if p_type p = P_CHOICE
      then (case p_expr p of
              PNone \<Rightarrow> Some (p\<lparr>p_expr := PChoice [v]\<rparr> # ps)
            | PChoice vs \<Rightarrow> Some (p\<lparr>p_expr := PChoice (vs @ [v])\<rparr> # ps)
            | _ \<Rightarrow> None)
      else map_option (Cons p) (add_value v ps))"

definition choice_value :: "sym \<Rightarrow> nat \<Rightarrow> sym \<Rightarrow> mst \<Rightarrow> mst option" where
  "choice_value s m v st =
     do { let st = upd_ksyms (upd_sym v (\<lambda>x. x\<lparr>s_choiceval := True\<rparr>)) st;
          let st = (if m_prompt (menus st m) = None then menu_warn (ChoiceNoPrompt (Some v)) st else st);
          let st = st\<lparr>warnings := warnings st @ value_warnings m (s_props (tab (ksyms st) v)), current_entry := m\<rparr>;
          st \<leftarrow> menu_set_type (s_type (tab (ksyms st) s)) st;
          st \<leftarrow> menu_add_symbol P_CHOICE s None st;
          ps \<leftarrow> add_value v (s_props (tab (ksyms st) s));
          Some (upd_ksyms (upd_sym s (\<lambda>x. x\<lparr>s_props := ps\<rparr>)) st) }"

definition no_text :: "mst \<Rightarrow> nat \<Rightarrow> bool option" where
  "no_text st m =
     (case m_prompt (menus st m) of
        None \<Rightarrow> Some True
      | Some r \<Rightarrow> map_option (\<lambda>p. p_text p = None) (get_prop (ksyms st) r))"

text \<open>The menus from \<open>l\<close> on get a new parent; the last of them is returned.\<close>

partial_function (option) adopt :: "nat \<Rightarrow> nat \<Rightarrow> mst \<Rightarrow> (nat \<times> mst) option" where
  "adopt parent l st =
     (let st = upd_menu l (\<lambda>x. x\<lparr>m_parent := Some parent\<rparr>) st in
      case m_next (menus st l) of None \<Rightarrow> Some (l, st) | Some n \<Rightarrow> adopt parent n st)"

definition flatten :: "nat \<Rightarrow> nat \<Rightarrow> mst \<Rightarrow> mst option" where
  "flatten parent m st =
     (case m_list (menus st m) of
        None \<Rightarrow> Some st
      | Some c \<Rightarrow>
          do { nt \<leftarrow> no_text st m;
               if \<not> nt then Some st
               else do { (l, st) \<leftarrow> adopt parent c st;
                         let st = upd_menu l (\<lambda>x. x\<lparr>m_next := m_next (menus st m)\<rparr>) st;
                         let st = upd_menu m (\<lambda>x. x\<lparr>m_next := m_list x\<rparr>) st;
                         Some (upd_menu m (\<lambda>x. x\<lparr>m_list := None\<rparr>) st) } })"

definition finalize_child :: "nat \<Rightarrow> nat \<Rightarrow> mst \<Rightarrow> mst option" where
  "finalize_child parent m st =
     do { st \<leftarrow> (case (m_sym (menus st parent), m_sym (menus st m)) of
                   (Some s, Some v) \<Rightarrow> if s_choice (tab (ksyms st) s) then choice_value s m v st else Some st
                 | _ \<Rightarrow> Some st);
          flatten parent m st }"

section \<open>The end\<close>

definition check_symbol :: "nat \<Rightarrow> sym \<Rightarrow> mst \<Rightarrow> mst option" where
  "check_symbol parent s st =
     (if warned st s then Some st
      else do { let st = (if s_type (tab (ksyms st) s) = S_UNKNOWN then menu_warn (NoType s) st else st);
                let st = (if s_choice (tab (ksyms st) s) \<and> m_prompt (menus st parent) = None
                          then menu_warn (ChoiceNoPrompt None) st else st);
                st \<leftarrow> sym_check_prop s st;
                Some (st\<lparr>warned := (warned st)(s := True)\<rparr>) })"

definition finish_menu :: "nat \<Rightarrow> mst \<Rightarrow> mst option" where
  "finish_menu parent st =
     (case m_sym (menus st parent) of
        None \<Rightarrow> Some st
      | Some s \<Rightarrow>
          do { st \<leftarrow> check_symbol parent s st;
               if s_optional (tab (ksyms st) s) then Some st
               else case m_prompt (menus st parent) of
                 None \<Rightarrow> Some st
               | Some r \<Rightarrow>
                   do { p \<leftarrow> get_prop (ksyms st) r;
                        Some (upd_ksyms (upd_sym s (\<lambda>x. x\<lparr>s_rev_dep :=
                          expr_alloc_or (s_rev_dep x) (expr_alloc_and (p_visible p) (Some (ESymbol symbol_mod)))\<rparr>)) st) } })"

text \<open>The function itself, \<open>fin\<close> being the recursive call.\<close>

definition finalize_body :: "(nat \<Rightarrow> mst \<Rightarrow> mst option) \<Rightarrow> nat \<Rightarrow> mst \<Rightarrow> mst option" where
  "finalize_body fin parent st =
     do { st \<leftarrow> (if m_list (menus st parent) \<noteq> None
                then do { (d, st) \<leftarrow> parent_dep parent st;
                          st \<leftarrow> for_menus (finalize_dep d) (m_list (menus st parent)) st;
                          for_menus fin (m_list (menus st parent)) st }
                else case m_sym (menus st parent) of
                  None \<Rightarrow> Some st
                | Some s \<Rightarrow> make_submenu fin parent s st);
          st \<leftarrow> for_menus (finalize_child parent) (m_list (menus st parent)) st;
          finish_menu parent st }"

primrec menu_finalize :: "nat \<Rightarrow> nat \<Rightarrow> mst \<Rightarrow> mst option" where
  "menu_finalize 0 parent st = None"
| "menu_finalize (Suc n) parent st = finalize_body (menu_finalize n) parent st"

end
