(* ===== verification/Kconf_Finalize_Props.thy ===== *)
theory Kconf_Finalize_Props
  imports Kconf_Finalize Kconf_Menu_Tree
begin

text \<open>
  \<open>menu_finalize\<close> returns and keeps the order of the menus: its rewriting of dependencies ends
  although the symbols have no values yet, none of its steps uses a null pointer when the parser
  has built the menus and properties as it should, and all its changes of the links between menus keep a tree with the
  same menus in the same order.
\<close>

section \<open>Rewriting without values\<close>

text \<open>The rewritings read the types of symbols and which of them are constants.\<close>

definition same_reads :: "kenv \<Rightarrow> kenv \<Rightarrow> bool" where
  "same_reads env env' \<longleftrightarrow> k_type env = k_type env' \<and> k_const env = k_const env'"

lemma transform_reads: "same_reads env env' \<Longrightarrow> expr_transform env' e = expr_transform env e"
proof (induction env e rule: expr_transform.induct)
  case (6 env l)
  then show ?case by (auto split: expr.splits)
qed (simp_all add: same_reads_def)

lemma join_reads: "same_reads env env' \<Longrightarrow> expr_join env' = expr_join env"
proof -
  assume "same_reads env env'"
  then have t: "k_type env' = k_type env" and c: "k_const env' = k_const env" by (simp_all add: same_reads_def)
  show ?thesis by (intro ext) (unfold expr_join_def expr_join_or_def expr_join_and_def equal_unequal_def t c, rule refl)
qed

lemma contradicts_reads: "same_reads env env' \<Longrightarrow> contradicts env' = contradicts env"
  by (intro ext) (simp add: contradicts_def transform_reads del: expr_transform.simps)

lemma dups1_reads: "same_reads env env' \<Longrightarrow> expr_eliminate_dups1 d env' = expr_eliminate_dups1 d env"
proof (induction d)
  case 0
  then show ?case by (intro ext) simp
next
  case (Suc d)
  have "dups1_pair nest env' = dups1_pair nest env" for nest
    unfolding dups1_pair_def join_reads [OF Suc.prems] ..
  then show ?case using Suc by (intro ext) simp
qed

lemma dups2_reads: "same_reads env env' \<Longrightarrow> expr_eliminate_dups2 d env' = expr_eliminate_dups2 d env"
proof (induction d)
  case 0
  then show ?case by (intro ext) simp
next
  case (Suc d)
  have "dups2_pair nest env' = dups2_pair nest env" for nest
    unfolding dups2_pair_def contradicts_reads [OF Suc.prems] ..
  then show ?case using Suc by (intro ext) simp
qed

lemma dups_reads: "expr_eliminate_dups env e = Some y \<Longrightarrow> same_reads env env' \<Longrightarrow> expr_eliminate_dups env' e = Some y"
proof (induction env e y rule: expr_eliminate_dups.raw_induct [rotated, consumes 1])
  case (1 f env e y)
  show ?case
    using 1(2,3) 1(1) dups1_reads [OF 1(3)] dups2_reads [OF 1(3)]
    by (subst expr_eliminate_dups.simps) (auto split: if_splits prod.splits Option.bind_splits)
qed

text \<open>Constants have no type, so that values can be found for which the loop is known to end.\<close>

definition consts_typed :: "kst \<Rightarrow> bool" where
  "consts_typed k \<longleftrightarrow> (\<forall>s. s_const (tab k s) \<longrightarrow> s_type (tab k s) = S_UNKNOWN) \<and>
     s_const (tab k symbol_yes) \<and> s_const (tab k symbol_mod) \<and> s_const (tab k symbol_no)"

lemma some_values:
  assumes "consts_typed k"
  obtains env where "kenv_ok env" and "same_reads env (env_of k)"
proof -
  let ?v = "\<lambda>s. case s of symbol_yes \<Rightarrow> ''y'' | symbol_mod \<Rightarrow> ''m'' | symbol_no \<Rightarrow> ''n'' | Sym i \<Rightarrow> replicate (i + 2) (CHR ''x'')"
  let ?t = "\<lambda>s. case s of symbol_yes \<Rightarrow> Yes | symbol_mod \<Rightarrow> Mod | _ \<Rightarrow> No"
  let ?env = "(env_of k)\<lparr>k_tri := ?t, k_val := ?v\<rparr>"
  have inj: "s = t" if "?v s = ?v t" for s t
    using that by (cases s; cases t) (auto simp: Cons_replicate_eq eq_commute [of "[_]"])
  have "sym_get_string_value ?env s = ?v s" if "s_const (tab k s)" for s
    using that assms by (cases s) (simp_all add: consts_typed_def env_of_def Kconf_Expr.sym_get_string_value_def del: replicate_add)
  with inj have u: "s = t" if "s_const (tab k s)" "s_const (tab k t)" "sym_get_string_value ?env s = sym_get_string_value ?env t" for s t
    using that by metis
  have b: "?t s \<noteq> Mod" if "s_type (tab k s) = S_BOOLEAN" for s
    using that assms by (cases s) (auto simp: consts_typed_def)
  have "kenv_ok ?env" using assms u b by (auto simp: kenv_ok_def consts_typed_def env_of_def)
  moreover have "same_reads ?env (env_of k)" by (simp add: same_reads_def)
  ultimately show thesis by (rule that)
qed

lemma elim_dups_ends: "consts_typed k \<Longrightarrow> \<exists>d. elim_dups (env_of k) e = Some d"
proof -
  assume "consts_typed k"
  then obtain env where env: "kenv_ok env" "same_reads env (env_of k)" by (rule some_values)
  have "\<exists>d. expr_eliminate_dups (env_of k) x = Some d" for x
    using eliminate_dups_ends [OF env(1), of x] dups_reads [OF _ env(2)] by blast
  then show ?thesis by (cases e) (auto simp: elim_dups_def)
qed

lemma inherit_ends: "consts_typed k \<Longrightarrow> \<exists>d. inherit_dep (env_of k) base dep = Some d"
  unfolding inherit_dep_def by (rule elim_dups_ends)

lemma not_no_ends: "consts_typed k \<Longrightarrow> \<exists>d. not_no (env_of k) e = Some d"
  unfolding not_no_def by (rule elim_dups_ends)

lemma belongs_ends: "consts_typed k \<Longrightarrow> \<exists>b. belongs_below (env_of k) s base dep = Some b"
proof (cases dep)
  case (Some d)
  assume "consts_typed k"
  from not_no_ends [OF this, of "Some d"] Some show ?thesis by (auto simp: belongs_below_def)
qed (auto simp: belongs_below_def)

section \<open>What the parser promises\<close>

definition prop_wf :: "(sym \<Rightarrow> symbol) \<Rightarrow> property \<Rightarrow> bool" where
  "prop_wf T p \<longleftrightarrow>
     (p_type p = P_SELECT \<longrightarrow> prop_get_symbol p \<noteq> None) \<and> (p_type p = P_DEFAULT \<longrightarrow> (\<exists>e. p_expr p = PExpr e)) \<and>
     (p_type p = P_RANGE \<longrightarrow> (\<exists>lo hi. p_expr p = PRange lo hi \<and> s_name (T lo) \<noteq> None \<and> s_name (T hi) \<noteq> None))"

text \<open>A choice has a property for its values.\<close>

definition choice_wf :: "symbol \<Rightarrow> bool" where
  "choice_wf x \<longleftrightarrow> (s_choice x \<longrightarrow> add_value symbol_yes (s_props x) \<noteq> None)"

text \<open>The marks of the dependency check are not set, and only finitely many symbols have dependencies.\<close>

definition unmarked :: "symbol \<Rightarrow> bool" where
  "unmarked x \<longleftrightarrow> \<not> s_check x \<and> \<not> s_checked x"

definition bound_syms :: "kst \<Rightarrow> sym set" where
  "bound_syms k = {s. s_props (tab k s) \<noteq> [] \<or> s_rev_dep (tab k s) \<noteq> None}"

definition tab_wf :: "kst \<Rightarrow> bool" where
  "tab_wf k \<longleftrightarrow> consts_typed k \<and> finite (bound_syms k) \<and>
     (\<forall>s. list_all (prop_wf (tab k)) (s_props (tab k s)) \<and> choice_wf (tab k s) \<and> unmarked (tab k s))"

definition menu_wf :: "kst \<Rightarrow> menu \<Rightarrow> bool" where
  "menu_wf k x \<longleftrightarrow>
     (\<forall>s. m_sym x = Some s \<longrightarrow> \<not> s_const (tab k s)) \<and>
     (case m_prompt x of
        None \<Rightarrow> True
      | Some (SymProp s i) \<Rightarrow> m_sym x = Some s \<and> i < length (s_props (tab k s))
      | Some (MenuProp p) \<Rightarrow> m_sym x = None \<and> p_type p \<noteq> P_SELECT)"

definition fin_ok :: "mst \<Rightarrow> bool" where
  "fin_ok st \<longleftrightarrow> tab_wf (ksyms st) \<and> (\<forall>m. menu_wf (ksyms st) (menus st m))"

text \<open>Tables only grow.\<close>

definition grows :: "kst \<Rightarrow> kst \<Rightarrow> bool" where
  "grows k k' \<longleftrightarrow> tab_wf k' \<and> (\<forall>s. s_name (tab k' s) = s_name (tab k s) \<and> s_const (tab k' s) = s_const (tab k s) \<and>
     s_choice (tab k' s) = s_choice (tab k s) \<and> length (s_props (tab k s)) \<le> length (s_props (tab k' s)))"

lemma grows_refl: "tab_wf k \<Longrightarrow> grows k k"
  by (simp add: grows_def)

lemma grows_trans: "grows k k1 \<Longrightarrow> grows k1 k2 \<Longrightarrow> grows k k2"
  unfolding grows_def by (metis le_trans)

lemma prop_wf_cong: "(\<And>s. s_name (T' s) = s_name (T s)) \<Longrightarrow> prop_wf T' p = prop_wf T p"
  by (simp add: prop_wf_def)

lemma upd_grows:
  assumes "tab_wf k" and "s_name (f (tab k s)) = s_name (tab k s)" "s_const (f (tab k s)) = s_const (tab k s)"
    "s_choice (f (tab k s)) = s_choice (tab k s)" "length (s_props (tab k s)) \<le> length (s_props (f (tab k s)))"
    and "s_const (tab k s) \<Longrightarrow> s_type (f (tab k s)) = s_type (tab k s)"
    and "list_all (prop_wf (tab k)) (s_props (f (tab k s)))" and "choice_wf (f (tab k s))"
    and "unmarked (f (tab k s)) = unmarked (tab k s)"
  shows "grows k (upd_sym s f k)"
proof -
  have "bound_syms (upd_sym s f k) \<subseteq> insert s (bound_syms k)" by (auto simp: bound_syms_def upd_sym_def)
  then have fin: "finite (bound_syms (upd_sym s f k))" using assms(1) by (auto simp: tab_wf_def intro: finite_subset)
  have "s_name (tab (upd_sym s f k) t) = s_name (tab k t)" for t using assms(2) by (simp add: upd_sym_def)
  then have w: "prop_wf (tab (upd_sym s f k)) = prop_wf (tab k)" by (intro ext prop_wf_cong)
  have "tab_wf (upd_sym s f k)"
    unfolding tab_wf_def w using assms fin by (auto simp: tab_wf_def consts_typed_def upd_sym_def)
  with assms show ?thesis by (simp add: grows_def upd_sym_def)
qed

lemma upd_flags:
  assumes "tab_wf k" and "s_name (f (tab k s)) = s_name (tab k s)" "s_const (f (tab k s)) = s_const (tab k s)"
    "s_choice (f (tab k s)) = s_choice (tab k s)" "s_props (f (tab k s)) = s_props (tab k s)"
    and "s_const (tab k s) \<Longrightarrow> s_type (f (tab k s)) = s_type (tab k s)"
    and "unmarked (f (tab k s)) = unmarked (tab k s)"
  shows "grows k (upd_sym s f k)"
  using assms by (intro upd_grows) (auto simp: tab_wf_def choice_wf_def)

lemma menu_wf_grows: "menu_wf k x \<Longrightarrow> grows k k' \<Longrightarrow> menu_wf k' x"
  unfolding menu_wf_def grows_def by (auto split: option.splits prop_ref.splits intro: less_le_trans)

section \<open>What a step changes\<close>

text \<open>The links of the menus in \<open>X\<close> may change; no symbol gets another name.\<close>

definition frame :: "nat set \<Rightarrow> mst \<Rightarrow> mst \<Rightarrow> bool" where
  "frame X st st' \<longleftrightarrow> fin_ok st' \<and> m_used st' = m_used st \<and> (\<forall>m. m_sym (menus st' m) = m_sym (menus st m)) \<and>
     (\<forall>s. s_name (tab (ksyms st') s) = s_name (tab (ksyms st) s)) \<and> (\<forall>m. m \<notin> X \<longrightarrow> same_links (menus st' m) (menus st m))"

lemma frame_refl: "fin_ok st \<Longrightarrow> frame X st st"
  by (simp add: frame_def)

lemma same_links_trans: "same_links x y \<Longrightarrow> same_links y z \<Longrightarrow> same_links x z"
  by (simp add: same_links_def)

lemma frame_trans: "frame X st st1 \<Longrightarrow> frame Y st1 st2 \<Longrightarrow> X \<union> Y \<subseteq> Z \<Longrightarrow> frame Z st st2"
proof -
  assume a: "frame X st st1" "frame Y st1 st2" "X \<union> Y \<subseteq> Z"
  have "same_links (menus st2 m) (menus st m)" if "m \<notin> Z" for m
    by (rule same_links_trans [of _ "menus st1 m"]) (use a that in \<open>auto simp: frame_def\<close>)
  with a show ?thesis by (simp add: frame_def)
qed

lemma frame_step: "frame X st st1 \<Longrightarrow> frame X st1 st2 \<Longrightarrow> frame X st st2"
  using frame_trans [of X st st1 X st2 X] by simp

lemma frame_ok: "frame X st st' \<Longrightarrow> fin_ok st'"
  by (simp add: frame_def)

lemma frame_ksyms:
  assumes "fin_ok st" and "grows (ksyms st) (ksyms st')" and "menus st' = menus st" and "m_used st' = m_used st"
  shows "frame X st st'"
  using assms menu_wf_grows [OF _ assms(2)] by (auto simp: frame_def fin_ok_def grows_def)

lemma frame_menu:
  assumes "fin_ok st" and "m_sym (f (menus st m)) = m_sym (menus st m)" and "menu_wf (ksyms st) (f (menus st m))"
    and "m \<in> X \<or> same_links (f (menus st m)) (menus st m)"
  shows "frame X st (upd_menu m f st)"
  using assms by (auto simp: frame_def fin_ok_def upd_menu_def)

text \<open>Only the prompt and the symbol of a menu count.\<close>

lemma menu_wf_cong: "menu_wf k x \<Longrightarrow> m_sym y = m_sym x \<Longrightarrow> m_prompt y = m_prompt x \<Longrightarrow> menu_wf k y"
  unfolding menu_wf_def by simp (simp cong: option.case_cong prop_ref.case_cong)

lemma frame_link:
  assumes "fin_ok st" and "\<And>x. m_sym (f x) = m_sym x" "\<And>x. m_prompt (f x) = m_prompt x" and "m \<in> X"
  shows "frame X st (upd_menu m f st)"
proof (rule frame_menu [OF assms(1)])
  show "menu_wf (ksyms st) (f (menus st m))"
    by (rule menu_wf_cong [of _ "menus st m"]) (use assms in \<open>simp_all add: fin_ok_def\<close>)
qed (use assms in simp_all)

lemma frame_fseg: "frame X st st' \<Longrightarrow> fseg (menus st) par p ts q \<Longrightarrow> X \<inter> set (preorders ts) = {} \<Longrightarrow> fseg (menus st') par p ts q"
  by (rule fseg_cong) (auto simp: frame_def)

lemma frame_links: "frame X st st' \<Longrightarrow> m \<notin> X \<Longrightarrow> m_next (menus st' m) = m_next (menus st m) \<and>
    m_list (menus st' m) = m_list (menus st m) \<and> m_parent (menus st' m) = m_parent (menus st m)"
  by (simp add: frame_def same_links_def)

section \<open>The steps that keep the links\<close>

lemma prompt_ok: "fin_ok st \<Longrightarrow> m_prompt (menus st m) = Some r \<Longrightarrow> \<exists>p. get_prop (ksyms st) r = Some p"
proof -
  assume "fin_ok st" "m_prompt (menus st m) = Some r"
  then have "menu_wf (ksyms st) (menus st m)" by (simp add: fin_ok_def)
  with \<open>m_prompt (menus st m) = Some r\<close> show ?thesis by (cases r) (auto simp: menu_wf_def get_prop_def)
qed

lemma menu_dep_ok: "fin_ok st \<Longrightarrow> \<exists>d. menu_dep st m = Some d"
  using prompt_ok [of st m] by (cases "m_prompt (menus st m)") (auto simp: menu_dep_def)

lemma no_text_ok: "fin_ok st \<Longrightarrow> \<exists>b. no_text st m = Some b"
  using prompt_ok [of st m] by (cases "m_prompt (menus st m)") (auto simp: no_text_def)

lemma menu_sym_var: "fin_ok st \<Longrightarrow> m_sym (menus st m) = Some s \<Longrightarrow> \<not> s_const (tab (ksyms st) s)"
  by (simp add: fin_ok_def menu_wf_def)

lemma set_type_frame:
  assumes "fin_ok st" and "m_sym (menus st (current_entry st)) = Some s"
  obtains st' where "menu_set_type ty st = Some st'" and "\<And>X. frame X st st'" and "current_entry st' = current_entry st"
    and "grows (ksyms st) (ksyms st')"
proof -
  let ?st = "if s_type (tab (ksyms st) s) = ty then st
    else if s_type (tab (ksyms st) s) = S_UNKNOWN then upd_ksyms (upd_sym s (\<lambda>x. x\<lparr>s_type := ty\<rparr>)) st
    else menu_warn (TypeRedefined (Some s) (s_type (tab (ksyms st) s)) ty) st"
  have w: "tab_wf (ksyms st)" using assms(1) by (simp add: fin_ok_def)
  have "grows (ksyms st) (upd_sym s (\<lambda>x. x\<lparr>s_type := ty\<rparr>) (ksyms st))"
    by (rule upd_flags [OF w]) (use menu_sym_var [OF assms] in \<open>simp_all add: unmarked_def\<close>)
  then have g: "grows (ksyms st) (ksyms ?st)" using grows_refl [OF w] by (simp add: upd_ksyms_def menu_warn_def)
  have "menu_set_type ty st = Some ?st" using assms(2) by (simp add: menu_set_type_def Let_def)
  moreover have "frame X st ?st" for X by (rule frame_ksyms [OF assms(1) g]) (simp_all add: upd_ksyms_def menu_warn_def)
  moreover have "current_entry ?st = current_entry st" by (simp add: upd_ksyms_def menu_warn_def)
  ultimately show thesis using that g by blast
qed

lemma first_value_ok: "fseg M par p ts None \<Longrightarrow> \<exists>v. first_value M p = Some v \<and> (\<forall>m. v = Some m \<longrightarrow> m_sym (M m) \<noteq> None)"
proof (induction ts arbitrary: p)
  case Nil
  then show ?case by (subst first_value.simps) simp
next
  case (Cons t ts)
  obtain m cs where t: "t = MNode m cs" by (cases t)
  with Cons show ?case by (subst first_value.simps) auto
qed

lemma entry_frame: "fin_ok st \<Longrightarrow> fin_ok (st\<lparr>current_entry := m\<rparr>)" "frame X (st\<lparr>current_entry := m\<rparr>) st' \<longleftrightarrow> frame X st st'"
  by (simp_all add: fin_ok_def frame_def)

lemma choice_type_frame:
  assumes "fin_ok st" and "m_sym (menus st m) = Some s" and "fseg (menus st) m (m_list (menus st m)) ts None"
  shows "\<exists>st'. choice_type m s st = Some st' \<and> frame X st st'"
proof -
  from first_value_ok [OF assms(3)] obtain v where
    v: "first_value (menus st) (m_list (menus st m)) = Some v" "\<And>c. v = Some c \<Longrightarrow> m_sym (menus st c) \<noteq> None" by auto
  show ?thesis
  proof (cases v)
    case None
    with v(1) assms(1) show ?thesis by (auto simp: choice_type_def intro: frame_refl)
  next
    case (Some c)
    with v(2) obtain cs where cs: "m_sym (menus st c) = Some cs" by auto
    let ?st = "st\<lparr>current_entry := m\<rparr>"
    obtain st1 where 1: "menu_set_type (s_type (tab (ksyms st) cs)) ?st = Some st1" "\<And>X. frame X ?st st1"
      by (rule set_type_frame [of ?st s]) (use assms entry_frame in auto)
    let ?st1 = "st1\<lparr>current_entry := c\<rparr>"
    have ok: "fin_ok ?st1" using frame_ok [OF 1(2)] entry_frame by simp
    have sy: "m_sym (menus ?st1 c) = Some cs" using 1(2) [of "{}"] cs by (simp add: frame_def)
    obtain st2 where 2: "menu_set_type (s_type (tab (ksyms st1) s)) ?st1 = Some st2" "\<And>X. frame X ?st1 st2"
      by (rule set_type_frame [of ?st1 cs]) (use ok sy in auto)
    have "frame X st st2" using frame_trans [of X st st1 X st2 X] 1(2) 2(2) by (simp add: entry_frame)
    with v(1) Some cs 1(1) 2(1) show ?thesis by (simp add: choice_type_def)
  qed
qed

lemma parent_dep_frame:
  assumes "fin_ok st" and "fseg (menus st) m (m_list (menus st m)) ts None"
  shows "\<exists>d st'. parent_dep m st = Some (d, st') \<and> frame X st st'"
proof -
  from menu_dep_ok [OF assms(1), of m] obtain d where d: "menu_dep st m = Some d" by blast
  show ?thesis
  proof (cases "m_sym (menus st m)")
    case None
    with d assms(1) show ?thesis by (simp add: parent_dep_def frame_refl)
  next
    case (Some s)
    from choice_type_frame [OF assms(1) Some assms(2), of X] obtain st' where "choice_type m s st = Some st'" "frame X st st'" by blast
    with d Some assms(1) show ?thesis by (simp add: parent_dep_def frame_refl)
  qed
qed

text \<open>Dependencies of properties.\<close>

lemma props_update:
  assumes "i < length ps" and "p_type q = p_type (ps ! i)" and "p_expr q = p_expr (ps ! i)"
  shows "add_value v (ps[i := q]) = None \<longleftrightarrow> add_value v ps = None"
    and "list_all (prop_wf T) ps \<Longrightarrow> list_all (prop_wf T) (ps[i := q])"
proof -
  show "add_value v (ps[i := q]) = None \<longleftrightarrow> add_value v ps = None"
    using assms
  proof (induction ps arbitrary: i)
    case (Cons p ps)
    then show ?case by (cases i) (auto split: pexpr.splits)
  qed simp
  assume "list_all (prop_wf T) ps"
  moreover have "prop_wf T q = prop_wf T (ps ! i)" using assms(2,3) by (simp add: prop_wf_def prop_get_symbol_def)
  ultimately show "list_all (prop_wf T) (ps[i := q])"
    using assms(1) by (auto simp: list_all_iff dest: set_update_subset_insert [THEN subsetD])
qed

lemma dep_prop_ok:
  assumes "tab_wf k" and "i < length (s_props (tab k s))"
  shows "\<exists>k'. dep_prop m base s i k = Some k' \<and> grows k k'"
proof -
  let ?p = "s_props (tab k s) ! i"
  have ty: "consts_typed k" and ps: "list_all (prop_wf (tab k)) (s_props (tab k s))" "choice_wf (tab k s)"
    using assms(1) by (simp_all add: tab_wf_def)
  from inherit_ends [OF ty] obtain d where d: "inherit_dep (env_of k) base (p_visible ?p) = Some d" by blast
  define d' where "d' = (if s_type (tab k s) \<noteq> S_TRISTATE then map_option (expr_trans_bool (env_of k)) d else d)"
  define k1 where "k1 = upd_sym s (\<lambda>x. x\<lparr>s_props := (s_props x)[i := ?p\<lparr>p_visible := d'\<rparr>]\<rparr>) k"
  have g: "grows k k1" unfolding k1_def
    by (rule upd_grows [OF assms(1)])
      (use ps assms(2) props_update [of i "s_props (tab k s)" "?p\<lparr>p_visible := d'\<rparr>"] in \<open>simp_all add: choice_wf_def unmarked_def\<close>)
  show ?thesis
  proof (cases "p_menu ?p = Some m \<and> p_type ?p = P_SELECT")
    case False
    with d g assms(1) show ?thesis by (auto simp: dep_prop_def Let_def d'_def k1_def intro: grows_refl)
  next
    case True
    with ps(1) assms(2) obtain es where es: "prop_get_symbol ?p = Some es" by (fastforce simp: list_all_length prop_wf_def)
    let ?f = "\<lambda>x. x\<lparr>s_rev_dep := expr_alloc_or (s_rev_dep x) (expr_alloc_and (Some (ESymbol s)) (map_option expr_copy d'))\<rparr>"
    have "grows k1 (upd_sym es ?f k1)" by (rule upd_flags) (use g in \<open>simp_all add: grows_def unmarked_def\<close>)
    with g have "grows k (upd_sym es ?f k1)" by (rule grows_trans)
    with True d es show ?thesis by (simp add: dep_prop_def Let_def d'_def k1_def)
  qed
qed

lemma dep_props_ok:
  assumes "tab_wf k" and "\<And>i. i \<in> set is \<Longrightarrow> i < length (s_props (tab k s))"
  shows "\<exists>k'. dep_props m base s is k = Some k' \<and> grows k k'"
  using assms
proof (induction "is" arbitrary: k)
  case Nil
  then show ?case by (simp add: grows_refl)
next
  case (Cons i "is")
  from dep_prop_ok [OF Cons.prems(1), of i s m base] Cons.prems(2) obtain k1 where
    k1: "dep_prop m base s i k = Some k1" "grows k k1" by auto
  then have "tab_wf k1" "length (s_props (tab k s)) \<le> length (s_props (tab k1 s))" by (simp_all add: grows_def)
  with Cons.IH [of k1] Cons.prems(2) obtain k2 where "dep_props m base s is k1 = Some k2" "grows k1 k2"
    by (force intro: less_le_trans)
  with k1 show ?case using grows_trans by (simp; blast)
qed

lemma finalize_dep_frame:
  assumes "fin_ok st"
  shows "\<exists>st'. finalize_dep d m st = Some st' \<and> frame X st st'"
proof -
  have w: "tab_wf (ksyms st)" "consts_typed (ksyms st)" and mw: "menu_wf (ksyms st) (menus st m)"
    using assms by (simp_all add: fin_ok_def tab_wf_def)
  from inherit_ends [OF w(2)] obtain base where
    b: "inherit_dep (env_of (ksyms st)) d (m_dep (menus st m)) = Some base" by blast
  let ?st = "upd_menu m (\<lambda>x. x\<lparr>m_dep := base\<rparr>) st"
  have f: "frame X st ?st"
    by (rule frame_menu [OF assms _ menu_wf_cong [OF mw]]) (simp_all add: same_links_def)
  show ?thesis
  proof (cases "m_sym (menus st m)")
    case (Some s)
    from dep_props_ok [OF w(1), of "[0..<length (s_props (tab (ksyms st) s))]" s m base] obtain k where
      k: "dep_props m base s [0..<length (s_props (tab (ksyms st) s))] (ksyms st) = Some k" "grows (ksyms st) k" by auto
    have "frame X ?st (?st\<lparr>ksyms := k\<rparr>)"
      by (rule frame_ksyms [OF frame_ok [OF f]]) (use k(2) in \<open>simp_all add: upd_menu_def\<close>)
    with f have "frame X st (?st\<lparr>ksyms := k\<rparr>)" by (rule frame_trans) simp
    with b Some k(1) show ?thesis by (simp add: finalize_dep_def upd_menu_def)
  next
    case None
    show ?thesis
    proof (cases "m_prompt (menus st m)")
      case None
      with b f \<open>m_sym (menus st m) = None\<close> show ?thesis by (simp add: finalize_dep_def upd_menu_def)
    next
      case (Some r)
      with mw \<open>m_sym (menus st m) = None\<close> obtain p where p: "r = MenuProp p" "p_type p \<noteq> P_SELECT"
        by (auto simp: menu_wf_def split: prop_ref.splits)
      from inherit_ends [OF w(2)] obtain d' where d': "inherit_dep (env_of (ksyms st)) base (p_visible p) = Some d'" by blast
      let ?st' = "upd_menu m (\<lambda>x. x\<lparr>m_prompt := Some (MenuProp (p\<lparr>p_visible := d'\<rparr>))\<rparr>) ?st"
      have "frame X ?st ?st'"
        by (rule frame_menu [OF frame_ok [OF f]]) (use \<open>m_sym (menus st m) = None\<close> p in \<open>simp_all add: upd_menu_def menu_wf_def same_links_def\<close>)
      with f have "frame X st ?st'" by (rule frame_trans) simp
      with b d' f p Some \<open>m_sym (menus st m) = None\<close> show ?thesis
        by (cases "p_menu p = Some m") (simp_all add: finalize_dep_def upd_menu_def)
    qed
  qed
qed

text \<open>Values of choices.\<close>

lemma add_value_any: "add_value v ps = None \<longleftrightarrow> add_value w ps = None"
  by (induction ps) (auto split: pexpr.splits)

lemma add_value_append: "add_value v ps \<noteq> None \<Longrightarrow> add_value v (ps @ qs) \<noteq> None"
  by (induction ps) (auto split: pexpr.splits)

lemma prop_wf_choice: "p_type p = P_CHOICE \<Longrightarrow> prop_wf T p"
  by (simp add: prop_wf_def)

lemma add_value_wf:
  "add_value v ps = Some qs \<Longrightarrow> length qs = length ps \<and> add_value w qs \<noteq> None \<and> (list_all (prop_wf T) ps \<longrightarrow> list_all (prop_wf T) qs)"
proof (induction ps arbitrary: qs)
  case (Cons p ps)
  then show ?case by (auto simp: prop_wf_choice split: if_splits pexpr.splits)
qed simp

lemma add_choice_prop:
  assumes "fin_ok st" and "m_sym (menus st (current_entry st)) = Some v"
  obtains st' where "menu_add_symbol P_CHOICE s None st = Some st'" and "\<And>X. frame X st st'" and "grows (ksyms st) (ksyms st')"
proof -
  let ?p = "\<lparr>p_type = P_CHOICE, p_text = None, p_visible = None, p_expr = PExpr (ESymbol s), p_menu = Some (current_entry st)\<rparr>"
  let ?st = "upd_ksyms (add_prop v ?p) st"
  have w: "tab_wf (ksyms st)" using assms(1) by (simp add: fin_ok_def)
  then have "choice_wf (tab (ksyms st) v)" "list_all (prop_wf (tab (ksyms st))) (s_props (tab (ksyms st) v))" by (simp_all add: tab_wf_def)
  then have g: "grows (ksyms st) (ksyms ?st)" unfolding upd_ksyms_def add_prop_def
    by (simp, intro upd_grows [OF w]) (auto simp: choice_wf_def add_value_append prop_wf_def unmarked_def)
  then have "frame X st ?st" for X by (rule frame_ksyms [OF assms(1)]) (simp_all add: upd_ksyms_def)
  moreover have "menu_add_symbol P_CHOICE s None st = Some ?st"
    using assms(2) by (simp add: menu_add_symbol_def menu_add_prop_def check_dep_def attach_prop_def Let_def)
  ultimately show thesis using that g by blast
qed

lemma choice_value_frame:
  assumes "fin_ok st" and "m_sym (menus st m) = Some v" and "s_choice (tab (ksyms st) s)"
  shows "\<exists>st'. choice_value s m v st = Some st' \<and> frame X st st'"
proof -
  let ?k = "upd_sym v (\<lambda>x. x\<lparr>s_choiceval := True\<rparr>) (ksyms st)"
  define st1 where "st1 = (let st = upd_ksyms (upd_sym v (\<lambda>x. x\<lparr>s_choiceval := True\<rparr>)) st;
    st = (if m_prompt (menus st m) = None then menu_warn (ChoiceNoPrompt (Some v)) st else st) in
    st\<lparr>warnings := warnings st @ value_warnings m (s_props (tab (ksyms st) v)), current_entry := m\<rparr>)"
  have e1: "ksyms st1 = ?k" "menus st1 = menus st" "m_used st1 = m_used st" "current_entry st1 = m"
    by (simp_all add: st1_def Let_def upd_ksyms_def menu_warn_def)
  have w: "tab_wf (ksyms st)" using assms(1) by (simp add: fin_ok_def)
  have "grows (ksyms st) ?k" by (rule upd_flags [OF w]) (simp_all add: unmarked_def)
  then have g1: "grows (ksyms st) (ksyms st1)" by (simp add: e1)
  note f1 = frame_ksyms [OF assms(1) g1 e1(2,3), of X]
  obtain st2 where s2: "menu_set_type (s_type (tab (ksyms st1) s)) st1 = Some st2" "\<And>X. frame X st1 st2" "current_entry st2 = current_entry st1"
    and g2: "grows (ksyms st1) (ksyms st2)" by (rule set_type_frame [OF frame_ok [OF f1], of v]) (use assms(2) e1 in auto)
  have sy: "m_sym (menus st2 (current_entry st2)) = Some v" using s2(2) [of "{}"] s2(3) assms(2) e1 by (simp add: frame_def)
  obtain st3 where s3: "menu_add_symbol P_CHOICE s None st2 = Some st3" "\<And>X. frame X st2 st3" and g3: "grows (ksyms st2) (ksyms st3)"
    by (rule add_choice_prop [OF frame_ok [OF s2(2)] sy, of s]) blast
  have w3: "tab_wf (ksyms st3)" using g3 by (simp add: grows_def)
  have "s_choice (tab (ksyms st3) s)" using assms(3) g1 g2 g3 by (simp add: grows_def)
  then obtain ps where ps: "add_value v (s_props (tab (ksyms st3) s)) = Some ps"
    using w3 add_value_any [of symbol_yes _ v] by (auto simp: tab_wf_def choice_wf_def)
  let ?f = "\<lambda>x. x\<lparr>s_props := ps\<rparr>"
  have "list_all (prop_wf (tab (ksyms st3))) (s_props (tab (ksyms st3) s))" using w3 by (simp add: tab_wf_def)
  then have "grows (ksyms st3) (upd_sym s ?f (ksyms st3))"
    using add_value_wf [OF ps] by (intro upd_grows [OF w3]) (simp_all add: choice_wf_def unmarked_def)
  then have "frame X st3 (upd_ksyms (upd_sym s ?f) st3)"
    by (intro frame_ksyms [OF frame_ok [OF s3(2)]]) (simp_all add: upd_ksyms_def)
  then have "frame X st (upd_ksyms (upd_sym s ?f) st3)" by (rule frame_step [OF frame_step [OF frame_step [OF f1 s2(2)] s3(2)]])
  moreover have "choice_value s m v st = Some (upd_ksyms (upd_sym s ?f) st3)"
    using s2(1) s3(1) ps unfolding choice_value_def st1_def Let_def by simp
  ultimately show ?thesis by blast
qed

text \<open>The checks at the end.\<close>

lemma range_valid_ok: "s_name (tab k s2) \<noteq> None \<Longrightarrow> \<exists>b. menu_range_valid_sym k s s2 = Some b"
  by (auto simp: menu_range_valid_sym_def name_valid_def Let_def)

lemma check_prop_ok: "prop_wf (tab k) p \<Longrightarrow> \<exists>ws. check_prop k s p = Some ws"
proof (cases "p_type p")
  case P_RANGE
  assume "prop_wf (tab k) p"
  with P_RANGE obtain lo hi where p: "p_expr p = PRange lo hi" "s_name (tab k lo) \<noteq> None" "s_name (tab k hi) \<noteq> None"
    by (auto simp: prop_wf_def)
  from range_valid_ok [OF p(2), of s] range_valid_ok [OF p(3), of s] obtain a b where
    "menu_range_valid_sym k s lo = Some a" "menu_range_valid_sym k s hi = Some b" by blast
  with P_RANGE p(1) show ?thesis by (cases a) (simp_all add: check_prop_def check_range_def)
next
  case P_SELECT
  assume "prop_wf (tab k) p"
  with P_SELECT show ?thesis by (auto simp: check_prop_def check_select_def prop_wf_def)
next
  case P_DEFAULT
  assume "prop_wf (tab k) p"
  with P_DEFAULT show ?thesis by (auto simp: check_prop_def check_default_def prop_wf_def split: pexpr.splits expr.splits)
qed (simp_all add: check_prop_def)

lemma check_props_ok: "list_all (prop_wf (tab k)) ps \<Longrightarrow> \<exists>ws. check_props k s ps = Some ws"
proof (induction ps)
  case (Cons p ps)
  with check_prop_ok [of k p s] show ?case by auto
qed simp

lemma check_symbol_frame:
  assumes "fin_ok st"
  obtains st' where "check_symbol m s st = Some st'" and "\<And>X. frame X st st'" and "menus st' = menus st" and "ksyms st' = ksyms st"
proof -
  have w: "tab_wf (ksyms st)" using assms by (simp add: fin_ok_def)
  then obtain ws where ws: "check_props (ksyms st) s (s_props (tab (ksyms st) s)) = Some ws"
    using check_props_ok [of "ksyms st" "s_props (tab (ksyms st) s)" s] by (auto simp: tab_wf_def)
  then have "\<exists>st'. check_symbol m s st = Some st' \<and> ksyms st' = ksyms st \<and> menus st' = menus st \<and> m_used st' = m_used st"
    by (cases "warned st s") (simp_all add: check_symbol_def sym_check_prop_def menu_warn_def Let_def)
  then obtain st' where st': "check_symbol m s st = Some st'" "ksyms st' = ksyms st" "menus st' = menus st" "m_used st' = m_used st" by blast
  have "frame X st st'" for X by (rule frame_ksyms [OF assms]) (use grows_refl [OF w] st' in simp_all)
  with st' show thesis using that by blast
qed

lemma finish_frame:
  assumes "fin_ok st"
  shows "\<exists>st'. finish_menu m st = Some st' \<and> frame X st st'"
proof (cases "m_sym (menus st m)")
  case None
  with assms show ?thesis by (simp add: finish_menu_def frame_refl)
next
  case (Some s)
  obtain st1 where st1: "check_symbol m s st = Some st1" "\<And>X. frame X st st1" "menus st1 = menus st" "ksyms st1 = ksyms st"
    by (rule check_symbol_frame [OF assms, of m s]) blast
  show ?thesis
  proof (cases "s_optional (tab (ksyms st) s) \<or> m_prompt (menus st m) = None")
    case True
    with Some st1 show ?thesis by (auto simp: finish_menu_def)
  next
    case False
    then obtain r where r: "m_prompt (menus st m) = Some r" by auto
    from prompt_ok [OF assms r] obtain p where p: "get_prop (ksyms st) r = Some p" by blast
    let ?f = "\<lambda>x. x\<lparr>s_rev_dep := expr_alloc_or (s_rev_dep x) (expr_alloc_and (p_visible p) (Some (ESymbol symbol_mod)))\<rparr>"
    have "grows (ksyms st1) (upd_sym s ?f (ksyms st1))"
      using frame_ok [OF st1(2)] by (intro upd_flags) (simp_all add: fin_ok_def unmarked_def)
    then have "frame X st1 (upd_ksyms (upd_sym s ?f) st1)"
      by (intro frame_ksyms [OF frame_ok [OF st1(2)]]) (simp_all add: upd_ksyms_def)
    then have "frame X st (upd_ksyms (upd_sym s ?f) st1)" using st1(2) [of X] frame_trans by blast
    with False Some r p st1 show ?thesis by (simp add: finish_menu_def)
  qed
qed

end
