(* ===== verification/Kconf_Finalize_Tree.thy ===== *)
theory Kconf_Finalize_Tree
  imports Kconf_Finalize_Props
begin

text \<open>
  What \<open>menu_finalize\<close> does to the links between the menus: it makes following entries a submenu
  and merges submenus into the list of the parent, and both keep the order in which a walk comes
  to the menus.
\<close>

section \<open>A menu with what follows it\<close>

text \<open>The menu \<open>m\<close> with its children \<open>cs\<close>, and \<open>us\<close> behind it in the list of \<open>par\<close>.\<close>

definition node :: "(nat \<Rightarrow> menu) \<Rightarrow> nat \<Rightarrow> nat \<Rightarrow> mtree list \<Rightarrow> mtree list \<Rightarrow> bool" where
  "node M par m cs us \<longleftrightarrow> fseg M m (m_list (M m)) cs None \<and> fseg M par (m_next (M m)) us None \<and>
     distinct (m # preorders cs @ preorders us)"

lemma node_frame:
  assumes "node (menus st) par m cs us" and "frame {} st st'"
  shows "node (menus st') par m cs us"
  using assms frame_links [OF assms(2), of m] frame_fseg [OF assms(2)] by (simp add: node_def)

text \<open>Loops whose body keeps the links.\<close>

lemma for_menus_Some: "for_menus f (Some m) st = do { st \<leftarrow> f m st; for_menus f (m_next (menus st m)) st }"
  by (subst for_menus.simps) simp

lemma for_menus_None [simp]: "for_menus f None st = Some st"
  by (subst for_menus.simps) simp

lemma for_menus_frame:
  assumes "\<And>m st. fin_ok st \<Longrightarrow> \<exists>st'. f m st = Some st' \<and> frame {} st st'" and "fin_ok st" and "fseg (menus st) par p ts None"
  shows "\<exists>st'. for_menus f p st = Some st' \<and> frame {} st st'"
  using assms(2,3)
proof (induction ts arbitrary: p st)
  case Nil
  then show ?case by (simp add: frame_refl)
next
  case (Cons t ts)
  obtain m cs where t: "t = MNode m cs" by (cases t)
  from assms(1) [OF Cons.prems(1), of m] obtain st1 where st1: "f m st = Some st1" "frame {} st st1" by blast
  then have "fseg (menus st1) par (m_next (menus st1 m)) ts None"
    using frame_fseg [OF st1(2), of par p "t # ts" None] Cons.prems(2) t by simp
  with Cons.IH [OF frame_ok [OF st1(2)]] obtain st2 where "for_menus f (m_next (menus st1 m)) st1 = Some st2" "frame {} st1 st2" by blast
  moreover have "p = Some m" using Cons.prems(2) t by simp
  ultimately show ?case using st1 frame_step by (auto simp: for_menus_Some)
qed

text \<open>A step on a menu may move menus that follow it below it, or the other way round.\<close>

definition reorders :: "nat \<Rightarrow> nat \<Rightarrow> mtree list \<Rightarrow> mtree list \<Rightarrow> mst \<Rightarrow> mst \<Rightarrow> bool" where
  "reorders par m cs us st st' \<longleftrightarrow>
     frame (set (m # preorders cs @ preorders us)) st st' \<and> m_parent (menus st' m) = m_parent (menus st m) \<and>
     (\<exists>cs' us'. node (menus st') par m cs' us' \<and> preorders cs' @ preorders us' = preorders cs @ preorders us)"

lemma reordersI:
  assumes "node (menus st') par m cs' us'" and "preorders cs' @ preorders us' = preorders cs @ preorders us"
    and "frame (set (m # preorders cs @ preorders us)) st st'" and "m_parent (menus st' m) = m_parent (menus st m)"
  shows "reorders par m cs us st st'"
  using assms unfolding reorders_def by blast

lemma menus_loop:
  assumes step: "\<And>m cs us st. \<lbrakk>fin_ok st; node (menus st) par m cs us; m_parent (menus st m) = Some par;
      length (m # preorders cs @ preorders us) \<le> n\<rbrakk> \<Longrightarrow> \<exists>st'. f m st = Some st' \<and> reorders par m cs us st st'"
    and "fin_ok st" and "fseg (menus st) par p ts None" and "distinct (preorders ts)" and "length (preorders ts) \<le> n"
  shows "\<exists>st' ts'. for_menus f p st = Some st' \<and> frame (set (preorders ts)) st st' \<and>
    fseg (menus st') par p ts' None \<and> preorders ts' = preorders ts"
  using assms(2-)
proof (induction "length (preorders ts)" arbitrary: p st ts rule: less_induct)
  case less
  show ?case
  proof (cases ts)
    case Nil
    with less.prems have "for_menus f p st = Some st" "fseg (menus st) par p [] None" by simp_all
    with Nil less.prems(1) show ?thesis using frame_refl by fastforce
  next
    case (Cons t us)
    obtain m cs where t: "t = MNode m cs" by (cases t)
    have p: "p = Some m" "m_parent (menus st m) = Some par" and nd: "node (menus st) par m cs us"
      using less.prems(2,3) Cons t by (simp_all add: node_def)
    from step [OF less.prems(1) nd p(2)] less.prems(4) Cons t obtain st1 cs1 us1 where
      f: "f m st = Some st1" "frame (set (preorders ts)) st st1" "node (menus st1) par m cs1 us1"
        "m_parent (menus st1 m) = Some par" and o: "preorders cs1 @ preorders us1 = preorders cs @ preorders us"
      using p(2) by (auto simp: reorders_def)
    have len: "length (preorders us1) < length (preorders ts)" using arg_cong [OF o, of length] Cons t by simp
    have n1: "fseg (menus st1) par (m_next (menus st1 m)) us1 None" "distinct (m # preorders cs1 @ preorders us1)"
      "fseg (menus st1) m (m_list (menus st1 m)) cs1 None"
      using f(3) by (simp_all add: node_def)
    from less.hyps [OF len frame_ok [OF f(2)] n1(1)] n1(2) len less.prems(4) obtain st2 us2 where
      r: "for_menus f (m_next (menus st1 m)) st1 = Some st2" "frame (set (preorders us1)) st1 st2"
        "fseg (menus st2) par (m_next (menus st1 m)) us2 None" "preorders us2 = preorders us1" by auto
    have sub: "set (preorders us1) \<subseteq> set (preorders ts)" using arg_cong [OF o, of set] Cons t by auto
    have "fseg (menus st2) m (m_list (menus st1 m)) cs1 None" using frame_fseg [OF r(2) n1(3)] n1(2) by auto
    then have "fseg (menus st2) par p (MNode m cs1 # us2) None"
      using frame_links [OF r(2), of m] n1(2) f(4) r(3) p by simp
    moreover have "frame (set (preorders ts)) st st2" using frame_trans [OF f(2) r(2)] sub by simp
    moreover have "for_menus f p st = Some st2" using f(1) r(1) p by (simp add: for_menus_Some)
    moreover have "preorders (MNode m cs1 # us2) = preorders ts" using o r(4) Cons t by simp
    ultimately show ?thesis by blast
  qed
qed

section \<open>Merging submenus\<close>

lemma adopt_ok:
  assumes "fin_ok st" and "fseg (menus st) k (Some c) cs None" and "distinct (preorders cs)"
  shows "\<exists>st'. adopt par c st = Some (root (last cs), st') \<and> frame (set (preorders cs)) st st' \<and> fseg (menus st') par (Some c) cs None"
  using assms
proof (induction cs arbitrary: c st)
  case Nil
  then show ?case by simp
next
  case (Cons t cs)
  obtain ds where t: "t = MNode c ds" using Cons.prems(2) by (cases t) auto
  let ?st = "upd_menu c (\<lambda>x. x\<lparr>m_parent := Some par\<rparr>) st"
  have f: "frame {c} st ?st" by (rule frame_link [OF Cons.prems(1)]) simp_all
  have c: "m_next (menus ?st c) = m_next (menus st c)" "m_list (menus ?st c) = m_list (menus st c)" "m_parent (menus ?st c) = Some par"
    by (simp_all add: upd_menu_def)
  have ds: "fseg (menus ?st) c (m_list (menus st c)) ds None" and rest: "fseg (menus ?st) k (m_next (menus st c)) cs None"
    using frame_fseg [OF f] Cons.prems(2,3) t by simp_all
  show ?case
  proof (cases cs)
    case Nil
    then have "m_next (menus st c) = None" using rest by simp
    then have "adopt par c st = Some (c, ?st)" using c by (subst adopt.simps) (simp add: Let_def)
    moreover have "frame (set (preorders (t # cs))) st ?st" using frame_trans [OF f frame_refl [OF frame_ok [OF f], of "{}"]] t by simp
    moreover have "fseg (menus ?st) par (Some c) (t # cs) None" using c ds rest t Nil by simp
    ultimately show ?thesis using Nil t by simp
  next
    case (Cons u cs')
    with rest obtain d where d: "m_next (menus st c) = Some d" by (cases u) auto
    from Cons.IH [OF frame_ok [OF f], of d] rest d Cons.prems(3) obtain st' where
      r: "adopt par d ?st = Some (root (last cs), st')" "frame (set (preorders cs)) ?st st'" "fseg (menus st') par (Some d) cs None" by auto
    have nc: "c \<notin> set (preorders cs)" "set (preorders cs) \<inter> set (preorders ds) = {}" using Cons.prems(3) t by auto
    have "adopt par c st = Some (root (last (t # cs)), st')" using c d r(1) Cons by (subst adopt.simps) (simp add: Let_def)
    moreover have "frame (set (preorders (t # cs))) st st'" by (rule frame_trans [OF f r(2)]) (auto simp: t)
    moreover have "fseg (menus st') par (Some c) (t # cs) None"
      using frame_links [OF r(2) nc(1)] frame_fseg [OF r(2) ds nc(2)] c d r(3) t by simp
    ultimately show ?thesis by blast
  qed
qed

lemma fseg_last:
  assumes "fseg M par p cs q" and "cs \<noteq> []" and "distinct (preorders cs)"
  shows "fseg (M(root (last cs) := (M (root (last cs)))\<lparr>m_next := r\<rparr>)) par p cs r" and "root (last cs) \<in> set (preorders cs)"
    and "m_next (M (root (last cs))) = q"
proof -
  obtain ts l ds where cs: "cs = ts @ [MNode l ds]" using assms(2) by (metis append_butlast_last_id mtree.exhaust)
  have s: "fseg M par p ts (Some l)" "m_parent (M l) = Some par" "fseg M l (m_list (M l)) ds None" "m_next (M l) = q"
    using assms(1) by (simp_all add: cs fseg_snoc)
  let ?M = "M(l := (M l)\<lparr>m_next := r\<rparr>)"
  have "fseg ?M par p ts (Some l)" by (rule fseg_cong [OF s(1)]) (use assms(3) cs in auto)
  moreover have "fseg ?M l (m_list (M l)) ds None" by (rule fseg_cong [OF s(3)]) (use assms(3) cs in auto)
  ultimately show "fseg (M(root (last cs) := (M (root (last cs)))\<lparr>m_next := r\<rparr>)) par p cs r"
    using s(2) by (simp add: cs fseg_snoc)
  show "root (last cs) \<in> set (preorders cs)" "m_next (M (root (last cs))) = q" using s(4) by (simp_all add: cs)
qed

lemma flatten_node:
  assumes "fin_ok st" and nd: "node (menus st) par m cs us"
  shows "\<exists>st'. flatten par m st = Some st' \<and> reorders par m cs us st st'"
proof -
  have fs: "fseg (menus st) m (m_list (menus st m)) cs None" "fseg (menus st) par (m_next (menus st m)) us None"
    and dist: "distinct (preorders cs)" "m \<notin> set (preorders cs)" "m \<notin> set (preorders us)" "set (preorders cs) \<inter> set (preorders us) = {}"
    using nd by (auto simp: node_def)
  from no_text_ok [OF assms(1), of m] obtain b where b: "no_text st m = Some b" by blast
  show ?thesis
  proof (cases "cs = [] \<or> \<not> b")
    case True
    then have "m_list (menus st m) = None \<or> \<not> b" using fs(1) by auto
    then have "flatten par m st = Some st" using b by (auto simp: flatten_def split: option.splits)
    moreover have "reorders par m cs us st st" using assms frame_refl by (auto simp: reorders_def)
    ultimately show ?thesis by blast
  next
    case False
    then obtain c where c: "m_list (menus st m) = Some c" using fs(1) by (cases cs rule: list.exhaust; cases "hd cs") auto
    let ?l = "root (last cs)"
    from adopt_ok [OF assms(1) fs(1) [unfolded c] dist(1), of par] obtain st1 where
      a: "adopt par c st = Some (?l, st1)" "frame (set (preorders cs)) st st1" "fseg (menus st1) par (Some c) cs None" by blast
    have lk: "m_next (menus st1 m) = m_next (menus st m)" "m_list (menus st1 m) = Some c" "m_parent (menus st1 m) = m_parent (menus st m)"
      using frame_links [OF a(2) dist(2)] c by simp_all
    let ?st2 = "upd_menu ?l (\<lambda>x. x\<lparr>m_next := m_next (menus st1 m)\<rparr>) st1"
    let ?st3 = "upd_menu m (\<lambda>x. x\<lparr>m_next := m_list x\<rparr>) ?st2"
    let ?st4 = "upd_menu m (\<lambda>x. x\<lparr>m_list := None\<rparr>) ?st3"
    note lst = fseg_last(1) [OF a(3) _ dist(1), of "m_next (menus st m)"] fseg_last(2) [OF a(3) _ dist(1)]
    have lm: "?l \<noteq> m" "?l \<in> set (preorders cs)" using lst(2) False dist(2) by auto
    have f2: "frame {?l} st1 ?st2" by (rule frame_link [OF frame_ok [OF a(2)]]) simp_all
    have f3: "frame {m} ?st2 ?st3" by (rule frame_link [OF frame_ok [OF f2]]) simp_all
    have f4: "frame {m} ?st3 ?st4" by (rule frame_link [OF frame_ok [OF f3]]) simp_all
    have f24: "frame {m} ?st2 ?st4" by (rule frame_step [OF f3 f4])
    have "fseg (menus ?st2) par (Some c) cs (m_next (menus st m))" using lst(1) False lk(1) by (simp add: upd_menu_def)
    then have "fseg (menus ?st4) par (Some c) cs (m_next (menus st m))" by (rule frame_fseg [OF f24]) (use dist(2) in simp)
    moreover have f14: "frame (set (preorders cs) \<union> {m}) st ?st4"
      by (rule frame_trans [OF frame_trans [OF a(2) f2, of "set (preorders cs)"] f24]) (use lm(2) in auto)
    moreover have "fseg (menus ?st4) par (m_next (menus st m)) us None" by (rule frame_fseg [OF f14 fs(2)]) (use dist in auto)
    ultimately have "fseg (menus ?st4) par (Some c) (cs @ us) None" unfolding fseg_append by blast
    moreover have "m_next (menus ?st4 m) = Some c" "m_list (menus ?st4 m) = None" "m_parent (menus ?st4 m) = m_parent (menus st m)"
      using lk lm by (simp_all add: upd_menu_def)
    ultimately have "node (menus ?st4) par m [] (cs @ us)" using nd by (simp add: node_def)
    moreover have "frame (set (m # preorders cs @ preorders us)) st ?st4"
      using frame_trans [OF f14 frame_refl [OF frame_ok [OF f14], of "{}"]] by auto
    moreover have "preorders [] @ preorders (cs @ us) = preorders cs @ preorders us" by simp
    ultimately have "reorders par m cs us st ?st4"
      using \<open>m_parent (menus ?st4 m) = m_parent (menus st m)\<close> by (intro reordersI)
    moreover have "flatten par m st = Some ?st4" using b c a(1) False by (simp add: flatten_def)
    ultimately show ?thesis by blast
  qed
qed

lemma reorders_after:
  assumes "frame {} st st1" and "reorders par m cs us st1 st2"
  shows "reorders par m cs us st st2"
  using assms frame_trans [OF assms(1), of _ st2] frame_links [OF assms(1), of m] by (auto simp: reorders_def)

lemma reorders_before:
  assumes "reorders par m cs us st st1" and "frame {} st1 st2"
  shows "reorders par m cs us st st2"
proof -
  obtain cs' us' where nd: "node (menus st1) par m cs' us'" and o: "preorders cs' @ preorders us' = preorders cs @ preorders us"
    using assms(1) unfolding reorders_def by blast
  have "frame (set (m # preorders cs @ preorders us)) st st1" using assms(1) unfolding reorders_def by blast
  then have "frame (set (m # preorders cs @ preorders us)) st st2" by (rule frame_trans [OF _ assms(2)]) simp
  then show ?thesis using assms(1) frame_links [OF assms(2), of m] by (intro reordersI [OF node_frame [OF nd assms(2)] o]) (simp_all add: reorders_def)
qed

lemma reorders_refl: "fin_ok st \<Longrightarrow> node (menus st) par m cs us \<Longrightarrow> reorders par m cs us st st"
  using frame_refl by (auto simp: reorders_def)

lemma reorders_trans:
  assumes "reorders par m cs us st st1" and "node (menus st1) par m cs1 us1"
    and "preorders cs1 @ preorders us1 = preorders cs @ preorders us" and "reorders par m cs1 us1 st1 st2"
  shows "reorders par m cs us st st2"
proof -
  let ?X = "set (m # preorders cs @ preorders us)"
  have "frame ?X st st1" "frame ?X st1 st2" using assms by (simp_all add: reorders_def assms(3) del: set_append set_simps(2))
  then have "frame ?X st st2" by (rule frame_step)
  with assms show ?thesis by (simp add: reorders_def)
qed

lemma children_reorder:
  assumes "node (menus st) par m cs us" and "frame (set (preorders cs)) st st'"
    and "fseg (menus st') m (m_list (menus st m)) cs' None" and "preorders cs' = preorders cs"
  shows "reorders par m cs us st st'"
proof -
  have d: "m \<notin> set (preorders cs)" "set (preorders cs) \<inter> set (preorders us) = {}" using assms(1) by (auto simp: node_def)
  have us: "fseg (menus st') par (m_next (menus st m)) us None" using frame_fseg [OF assms(2) _ d(2)] assms(1) by (simp add: node_def)
  then have "node (menus st') par m cs' us" using frame_links [OF assms(2) d(1)] assms by (simp add: node_def)
  moreover have "frame (set (m # preorders cs @ preorders us)) st st'"
    by (rule frame_trans [OF assms(2) frame_refl [OF frame_ok [OF assms(2)], of "{}"]]) auto
  ultimately show ?thesis using assms(4) frame_links [OF assms(2) d(1)] by (intro reordersI [of st' par m cs' us cs us st]) simp_all
qed

lemma finalize_child_node:
  assumes "fin_ok st" and "node (menus st) par m cs us"
  shows "\<exists>st'. finalize_child par m st = Some st' \<and> reorders par m cs us st st'"
proof -
  have "\<exists>st1. (case (m_sym (menus st par), m_sym (menus st m)) of
      (Some s, Some v) \<Rightarrow> if s_choice (tab (ksyms st) s) then choice_value s m v st else Some st
    | _ \<Rightarrow> Some st) = Some st1 \<and> frame {} st st1"
    using choice_value_frame [OF assms(1), of m] frame_refl [OF assms(1)] by (auto split: option.splits)
  then obtain st1 where st1: "(case (m_sym (menus st par), m_sym (menus st m)) of
      (Some s, Some v) \<Rightarrow> if s_choice (tab (ksyms st) s) then choice_value s m v st else Some st
    | _ \<Rightarrow> Some st) = Some st1" "frame {} st st1" by blast
  from flatten_node [OF frame_ok [OF st1(2)] node_frame [OF assms(2) st1(2)]] obtain st2 where
    "flatten par m st1 = Some st2" "reorders par m cs us st1 st2" by blast
  with st1 reorders_after show ?thesis unfolding finalize_child_def by (simp only: bind.bind_lunit) blast
qed

section \<open>The recursive calls\<close>

lemma relink_node:
  assumes "fin_ok st" and "fseg (menus st) m (m_next (menus st m)) ts q" and "fseg (menus st) par q us None" and "ts \<noteq> []"
    and "distinct (m # preorders ts @ preorders us)"
  shows "node (menus (relink m (root (last ts)) st)) par m ts us" and "frame (set (m # preorders ts)) st (relink m (root (last ts)) st)"
    and "m_parent (menus (relink m (root (last ts)) st) m) = m_parent (menus st m)"
proof -
  let ?l = "root (last ts)"
  let ?st1 = "upd_menu m (\<lambda>x. x\<lparr>m_list := m_next x\<rparr>) st"
  let ?st2 = "upd_menu m (\<lambda>x. x\<lparr>m_next := m_next (menus ?st1 ?l)\<rparr>) ?st1"
  let ?st3 = "upd_menu ?l (\<lambda>x. x\<lparr>m_next := None\<rparr>) ?st2"
  have d: "distinct (preorders ts)" "m \<notin> set (preorders ts)" using assms(5) by auto
  have r: "relink m ?l st = ?st3" by (simp add: relink_def Let_def)
  have f1: "frame {m} st ?st1" by (rule frame_link [OF assms(1)]) simp_all
  have f2: "frame {m} ?st1 ?st2" by (rule frame_link [OF frame_ok [OF f1]]) simp_all
  have f3: "frame {?l} ?st2 ?st3" by (rule frame_link [OF frame_ok [OF f2]]) simp_all
  note f12 = frame_step [OF f1 f2]
  have l: "?l \<in> set (preorders ts)" "m_next (menus st ?l) = q" using fseg_last [OF assms(2,4) d(1)] by auto
  then have lm: "?l \<noteq> m" using d(2) by auto
  show f: "frame (set (m # preorders ts)) st (relink m ?l st)" unfolding r by (rule frame_trans [OF f12 f3]) (use l(1) in simp)
  have lk: "m_next (menus ?st3 m) = q" "m_list (menus ?st3 m) = m_next (menus st m)" "m_parent (menus ?st3 m) = m_parent (menus st m)"
    using lm l(2) by (simp_all add: upd_menu_def)
  then show "m_parent (menus (relink m ?l st) m) = m_parent (menus st m)" unfolding r by blast
  have "fseg (menus ?st2) m (m_next (menus st m)) ts q" by (rule frame_fseg [OF f12 assms(2)]) (use d(2) in simp)
  from fseg_last(1) [OF this assms(4) d(1), of None] have "fseg (menus ?st3) m (m_next (menus st m)) ts None" by (simp add: upd_menu_def)
  moreover have "fseg (menus ?st3) par q us None" by (rule frame_fseg [OF f [unfolded r] assms(3)]) (use assms(5) in auto)
  ultimately show "node (menus (relink m ?l st)) par m ts us" unfolding r node_def lk using assms(5) by blast
qed

text \<open>What the recursive call promises for menus with at most \<open>n\<close> menus below and behind them.\<close>

locale finalizer =
  fixes fin :: "nat \<Rightarrow> mst \<Rightarrow> mst option" and n :: nat
  assumes fin_node: "\<lbrakk>fin_ok st; node (menus st) par m cs us; length (m # preorders cs @ preorders us) \<le> n\<rbrakk> \<Longrightarrow>
    \<exists>st'. fin m st = Some st' \<and> reorders par m cs us st st'"
begin

lemma submenu_loop_node:
  assumes "fin_ok st" and "fseg (menus st) par p us None" and "distinct (preorders us)" and "length (preorders us) \<le> n"
  shows "\<exists>st' ts us' q. submenu_loop fin m s base l p st = Some (if ts = [] then l else Some (root (last ts)), st') \<and>
    frame (set (preorders us)) st st' \<and> fseg (menus st') m p ts q \<and> fseg (menus st') par q us' None \<and>
    preorders ts @ preorders us' = preorders us"
  using assms
proof (induction "length (preorders us)" arbitrary: p st us l rule: less_induct)
  case less
  have stop: ?case if "submenu_loop fin m s base l p st = Some (l, st)"
    by (intro exI [of _ st] exI [of _ "[]"] exI [of _ us] exI [of _ p]) (use that less.prems frame_refl in simp)
  show ?case
  proof (cases us)
    case Nil
    then show ?thesis using less.prems(2) by (intro stop) (subst submenu_loop.simps, simp)
  next
    case (Cons t us2)
    obtain k cs where t: "t = MNode k cs" by (cases t)
    have p: "p = Some k" and nd: "node (menus st) par k cs us2" using less.prems(2,3) Cons t by (simp_all add: node_def)
    from menu_dep_ok [OF less.prems(1), of k] obtain d where d: "menu_dep st k = Some d" by blast
    have "consts_typed (ksyms st)" using less.prems(1) by (simp add: fin_ok_def tab_wf_def)
    from belongs_ends [OF this, of s base d] obtain b where b: "belongs_below (env_of (ksyms st)) s base d = Some b" by blast
    show ?thesis
    proof (cases b)
      case False
      then show ?thesis using p d b by (intro stop) (subst submenu_loop.simps, simp)
    next
      case True
      from fin_node [OF less.prems(1) nd] less.prems(4) Cons t obtain st1 cs1 us1 where
        f: "fin k st = Some st1" "frame (set (preorders us)) st st1" "node (menus st1) par k cs1 us1"
        and o: "preorders cs1 @ preorders us1 = preorders cs @ preorders us2" by (auto simp: reorders_def)
      let ?st2 = "upd_menu k (\<lambda>x. x\<lparr>m_parent := Some m\<rparr>) st1"
      have f2: "frame {k} st1 ?st2" by (rule frame_link [OF frame_ok [OF f(2)]]) simp_all
      have n1: "k \<notin> set (preorders cs1)" "k \<notin> set (preorders us1)" "set (preorders us1) \<inter> set (preorders cs1) = {}"
        "distinct (preorders us1)" using f(3) by (auto simp: node_def)
      have c2: "fseg (menus ?st2) k (m_list (menus st1 k)) cs1 None" "fseg (menus ?st2) par (m_next (menus st1 k)) us1 None"
        using frame_fseg [OF f2] f(3) n1 by (simp_all add: node_def)
      have len: "length (preorders us1) < length (preorders us)" using arg_cong [OF o, of length] Cons t by simp
      from less.hyps [OF len frame_ok [OF f2] c2(2) n1(4), of "Some k"] len less.prems(4) obtain st3 ts us' q where
        r: "submenu_loop fin m s base (Some k) (m_next (menus st1 k)) ?st2 = Some (if ts = [] then Some k else Some (root (last ts)), st3)"
          "frame (set (preorders us1)) ?st2 st3" "fseg (menus st3) m (m_next (menus st1 k)) ts q" "fseg (menus st3) par q us' None"
          "preorders ts @ preorders us' = preorders us1" by auto
      have lk: "m_next (menus ?st2 k) = m_next (menus st1 k)" "m_list (menus ?st2 k) = m_list (menus st1 k)" "m_parent (menus ?st2 k) = Some m"
        by (simp_all add: upd_menu_def)
      have "fseg (menus st3) m p (MNode k cs1 # ts) q"
        using frame_links [OF r(2) n1(2)] frame_fseg [OF r(2) c2(1) n1(3)] r(3) lk p by simp
      moreover have "submenu_loop fin m s base l p st = Some (Some (root (last (MNode k cs1 # ts))), st3)"
        using p d b True f(1) r(1) lk(1) by (subst submenu_loop.simps) (simp add: Let_def)
      moreover have "frame (set (preorders us)) st st3"
      proof -
        have "set (preorders us1) \<union> {k} \<subseteq> set (preorders us)" using arg_cong [OF o, of set] Cons t by auto
        then show ?thesis by (intro frame_trans [OF frame_trans [OF f(2) f2, of "set (preorders us)"] r(2)]) auto
      qed
      moreover have "preorders (MNode k cs1 # ts) @ preorders us' = preorders us" using o r(5) Cons t by simp
      ultimately show ?thesis using r(4)
        by (intro exI [of _ st3] exI [of _ "MNode k cs1 # ts"] exI [of _ us'] exI [of _ q]) simp
    qed
  qed
qed

lemma make_submenu_node:
  assumes "fin_ok st" and "node (menus st) par m [] us" and "length (preorders us) \<le> n"
  shows "\<exists>st'. make_submenu fin m s st = Some st' \<and> reorders par m [] us st st' \<and> (us = [] \<longrightarrow> m_next (menus st' m) = None)"
proof -
  have "\<exists>d. (case m_prompt (menus st m) of None \<Rightarrow> Some None | Some r \<Rightarrow> map_option p_visible (get_prop (ksyms st) r)) = Some d"
    using prompt_ok [OF assms(1), of m] by (auto split: option.splits)
  then obtain d where d: "(case m_prompt (menus st m) of None \<Rightarrow> Some None | Some r \<Rightarrow> map_option p_visible (get_prop (ksyms st) r)) = Some d" ..
  have "consts_typed (ksyms st)" using assms(1) by (simp add: fin_ok_def tab_wf_def)
  from not_no_ends [OF this] obtain base where base: "not_no (env_of (ksyms st)) d = Some base" by blast
  have nd: "fseg (menus st) par (m_next (menus st m)) us None" "distinct (preorders us)" "m \<notin> set (preorders us)"
    "m_list (menus st m) = None" using assms(2) by (simp_all add: node_def)
  from submenu_loop_node [OF assms(1) nd(1,2) assms(3), of m s base None] obtain st1 ts us' q where
    r: "submenu_loop fin m s base None (m_next (menus st m)) st = Some (if ts = [] then None else Some (root (last ts)), st1)"
    "frame (set (preorders us)) st st1" "fseg (menus st1) m (m_next (menus st m)) ts q" "fseg (menus st1) par q us' None"
    and o: "preorders ts @ preorders us' = preorders us" by blast
  have lk: "m_next (menus st1 m) = m_next (menus st m)" "m_list (menus st1 m) = None" "m_parent (menus st1 m) = m_parent (menus st m)"
    using frame_links [OF r(2) nd(3)] nd(4) by simp_all
  have dist: "distinct (m # preorders ts @ preorders us')" unfolding o using nd by simp
  let ?st = "if ts = [] then st1 else relink m (root (last ts)) st1"
  have m: "make_submenu fin m s st = Some ?st" using d base r(1) by (simp add: make_submenu_def)
  show ?thesis
  proof (cases "ts = []")
    case True
    then have nd1: "node (menus st1) par m [] us'" using r(3,4) lk dist by (simp add: node_def)
    have "frame (set (m # preorders us)) st st1" by (rule frame_trans [OF r(2) frame_refl [OF frame_ok [OF r(2)], of "{}"]]) auto
    then have "reorders par m [] us st st1" by (intro reordersI [OF nd1]) (use o True lk(3) in simp_all)
    moreover have "us = [] \<longrightarrow> m_next (menus st1 m) = None" using nd(1) lk(1) by auto
    ultimately show ?thesis using m True by simp
  next
    case False
    note rl = relink_node [OF frame_ok [OF r(2)] r(3) [folded lk(1)] r(4) False dist]
    have "frame (set (m # preorders us)) st ?st"
      unfolding if_not_P [OF False] by (rule frame_trans [OF r(2) rl(2)]) (use arg_cong [OF o, of set] in auto)
    then have "reorders par m [] us st ?st" unfolding if_not_P [OF False] by (intro reordersI [OF rl(1)]) (use o lk(3) rl(3) in simp_all)
    moreover have "us \<noteq> []" using False o by (cases ts; cases "hd ts") auto
    ultimately show ?thesis using m by blast
  qed
qed

lemma first_phase:
  assumes "fin_ok st" and nd: "node (menus st) par m cs us" and len: "length (m # preorders cs @ preorders us) \<le> Suc n"
  shows "\<exists>st'. (if m_list (menus st m) \<noteq> None
      then do { (d, st) \<leftarrow> parent_dep m st;
                st \<leftarrow> for_menus (finalize_dep d) (m_list (menus st m)) st;
                for_menus fin (m_list (menus st m)) st }
      else case m_sym (menus st m) of None \<Rightarrow> Some st | Some s \<Rightarrow> make_submenu fin m s st) = Some st' \<and>
    reorders par m cs us st st' \<and> (us = [] \<longrightarrow> m_next (menus st' m) = None)"
proof (cases "m_list (menus st m)")
  case None
  with nd have cs: "cs = []" by (cases cs; cases "hd cs") (auto simp: node_def)
  show ?thesis
  proof (cases "m_sym (menus st m)")
    case (Some s)
    have l: "length (preorders us) \<le> n" using len by simp
    from make_submenu_node [OF assms(1) nd [unfolded cs] l, of s] None Some show ?thesis unfolding cs by simp
  qed (use None nd reorders_refl [OF assms(1)] in \<open>auto simp: node_def\<close>)
next
  case (Some c)
  have fs: "fseg (menus st) m (m_list (menus st m)) cs None" and d: "distinct (preorders cs)" using nd by (simp_all add: node_def)
  from parent_dep_frame [OF assms(1) fs, of "{}"] obtain d st1 where 1: "parent_dep m st = Some (d, st1)" "frame {} st st1" by blast
  have fs1: "fseg (menus st1) m (m_list (menus st1 m)) cs None" using node_frame [OF nd 1(2)] by (simp add: node_def)
  from for_menus_frame [where f = "finalize_dep d", OF finalize_dep_frame frame_ok [OF 1(2)] fs1] obtain st2 where
    2: "for_menus (finalize_dep d) (m_list (menus st1 m)) st1 = Some st2" "frame {} st1 st2" by blast
  note f2 = frame_step [OF 1(2) 2(2)]
  note nd2 = node_frame [OF nd f2]
  then have fs2: "fseg (menus st2) m (m_list (menus st2 m)) cs None" by (simp add: node_def)
  have "\<exists>st3 cs'. for_menus fin (m_list (menus st2 m)) st2 = Some st3 \<and> frame (set (preorders cs)) st2 st3 \<and>
      fseg (menus st3) m (m_list (menus st2 m)) cs' None \<and> preorders cs' = preorders cs"
    by (rule menus_loop [OF fin_node frame_ok [OF f2] fs2 d]) (use len in auto)
  then obtain st3 cs' where 3: "for_menus fin (m_list (menus st2 m)) st2 = Some st3" "frame (set (preorders cs)) st2 st3"
    "fseg (menus st3) m (m_list (menus st2 m)) cs' None" "preorders cs' = preorders cs" by blast
  have "us = [] \<longrightarrow> m_next (menus st3 m) = None"
    using frame_links [OF 3(2), of m] nd2 by (auto simp: node_def)
  with reorders_after [OF f2 children_reorder [OF nd2 3(2-4)]] 1(1) 2(1) 3(1) Some show ?thesis by simp
qed

lemma finalize_body_node:
  assumes "fin_ok st" and "node (menus st) par m cs us" and "length (m # preorders cs @ preorders us) \<le> Suc n"
  shows "\<exists>st'. finalize_body fin m st = Some st' \<and> reorders par m cs us st st' \<and> (us = [] \<longrightarrow> m_next (menus st' m) = None)"
proof -
  from first_phase [OF assms] obtain st1 where 1: "(if m_list (menus st m) \<noteq> None
      then do { (d, st) \<leftarrow> parent_dep m st;
                st \<leftarrow> for_menus (finalize_dep d) (m_list (menus st m)) st;
                for_menus fin (m_list (menus st m)) st }
      else case m_sym (menus st m) of None \<Rightarrow> Some st | Some s \<Rightarrow> make_submenu fin m s st) = Some st1"
    "reorders par m cs us st st1" "us = [] \<longrightarrow> m_next (menus st1 m) = None" by blast
  from 1(2) obtain cs1 us1 where nd1: "node (menus st1) par m cs1 us1" "preorders cs1 @ preorders us1 = preorders cs @ preorders us"
    and ok1: "fin_ok st1" by (auto simp: reorders_def dest: frame_ok)
  have fs: "fseg (menus st1) m (m_list (menus st1 m)) cs1 None" "distinct (preorders cs1)" using nd1(1) by (simp_all add: node_def)
  from menus_loop [OF finalize_child_node ok1 fs order_refl] obtain st2 cs2 where
    2: "for_menus (finalize_child m) (m_list (menus st1 m)) st1 = Some st2" "frame (set (preorders cs1)) st1 st2"
      "fseg (menus st2) m (m_list (menus st1 m)) cs2 None" "preorders cs2 = preorders cs1" by blast
  from finish_frame [OF frame_ok [OF 2(2)], of m "{}"] obtain st3 where 3: "finish_menu m st2 = Some st3" "frame {} st2 st3" by blast
  have "reorders par m cs us st st3"
    by (rule reorders_before [OF reorders_trans [OF 1(2) nd1 children_reorder [OF nd1(1) 2(2-4)]] 3(2)])
  moreover have "finalize_body fin m st = Some st3" unfolding finalize_body_def 1(1) using 2(1) 3(1) by simp
  moreover have "us = [] \<longrightarrow> m_next (menus st3 m) = None"
    using 1(3) frame_links [OF 2(2), of m] frame_links [OF 3(2), of m] nd1(1) by (auto simp: node_def)
  ultimately show ?thesis by blast
qed

end

lemma menu_finalize_node: "finalizer (menu_finalize n) n"
proof (induction n)
  case 0
  show ?case by unfold_locales simp
next
  case (Suc n)
  show ?case using finalizer.finalize_body_node [OF Suc] by unfold_locales (unfold menu_finalize.simps, blast)
qed

interpretation mf: finalizer "menu_finalize n" n for n
  by (rule menu_finalize_node)

text \<open>The root has no menu behind it.\<close>

lemma finalize_root:
  assumes "fin_ok st" and "root_ok (menus st)" and "fseg (menus st) rootmenu (m_list (menus st rootmenu)) ts None"
    and "distinct (rootmenu # preorders ts)" and "length (preorders ts) < n"
  obtains st' ts' where "menu_finalize n rootmenu st = Some st'" and "root_ok (menus st')"
    and "fseg (menus st') rootmenu (m_list (menus st' rootmenu)) ts' None" and "preorders ts' = preorders ts"
    and "fin_ok st'" and "m_used st' = m_used st" and "\<And>m. m_sym (menus st' m) = m_sym (menus st m)"
    and "\<And>s. s_name (tab (ksyms st') s) = s_name (tab (ksyms st) s)"
proof -
  obtain k where n: "n = Suc k" using assms(5) by (cases n) auto
  have "node (menus st) rootmenu rootmenu ts []" using assms(2-4) by (simp add: node_def root_ok_def)
  from mf.finalize_body_node [OF assms(1) this, of k] assms(5) n obtain st' where
    fin: "menu_finalize n rootmenu st = Some st'" and r: "reorders rootmenu rootmenu ts [] st st'"
      "m_next (menus st' rootmenu) = None" by auto
  from r(1) obtain ts' us' where nd: "node (menus st') rootmenu rootmenu ts' us'" "preorders ts' @ preorders us' = preorders ts"
    by (auto simp: reorders_def)
  have "us' = []" using nd(1) r(2) by (cases us'; cases "hd us'") (auto simp: node_def)
  moreover have "frame (set (rootmenu # preorders ts @ preorders [])) st st'" using r(1) unfolding reorders_def by blast
  ultimately show thesis
    using fin r nd assms(2) by (intro that [of st' ts']) (auto simp: node_def root_ok_def frame_def reorders_def)
qed

end
