(* ===== verification/Kconf_Conf_Theorems.thy ===== *)
theory Kconf_Conf_Theorems
  imports Kconf_Build Kconf_Symbol_Theorems Kconf_Finalize_Tree
begin

text \<open>
  The properties of the menus and the configuration files of the configurator, with examples on
  which their hypotheses hold.
\<close>

section \<open>The written file\<close>

text \<open>A configuration that can be written: all values are known, the menus are a tree, and no line
  is too long or has a newline of its own.\<close>

definition config_ok :: "conf_os \<Rightarrow> mst \<Rightarrow> mtree list \<Rightarrow> bool" where
  "config_ok os st ts \<longleftrightarrow>
     good (ksyms st) \<and> invalid (ksyms st) = {} \<and> modules_sym (ksyms st) \<noteq> None \<and> sym_change_count (ksyms st) \<noteq> 0 \<and>
     root_ok (menus st) \<and> fseg (menus st) rootmenu (m_list (menus st rootmenu)) ts None \<and>
     (\<forall>m \<in> set (preorders ts). menu_ok (ksyms st) (menus st) m) \<and>
     (\<exists>v version. sym_lookup (Some ''KERNELVERSION'') False (ksyms st) = (v, ksyms st) \<and>
        string_value (ksyms st) v = VStr version \<and> header_ok os version)"

text \<open>The symbols that get a line.\<close>

definition written :: "mst \<Rightarrow> mtree list \<Rightarrow> sym set" where
  "written st ts = {s. s_write (tab (ksyms st) s) \<and> (\<exists>m \<in> set (preorders ts). s \<in> menu_values (ksyms st) (menus st) m)}"

lemma config_text_items:
  assumes c: "config_ok os st ts"
  obtains its k' where "config_text (Suc n) os st = Some (concat (map (item_line (ksyms st)) its), k')"
    and "list_all (item_ok (ksyms st)) its" and "distinct (item_values its)" and "set (item_values its) = written st ts"
proof -
  let ?k = "ksyms st" and ?calc = "sym_calc_value (Suc n)"
  from c obtain v version where v: "sym_lookup (Some ''KERNELVERSION'') False ?k = (v, ?k)"
    "string_value ?k v = VStr version" "header_ok os version" unfolding config_ok_def by blast
  have calc: "?calc s ?k = Some ?k" for s using c wstate_calc [of ?k n s "\<lambda>s. s_write (tab ?k s)"] by (simp add: config_ok_def wstate_self)
  have kv: "kernel_version ?calc ?k = Some (version, ?k)" using v(1,2) calc by (simp add: kernel_version_def)
  have "\<exists>its w'. visits (write_menu ?calc st) (preorders ts) (config_header os version, wstate ?k (\<lambda>s. s_write (tab ?k s))) =
      Some (config_header os version @ concat (map (item_line ?k) its), wstate ?k w') \<and>
    list_all (item_ok ?k) its \<and> distinct (item_values its) \<and>
    set (item_values its) = {s. s_write (tab ?k s) \<and> (\<exists>m \<in> set (preorders ts). s \<in> menu_values ?k (menus st) m)}"
    using c by (intro visits_items) (auto simp: config_ok_def)
  then obtain its w' where i: "visits (write_menu ?calc st) (preorders ts) (config_header os version, ?k) =
      Some (config_header os version @ concat (map (item_line ?k) its), wstate ?k w')"
    "list_all (item_ok ?k) its" "distinct (item_values its)" "set (item_values its) = written st ts"
    unfolding wstate_self written_def by blast
  have "menu_walk (write_menu ?calc st) (menus st) (m_list (menus st rootmenu)) (config_header os version, ?k) =
      visits (write_menu ?calc st) (preorders ts) (config_header os version, ?k)"
    using c by (intro walk_tree) (simp_all add: config_ok_def)
  with i(1) kv c have "config_text (Suc n) os st = Some (config_header os version @ concat (map (item_line ?k) its), wstate ?k w')"
    by (simp add: config_text_def config_ok_def)
  with that [of "header_items os version @ its" "wstate ?k w'"] i(2-)
    header_items_ok(1) [OF v(3), of ?k] header_items_ok(2) [OF v(3)] header_items_text [OF v(3), of ?k]
  show thesis by simp
qed

text \<open>Writing to a file of the current directory.\<close>

definition plain_name :: "conf_os \<Rightarrow> string \<Rightarrow> bool" where
  "plain_name os f \<longleftrightarrow> f \<noteq> [] \<and> CHR ''/'' \<notin> set f \<and> length f < 100 \<and> \<not> o_is_dir os f \<and>
     o_pid os \<noteq> [] \<and> list_all isdigit (o_pid os) \<and> length (o_pid os) < 100 \<and> f \<noteq> ''.tmpconfig.'' @ o_pid os"

lemma conf_write_file:
  assumes t: "config_text n os st = Some (text, k')" and f: "plain_name os f"
    and o: "\<And>p. o_open os p" "\<And>p q. o_rename os p q"
  obtains fs' where "conf_write n os (Some f) st fs = Some (False, fs', k'\<lparr>sym_change_count := 0\<rparr>)" and "fs' f = Some text"
proof -
  let ?tmp = "''.tmpconfig.'' @ o_pid os"
  have wn: "write_name os (Some f) = Some ([], f)" using f by (simp add: write_name_def plain_name_def)
  have len: "length f < 128" "length (f @ ''.old'') < 128" "length ?tmp < 128" using f by (simp_all add: plain_name_def)
  have nt: "f \<noteq> ?tmp" using f by (simp add: plain_name_def)
  have "last (o_pid os) \<noteq> CHR ''d''"
  proof -
    have "\<not> isdigit (CHR ''d'')" by code_simp
    with f show ?thesis by (auto simp: plain_name_def list_all_iff dest: last_in_set)
  qed
  then have "last ?tmp \<noteq> last (f @ ''.old'')" using f by (simp add: plain_name_def)
  then have no: "f @ ''.old'' \<noteq> ?tmp" by metis
  show thesis
  proof (cases "env_set (o_getenv os) ''KCONFIG_OVERWRITECONFIG''")
    case True
    with that [of "fs(f \<mapsto> text)"] wn len t o show thesis
      by (simp add: conf_write_def fits_buf_def replace_config_def)
  next
    case False
    let ?fs1 = "fs(?tmp \<mapsto> text)"
    let ?fs2 = "snd (rename_file os f (f @ ''.old'') ?fs1)"
    have f2: "?fs2 ?tmp = Some text"
      using nt no by (auto simp: rename_file_def simp del: append_Cons)
    then have r: "rename_file os ?tmp f ?fs2 = (True, (?fs2(f := ?fs2 ?tmp))(?tmp := None))"
      unfolding rename_file_def [of os ?tmp f] using o(2) nt by (simp del: append_Cons)
    have ne: "?tmp \<noteq> []" by simp
    have "conf_write n os (Some f) st fs =
        Some (False, (?fs2(f := ?fs2 ?tmp))(?tmp := None), k'\<lparr>sym_change_count := 0\<rparr>)"
      unfolding conf_write_def wn using len t o(1) False ne r
      by (simp add: fits_buf_def replace_config_def del: append_Cons)
    with that f2 nt show thesis by (simp del: append_Cons)
  qed
qed

lemma written_value_ok:
  assumes "config_ok os st ts" and "s \<in> written st ts"
  shows "value_ok (tab (ksyms st) s)"
proof -
  from assms(2) obtain m where m: "m \<in> set (preorders ts)" "m_sym (menus st m) = Some s" "\<not> s_choice (tab (ksyms st) s)"
    and w: "s_write (tab (ksyms st) s)" unfolding written_def menu_values_def by blast
  from assms(1) m(1) have "menu_ok (ksyms st) (menus st) m" unfolding config_ok_def by blast
  with m w show ?thesis by (simp add: menu_ok_def)
qed

lemma written_no_choice: "s \<in> written st ts \<Longrightarrow> \<not> s_choice (tab (ksyms st) s)"
  by (auto simp: written_def menu_values_def)

text \<open>Reading a text that consists of the lines of a table into another table.\<close>

lemma read_items:
  assumes i: "list_all (item_ok st) its" "distinct (item_values its)"
    and r: "\<And>s. s \<in> set (item_values its) \<Longrightarrow> readable S_DEF_USER st (conf_reset S_DEF_USER k) s"
    and k: "good k" "choices_ok k" "\<And>s. s_type (tab k s) \<noteq> S_OTHER"
    and f: "fs name = Some (concat (map (item_line st) its))" and n: "card (invalid k \<union> set (all_symbols k)) < n"
  obtains ws k' where "conf_read_simple n getenv fs stale dl (Some name) S_DEF_USER k = Some (Some ws, k')"
    and "\<And>s. s \<in> set (item_values its) \<Longrightarrow> same_static (save S_DEF_USER (tab st s) (tab (conf_reset S_DEF_USER k) s)) (tab k' s)"
proof -
  let ?k = "conf_reset S_DEF_USER k" and ?t = "concat (map (item_line st) its)"
  have fl: "file_lines ?t = map (item_line st) its" by (rule file_lines_concat [OF items_lines [OF i(1)]])
  from conf_lines_items [OF i choices_ok_reset [OF k(2)] r] obtain ws k1 where
    l: "conf_lines S_DEF_USER stale 0 (map (item_line st) its) ?k = Some (ws, k1)"
    and sv: "\<And>s. s \<in> set (item_values its) \<Longrightarrow> tab k1 s = save S_DEF_USER (tab st s) (tab ?k s)" by blast
  have kp: "keeps ?k k1"
    using conf_lines_keep [of ?k stale 0 "map (item_line st) its"] k choices_ok_reset [OF k(2)] good_reset [OF k(1)] l
    by (auto simp: reset_field)
  have g: "good k1" using good_keeps [OF kp good_reset [OF k(1)]] .
  have "invalid k1 \<subseteq> invalid k \<union> set (all_symbols k)"
    by (auto simp: invalid_def reads_field(9) [OF keeps_reads [OF kp]] reset_field)
  then have "card (invalid k1) < n" using n k(1) card_mono [of "invalid k \<union> set (all_symbols k)" "invalid k1"] by (auto simp: good_def)
  then have ft: "fit n k1" using g by (simp add: fit_def)
  have z: "zconf_fopen getenv fs name = Some (Some ?t)" using f by (simp add: zconf_fopen_def)
  show thesis
  proof (cases "modules_sym k1")
    case None
    with that [of ws k1] z fl l sv show thesis by (simp add: conf_read_simple_def conf_open_def)
  next
    case (Some m)
    from ev.calc_yields [OF ft, of m] obtain k2 where c: "sym_calc_value n m k1 = Some k2" "step {} k1 k2" by (auto simp: yields_def)
    have ss: "same_static (tab k1 s) (tab k2 s)" for s using c(2) evolves_static [of "{}" k1 k2] by (simp add: step_def)
    show thesis
    proof (rule that)
      show "conf_read_simple n getenv fs stale dl (Some name) S_DEF_USER k = Some (Some ws, k2)"
        using z fl l c(1) Some by (simp add: conf_read_simple_def conf_open_def)
      show "same_static (save S_DEF_USER (tab st s) (tab ?k s)) (tab k2 s)" if "s \<in> set (item_values its)" for s
        using ss [of s] unfolding sv [OF that] .
    qed
  qed
qed

section \<open>An example\<close>

text \<open>A configuration with symbols of all types, one of them below a menu with a title, and a string
  with a quote and a backslash.\<close>

definition set_sym :: "string \<Rightarrow> symbol_type \<Rightarrow> kval \<Rightarrow> tristate \<Rightarrow> symbol" where
  "set_sym n ty v t = (new_symbol (Some n) False)\<lparr>s_type := ty, s_val := v, s_tri := t, s_valid := True, s_write := True\<rparr>"

primrec conf_tab :: "sym \<Rightarrow> symbol" where
  "conf_tab symbol_yes = const_sym ''y'' Yes"
| "conf_tab symbol_mod = const_sym ''m'' Mod"
| "conf_tab symbol_no = const_sym ''n'' No"
| "conf_tab (Sym i) =
     (if i = 0 then set_sym ''MODULES'' S_BOOLEAN (VStr ''n'') Yes
      else if i = 1 then set_sym ''NAME'' S_STRING (VStr [CHR ''a'', QUOTE, BACKSLASH]) No
      else if i = 2 then set_sym ''NUM'' S_INT (VStr ''42'') No
      else if i = 3 then set_sym ''DRV'' S_TRISTATE (VStr ''n'') Mod
      else if i = 4 then (set_sym ''KERNELVERSION'' S_STRING (VStr ''2.6.19'') No)\<lparr>s_write := False\<rparr>
      else if i = 5 then set_sym ''MAC_ADB'' S_BOOLEAN (VStr ''n'') No
      else (const_sym [] No)\<lparr>s_const := False\<rparr>)"

definition conf_syms :: "sym list" where
  "conf_syms = [Sym 0, Sym 1, Sym 2, Sym 3, Sym 4, Sym 5]"

definition conf_kst :: kst where
  "conf_kst =
     \<lparr>tab = conf_tab, hash = hash_of conf_tab conf_syms, used = 6, prop_tri = (\<lambda>_. No), menu_changed = (\<lambda>_. False),
      modules_sym = Some (Sym 0), modules_val = Yes, sym_change_count = 1\<rparr>"

definition conf_menus :: "nat \<Rightarrow> menu" where
  "conf_menus m =
     (if m = 0 then (new_menu None None)\<lparr>m_list := Some 1\<rparr>
      else if m = 1 then (new_menu None (Some 0))\<lparr>m_list := Some 2, m_next := Some 4,
        m_prompt := Some (MenuProp ((prop_alloc P_MENU symbol_no)\<lparr>p_text := Some ''General setup''\<rparr>))\<rparr>
      else if m = 2 then (new_menu (Some (Sym 0)) (Some 1))\<lparr>m_next := Some 3\<rparr>
      else if m = 3 then new_menu (Some (Sym 1)) (Some 1)
      else if m = 4 then (new_menu (Some (Sym 2)) (Some 0))\<lparr>m_next := Some 5\<rparr>
      else if m = 5 then (new_menu (Some (Sym 3)) (Some 0))\<lparr>m_next := Some 6\<rparr>
      else new_menu (Some (Sym 5)) (Some 0))"

definition conf_trees :: "mtree list" where
  "conf_trees = [MNode 1 [MNode 2 [], MNode 3 []], MNode 4 [], MNode 5 [], MNode 6 []]"

definition conf_mst :: mst where
  "conf_mst = \<lparr>menus = conf_menus, m_used = 7, current_entry = 6, current_menu = Some 0, last_entry_ptr = NextOf 6,
     ksyms = conf_kst, defconfig_list = None, warnings = [],
     warned = (\<lambda>_. False)\<rparr>"

text \<open>The state before the first menu.\<close>

definition empty_mst :: mst where
  "empty_mst = conf_mst\<lparr>menus := (\<lambda>_. new_menu None None), m_used := 1\<rparr>"

definition demo_date :: string where
  "demo_date = ''Thu Nov 30 09:00:00 2006'' @ [NL]"

definition demo_os :: conf_os where
  "demo_os = \<lparr>o_getenv = (\<lambda>_. None), o_is_dir = (\<lambda>_. False), o_open = (\<lambda>_. True), o_rename = (\<lambda>_ _. True),
     o_ctime = demo_date, o_pid = ''123''\<rparr>"

lemmas conf_defs = conf_kst_def set_sym_def const_sym_def new_symbol_def

lemma conf_kst_invalid: "invalid conf_kst = {}"
proof -
  have "s_valid (tab conf_kst s)" for s by (cases s) (simp_all add: conf_defs)
  then show ?thesis by (simp add: invalid_def)
qed

lemma conf_kst_good: "good conf_kst"
proof -
  have "wf_symbol conf_kst s" for s by (cases s) (simp_all add: wf_symbol_def conf_defs)
  moreover have "typed (tab conf_kst s)" for s by (cases s) (simp_all add: typed_def conf_defs)
  ultimately show ?thesis by (simp add: good_def conf_kst_invalid)
qed

lemma conf_list:
  "hash conf_kst = hash_of (tab conf_kst) conf_syms"
  "list_all (\<lambda>s. case s_name (tab conf_kst s) of None \<Rightarrow> False | Some n \<Rightarrow> builtin n = None) conf_syms"
  "list_all (\<lambda>s. s \<in> Sym ` {..<used conf_kst}) conf_syms"
  "distinct (map (\<lambda>s. (s_name (tab conf_kst s), s_const (tab conf_kst s))) conf_syms)"
proof -
  show "list_all (\<lambda>s. case s_name (tab conf_kst s) of None \<Rightarrow> False | Some n \<Rightarrow> builtin n = None) conf_syms" by code_simp
  show "distinct (map (\<lambda>s. (s_name (tab conf_kst s), s_const (tab conf_kst s))) conf_syms)" by code_simp
qed (simp_all add: conf_kst_def conf_syms_def)

lemma conf_table: "table_inv conf_kst"
proof (rule table_of_list(2) [OF conf_list])
  show "consts_ok conf_kst"
    unfolding consts_ok_def table_of_list(1) [OF conf_list] by (auto simp: builtin_ok_def conf_syms_def conf_defs)
qed

lemma conf_types: "s_type (tab conf_kst s) \<noteq> S_OTHER" "\<not> s_choiceval (tab conf_kst s)" "\<not> s_choice (tab conf_kst s)"
  by (cases s; simp add: conf_defs)+

lemma conf_all: "set (all_symbols conf_kst) = set conf_syms" "distinct (all_symbols conf_kst)"
proof -
  show "set (all_symbols conf_kst) = set conf_syms"
    unfolding all_symbols_set table_of_list(1) [OF conf_list] using conf_types(1) by auto
  show "distinct (all_symbols conf_kst)" by (rule distinct_symbols [OF conf_list(1)]) (simp add: conf_syms_def)
qed

lemma conf_card: "card (invalid conf_kst \<union> set (all_symbols conf_kst)) < 7"
  unfolding conf_kst_invalid conf_all by (simp add: conf_syms_def)

lemma conf_choices: "choices_ok conf_kst"
  by (simp add: choices_ok_def conf_types)

text \<open>The lines of the symbols.\<close>

lemma conf_values: "s \<in> set conf_syms \<Longrightarrow> value_ok (tab conf_kst s) \<and> text_line (the (config_line conf_kst s)) \<and>
    (\<exists>n. s_name (tab conf_kst s) = Some n \<and> tidy_name n)"
proof -
  let ?P = "\<lambda>s. value_ok (tab conf_kst s) \<and> last (the (config_line conf_kst s)) = NL \<and>
    NL \<notin> set (butlast (the (config_line conf_kst s))) \<and> length (the (config_line conf_kst s)) < 1000 \<and>
    the (config_line conf_kst s) \<noteq> [] \<and>
    (case s_name (tab conf_kst s) of None \<Rightarrow> False | Some n \<Rightarrow> tidy_name n)"
  have l: "list_all ?P conf_syms" by code_simp
  assume s: "s \<in> set conf_syms"
  note p = bspec [OF l [unfolded list_all_iff] s]
  have "the (config_line conf_kst s) = butlast (the (config_line conf_kst s)) @ [NL]"
    using append_butlast_last_id [of "the (config_line conf_kst s)"] p by simp
  then have "text_line (the (config_line conf_kst s))" unfolding text_line_def
    by (rule exI [of _ "butlast (the (config_line conf_kst s))", OF conjI]) (use p in auto)
  with p show ?thesis by (auto split: option.splits)
qed

lemma conf_menu_syms: "m_sym (conf_menus m) = Some s \<Longrightarrow> s \<in> set conf_syms"
  by (auto simp: conf_menus_def conf_syms_def new_menu_def split: if_splits)

lemma demo_header: "header_ok demo_os ''2.6.19''"
proof -
  have "title_ok (''Linux kernel version: '' @ ''2.6.19'')" "title_ok ''Thu Nov 30 09:00:00 2006''" by code_simp+
  then show ?thesis by (simp add: header_ok_def demo_os_def demo_date_def)
qed

lemma conf_demo_ok: "config_ok demo_os conf_mst conf_trees"
proof -
  have "menu_ok conf_kst conf_menus m" for m
  proof (cases "m_sym (conf_menus m)")
    case None
    have "title_ok (printed (Some ''General setup''))" by code_simp
    with None show ?thesis by (auto simp: menu_ok_def conf_menus_def new_menu_def prop_alloc_def)
  next
    case (Some s)
    with conf_values [OF conf_menu_syms [OF Some]] show ?thesis by (simp add: menu_ok_def)
  qed
  moreover have "fseg conf_menus 0 (m_list (conf_menus 0)) conf_trees None" by (simp add: conf_trees_def conf_menus_def new_menu_def)
  moreover have "root_ok conf_menus" by (simp add: root_ok_def conf_menus_def new_menu_def)
  moreover have "sym_lookup (Some ''KERNELVERSION'') False conf_kst = (Sym 4, conf_kst)"
  proof -
    have f: "Sym 4 \<in> chained conf_kst" "s_name (tab conf_kst (Sym 4)) = Some ''KERNELVERSION''" "\<not> s_const (tab conf_kst (Sym 4))"
      unfolding table_of_list(1) [OF conf_list] by (simp_all add: conf_syms_def conf_defs)
    from find_chained [OF conf_table this] show ?thesis by (simp add: sym_lookup_named)
  qed
  moreover have "string_value conf_kst (Sym 4) = VStr ''2.6.19''" by (simp add: string_value_def conf_defs)
  moreover note demo_header
  moreover have "modules_sym conf_kst \<noteq> None" "sym_change_count conf_kst \<noteq> 0" by (simp_all add: conf_kst_def)
  ultimately show ?thesis using conf_kst_good conf_kst_invalid unfolding config_ok_def by (auto simp: conf_mst_def)
qed

lemma conf_fin_ok: "fin_ok conf_mst"
proof -
  have p: "s_props (tab conf_kst s) = [] \<and> s_rev_dep (tab conf_kst s) = None \<and> unmarked (tab conf_kst s)" for s
    by (cases s) (simp_all add: conf_defs unmarked_def)
  have c: "s_const (tab conf_kst s) \<longrightarrow> s_type (tab conf_kst s) = S_UNKNOWN" for s by (cases s) (simp_all add: conf_defs)
  have yn: "s_const (tab conf_kst symbol_yes)" "s_const (tab conf_kst symbol_mod)" "s_const (tab conf_kst symbol_no)"
    by (simp_all add: conf_defs)
  have v: "\<not> s_const (tab conf_kst (Sym i))" for i by (simp add: conf_defs)
  have "bound_syms conf_kst = {}" by (simp add: bound_syms_def p)
  then have "tab_wf conf_kst" unfolding tab_wf_def consts_typed_def choice_wf_def using p c yn conf_types(3) by (simp only: list.pred_inject) simp
  moreover have "menu_wf conf_kst (conf_menus m)" for m
  proof -
    have "\<not> s_const (tab conf_kst s)" if "m_sym (conf_menus m) = Some s" for s
      using conf_menu_syms [OF that] v by (auto simp: conf_syms_def)
    moreover have "m_prompt (conf_menus m) = None \<or> m = 1" by (simp add: conf_menus_def new_menu_def)
    moreover have "m_sym (conf_menus 1) = None" "\<exists>p. m_prompt (conf_menus 1) = Some (MenuProp p) \<and> p_type p = P_MENU"
      by (simp_all add: conf_menus_def new_menu_def prop_alloc_def)
    ultimately show ?thesis unfolding menu_wf_def by auto
  qed
  ultimately show ?thesis by (simp add: fin_ok_def conf_mst_def)
qed

section \<open>Properties\<close>

text \<open>C11: what \<open>conf_write\<close> writes is read back. All values being known, \<open>conf_write\<close> succeeds on a
  file of the current directory, and \<open>conf_read_simple\<close> reads the new file into any table that was
  made from the same declarations, such as that of a later run: every symbol that was
  written, of whatever type, is then set by the user to the value that it had, quotes and
  backslashes of strings included.\<close>

theorem conf_write_read:
  assumes c: "config_ok os st ts"
    and w: "\<forall>s \<in> written st ts. s \<in> set (all_symbols (ksyms st)) \<and> (\<exists>n. s_name (tab (ksyms st) s) = Some n \<and> name_ok n)"
    and f: "plain_name os f" "\<forall>p. o_open os p" "\<forall>p q. o_rename os p q"
    and k: "good k" "table_inv k" "choices_ok k" "\<forall>s. s_type (tab k s) \<noteq> S_OTHER" "same_decls (ksyms st) k"
    and r: "card (invalid k \<union> set (all_symbols k)) < r"
  shows "\<exists>fs' k1 ws k2. conf_write (Suc n) os (Some f) st fs = Some (False, fs', k1) \<and>
    conf_read_simple r getenv fs' stale dl (Some f) S_DEF_USER k = Some (Some ws, k2) \<and>
    (\<forall>s \<in> written st ts. s_def_user (tab k2 s) \<and>
      (if boolish (s_type (tab (ksyms st) s)) then s_user_tri (tab k2 s) = s_tri (tab (ksyms st) s)
       else s_user_val (tab k2 s) = s_val (tab (ksyms st) s)))"
proof -
  from config_text_items [OF c, of n] obtain its k1 where
    t: "config_text (Suc n) os st = Some (concat (map (item_line (ksyms st)) its), k1)"
    and i: "list_all (item_ok (ksyms st)) its" "distinct (item_values its)" "set (item_values its) = written st ts" by blast
  from conf_write_file [OF t f(1), of fs] f(2,3) obtain fs' where
    fw: "conf_write (Suc n) os (Some f) st fs = Some (False, fs', k1\<lparr>sym_change_count := 0\<rparr>)"
    "fs' f = Some (concat (map (item_line (ksyms st)) its))" by blast
  have rd: "readable S_DEF_USER (ksyms st) (conf_reset S_DEF_USER k) s" if "s \<in> set (item_values its)" for s
    using readable_reset [OF k(2,5) _ written_value_ok [OF c] _ _ written_no_choice] w that i(3) by blast
  have o: "\<And>s. s_type (tab k s) \<noteq> S_OTHER" using k(4) by simp
  from read_items [where fs = fs' and name = f, OF i(1,2) rd k(1,3) o fw(2) r] obtain ws k2 where
    k2: "conf_read_simple r getenv fs' stale dl (Some f) S_DEF_USER k = Some (Some ws, k2)"
    "\<And>s. s \<in> set (item_values its) \<Longrightarrow> same_static (save S_DEF_USER (tab (ksyms st) s) (tab (conf_reset S_DEF_USER k) s)) (tab k2 s)"
    by blast
  have "s_def_user (tab k2 s) \<and>
      (if boolish (s_type (tab (ksyms st) s)) then s_user_tri (tab k2 s) = s_tri (tab (ksyms st) s)
       else s_user_val (tab k2 s) = s_val (tab (ksyms st) s))" if "s \<in> written st ts" for s
    using k2(2) [of s] that i(3) by (simp add: same_static_def save_def user_defs)
  with fw(1) k2(1) show ?thesis by blast
qed

theorem conf_write_read_witness:
  "\<exists>fs' k1 ws k2. conf_write 1 demo_os (Some ''.config'') conf_mst (\<lambda>_. None) = Some (False, fs', k1) \<and>
    conf_read_simple 7 (\<lambda>_. None) fs' (\<lambda>_. []) None (Some ''.config'') S_DEF_USER conf_kst = Some (Some ws, k2) \<and>
    s_user_val (tab k2 (Sym 1)) = VStr [CHR ''a'', QUOTE, BACKSLASH] \<and> s_user_tri (tab k2 (Sym 3)) = Mod"
proof -
  have w: "s \<in> set conf_syms" if "s \<in> written conf_mst conf_trees" for s
    using that conf_menu_syms by (auto simp: written_def menu_values_def conf_mst_def)
  have all: "\<forall>s \<in> written conf_mst conf_trees. s \<in> set (all_symbols (ksyms conf_mst)) \<and>
      (\<exists>n. s_name (tab (ksyms conf_mst) s) = Some n \<and> name_ok n)"
  proof
    fix s assume "s \<in> written conf_mst conf_trees"
    from w [OF this] conf_values [OF w [OF this]] show "s \<in> set (all_symbols (ksyms conf_mst)) \<and>
      (\<exists>n. s_name (tab (ksyms conf_mst) s) = Some n \<and> name_ok n)" by (auto simp: conf_mst_def conf_all tidy_name_def)
  qed
  have p: "plain_name demo_os ''.config''" by code_simp
  have o: "\<forall>p. o_open demo_os p" "\<forall>p q. o_rename demo_os p q" by (simp_all add: demo_os_def)
  have ty: "\<forall>s. s_type (tab conf_kst s) \<noteq> S_OTHER" using conf_types by simp
  have sd: "same_decls (ksyms conf_mst) conf_kst" by (simp add: conf_mst_def)
  have in_w: "Sym 1 \<in> written conf_mst conf_trees" "Sym 3 \<in> written conf_mst conf_trees"
    by (simp_all add: written_def menu_values_def conf_mst_def conf_trees_def conf_menus_def new_menu_def conf_defs)
  from conf_write_read [OF conf_demo_ok all p o conf_kst_good conf_table conf_choices ty sd conf_card, of 0 "\<lambda>_. None" "\<lambda>_. None" "\<lambda>_. []" None]
  obtain fs' k1 ws k2 where
    "conf_write (Suc 0) demo_os (Some ''.config'') conf_mst (\<lambda>_. None) = Some (False, fs', k1)"
    "conf_read_simple 7 (\<lambda>_. None) fs' (\<lambda>_. []) None (Some ''.config'') S_DEF_USER conf_kst = Some (Some ws, k2)"
    and v: "\<forall>s \<in> written conf_mst conf_trees. s_def_user (tab k2 s) \<and>
      (if boolish (s_type (tab (ksyms conf_mst) s)) then s_user_tri (tab k2 s) = s_tri (tab (ksyms conf_mst) s)
       else s_user_val (tab k2 s) = s_val (tab (ksyms conf_mst) s))" by blast
  moreover have "s_user_val (tab k2 (Sym 1)) = VStr [CHR ''a'', QUOTE, BACKSLASH]"
    using bspec [OF v in_w(1)] by (simp add: conf_mst_def conf_defs)
  moreover have "s_user_tri (tab k2 (Sym 3)) = Mod" using bspec [OF v in_w(2)] by (simp add: conf_mst_def conf_defs)
  ultimately show ?thesis unfolding One_nat_def by blast
qed



text \<open>The menus form a tree in the order of the text. However the parser nests menus, as long as it
  closes only what it opened, its calls succeed and number the menus in the order of the
  entries; and the walk of \<open>conf_write\<close> along the pointers then ends and visits every menu exactly once,
  in that order, whatever it does at a menu.\<close>

theorem menu_build_walk:
  assumes "menus st0 rootmenu = new_menu None None" and "m_used st0 = 1" and "balanced 0 es"
  shows "\<exists>st. run_events es (menu_init st0) = Some st \<and> menu_syms st = entries es \<and>
    (\<forall>visit (a :: 'a). menu_walk visit (menus st) (m_list (menus st rootmenu)) a = visits visit [1..<m_used st] a)"
proof -
  have "building (menu_init st0) [(rootmenu, [])]"
    using assms(1,2) by (simp add: building_def menu_init_def root_ok_def new_menu_def tail_ptr_def)
  moreover have "menu_syms (menu_init st0) = []" using assms(2) by (simp add: menu_syms_def menu_init_def)
  ultimately obtain st fr where st: "run_events es (menu_init st0) = Some st" "building st fr" "menu_syms st = entries es"
    using building_events [of "menu_init st0" "[(rootmenu, [])]" es] assms(3) by auto
  from st(2) have ids: "frame_ids fr = [0..<m_used st]" and sp: "spine (menus st) fr None" by (simp_all add: building_def)
  from spine_close [OF sp] ids have t: "root_ok (menus st)" "fseg (menus st) rootmenu (m_list (menus st rootmenu)) (close_frames fr) None"
    and p: "preorders (close_frames fr) = tl [0..<m_used st]" by auto
  have "tl [0..<m_used st] = [1..<m_used st]" using building_used [OF st(2)] by (simp add: upt_rec)
  with st walk_tree [OF t] p show ?thesis by auto
qed

theorem menu_build_walk_witness:
  "\<exists>st. run_events [Open None, Entry (Some (Sym 0)), Open (Some (Sym 1)), Close, Close, Entry (Some (Sym 2))]
      (menu_init empty_mst) = Some st \<and> menu_syms st = [None, Some (Sym 0), Some (Sym 1), Some (Sym 2)] \<and>
    menu_walk (\<lambda>m ms. Some (ms @ [m])) (menus st) (m_list (menus st rootmenu)) [] = Some [1..<m_used st]"
proof -
  have 1: "menus empty_mst rootmenu = new_menu None None" "m_used empty_mst = 1" by (simp_all add: empty_mst_def)
  let ?es = "[Open None, Entry (Some (Sym 0)), Open (Some (Sym 1)), Close, Close, Entry (Some (Sym 2))]"
  have 2: "balanced 0 ?es" by simp
  have v: "visits (\<lambda>m ms. Some (ms @ [m])) ns ms = Some (ms @ ns)" for ns ms by (induction ns arbitrary: ms) simp_all
  from menu_build_walk [OF 1 2] obtain st where "run_events ?es (menu_init empty_mst) = Some st" "menu_syms st = entries ?es"
    "\<forall>visit (a :: nat list). menu_walk visit (menus st) (m_list (menus st rootmenu)) a = visits visit [1..<m_used st] a" by blast
  then show ?thesis by (simp add: v)
qed

text \<open>C14: \<open>menu_finalize\<close> returns and keeps the order of the menus. For every tree of menus whose
  prompts and properties are as the parser makes them it comes to an end, without using a null pointer; and
  although it makes submenus of the entries that depend on the one before them and merges menus without a prompt into
  their parents, a walk along the pointers visits the same menus in the same order as before.\<close>

theorem menu_finalize_order:
  assumes "fin_ok st" and "root_ok (menus st)" and "fseg (menus st) rootmenu (m_list (menus st rootmenu)) ts None"
    and "distinct (rootmenu # preorders ts)" and "length (preorders ts) < n"
  shows "\<exists>st'. menu_finalize n rootmenu st = Some st' \<and> fin_ok st' \<and> (\<forall>m. m_sym (menus st' m) = m_sym (menus st m)) \<and>
    (\<forall>visit (a :: 'a). menu_walk visit (menus st') (m_list (menus st' rootmenu)) a =
      menu_walk visit (menus st) (m_list (menus st rootmenu)) a)"
proof -
  obtain st' ts' where f: "menu_finalize n rootmenu st = Some st'" "fin_ok st'" "\<And>m. m_sym (menus st' m) = m_sym (menus st m)"
    and t: "root_ok (menus st')" "fseg (menus st') rootmenu (m_list (menus st' rootmenu)) ts' None" "preorders ts' = preorders ts"
    by (rule finalize_root [OF assms]) blast
  have "menu_walk visit (menus st') (m_list (menus st' rootmenu)) a = menu_walk visit (menus st) (m_list (menus st rootmenu)) a"
    for visit and a :: 'a by (simp only: walk_tree [OF assms(2,3)] walk_tree [OF t(1,2)] t(3))
  with f show ?thesis by blast
qed

theorem menu_finalize_order_witness:
  "\<exists>st'. menu_finalize 7 rootmenu conf_mst = Some st' \<and> fin_ok st' \<and>
    menu_walk (\<lambda>m ms. Some (ms @ [m])) (menus st') (m_list (menus st' rootmenu)) [] = Some [1, 2, 3, 4, 5, 6]"
proof -
  have r: "root_ok (menus conf_mst)" by (simp add: root_ok_def conf_mst_def conf_menus_def new_menu_def)
  have f: "fseg (menus conf_mst) rootmenu (m_list (menus conf_mst rootmenu)) conf_trees None"
    by (simp add: conf_mst_def conf_trees_def conf_menus_def new_menu_def)
  have p: "preorders conf_trees = [1, 2, 3, 4, 5, 6]" by (simp add: conf_trees_def)
  then have d: "distinct (rootmenu # preorders conf_trees)" "length (preorders conf_trees) < 7" by simp_all
  have "menu_walk (\<lambda>m ms. Some (ms @ [m])) (menus conf_mst) (m_list (menus conf_mst rootmenu)) [] = Some [1, 2, 3, 4, 5, 6]"
    using walk_tree [OF r f, of "\<lambda>m ms. Some (ms @ [m])" "[]"] unfolding p by simp
  moreover obtain st' where st': "menu_finalize 7 rootmenu conf_mst = Some st'" "fin_ok st'"
    and w: "\<forall>visit (a :: nat list). menu_walk visit (menus st') (m_list (menus st' rootmenu)) a =
      menu_walk visit (menus conf_mst) (m_list (menus conf_mst rootmenu)) a"
    using menu_finalize_order [OF conf_fin_ok r f d] by blast
  ultimately show ?thesis by (intro exI [of _ st']) (simp only: st' w simp_thms)
qed



text \<open>C15: a build that changes nothing touches nothing. The text that \<open>conf_write_autoconf\<close> writes to
  \<open>auto.conf\<close> is read back by \<open>conf_split_config\<close> of the next run so that, as long as the values are the same, no symbol
  counts as changed: neither those with a line nor those whose value \<open>n\<close> has none.\<close>

theorem autoconf_stable:
  assumes "good st" and "table_inv st" and "choices_ok st" and "invalid st = {}" and "distinct (all_symbols st)"
    and "\<forall>s \<in> set (all_symbols st). s_write (tab st s) \<longrightarrow> s_name (tab st s) \<noteq> None \<longrightarrow>
      value_ok (tab st s) \<and> text_line (the (config_line st s)) \<and> (\<forall>m. s_name (tab st s) = Some m \<longrightarrow> name_ok m)"
    and "\<forall>s \<in> set (all_symbols st). s_choice (tab st s) \<longrightarrow> s_name (tab st s) = None"
    and "header_ok (auto_os date) version"
  shows "\<exists>ls hs ws k. autoconf_lines (sym_calc_value (Suc n)) (all_symbols st) st = Some ((ls, hs), st) \<and>
    conf_lines S_DEF_AUTO stale 0 (file_lines (fst (autoconf_headers version date) @ concat ls)) (conf_reset S_DEF_AUTO st) = Some (ws, k) \<and>
    (\<forall>s \<in> set (all_symbols st). conf_changed (tab k s) = Some False)"
proof -
  let ?its = "header_items (auto_os date) version @ map Value (filter (in_auto st) (all_symbols st))"
  from autoconf_lines_text [OF assms(4), of "all_symbols st" n] assms(6) obtain ls hs where
    l: "autoconf_lines (sym_calc_value (Suc n)) (all_symbols st) st = Some ((ls, hs), st)"
    "concat ls = concat (map (item_line st) (map Value (filter (in_auto st) (all_symbols st))))" by blast
  have vals: "item_values ?its = filter (in_auto st) (all_symbols st)" using header_items_ok(2) [OF assms(8)] by simp
  have "list_all (item_ok st) (map Value (filter (in_auto st) (all_symbols st)))"
    using assms(6) by (auto simp: list_all_iff item_ok_def in_auto_def)
  then have ok: "list_all (item_ok st) ?its" using header_items_ok(1) [OF assms(8)] by simp
  have lines: "file_lines (fst (autoconf_headers version date) @ concat ls) = map (item_line st) ?its"
    using file_lines_concat [OF items_lines [OF ok]] header_items_text [OF assms(8), of st] l(2) by (simp add: auto_header)
  have rd: "readable S_DEF_AUTO st (conf_reset S_DEF_AUTO st) s" if "s \<in> set (item_values ?its)" for s
  proof -
    have s: "s \<in> set (all_symbols st)" "in_auto st s" using that unfolding vals by simp_all
    then obtain m where m: "s_name (tab st s) = Some m" by (auto simp: in_auto_def)
    with s assms(6,7) show ?thesis by (intro readable_reset [OF assms(2) same_decls_refl s(1) _ m]) (auto simp: in_auto_def)
  qed
  have d: "distinct (item_values ?its)" using assms(5) unfolding vals by simp
  from conf_lines_items [OF ok d choices_ok_reset [OF assms(3)] rd] obtain ws k where
    k: "conf_lines S_DEF_AUTO stale 0 (map (item_line st) ?its) (conf_reset S_DEF_AUTO st) = Some (ws, k)"
    "reads S_DEF_AUTO (conf_reset S_DEF_AUTO st) k"
    and have_in: "\<And>t. t \<in> set (item_values ?its) \<Longrightarrow> tab k t = save S_DEF_AUTO (tab st t) (tab (conf_reset S_DEF_AUTO st) t)"
    and not_in: "\<And>t. t \<notin> set (item_values ?its) \<Longrightarrow> \<not> s_choice (tab (conf_reset S_DEF_AUTO st) t) \<Longrightarrow> tab k t = tab (conf_reset S_DEF_AUTO st) t"
    by blast
  have "conf_changed (tab k s) = Some False" if s: "s \<in> set (all_symbols st)" for s
    by (rule saved_unchanged [OF k(2) s]) (use s assms(6,7) have_in [unfolded vals, of s] not_in [unfolded vals, of s] in \<open>simp_all add: reset_field\<close>)
  with l(1) k(1) lines show ?thesis by auto
qed

theorem autoconf_stable_witness:
  "\<exists>ls hs ws k. autoconf_lines (sym_calc_value 1) (all_symbols conf_kst) conf_kst = Some ((ls, hs), conf_kst) \<and>
    conf_lines S_DEF_AUTO (\<lambda>_. []) 0 (file_lines (fst (autoconf_headers ''2.6.19'' demo_date) @ concat ls))
      (conf_reset S_DEF_AUTO conf_kst) = Some (ws, k) \<and> conf_changed (tab k (Sym 1)) = Some False"
proof -
  have v: "\<forall>s \<in> set (all_symbols conf_kst). s_write (tab conf_kst s) \<longrightarrow> s_name (tab conf_kst s) \<noteq> None \<longrightarrow>
      value_ok (tab conf_kst s) \<and> text_line (the (config_line conf_kst s)) \<and> (\<forall>m. s_name (tab conf_kst s) = Some m \<longrightarrow> name_ok m)"
    using conf_values by (fastforce simp: conf_all tidy_name_def)
  have c: "\<forall>s \<in> set (all_symbols conf_kst). s_choice (tab conf_kst s) \<longrightarrow> s_name (tab conf_kst s) = None"
    by (simp add: conf_types)
  have h: "header_ok (auto_os demo_date) ''2.6.19''" using demo_header by (simp add: header_ok_def demo_os_def auto_os_def)
  have "Sym 1 \<in> set (all_symbols conf_kst)" by (simp add: conf_all conf_syms_def)
  with autoconf_stable [OF conf_kst_good conf_table conf_choices conf_kst_invalid conf_all(2) v c h, of 0 "\<lambda>_. []"] show ?thesis
    unfolding One_nat_def by blast
qed

text \<open>C17: growable strings never overrun their buffer. However often \<open>str_append\<close> and \<open>str_printf\<close> are called on
  a new string, they stay inside of it although \<open>str_new\<close> records a wrong length, and the string is the concatenation
  of the pieces, those of \<open>str_printf\<close> cut to 9999 characters.\<close>

theorem gstr_appends_safe:
  "\<exists>gs. gstr_ops ops str_new = Some gs \<and> str_get gs = Some (concat (map gop_text ops)) \<and> gstr_ok gs"
proof -
  have "\<exists>gs'. gstr_ops ops gs = Some gs' \<and> g_s gs' = Some (d @ concat (map gop_text ops)) \<and> gstr_ok gs'"
    if "gstr_ok gs" "g_s gs = Some d" for gs d
    using that
  proof (induction ops arbitrary: gs d)
    case (Cons p ops)
    obtain gs1 where "str_append gs (gop_text p) = Some gs1" "gstr_ok gs1" "g_s gs1 = Some (d @ gop_text p)"
      by (rule str_append_ok [OF Cons.prems])
    moreover have "gstr_op p gs = str_append gs (gop_text p)" by (cases p) (simp_all add: str_printf_def)
    ultimately show ?case using Cons.IH [of gs1 "d @ gop_text p"] by simp
  qed simp
  from this [OF str_new_ok, of "[]"] show ?thesis by (auto simp: str_get_def str_new_def)
qed

end
