(* ===== verification/Kconf_Parse.thy ===== *)
theory Kconf_Parse
  imports Kconf_Finalize
begin

text \<open>
  The actions of the parser of \<open>Kconfig\<close> files, \<open>scripts/kconfig/zconf.y\<close>, and \<open>conf_parse\<close>. The
  statements are given as a tree, the text of a \<open>source\<close> statement in its place, so that every block has its end; what the
  grammar ignores, such as \<open>mainmenu\<close>, is left out. Blocks may hold all statements, also where the grammar
  does not have them in a choice. The actions run in the order in which the parser
  reduces the rules. \<open>None\<close> stands for a null pointer and for the errors with which \<open>conf_parse\<close>
  ends the program.
\<close>

section \<open>Statements\<close>

datatype ksym = Word string | Quoted string

datatype kexpr = KSym ksym | KEqual ksym ksym | KUnequal ksym ksym | KNot kexpr | KOr kexpr kexpr | KAnd kexpr kexpr

text \<open>Options of \<open>config\<close> and \<open>menuconfig\<close>: types with an optional prompt, defaults with the type of
  the keyword, and the tokens of \<open>option\<close>, \<open>None\<close> for an unknown one.\<close>

datatype koption =
    OType symbol_type "(string \<times> kexpr option) option"
  | OPrompt string "kexpr option"
  | ODefault symbol_type kexpr "kexpr option"
  | OSelect string "kexpr option"
  | ORange ksym ksym "kexpr option"
  | OOption "opt_token option list"
  | ODepends kexpr
  | OHelp string

datatype choption =
    CPrompt string "kexpr option"
  | CType symbol_type "(string \<times> kexpr option) option"
  | COptional
  | CDefault symbol_type string "kexpr option"
  | CDepends kexpr
  | CHelp string

datatype kstmt =
    Config string "koption list"
  | Menuconfig string "koption list"
  | Choice "choption list" "kstmt list"
  | IfStmt kexpr "kstmt list"
  | Menu string "kexpr list" "kstmt list"
  | Comment string "kexpr list"

section \<open>Expressions\<close>

definition lookup_sym :: "string option \<Rightarrow> bool \<Rightarrow> mst \<Rightarrow> sym \<times> mst" where
  "lookup_sym name isconst st = (case sym_lookup name isconst (ksyms st) of (s, k) \<Rightarrow> (s, st\<lparr>ksyms := k\<rparr>))"

primrec parse_sym :: "ksym \<Rightarrow> mst \<Rightarrow> sym \<times> mst" where
  "parse_sym (Word n) st = lookup_sym (Some n) False st"
| "parse_sym (Quoted n) st = lookup_sym (Some n) True st"

primrec parse_expr :: "kexpr \<Rightarrow> mst \<Rightarrow> expr \<times> mst" where
  "parse_expr (KSym a) st = (let (s, st) = parse_sym a st in (ESymbol s, st))"
| "parse_expr (KEqual a b) st = (let (s, st) = parse_sym a st; (t, st) = parse_sym b st in (EEqual s t, st))"
| "parse_expr (KUnequal a b) st = (let (s, st) = parse_sym a st; (t, st) = parse_sym b st in (EUnequal s t, st))"
| "parse_expr (KNot e) st = (let (x, st) = parse_expr e st in (ENot x, st))"
| "parse_expr (KOr e f) st = (let (x, st) = parse_expr e st; (y, st) = parse_expr f st in (EOr x y, st))"
| "parse_expr (KAnd e f) st = (let (x, st) = parse_expr e st; (y, st) = parse_expr f st in (EAnd x y, st))"

primrec parse_if :: "kexpr option \<Rightarrow> mst \<Rightarrow> expr option \<times> mst" where
  "parse_if None st = (None, st)"
| "parse_if (Some e) st = (let (x, st) = parse_expr e st in (Some x, st))"

section \<open>Options\<close>

definition depends :: "kexpr \<Rightarrow> mst \<Rightarrow> mst option" where
  "depends e st = (let (x, st) = parse_expr e st in menu_add_dep (Some x) st)"

fun depends_list :: "kexpr list \<Rightarrow> mst \<Rightarrow> mst option" where
  "depends_list [] st = Some st"
| "depends_list (e # es) st = do { st \<leftarrow> depends e st; depends_list es st }"

definition add_prompt :: "string \<Rightarrow> kexpr option \<Rightarrow> mst \<Rightarrow> mst option" where
  "add_prompt t c st = (let (d, st) = parse_if c st in map_option snd (menu_add_prompt P_PROMPT (Some t) d st))"

primrec prompt_stmt_opt :: "(string \<times> kexpr option) option \<Rightarrow> mst \<Rightarrow> mst option" where
  "prompt_stmt_opt None st = Some st"
| "prompt_stmt_opt (Some tc) st = add_prompt (fst tc) (snd tc) st"

text \<open>The help text is not kept, but it is stored in a symbol.\<close>

definition set_help :: "mst \<Rightarrow> mst option" where
  "set_help st = do { s \<leftarrow> m_sym (menus st (current_entry st)); Some st }"

fun symbol_options :: "opt_token option list \<Rightarrow> mst \<Rightarrow> mst option" where
  "symbol_options [] st = Some st"
| "symbol_options (None # ts) st = symbol_options ts (menu_warn UnknownOption st)"
| "symbol_options (Some t # ts) st = do { st \<leftarrow> menu_add_option t st; symbol_options ts st }"

primrec config_option :: "koption \<Rightarrow> mst \<Rightarrow> mst option" where
  "config_option (OType ty p) st = do { st \<leftarrow> prompt_stmt_opt p st; menu_set_type ty st }"
| "config_option (OPrompt t c) st = add_prompt t c st"
| "config_option (ODefault ty e c) st =
     (let (x, st) = parse_expr e st; (d, st) = parse_if c st in
      do { st \<leftarrow> menu_add_expr P_DEFAULT (PExpr x) d st;
           if ty \<noteq> S_UNKNOWN then menu_set_type ty st else Some st })"
| "config_option (OSelect n c) st =
     (let (d, st) = parse_if c st; (s, st) = lookup_sym (Some n) False st in menu_add_symbol P_SELECT s d st)"
| "config_option (ORange a b c) st =
     (let (lo, st) = parse_sym a st; (hi, st) = parse_sym b st; (d, st) = parse_if c st in
      menu_add_expr P_RANGE (PRange lo hi) d st)"
| "config_option (OOption ts) st = symbol_options ts st"
| "config_option (ODepends e) st = depends e st"
| "config_option (OHelp t) st = set_help st"

fun config_options :: "koption list \<Rightarrow> mst \<Rightarrow> mst option" where
  "config_options [] st = Some st"
| "config_options (x # xs) st = do { st \<leftarrow> config_option x st; config_options xs st }"

text \<open>Other types than \<open>bool\<close> and \<open>tristate\<close>, and a default with a type, are errors in a choice.\<close>

primrec choice_option :: "choption \<Rightarrow> mst \<Rightarrow> mst option" where
  "choice_option (CPrompt t c) st = add_prompt t c st"
| "choice_option (CType ty p) st =
     do { st \<leftarrow> prompt_stmt_opt p st;
          if ty = S_BOOLEAN \<or> ty = S_TRISTATE then menu_set_type ty st else None }"
| "choice_option COptional st =
     do { s \<leftarrow> m_sym (menus st (current_entry st));
          Some (upd_ksyms (upd_sym s (\<lambda>x. x\<lparr>s_optional := True\<rparr>)) st) }"
| "choice_option (CDefault ty n c) st =
     (let (d, st) = parse_if c st in
      if ty \<noteq> S_UNKNOWN then None
      else let (s, st) = lookup_sym (Some n) False st in menu_add_symbol P_DEFAULT s d st)"
| "choice_option (CDepends e) st = depends e st"
| "choice_option (CHelp t) st = set_help st"

fun choice_options :: "choption list \<Rightarrow> mst \<Rightarrow> mst option" where
  "choice_options [] st = Some st"
| "choice_options (x # xs) st = do { st \<leftarrow> choice_option x st; choice_options xs st }"

section \<open>Entries\<close>

definition config_entry_start :: "string \<Rightarrow> mst \<Rightarrow> mst" where
  "config_entry_start n st =
     (let (s, st) = lookup_sym (Some n) False st;
          st = upd_ksyms (upd_sym s (\<lambda>x. x\<lparr>s_optional := True\<rparr>)) st in
      menu_add_entry (Some s) st)"

text \<open>\<open>current_entry->prompt->type = P_MENU\<close>.\<close>

definition menuconfig_end :: "mst \<Rightarrow> mst option" where
  "menuconfig_end st =
     (case m_prompt (menus st (current_entry st)) of
        None \<Rightarrow> Some (menu_warn MenuconfigNoPrompt st)
      | Some (SymProp s i) \<Rightarrow>
          if i < length (s_props (tab (ksyms st) s))
          then Some (upd_ksyms (upd_sym s (\<lambda>x. x\<lparr>s_props := (s_props x)[i := (s_props x ! i)\<lparr>p_type := P_MENU\<rparr>]\<rparr>)) st)
          else None
      | Some (MenuProp p) \<Rightarrow>
          Some (upd_menu (current_entry st) (\<lambda>x. x\<lparr>m_prompt := Some (MenuProp (p\<lparr>p_type := P_MENU\<rparr>))\<rparr>) st))"

definition choice_start :: "mst \<Rightarrow> mst option" where
  "choice_start st =
     (let (s, st) = lookup_sym None False st;
          st = upd_ksyms (upd_sym s (\<lambda>x. x\<lparr>s_choice := True\<rparr>)) st;
          st = menu_add_entry (Some s) st in
      menu_add_expr P_CHOICE PNone None st)"

definition if_start :: "kexpr \<Rightarrow> mst \<Rightarrow> mst option" where
  "if_start e st =
     (let (x, st) = parse_expr e st; st = menu_add_entry None st in menu_add_dep (Some x) st)"

definition titled_entry :: "prop_type \<Rightarrow> string \<Rightarrow> mst \<Rightarrow> mst option" where
  "titled_entry ty t st = map_option snd (menu_add_prompt ty (Some t) None (menu_add_entry None st))"

fun parse_stmt :: "kstmt \<Rightarrow> mst \<Rightarrow> mst option" and parse_stmts :: "kstmt list \<Rightarrow> mst \<Rightarrow> mst option" where
  "parse_stmt (Config n xs) st = config_options xs (config_entry_start n st)"
| "parse_stmt (Menuconfig n xs) st = do { st \<leftarrow> config_options xs (config_entry_start n st); menuconfig_end st }"
| "parse_stmt (Choice xs ss) st =
     do { st \<leftarrow> choice_start st;
          st \<leftarrow> choice_options xs st;
          st \<leftarrow> parse_stmts ss (menu_add_menu st);
          menu_end_menu st }"
| "parse_stmt (IfStmt e ss) st =
     do { st \<leftarrow> if_start e st;
          st \<leftarrow> parse_stmts ss (menu_add_menu st);
          menu_end_menu st }"
| "parse_stmt (Menu t ds ss) st =
     do { st \<leftarrow> titled_entry P_MENU t st;
          st \<leftarrow> depends_list ds st;
          st \<leftarrow> parse_stmts ss (menu_add_menu st);
          menu_end_menu st }"
| "parse_stmt (Comment t ds) st = do { st \<leftarrow> titled_entry P_COMMENT t st; depends_list ds st }"
| "parse_stmts [] st = Some st"
| "parse_stmts (s # ss) st = do { st \<leftarrow> parse_stmt s st; parse_stmts ss st }"

section \<open>The whole configuration\<close>

text \<open>The table before anything is parsed has only the three constants.\<close>

primrec static_tab :: "sym \<Rightarrow> symbol" where
  "static_tab symbol_yes = const_sym ''y'' Yes"
| "static_tab symbol_mod = const_sym ''m'' Mod"
| "static_tab symbol_no = const_sym ''n'' No"
| "static_tab (Sym i) = new_symbol None False"

definition static_kst :: kst where
  "static_kst =
     \<lparr>tab = static_tab, hash = (\<lambda>_. []), used = 0, prop_tri = (\<lambda>_. No), menu_changed = (\<lambda>_. False),
      modules_sym = None, modules_val = No, sym_change_count = 0\<rparr>"

definition static_mst :: mst where
  "static_mst =
     \<lparr>menus = (\<lambda>_. new_menu None None), m_used = 1, current_entry = rootmenu, current_menu = None,
      last_entry_ptr = ListOf rootmenu, ksyms = static_kst, defconfig_list = None, warnings = [],
      warned = (\<lambda>_. False)\<rparr>"

fun check_all :: "nat \<Rightarrow> sym list \<Rightarrow> kst \<Rightarrow> (string \<times> kst) option" where
  "check_all n [] k = Some ([], k)"
| "check_all n (s # ss) k =
     do { (r, out, k) \<leftarrow> sym_check_deps n s k;
          (out', k) \<leftarrow> check_all n ss k;
          Some (out @ out', k) }"

text \<open>Everything before the parser runs, on a table with the values of \<open>getenv\<close> and \<open>uname\<close>.\<close>

definition parse_init :: "string option \<Rightarrow> string option \<Rightarrow> string \<Rightarrow> mst \<Rightarrow> mst option" where
  "parse_init arch kernelversion release st =
     (let st = menu_init (upd_ksyms (\<lambda>k. snd (sym_init False arch kernelversion release k)) st);
          (m, st) = lookup_sym None False st;
          st = upd_ksyms (\<lambda>k. (upd_sym m (\<lambda>x. x\<lparr>s_type := S_BOOLEAN, s_auto := True\<rparr>) k)\<lparr>modules_sym := Some m\<rparr>) st in
      map_option snd (menu_add_prompt P_MENU (Some ''Linux Kernel Configuration'') None st))"

definition modules_default :: "mst \<Rightarrow> mst option" where
  "modules_default st =
     do { m \<leftarrow> modules_sym (ksyms st);
          Some (if s_props (tab (ksyms st) m) = []
                then let (s, st) = lookup_sym (Some ''MODULES'') False st in
                     upd_ksyms (add_prop m ((prop_alloc P_DEFAULT m)\<lparr>p_expr := PExpr (ESymbol s)\<rparr>)) st
                else st) }"

text \<open>The result has the text of the dependency check.\<close>

definition conf_parse :: "nat \<Rightarrow> nat \<Rightarrow> string option \<Rightarrow> string option \<Rightarrow> string \<Rightarrow> kstmt list \<Rightarrow> mst \<Rightarrow> (string \<times> mst) option" where
  "conf_parse n d arch kernelversion release ss st =
     do { st \<leftarrow> parse_init arch kernelversion release st;
          st \<leftarrow> parse_stmts ss st;
          st \<leftarrow> modules_default st;
          st \<leftarrow> menu_finalize n rootmenu st;
          (out, k) \<leftarrow> check_all d (all_symbols (ksyms st)) (ksyms st);
          Some (out, st\<lparr>ksyms := k\<lparr>sym_change_count := 1\<rparr>\<rparr>) }"

end
