(* ===== verification/Kconf_Parse_Props.thy ===== *)
theory Kconf_Parse_Props
  imports Kconf_Parse Kconf_Finalize_Tree
begin

text \<open>
  What the actions of the parser promise: they never use a null pointer, the properties and
  prompts they make are what \<open>menu_finalize\<close> and the dependency check rely on, and the menus are
  linked in the order of the text.
\<close>

section \<open>The table while parsing\<close>

definition in_use :: "kst \<Rightarrow> sym \<Rightarrow> bool" where
  "in_use k s = (case s of Sym i \<Rightarrow> i < used k | _ \<Rightarrow> True)"

text \<open>Symbols that are not in use are empty, and choices have no name.\<close>

definition blank :: "symbol \<Rightarrow> bool" where
  "blank x \<longleftrightarrow> s_name x = None \<and> \<not> s_const x \<and> \<not> s_choice x \<and> s_props x = [] \<and> s_rev_dep x = None"

definition ktab :: "kst \<Rightarrow> bool" where
  "ktab k \<longleftrightarrow> tab_wf k \<and> (\<forall>i. used k \<le> i \<longrightarrow> blank (tab k (Sym i))) \<and> (\<forall>h. \<forall>s \<in> set (hash k h). in_use k s) \<and>
     (\<forall>s. s_choice (tab k s) \<longrightarrow> s_name (tab k s) = None) \<and> (\<forall>m. modules_sym k = Some m \<longrightarrow> in_use k m) \<and>
     s_name (tab k symbol_yes) \<noteq> None \<and> s_name (tab k symbol_mod) \<noteq> None \<and> s_name (tab k symbol_no) \<noteq> None"

definition kstep :: "kst \<Rightarrow> kst \<Rightarrow> bool" where
  "kstep k k' \<longleftrightarrow> ktab k' \<and> used k \<le> used k' \<and> modules_sym k' = modules_sym k \<and>
     (\<forall>s. in_use k s \<longrightarrow> s_name (tab k' s) = s_name (tab k s) \<and> s_const (tab k' s) = s_const (tab k s) \<and>
        s_choice (tab k' s) = s_choice (tab k s) \<and> length (s_props (tab k s)) \<le> length (s_props (tab k' s)))"

lemma in_use_mono: "used k \<le> used k' \<Longrightarrow> in_use k s \<Longrightarrow> in_use k' s"
  by (cases s) (auto simp: in_use_def)

lemma kstep_refl: "ktab k \<Longrightarrow> kstep k k"
  by (simp add: kstep_def)

lemma kstep_alloc: "kstep k k' \<Longrightarrow> in_use k s \<Longrightarrow> in_use k' s"
  by (auto simp: kstep_def intro: in_use_mono)

lemma kstep_trans: "kstep k k1 \<Longrightarrow> kstep k1 k2 \<Longrightarrow> kstep k k2"
proof -
  assume 1: "kstep k k1" and 2: "kstep k1 k2"
  have "in_use k s \<Longrightarrow> in_use k1 s" for s using kstep_alloc [OF 1] .
  with 1 2 show ?thesis unfolding kstep_def by (metis le_trans)
qed

lemma upd_kstep:
  assumes "ktab k" and a: "in_use k s" and "s_name (f (tab k s)) = s_name (tab k s)" "s_const (f (tab k s)) = s_const (tab k s)"
    "s_choice (f (tab k s)) = s_choice (tab k s)" "length (s_props (tab k s)) \<le> length (s_props (f (tab k s)))"
    and "s_const (tab k s) \<Longrightarrow> s_type (f (tab k s)) = s_type (tab k s)"
    and "list_all (prop_wf (tab k)) (s_props (f (tab k s)))" and "choice_wf (f (tab k s))"
    and "unmarked (f (tab k s)) = unmarked (tab k s)"
  shows "kstep k (upd_sym s f k)"
proof -
  have w: "tab_wf k" using assms(1) by (simp add: ktab_def)
  have g: "grows k (upd_sym s f k)" by (rule upd_grows [OF w]) (use assms in simp_all)
  have al: "in_use (upd_sym s f k) t = in_use k t" for t by (simp add: in_use_def upd_sym_def split: sym.splits)
  have "blank (tab (upd_sym s f k) (Sym i))" if "used k \<le> i" for i
    using that assms(1) a by (auto simp: ktab_def upd_sym_def in_use_def)
  then have "ktab (upd_sym s f k)"
    using assms(1) g unfolding ktab_def al by (auto simp: grows_def upd_sym_def)
  with g show ?thesis by (simp add: kstep_def grows_def upd_sym_def)
qed

lemma upd_kstep_flags:
  assumes "ktab k" and "in_use k s" and "s_name (f (tab k s)) = s_name (tab k s)" "s_const (f (tab k s)) = s_const (tab k s)"
    "s_choice (f (tab k s)) = s_choice (tab k s)" "s_props (f (tab k s)) = s_props (tab k s)"
    and "s_const (tab k s) \<Longrightarrow> s_type (f (tab k s)) = s_type (tab k s)"
    and "unmarked (f (tab k s)) = unmarked (tab k s)"
  shows "kstep k (upd_sym s f k)"
  using assms by (intro upd_kstep) (auto simp: ktab_def tab_wf_def choice_wf_def)

lemma add_prop_kstep:
  assumes "ktab k" and "in_use k s" and "prop_wf (tab k) p"
  shows "kstep k (add_prop s p k)"
  unfolding add_prop_def using assms
  by (intro upd_kstep) (auto simp: ktab_def tab_wf_def choice_wf_def unmarked_def add_value_append)

text \<open>Lookup.\<close>

lemma insert_kstep:
  assumes "ktab k" and "insert_symbol name c h k = (s, k')"
  shows "kstep k k'" and "in_use k' s" and "tab k' s = new_symbol name c" and "s = Sym (used k)"
proof -
  have s: "s = Sym (used k)" and t: "tab k' = (tab k)(s := new_symbol name c)" and h: "hash k' = (hash k)(h := s # hash k h)"
    and u: "used k' = Suc (used k)" and m: "modules_sym k' = modules_sym k"
    using assms(2) by (auto simp: insert_symbol_def Let_def)
  note k = assms(1) [unfolded ktab_def tab_wf_def consts_typed_def]
  have b: "blank (tab k s)" using k by (simp add: s)
  have al: "in_use k' x \<longleftrightarrow> in_use k x \<or> x = s" for x by (cases x) (auto simp: in_use_def u s)
  have ne: "\<not> in_use k s" by (simp add: in_use_def s)
  have n: "s_props (new_symbol name c) = []" "\<not> s_choice (new_symbol name c)" "s_type (new_symbol name c) = S_UNKNOWN"
    "unmarked (new_symbol name c)" by (simp_all add: new_symbol_def unmarked_def)
  have other: "tab k' x = tab k x" if "x \<noteq> s" for x using that by (simp add: t)
  have pw: "prop_wf (tab k') p" if "prop_wf (tab k) p" for p
    unfolding prop_wf_def
  proof (intro conjI impI)
    assume "p_type p = P_RANGE"
    with that obtain lo hi where "p_expr p = PRange lo hi" "s_name (tab k lo) \<noteq> None" "s_name (tab k hi) \<noteq> None"
      by (auto simp: prop_wf_def)
    then show "\<exists>lo hi. p_expr p = PRange lo hi \<and> s_name (tab k' lo) \<noteq> None \<and> s_name (tab k' hi) \<noteq> None"
      using b other by (metis blank_def)
  qed (use that in \<open>simp_all add: prop_wf_def\<close>)
  have "bound_syms k' \<subseteq> insert s (bound_syms k)" by (auto simp: bound_syms_def t)
  then have "finite (bound_syms k')" using k finite_subset by blast
  moreover have "list_all (prop_wf (tab k')) (s_props (tab k' x)) \<and> choice_wf (tab k' x) \<and> unmarked (tab k' x)" for x
  proof (cases "x = s")
    case True
    then show ?thesis using n by (simp add: t choice_wf_def)
  next
    case False
    then show ?thesis using k pw by (simp add: t list_all_iff)
  qed
  moreover have "consts_typed k'" using k n by (simp add: consts_typed_def t s)
  ultimately have "tab_wf k'" by (simp add: tab_wf_def)
  moreover have "\<forall>i. used k' \<le> i \<longrightarrow> blank (tab k' (Sym i))" using k by (simp add: t s u)
  moreover have "\<forall>g. \<forall>x \<in> set (hash k' g). in_use k' x" using k by (auto simp: h al)
  moreover have "\<forall>x. s_choice (tab k' x) \<longrightarrow> s_name (tab k' x) = None" using k n by (simp add: t)
  moreover have "\<forall>x. modules_sym k' = Some x \<longrightarrow> in_use k' x" using k by (simp add: m al)
  ultimately have "ktab k'" using k by (simp add: ktab_def t s)
  moreover have "tab k' x = tab k x" if "in_use k x" for x using that ne by (intro other) auto
  ultimately show "kstep k k'" using u m by (simp add: kstep_def)
  show "in_use k' s" "tab k' s = new_symbol name c" "s = Sym (used k)" using s by (simp_all add: al t)
qed

lemma lookup_kstep:
  assumes "ktab k" and l: "sym_lookup name c k = (s, k')"
  shows "kstep k k'" and "in_use k' s" and "name \<noteq> None \<Longrightarrow> s_name (tab k' s) \<noteq> None"
    and "name = Some n \<Longrightarrow> builtin n = None \<Longrightarrow> s_name (tab k' s) = Some n \<and> s_const (tab k' s) = c"
    and "name = None \<Longrightarrow> tab k' s = new_symbol None c"
proof -
  consider (none) "name = None" | (const) m where "name = Some m" "builtin m = Some s" "k' = k"
    | (old) m where "name = Some m" "builtin m = None" "k' = k" "s \<in> set (hash k (str_hash m))" "s_name (tab k s) = Some m" "s_const (tab k s) = c"
    | (new) m where "name = Some m" "builtin m = None" "insert_symbol (Some m) c (str_hash m) k = (s, k')"
    using l by (auto simp: sym_lookup_def find_Some_iff split: option.splits)
  note c = this
  have "kstep k k' \<and> in_use k' s \<and> (name \<noteq> None \<longrightarrow> s_name (tab k' s) \<noteq> None) \<and>
      (\<forall>n. name = Some n \<longrightarrow> builtin n = None \<longrightarrow> s_name (tab k' s) = Some n \<and> s_const (tab k' s) = c) \<and>
      (name = None \<longrightarrow> tab k' s = new_symbol None c)"
  proof (cases rule: c)
    case none
    with l have "insert_symbol None c 256 k = (s, k')" by (simp add: sym_lookup_def)
    from insert_kstep [OF assms(1) this] none show ?thesis by simp
  next
    case const
    then have "s \<in> {symbol_yes, symbol_mod, symbol_no}" by (auto simp: builtin_def split: if_splits)
    with const assms(1) show ?thesis by (auto simp: kstep_refl in_use_def ktab_def)
  next
    case old
    with assms(1) show ?thesis by (auto simp: kstep_refl ktab_def)
  next
    case new
    from insert_kstep [OF assms(1) new(3)] new show ?thesis by (simp add: new_symbol_def)
  qed
  then show "kstep k k'" "in_use k' s" "name \<noteq> None \<Longrightarrow> s_name (tab k' s) \<noteq> None"
    "name = Some n \<Longrightarrow> builtin n = None \<Longrightarrow> s_name (tab k' s) = Some n \<and> s_const (tab k' s) = c"
    "name = None \<Longrightarrow> tab k' s = new_symbol None c" by blast+
qed

section \<open>Steps that keep the links\<close>

definition pok :: "mst \<Rightarrow> bool" where
  "pok st \<longleftrightarrow> ktab (ksyms st) \<and> (\<forall>m. menu_wf (ksyms st) (menus st m)) \<and>
     (\<forall>m s. m_sym (menus st m) = Some s \<longrightarrow> in_use (ksyms st) s)"

lemma pok_fin: "pok st \<Longrightarrow> fin_ok st"
  by (simp add: pok_def fin_ok_def ktab_def)

lemma pok_ktab: "pok st \<Longrightarrow> ktab (ksyms st)"
  by (simp add: pok_def)

definition keep :: "mst \<Rightarrow> mst \<Rightarrow> bool" where
  "keep st st' \<longleftrightarrow> pok st' \<and> kstep (ksyms st) (ksyms st') \<and>
     (\<forall>m. same_links (menus st' m) (menus st m) \<and> m_sym (menus st' m) = m_sym (menus st m)) \<and> m_used st' = m_used st \<and>
     current_menu st' = current_menu st \<and> last_entry_ptr st' = last_entry_ptr st \<and> current_entry st' = current_entry st"

lemma keep_refl: "pok st \<Longrightarrow> keep st st"
  by (simp add: keep_def kstep_refl pok_def)

lemma keep_trans: "keep st st1 \<Longrightarrow> keep st1 st2 \<Longrightarrow> keep st st2"
  unfolding keep_def using kstep_trans same_links_trans by metis

lemma keep_pok: "keep st st' \<Longrightarrow> pok st'"
  by (simp add: keep_def)

lemma keep_sym: "keep st st' \<Longrightarrow> m_sym (menus st' (current_entry st')) = m_sym (menus st (current_entry st))"
  by (simp add: keep_def)

lemma keep_modules: "keep st st' \<Longrightarrow> modules_sym (ksyms st') = modules_sym (ksyms st)"
  by (simp add: keep_def kstep_def)

lemma menu_wf_kstep: "menu_wf k x \<Longrightarrow> (\<And>s. m_sym x = Some s \<Longrightarrow> in_use k s) \<Longrightarrow> kstep k k' \<Longrightarrow> menu_wf k' x"
  unfolding menu_wf_def kstep_def by (auto split: option.splits prop_ref.splits intro: less_le_trans)

lemma keep_ksyms:
  assumes "pok st" and "kstep (ksyms st) (ksyms st')" and "menus st' = menus st" and "m_used st' = m_used st"
    "current_menu st' = current_menu st" "last_entry_ptr st' = last_entry_ptr st" "current_entry st' = current_entry st"
  shows "keep st st'"
proof -
  have "menu_wf (ksyms st') (menus st m)" for m
    by (rule menu_wf_kstep [OF _ _ assms(2)]) (use assms(1) in \<open>auto simp: pok_def\<close>)
  then have "pok st'" using assms(1-3) kstep_alloc [OF assms(2)] by (auto simp: pok_def kstep_def)
  with assms show ?thesis by (simp add: keep_def)
qed

lemma keep_same:
  assumes "pok st" and "ksyms st' = ksyms st" and "menus st' = menus st" and "m_used st' = m_used st"
    "current_menu st' = current_menu st" "last_entry_ptr st' = last_entry_ptr st" "current_entry st' = current_entry st"
  shows "keep st st'"
  by (rule keep_ksyms) (use assms in \<open>simp_all add: kstep_refl pok_def\<close>)

lemma keep_upd: "pok st \<Longrightarrow> kstep (ksyms st) (f (ksyms st)) \<Longrightarrow> keep st (upd_ksyms f st)"
  by (rule keep_ksyms) (simp_all add: upd_ksyms_def)

lemma keep_menu:
  assumes "pok st" and "m_sym (f (menus st m)) = m_sym (menus st m)" and "menu_wf (ksyms st) (f (menus st m))"
    and "same_links (f (menus st m)) (menus st m)"
  shows "keep st (upd_menu m f st)"
  using assms by (auto simp: keep_def pok_def upd_menu_def kstep_refl split: if_splits)

lemma keep_warn: "pok st \<Longrightarrow> keep st (menu_warn w st)"
  by (rule keep_same) (simp_all add: menu_warn_def)

section \<open>Expressions and properties\<close>

lemma lookup_keep:
  assumes "pok st" and "lookup_sym name c st = (s, st')"
  shows "keep st st'" and "in_use (ksyms st') s" and "name \<noteq> None \<Longrightarrow> s_name (tab (ksyms st') s) \<noteq> None"
    and "name = Some n \<Longrightarrow> builtin n = None \<Longrightarrow> s_name (tab (ksyms st') s) = Some n \<and> s_const (tab (ksyms st') s) = c"
    and "name = None \<Longrightarrow> tab (ksyms st') s = new_symbol None c"
proof -
  obtain k' where l: "sym_lookup name c (ksyms st) = (s, k')" and st': "st' = st\<lparr>ksyms := k'\<rparr>"
    using assms(2) by (auto simp: lookup_sym_def split: prod.splits)
  note k = lookup_kstep [OF pok_ktab [OF assms(1)] l]
  show "keep st st'" by (rule keep_ksyms [OF assms(1)]) (use k(1) in \<open>simp_all add: st'\<close>)
  show "in_use (ksyms st') s" "name \<noteq> None \<Longrightarrow> s_name (tab (ksyms st') s) \<noteq> None"
    "name = Some n \<Longrightarrow> builtin n = None \<Longrightarrow> s_name (tab (ksyms st') s) = Some n \<and> s_const (tab (ksyms st') s) = c"
    "name = None \<Longrightarrow> tab (ksyms st') s = new_symbol None c" using k by (simp_all add: st')
qed

lemma keep_named: "keep st st' \<Longrightarrow> in_use (ksyms st) s \<Longrightarrow> s_name (tab (ksyms st) s) \<noteq> None \<Longrightarrow>
    in_use (ksyms st') s \<and> s_name (tab (ksyms st') s) \<noteq> None"
  using kstep_alloc by (auto simp: keep_def kstep_def)

lemma parse_sym_keep:
  assumes "pok st" and "parse_sym a st = (s, st')"
  shows "keep st st'" and "in_use (ksyms st') s" and "s_name (tab (ksyms st') s) \<noteq> None"
  using assms lookup_keep [of st _ _ s st'] by (cases a; fastforce)+

lemma parse_expr_keep: "pok st \<Longrightarrow> keep st (snd (parse_expr e st))"
proof (induction e arbitrary: st)
  case (KSym a)
  then show ?case using parse_sym_keep(1) [OF KSym, of a] by (auto split: prod.splits)
next
  case (KEqual a b)
  obtain s st1 t st2 where p: "parse_sym a st = (s, st1)" "parse_sym b st1 = (t, st2)" by (metis surj_pair)
  from parse_sym_keep(1) [OF KEqual p(1)] parse_sym_keep(1) [OF keep_pok p(2)] p show ?case by (auto intro: keep_trans)
next
  case (KUnequal a b)
  obtain s st1 t st2 where p: "parse_sym a st = (s, st1)" "parse_sym b st1 = (t, st2)" by (metis surj_pair)
  from parse_sym_keep(1) [OF KUnequal p(1)] parse_sym_keep(1) [OF keep_pok p(2)] p show ?case by (auto intro: keep_trans)
next
  case (KOr e f)
  have "keep st (snd (parse_expr e st))" by (rule KOr.IH(1) [OF KOr.prems])
  then show ?case using keep_trans KOr.IH(2) [OF keep_pok] by (fastforce simp: split_beta)
next
  case (KAnd e f)
  have "keep st (snd (parse_expr e st))" by (rule KAnd.IH(1) [OF KAnd.prems])
  then show ?case using keep_trans KAnd.IH(2) [OF keep_pok] by (fastforce simp: split_beta)
qed (simp add: split_beta)

lemma parse_if_keep: "pok st \<Longrightarrow> keep st (snd (parse_if c st))"
  using parse_expr_keep keep_refl by (cases c) (auto simp: split_beta)

lemma check_dep_ok: "modules_sym (ksyms st) \<noteq> None \<Longrightarrow> \<exists>d. check_dep st e = Some d"
proof -
  assume "modules_sym (ksyms st) \<noteq> None"
  then obtain ms where "modules_sym (ksyms st) = Some ms" by blast
  moreover have "\<exists>d. menu_check_dep (Some ms) x = Some d" for x by (induction x) (auto simp: expr_alloc_and_def)
  ultimately show ?thesis by (cases e) (auto simp: check_dep_def)
qed

lemma add_dep_keep:
  assumes "pok st" and "modules_sym (ksyms st) \<noteq> None"
  shows "\<exists>st'. menu_add_dep dep st = Some st' \<and> keep st st'"
proof -
  from check_dep_ok [OF assms(2)] obtain d where d: "check_dep st dep = Some d" by blast
  have "keep st (upd_menu (current_entry st) (\<lambda>x. x\<lparr>m_dep := expr_alloc_and (m_dep x) d\<rparr>) st)"
    by (rule keep_menu [OF assms(1)]) (use assms(1) in \<open>auto simp: pok_def same_links_def intro: menu_wf_cong\<close>)
  with d show ?thesis by (simp add: menu_add_dep_def)
qed

text \<open>A new property is appended to the symbol of the entry, or it belongs to the entry.\<close>

lemma attach_keep:
  assumes "pok st" and "prop_wf (tab (ksyms st)) p" and "attach_prop p st = (r, st')"
  shows "keep st st'" and "p_type p \<noteq> P_SELECT \<Longrightarrow> menu_wf (ksyms st') ((menus st' (current_entry st'))\<lparr>m_prompt := Some r\<rparr>)"
proof -
  let ?x = "menus st (current_entry st)"
  have x: "menu_wf (ksyms st) ?x" using assms(1) by (simp add: pok_def)
  have "keep st st' \<and> (p_type p \<noteq> P_SELECT \<longrightarrow> menu_wf (ksyms st') ((menus st' (current_entry st'))\<lparr>m_prompt := Some r\<rparr>))"
  proof (cases "m_sym ?x")
    case None
    with assms(3) have "st' = st" "r = MenuProp p" by (auto simp: attach_prop_def)
    with None assms(1) show ?thesis by (simp add: keep_refl menu_wf_def)
  next
    case (Some s)
    then have r: "r = SymProp s (length (s_props (tab (ksyms st) s)))" and st': "st' = upd_ksyms (add_prop s p) st"
      using assms(3) by (auto simp: attach_prop_def)
    have "in_use (ksyms st) s" using assms(1) Some by (auto simp: pok_def)
    from add_prop_kstep [OF pok_ktab [OF assms(1)] this assms(2)] have k: "keep st st'" unfolding st' by (rule keep_upd [OF assms(1)])
    have "menu_wf (ksyms st') (menus st' (current_entry st'))" using keep_pok [OF k] by (simp add: pok_def)
    moreover have "s_props (tab (ksyms st') s) = s_props (tab (ksyms st) s) @ [p]" "menus st' = menus st" "current_entry st' = current_entry st"
      by (simp_all add: st' upd_ksyms_def add_prop_def upd_sym_def)
    ultimately show ?thesis using k Some by (simp add: r menu_wf_def)
  qed
  then show "keep st st'" and "p_type p \<noteq> P_SELECT \<Longrightarrow> menu_wf (ksyms st') ((menus st' (current_entry st'))\<lparr>m_prompt := Some r\<rparr>)" by blast+
qed

lemma add_prop_keep:
  assumes "pok st" and "modules_sym (ksyms st) \<noteq> None" and "prompt = None \<or> ty \<noteq> P_SELECT"
    and "\<And>p. p_type p = ty \<Longrightarrow> p_expr p = e \<Longrightarrow> prop_wf (tab (ksyms st)) p"
  shows "\<exists>r st'. menu_add_prop ty prompt e dep st = Some (r, st') \<and> keep st st'"
proof -
  from check_dep_ok [OF assms(2)] obtain d where d: "check_dep st dep = Some d" by blast
  let ?p = "\<lparr>p_type = ty, p_text = map_option (dropWhile isspace) prompt, p_visible = d, p_expr = e, p_menu = Some (current_entry st)\<rparr>"
  obtain r st1 where a: "attach_prop ?p st = (r, st1)" by (metis surj_pair)
  have w: "prop_wf (tab (ksyms st)) ?p" by (rule assms(4)) simp_all
  note k1 = attach_keep [OF assms(1) w a]
  show ?thesis
  proof (cases prompt)
    case None
    with d a k1(1) show ?thesis by (simp add: menu_add_prop_def Let_def)
  next
    case (Some t)
    let ?st2 = "if t \<noteq> [] \<and> isspace (hd t) then menu_warn LeadingSpace st1 else st1"
    let ?st3 = "if m_prompt (menus ?st2 (current_entry ?st2)) \<noteq> None then menu_warn PromptRedefined ?st2 else ?st2"
    let ?st4 = "upd_menu (current_entry ?st3) (\<lambda>x. x\<lparr>m_prompt := Some r\<rparr>) ?st3"
    have k13: "keep st1 ?st3" by (rule keep_same [OF keep_pok [OF k1(1)]]) (simp_all add: menu_warn_def)
    have "keep ?st3 ?st4"
      by (rule keep_menu [OF keep_pok [OF k13]]) (use k1(2) assms(3) Some in \<open>simp_all add: menu_warn_def same_links_def\<close>)
    then have "keep st ?st4" by (rule keep_trans [OF keep_trans [OF k1(1) k13]])
    moreover have "menu_add_prop ty prompt e dep st = Some (r, ?st4)" using d a Some by (simp add: menu_add_prop_def Let_def)
    ultimately show ?thesis by blast
  qed
qed

lemma set_type_keep:
  assumes "pok st" and "m_sym (menus st (current_entry st)) = Some s"
  shows "\<exists>st'. menu_set_type ty st = Some st' \<and> keep st st'"
proof -
  have c: "\<not> s_const (tab (ksyms st) s)" "in_use (ksyms st) s" using menu_sym_var [OF pok_fin [OF assms(1)] assms(2)] assms by (auto simp: pok_def)
  have "kstep (ksyms st) (upd_sym s (\<lambda>x. x\<lparr>s_type := ty\<rparr>) (ksyms st))"
    by (rule upd_kstep_flags [OF pok_ktab [OF assms(1)] c(2)]) (use c(1) in \<open>simp_all add: unmarked_def\<close>)
  then have "keep st (upd_ksyms (upd_sym s (\<lambda>x. x\<lparr>s_type := ty\<rparr>)) st)" by (rule keep_upd [OF assms(1)])
  with keep_refl [OF assms(1)] keep_warn [OF assms(1)] assms(2) show ?thesis
    by (simp add: menu_set_type_def Let_def)
qed

section \<open>Options\<close>

text \<open>The state in which the options of an entry are read: \<open>ok\<close> and the symbol of the entry.\<close>

definition opts_ok :: "mst \<Rightarrow> bool" where
  "opts_ok st \<longleftrightarrow> pok st \<and> modules_sym (ksyms st) \<noteq> None"

lemma opts_keep: "opts_ok st \<Longrightarrow> keep st st' \<Longrightarrow> opts_ok st'"
  by (simp add: opts_ok_def keep_modules keep_pok)

lemma depends_keep: "opts_ok st \<Longrightarrow> \<exists>st'. depends e st = Some st' \<and> keep st st'"
proof -
  assume ok: "opts_ok st"
  let ?st = "snd (parse_expr e st)"
  have k: "keep st ?st" using ok by (simp add: opts_ok_def parse_expr_keep)
  with add_dep_keep [of ?st] opts_keep [OF ok k] obtain st' where "menu_add_dep (Some (fst (parse_expr e st))) ?st = Some st'" "keep ?st st'"
    by (auto simp: opts_ok_def)
  with k show ?thesis by (auto simp: depends_def split_beta intro: keep_trans)
qed

lemma depends_list_keep: "opts_ok st \<Longrightarrow> \<exists>st'. depends_list es st = Some st' \<and> keep st st'"
proof (induction es arbitrary: st)
  case (Cons e es)
  from depends_keep [OF Cons.prems] obtain st1 where 1: "depends e st = Some st1" "keep st st1" by blast
  from Cons.IH [OF opts_keep [OF Cons.prems 1(2)]] 1 show ?case by (auto intro: keep_trans)
qed (simp add: opts_ok_def keep_refl)

lemma prompt_keep: "opts_ok st \<Longrightarrow> \<exists>st'. add_prompt t c st = Some st' \<and> keep st st'"
proof -
  assume ok: "opts_ok st"
  let ?st = "snd (parse_if c st)"
  have k: "keep st ?st" using ok by (simp add: opts_ok_def parse_if_keep)
  then have "pok ?st" "modules_sym (ksyms ?st) \<noteq> None" using opts_keep [OF ok k] by (simp_all add: opts_ok_def)
  from add_prop_keep [OF this, of "Some t" P_PROMPT PNone "fst (parse_if c st)"] obtain r st' where
    "menu_add_prop P_PROMPT (Some t) PNone (fst (parse_if c st)) ?st = Some (r, st')" "keep ?st st'" by (auto simp: prop_wf_def)
  with k show ?thesis by (auto simp: add_prompt_def menu_add_prompt_def split_beta intro: keep_trans)
qed

lemma prompt_opt_keep: "opts_ok st \<Longrightarrow> \<exists>st'. prompt_stmt_opt p st = Some st' \<and> keep st st'"
  using prompt_keep by (cases p) (auto simp: opts_ok_def keep_refl)

lemma default_keep:
  assumes "opts_ok st"
  shows "\<exists>st'. menu_add_expr P_DEFAULT (PExpr x) d st = Some st' \<and> keep st st'"
  using add_prop_keep [of st None P_DEFAULT "PExpr x" d] assms by (force simp: opts_ok_def menu_add_expr_def prop_wf_def)

lemma symbol_keep:
  assumes "opts_ok st" and "ty = P_SELECT \<or> ty = P_DEFAULT"
  shows "\<exists>st'. menu_add_symbol ty s d st = Some st' \<and> keep st st'"
  using add_prop_keep [of st None ty "PExpr (ESymbol s)" d] assms by (force simp: opts_ok_def menu_add_symbol_def prop_wf_def prop_get_symbol_def)

lemma range_keep:
  assumes "opts_ok st" and "s_name (tab (ksyms st) lo) \<noteq> None" "s_name (tab (ksyms st) hi) \<noteq> None"
  shows "\<exists>st'. menu_add_expr P_RANGE (PRange lo hi) d st = Some st' \<and> keep st st'"
  using add_prop_keep [of st None P_RANGE "PRange lo hi" d] assms by (force simp: opts_ok_def menu_add_expr_def prop_wf_def)

lemma option_keep:
  assumes "opts_ok st" and "m_sym (menus st (current_entry st)) = Some s"
  shows "\<exists>st'. menu_add_option t st = Some st' \<and> keep st st'"
proof (cases t)
  case T_OPT_MODULES
  from assms(1) obtain m where m: "modules_sym (ksyms st) = Some m" and ok: "pok st" by (auto simp: opts_ok_def)
  let ?p = "(prop_alloc P_DEFAULT m)\<lparr>p_expr := PExpr (ESymbol s)\<rparr>"
  have "in_use (ksyms st) m" using ok m by (simp add: pok_def ktab_def)
  then have "kstep (ksyms st) (add_prop m ?p (ksyms st))"
    by (rule add_prop_kstep [OF pok_ktab [OF ok]]) (simp add: prop_wf_def prop_alloc_def)
  then have "keep st (upd_ksyms (add_prop m ?p) st)" by (rule keep_upd [OF ok])
  with T_OPT_MODULES m assms(2) show ?thesis by (simp add: menu_add_option_def Let_def)
next
  case T_OPT_DEFCONFIG_LIST
  have "keep st (if defconfig_list st = None then st\<lparr>defconfig_list := Some s\<rparr>
      else if defconfig_list st \<noteq> Some s then menu_warn DefconfigRedefined st else st)"
    by (rule keep_same) (use assms(1) in \<open>simp_all add: opts_ok_def menu_warn_def\<close>)
  with T_OPT_DEFCONFIG_LIST assms(2) show ?thesis by (simp add: menu_add_option_def Let_def)
qed

lemma symbol_options_keep:
  assumes "opts_ok st" and "m_sym (menus st (current_entry st)) = Some s"
  shows "\<exists>st'. symbol_options ts st = Some st' \<and> keep st st'"
  using assms
proof (induction ts st rule: symbol_options.induct)
  case (1 st)
  then show ?case by (simp add: opts_ok_def keep_refl)
next
  case (2 ts st)
  have k: "keep st (menu_warn UnknownOption st)" using 2(2) by (simp add: opts_ok_def keep_warn)
  from 2(1) [OF opts_keep [OF 2(2) k]] 2(3) keep_sym [OF k] k show ?case by (auto intro: keep_trans)
next
  case (3 t ts st)
  from option_keep [OF 3(2,3)] obtain st1 where 1: "menu_add_option t st = Some st1" "keep st st1" by blast
  from 3(1) [OF 1(1) opts_keep [OF 3(2) 1(2)]] 3(3) keep_sym [OF 1(2)] 1 show ?case by (auto intro: keep_trans)
qed

lemma keep_then:
  assumes "keep st st1" and "opts_ok st" and "m_sym (menus st (current_entry st)) = Some s"
    and "opts_ok st1 \<Longrightarrow> m_sym (menus st1 (current_entry st1)) = Some s \<Longrightarrow> \<exists>st'. res = Some st' \<and> keep st1 st'"
  shows "\<exists>st'. res = Some st' \<and> keep st st'"
  using assms(4) [OF opts_keep [OF assms(2,1)]] keep_sym [OF assms(1)] assms(3) keep_trans [OF assms(1)] by auto

lemma set_type_opts: "opts_ok st \<Longrightarrow> m_sym (menus st (current_entry st)) = Some s \<Longrightarrow> \<exists>st'. menu_set_type ty st = Some st' \<and> keep st st'"
  by (rule set_type_keep) (simp_all add: opts_ok_def)

lemma parsed_keep:
  assumes "opts_ok st"
  shows "keep st (snd (parse_expr e st))" "keep st (snd (parse_if c st))" "keep st (snd (parse_sym a st))" "keep st (snd (lookup_sym n b st))"
  using assms parse_expr_keep parse_if_keep parse_sym_keep(1) [of st a "fst (parse_sym a st)"] lookup_keep(1) [of st n b "fst (lookup_sym n b st)"]
  by (simp_all add: opts_ok_def)

lemma config_option_keep:
  assumes ok: "opts_ok st" and s: "m_sym (menus st (current_entry st)) = Some s"
  shows "\<exists>st'. config_option x st = Some st' \<and> keep st st'"
proof (cases x)
  case (OType ty p)
  from prompt_opt_keep [OF ok] obtain st1 where 1: "prompt_stmt_opt p st = Some st1" "keep st st1" by blast
  from keep_then [OF 1(2) ok s set_type_opts [of _ s ty]] 1(1) OType show ?thesis by simp
next
  case (OPrompt t c)
  then show ?thesis using prompt_keep [OF ok] by simp
next
  case (ODefault ty e c)
  let ?st1 = "snd (parse_expr e st)"
  let ?st2 = "snd (parse_if c ?st1)"
  note k1 = parsed_keep(1) [OF ok, of e]
  note k2 = keep_trans [OF k1 parsed_keep(2) [OF opts_keep [OF ok k1], of c]]
  from default_keep [OF opts_keep [OF ok k2]] obtain st3 where
    3: "menu_add_expr P_DEFAULT (PExpr (fst (parse_expr e st))) (fst (parse_if c ?st1)) ?st2 = Some st3" "keep ?st2 st3" by blast
  note k3 = keep_trans [OF k2 3(2)]
  from keep_then [OF k3 ok s set_type_opts [of _ s ty]] k3 3(1) ODefault show ?thesis by (auto simp: split_beta)
next
  case (OSelect n c)
  let ?st1 = "snd (parse_if c st)"
  note k1 = parsed_keep(2) [OF ok, of c]
  note k2 = keep_trans [OF k1 parsed_keep(4) [OF opts_keep [OF ok k1], of "Some n" False]]
  from symbol_keep [OF opts_keep [OF ok k2], of P_SELECT] keep_trans [OF k2] OSelect show ?thesis by (fastforce simp: split_beta)
next
  case (ORange a b c)
  let ?st1 = "snd (parse_sym a st)"
  let ?st2 = "snd (parse_sym b ?st1)"
  let ?st3 = "snd (parse_if c ?st2)"
  have p: "pok st" using ok by (simp add: opts_ok_def)
  have a: "keep st ?st1" "in_use (ksyms ?st1) (fst (parse_sym a st))" "s_name (tab (ksyms ?st1) (fst (parse_sym a st))) \<noteq> None"
    using parse_sym_keep [OF p, of a "fst (parse_sym a st)" ?st1] by simp_all
  have b: "keep ?st1 ?st2" "in_use (ksyms ?st2) (fst (parse_sym b ?st1))" "s_name (tab (ksyms ?st2) (fst (parse_sym b ?st1))) \<noteq> None"
    using parse_sym_keep [OF keep_pok [OF a(1)], of b "fst (parse_sym b ?st1)" ?st2] by simp_all
  have c: "keep ?st2 ?st3" by (rule parse_if_keep [OF keep_pok [OF b(1)]])
  note k = keep_trans [OF keep_trans [OF a(1) b(1)] c]
  have "s_name (tab (ksyms ?st3) (fst (parse_sym a st))) \<noteq> None" "s_name (tab (ksyms ?st3) (fst (parse_sym b ?st1))) \<noteq> None"
    using keep_named [OF keep_trans [OF b(1) c] a(2,3)] keep_named [OF c b(2,3)] by blast+
  from range_keep [OF opts_keep [OF ok k] this] keep_trans [OF k] ORange show ?thesis by (fastforce simp: split_beta)
next
  case (OOption ts)
  then show ?thesis using symbol_options_keep [OF ok s] by simp
next
  case (ODepends e)
  then show ?thesis using depends_keep [OF ok] by simp
next
  case (OHelp t)
  then show ?thesis using ok s by (simp add: set_help_def opts_ok_def keep_refl)
qed

lemma config_options_keep:
  assumes "opts_ok st" and "m_sym (menus st (current_entry st)) = Some s"
  shows "\<exists>st'. config_options xs st = Some st' \<and> keep st st'"
  using assms
proof (induction xs arbitrary: st)
  case (Cons x xs)
  from config_option_keep [OF Cons.prems] obtain st1 where 1: "config_option x st = Some st1" "keep st st1" by blast
  from keep_then [OF 1(2) Cons.prems Cons.IH] 1(1) show ?case by simp
qed (simp add: opts_ok_def keep_refl)

text \<open>In a choice some of the options are errors.\<close>

fun choption_ok :: "choption \<Rightarrow> bool" where
  "choption_ok (CType ty p) \<longleftrightarrow> ty = S_BOOLEAN \<or> ty = S_TRISTATE"
| "choption_ok (CDefault ty n c) \<longleftrightarrow> ty = S_UNKNOWN"
| "choption_ok _ \<longleftrightarrow> True"

lemma choice_option_keep:
  assumes ok: "opts_ok st" and s: "m_sym (menus st (current_entry st)) = Some s" and x: "choption_ok x"
  shows "\<exists>st'. choice_option x st = Some st' \<and> keep st st'"
proof (cases x)
  case (CPrompt t c)
  then show ?thesis using prompt_keep [OF ok] by simp
next
  case (CType ty p)
  from prompt_opt_keep [OF ok] obtain st1 where 1: "prompt_stmt_opt p st = Some st1" "keep st st1" by blast
  from keep_then [OF 1(2) ok s set_type_opts [of _ s ty]] 1(1) CType x show ?thesis by simp
next
  case COptional
  have p: "pok st" "in_use (ksyms st) s" using ok s by (auto simp: opts_ok_def pok_def)
  have "kstep (ksyms st) (upd_sym s (\<lambda>x. x\<lparr>s_optional := True\<rparr>) (ksyms st))"
    by (rule upd_kstep_flags [OF pok_ktab [OF p(1)] p(2)]) (simp_all add: unmarked_def)
  then have "keep st (upd_ksyms (upd_sym s (\<lambda>x. x\<lparr>s_optional := True\<rparr>)) st)" by (rule keep_upd [OF p(1)])
  with COptional s show ?thesis by simp
next
  case (CDefault ty n c)
  note k1 = parsed_keep(2) [OF ok, of c]
  note k2 = keep_trans [OF k1 parsed_keep(4) [OF opts_keep [OF ok k1], of "Some n" False]]
  from symbol_keep [OF opts_keep [OF ok k2], of P_DEFAULT] keep_trans [OF k2] CDefault x show ?thesis by (fastforce simp: split_beta)
next
  case (CDepends e)
  then show ?thesis using depends_keep [OF ok] by simp
next
  case (CHelp t)
  then show ?thesis using ok s by (simp add: set_help_def opts_ok_def keep_refl)
qed

lemma choice_options_keep:
  assumes "opts_ok st" and "m_sym (menus st (current_entry st)) = Some s" and "list_all choption_ok xs"
  shows "\<exists>st'. choice_options xs st = Some st' \<and> keep st st'"
  using assms
proof (induction xs arbitrary: st)
  case (Cons x xs)
  from choice_option_keep [OF Cons.prems(1,2)] Cons.prems(3) obtain st1 where 1: "choice_option x st = Some st1" "keep st st1" by auto
  have "list_all choption_ok xs" using Cons.prems(3) by simp
  from keep_then [OF 1(2) Cons.prems(1,2) Cons.IH [OF _ _ this]] 1(1) show ?case by simp
qed (simp add: opts_ok_def keep_refl)

end
