(* ===== verification/Kconf_Parse_Tree.thy ===== *)
theory Kconf_Parse_Tree
  imports Kconf_Parse_Props
begin

text \<open>
  The statements of a \<open>Kconfig\<close> file: the parser accepts all of them without using a null pointer, and the menus it makes are
  linked in the order of the text. From there \<open>conf_parse\<close> as a whole.
\<close>

section \<open>Entries\<close>

lemma building_keep: "building st fr \<Longrightarrow> keep st st' \<Longrightarrow> building st' fr"
proof -
  assume b: "building st fr" and k: "keep st st'"
  have sp: "spine (menus st) fr None" using b unfolding building_def by blast
  have l: "same_links (menus st' m) (menus st m)" for m using k unfolding keep_def by blast
  have e: "m_used st' = m_used st" "current_menu st' = current_menu st" "last_entry_ptr st' = last_entry_ptr st"
    using k unfolding keep_def by blast+
  from spine_cong [OF sp l] b show ?thesis unfolding building_def e by blast
qed

definition menu_names :: "mst \<Rightarrow> string option list" where
  "menu_names st = map (\<lambda>s. Option.bind s (\<lambda>s. s_name (tab (ksyms st) s))) (menu_syms st)"

lemma menu_names_keep:
  assumes "pok st" and "keep st st'"
  shows "menu_names st' = menu_names st"
proof -
  have "menu_syms st' = menu_syms st" using assms(2) by (simp add: menu_syms_def keep_def)
  moreover have "Option.bind x (\<lambda>s. s_name (tab (ksyms st') s)) = Option.bind x (\<lambda>s. s_name (tab (ksyms st) s))"
    if "x \<in> set (menu_syms st)" for x
  proof (cases x)
    case (Some s)
    with that obtain m where "m_sym (menus st m) = Some s" unfolding menu_syms_def by force
    then have "in_use (ksyms st) s" using assms(1) by (simp add: pok_def)
    with assms(2) Some show ?thesis by (simp add: keep_def kstep_def)
  qed simp
  ultimately show ?thesis unfolding menu_names_def by (simp cong: map_cong)
qed

text \<open>The last child of the innermost menu is the current entry.\<close>

definition parsing :: "mst \<Rightarrow> frames \<Rightarrow> bool" where
  "parsing st fr \<longleftrightarrow> building st fr \<and> opts_ok st"

definition entered :: "mst \<Rightarrow> nat \<Rightarrow> mtree list \<Rightarrow> frames \<Rightarrow> bool" where
  "entered st m ts fr \<longleftrightarrow> parsing st ((m, ts @ [MNode (current_entry st) []]) # fr)"

lemma parsing_keep: "parsing st fr \<Longrightarrow> keep st st' \<Longrightarrow> parsing st' fr \<and> menu_names st' = menu_names st"
  using building_keep [of st fr st'] opts_keep [of st st'] menu_names_keep [of st st'] unfolding parsing_def by (simp add: opts_ok_def)

lemma entered_keep: "entered st m ts fr \<Longrightarrow> keep st st' \<Longrightarrow> entered st' m ts fr \<and> menu_names st' = menu_names st"
  using parsing_keep [of st "(m, ts @ [MNode (current_entry st) []]) # fr" st'] unfolding entered_def by (simp add: keep_def)

lemma add_entry_fields:
  "ksyms (menu_add_entry s st) = ksyms st" "current_entry (menu_add_entry s st) = m_used st"
  "m_sym (menus (menu_add_entry s st) m) = (if m = m_used st then s else m_sym (menus st m))"
  "m_prompt (menus (menu_add_entry s st) m) = (if m = m_used st then None else m_prompt (menus st m))"
  by (auto simp: menu_add_entry_def set_entry_def upd_menu_def new_menu_def Let_def split: entry_ptr.splits)

lemma add_entry_ksyms: "menu_add_entry s (st\<lparr>ksyms := k\<rparr>) = (menu_add_entry s st)\<lparr>ksyms := k\<rparr>"
  by (simp add: menu_add_entry_def set_entry_def upd_menu_def Let_def split: entry_ptr.splits)

lemma add_entry:
  assumes "parsing st ((m, ts) # fr)" and "\<And>v. s = Some v \<Longrightarrow> in_use (ksyms st) v \<and> \<not> s_const (tab (ksyms st) v)"
  shows "entered (menu_add_entry s st) m ts fr"
    and "menu_names (menu_add_entry s st) = menu_names st @ [Option.bind s (\<lambda>v. s_name (tab (ksyms st) v))]"
proof -
  let ?st = "menu_add_entry s st"
  have b: "building st ((m, ts) # fr)" and p: "pok st" and mo: "modules_sym (ksyms st) \<noteq> None"
    using assms(1) by (simp_all add: parsing_def opts_ok_def)
  have w: "menu_wf (ksyms st) (menus ?st x)" for x
  proof (cases "x = m_used st")
    case True
    then show ?thesis using assms(2) by (simp add: menu_wf_def add_entry_fields)
  next
    case False
    have "menu_wf (ksyms st) (menus st x)" using p by (simp add: pok_def)
    then show ?thesis by (rule menu_wf_cong) (use False in \<open>simp_all add: add_entry_fields\<close>)
  qed
  have a: "in_use (ksyms st) v" if "m_sym (menus ?st x) = Some v" for x v
    using that assms(2) p by (cases "x = m_used st") (simp_all add: add_entry_fields pok_def)
  have "pok ?st" unfolding pok_def add_entry_fields(1) using w a pok_ktab [OF p] by blast
  with building_entry [OF b, of s] mo show "entered ?st m ts fr"
    unfolding entered_def parsing_def opts_ok_def add_entry_fields(1,2) by blast
  show "menu_names ?st = menu_names st @ [Option.bind s (\<lambda>v. s_name (tab (ksyms st) v))]"
    using menu_syms_entry [OF building_used [OF b] b, of s] by (simp add: menu_names_def add_entry_fields)
qed

lemma entered_sym: "keep (menu_add_entry s st) st' \<Longrightarrow> m_sym (menus st' (current_entry st')) = s"
  using keep_sym [of "menu_add_entry s st" st'] by (simp add: add_entry_fields)

lemma entered_ok: "entered st m ts fr \<Longrightarrow> opts_ok st"
  by (simp add: entered_def parsing_def)

lemma config_start:
  assumes "parsing st ((m, ts) # fr)" and "builtin n = None"
  shows "entered (config_entry_start n st) m ts fr" and "menu_names (config_entry_start n st) = menu_names st @ [Some n]"
    and "\<exists>s. m_sym (menus (config_entry_start n st) (current_entry (config_entry_start n st))) = Some s \<and>
      s_name (tab (ksyms (config_entry_start n st)) s) = Some n"
proof -
  obtain s st1 where l: "lookup_sym (Some n) False st = (s, st1)" by (metis surj_pair)
  have p: "pok st" using assms(1) by (simp add: parsing_def opts_ok_def)
  have 1: "keep st st1" "in_use (ksyms st1) s" "s_name (tab (ksyms st1) s) = Some n" "\<not> s_const (tab (ksyms st1) s)"
    using lookup_keep(1,2) [OF p l] lookup_keep(4) [OF p l refl assms(2)] by simp_all
  let ?f = "upd_sym s (\<lambda>x. x\<lparr>s_optional := True\<rparr>)"
  have "kstep (ksyms st1) (?f (ksyms st1))"
    by (rule upd_kstep_flags [OF pok_ktab [OF keep_pok [OF 1(1)]] 1(2)]) (simp_all add: unmarked_def)
  then have 2: "keep st1 (upd_ksyms ?f st1)" by (rule keep_upd [OF keep_pok [OF 1(1)]])
  note k = parsing_keep [OF assms(1) keep_trans [OF 1(1) 2]]
  have s: "in_use (ksyms (upd_ksyms ?f st1)) s" "\<not> s_const (tab (ksyms (upd_ksyms ?f st1)) s)" "s_name (tab (ksyms (upd_ksyms ?f st1)) s) = Some n"
    using 1(2-4) by (simp_all add: upd_ksyms_def upd_sym_def in_use_def split: sym.splits)
  have c: "config_entry_start n st = menu_add_entry (Some s) (upd_ksyms ?f st1)" by (simp add: config_entry_start_def l)
  from add_entry [OF conjunct1 [OF k], of "Some s"] k s
  show "entered (config_entry_start n st) m ts fr" "menu_names (config_entry_start n st) = menu_names st @ [Some n]"
    unfolding c by simp_all
  show "\<exists>s. m_sym (menus (config_entry_start n st) (current_entry (config_entry_start n st))) = Some s \<and>
      s_name (tab (ksyms (config_entry_start n st)) s) = Some n"
    unfolding c using s by (simp add: add_entry_fields)
qed

lemma menuconfig_keep:
  assumes "pok st" and "m_sym (menus st (current_entry st)) = Some s" and "s_name (tab (ksyms st) s) \<noteq> None"
  shows "\<exists>st'. menuconfig_end st = Some st' \<and> keep st st'"
proof (cases "m_prompt (menus st (current_entry st))")
  case None
  then show ?thesis using keep_warn [OF assms(1)] by (simp add: menuconfig_end_def)
next
  case (Some r)
  have "menu_wf (ksyms st) (menus st (current_entry st))" using assms(1) by (simp add: pok_def)
  with Some assms(2) obtain i where r: "r = SymProp s i" "i < length (s_props (tab (ksyms st) s))"
    by (auto simp: menu_wf_def split: prop_ref.splits)
  let ?f = "\<lambda>x. x\<lparr>s_props := (s_props x)[i := (s_props x ! i)\<lparr>p_type := P_MENU\<rparr>]\<rparr>"
  have k: "ktab (ksyms st)" "in_use (ksyms st) s" using assms(1,2) by (auto simp: pok_def)
  then have "\<not> s_choice (tab (ksyms st) s)" "list_all (prop_wf (tab (ksyms st))) (s_props (tab (ksyms st) s))"
    using assms(3) by (auto simp: ktab_def tab_wf_def)
  moreover have "prop_wf T (q\<lparr>p_type := P_MENU\<rparr>)" for T q by (simp add: prop_wf_def)
  ultimately have "kstep (ksyms st) (upd_sym s ?f (ksyms st))"
    by (intro upd_kstep [OF k]) (auto simp: choice_wf_def unmarked_def list_all_iff dest: set_update_subset_insert [THEN subsetD])
  then have "keep st (upd_ksyms (upd_sym s ?f) st)" by (rule keep_upd [OF assms(1)])
  with Some r show ?thesis by (simp add: menuconfig_end_def)
qed

lemma choice_kstep:
  assumes "ktab k" and l: "sym_lookup None False k = (s, k1)" and p: "p_type p = P_CHOICE" "p_expr p = PNone"
  defines "k2 \<equiv> add_prop s p (upd_sym s (\<lambda>x. x\<lparr>s_choice := True\<rparr>) k1)"
  shows "kstep k k2" and "in_use k2 s" and "\<not> s_const (tab k2 s)" and "s_name (tab k2 s) = None"
proof -
  have i: "insert_symbol None False 256 k = (s, k1)" using l by (simp add: sym_lookup_def)
  note k1 = insert_kstep [OF assms(1) i]
  let ?x = "(new_symbol None False)\<lparr>s_choice := True, s_props := [p]\<rparr>"
  have t: "tab k2 = (tab k1)(s := ?x)" and e: "used k2 = used k1" "hash k2 = hash k1" "modules_sym k2 = modules_sym k1"
    using k1(3) by (simp_all add: k2_def add_prop_def upd_sym_def new_symbol_def)
  have kt: "ktab k1" using k1(1) by (simp add: kstep_def)
  note k = kt [unfolded ktab_def tab_wf_def consts_typed_def]
  have al: "in_use k2 x = in_use k1 x" for x by (simp add: in_use_def e split: sym.splits)
  have nm: "s_name (tab k2 x) = s_name (tab k1 x)" for x using k1(3) by (simp add: t new_symbol_def)
  then have w: "prop_wf (tab k2) = prop_wf (tab k1)" by (intro ext prop_wf_cong)
  have x: "choice_wf ?x" "unmarked ?x" "list_all (prop_wf (tab k1)) (s_props ?x)" "\<not> s_const ?x" "s_name ?x = None"
    using p by (simp_all add: choice_wf_def unmarked_def prop_wf_choice new_symbol_def)
  have "bound_syms k2 \<subseteq> insert s (bound_syms k1)" by (auto simp: bound_syms_def t)
  then have "finite (bound_syms k2)" using k finite_subset by blast
  moreover have "list_all (prop_wf (tab k2)) (s_props (tab k2 y)) \<and> choice_wf (tab k2 y) \<and> unmarked (tab k2 y)" for y
    unfolding w using k x by (simp add: t)
  moreover have "consts_typed k2" using k x(4) k1(4) by (simp add: consts_typed_def t)
  ultimately have "tab_wf k2" by (simp add: tab_wf_def)
  moreover have "\<forall>j. used k2 \<le> j \<longrightarrow> blank (tab k2 (Sym j))"
    using k k1(2,4) by (auto simp: t e in_use_def)
  moreover have "\<forall>y. s_choice (tab k2 y) \<longrightarrow> s_name (tab k2 y) = None" using k x(5) by (simp add: t)
  ultimately have "ktab k2" using k unfolding ktab_def al nm e by blast
  moreover have "tab k2 y = tab k1 y" if "in_use k y" for y using that k1(4) by (auto simp: t in_use_def)
  ultimately show "kstep k k2" using k1(1) by (simp add: kstep_def e)
  show "in_use k2 s" "\<not> s_const (tab k2 s)" "s_name (tab k2 s) = None" using k1(2) x by (simp_all add: al t)
qed

lemma choice_entry:
  assumes "parsing st ((m, ts) # fr)"
  shows "\<exists>st' s. choice_start st = Some st' \<and> entered st' m ts fr \<and> menu_names st' = menu_names st @ [None] \<and>
    m_sym (menus st' (current_entry st')) = Some s"
proof -
  obtain s k1 where l: "sym_lookup None False (ksyms st) = (s, k1)" by (metis surj_pair)
  let ?p = "\<lparr>p_type = P_CHOICE, p_text = None, p_visible = None, p_expr = PNone, p_menu = Some (m_used st)\<rparr>"
  let ?k = "add_prop s ?p (upd_sym s (\<lambda>x. x\<lparr>s_choice := True\<rparr>) k1)"
  have p: "pok st" using assms by (simp add: parsing_def opts_ok_def)
  note c = choice_kstep [OF pok_ktab [OF p] l, of ?p]
  have "keep st (st\<lparr>ksyms := ?k\<rparr>)" by (rule keep_ksyms [OF p]) (use c(1) in simp_all)
  note k = parsing_keep [OF assms this]
  let ?st = "menu_add_entry (Some s) (st\<lparr>ksyms := ?k\<rparr>)"
  have "choice_start st = Some ?st"
    by (simp add: choice_start_def lookup_sym_def l menu_add_expr_def menu_add_prop_def check_dep_def attach_prop_def
        upd_ksyms_def add_entry_fields add_entry_ksyms Let_def)
  moreover have "entered ?st m ts fr" "menu_names ?st = menu_names st @ [None]"
    using add_entry [OF conjunct1 [OF k], of "Some s"] k c(2-4) by simp_all
  ultimately show ?thesis by (auto simp: add_entry_fields)
qed

lemma titled:
  assumes "parsing st ((m, ts) # fr)" and "ty \<in> {P_MENU, P_COMMENT}"
  shows "\<exists>st'. titled_entry ty t st = Some st' \<and> entered st' m ts fr \<and> menu_names st' = menu_names st @ [None]"
proof -
  let ?st = "menu_add_entry None st"
  have e: "entered ?st m ts fr" "menu_names ?st = menu_names st @ [None]" using add_entry [OF assms(1), of None] by simp_all
  have "pok ?st" "modules_sym (ksyms ?st) \<noteq> None" using entered_ok [OF e(1)] by (simp_all add: opts_ok_def)
  from add_prop_keep [OF this, of "Some t" ty PNone None] assms(2) obtain r st' where
    "menu_add_prop ty (Some t) PNone None ?st = Some (r, st')" "keep ?st st'" by (auto simp: prop_wf_def)
  with entered_keep [OF e(1)] e(2) show ?thesis by (simp add: titled_entry_def menu_add_prompt_def)
qed

lemma if_entry:
  assumes "parsing st ((m, ts) # fr)"
  shows "\<exists>st'. if_start e st = Some st' \<and> entered st' m ts fr \<and> menu_names st' = menu_names st @ [None]"
proof -
  let ?st1 = "snd (parse_expr e st)"
  have "keep st ?st1" using assms by (simp add: parsing_def parsed_keep)
  note k = parsing_keep [OF assms this]
  let ?st2 = "menu_add_entry None ?st1"
  have e: "entered ?st2 m ts fr" "menu_names ?st2 = menu_names st @ [None]" using add_entry [OF conjunct1 [OF k], of None] k by simp_all
  from add_dep_keep [of ?st2 "Some (fst (parse_expr e st))"] entered_ok [OF e(1)] obtain st' where
    "menu_add_dep (Some (fst (parse_expr e st))) ?st2 = Some st'" "keep ?st2 st'" by (auto simp: opts_ok_def)
  with entered_keep [OF e(1)] e(2) show ?thesis by (simp add: if_start_def split_beta)
qed

section \<open>Statements\<close>

text \<open>The names of symbols are not those of the constants, and the options of choices are no errors.\<close>

fun stmt_ok :: "kstmt \<Rightarrow> bool" and stmts_ok :: "kstmt list \<Rightarrow> bool" where
  "stmt_ok (Config n xs) \<longleftrightarrow> builtin n = None"
| "stmt_ok (Menuconfig n xs) \<longleftrightarrow> builtin n = None"
| "stmt_ok (Choice xs ss) \<longleftrightarrow> list_all choption_ok xs \<and> stmts_ok ss"
| "stmt_ok (IfStmt e ss) \<longleftrightarrow> stmts_ok ss"
| "stmt_ok (Menu t ds ss) \<longleftrightarrow> stmts_ok ss"
| "stmt_ok (Comment t ds) \<longleftrightarrow> True"
| "stmts_ok [] \<longleftrightarrow> True"
| "stmts_ok (s # ss) \<longleftrightarrow> stmt_ok s \<and> stmts_ok ss"

text \<open>The entries of the text in order, with the names of their symbols.\<close>

fun stmt_names :: "kstmt \<Rightarrow> string option list" and stmts_names :: "kstmt list \<Rightarrow> string option list" where
  "stmt_names (Config n xs) = [Some n]"
| "stmt_names (Menuconfig n xs) = [Some n]"
| "stmt_names (Choice xs ss) = None # stmts_names ss"
| "stmt_names (IfStmt e ss) = None # stmts_names ss"
| "stmt_names (Menu t ds ss) = None # stmts_names ss"
| "stmt_names (Comment t ds) = [None]"
| "stmts_names [] = []"
| "stmts_names (s # ss) = stmt_names s @ stmts_names ss"

definition parses :: "(mst \<Rightarrow> mst option) \<Rightarrow> string option list \<Rightarrow> bool" where
  "parses f ns \<longleftrightarrow> (\<forall>st m ts fr. parsing st ((m, ts) # fr) \<longrightarrow>
     (\<exists>st' ts'. f st = Some st' \<and> parsing st' ((m, ts') # fr) \<and> menu_names st' = menu_names st @ ns))"

lemma parses_block:
  assumes "parses (parse_stmts ss) ns" and "entered st m ts fr"
  shows "\<exists>st' ts'. do { st \<leftarrow> parse_stmts ss (menu_add_menu st); menu_end_menu st } = Some st' \<and>
    parsing st' ((m, ts') # fr) \<and> menu_names st' = menu_names st @ ns"
proof -
  let ?c = "current_entry st" and ?st = "menu_add_menu st"
  have b: "building st ((m, ts @ [MNode ?c []]) # fr)" and ok: "opts_ok st" using assms(2) unfolding entered_def parsing_def by blast+
  have f: "ksyms ?st = ksyms st" "menus ?st = menus st" "menu_names ?st = menu_names st"
    by (simp_all add: menu_add_menu_def menu_names_def menu_syms_def)
  have "opts_ok ?st" using ok unfolding opts_ok_def pok_def f by blast
  with building_down [OF b] have "parsing ?st ((?c, []) # (m, ts) # fr)" unfolding parsing_def by blast
  with assms(1) obtain st1 us where 1: "parse_stmts ss ?st = Some st1" "parsing st1 ((?c, us) # (m, ts) # fr)"
    "menu_names st1 = menu_names ?st @ ns" unfolding parses_def by blast
  have b1: "building st1 ((?c, us) # (m, ts) # fr)" and ok1: "opts_ok st1" using 1(2) unfolding parsing_def by blast+
  obtain st' where 2: "menu_end_menu st1 = Some st'" "building st' ((m, ts @ [MNode ?c us]) # fr)"
    "menus st' = menus st1" "m_used st' = m_used st1" by (rule building_close [OF b1])
  have k: "ksyms st' = ksyms st1" using 2(1) by (auto simp: menu_end_menu_def split: Option.bind_splits)
  have "opts_ok st'" using ok1 unfolding opts_ok_def pok_def k 2(3) by blast
  moreover have "menu_names st' = menu_names st1" by (simp add: menu_names_def menu_syms_def k 2(3,4))
  ultimately show ?thesis using 1 2(1,2) f(3) unfolding parsing_def by auto
qed

lemma parses_config:
  assumes "builtin n = None"
  shows "parses (parse_stmt (Config n xs)) [Some n]" and "parses (parse_stmt (Menuconfig n xs)) [Some n]"
proof -
  have "\<exists>st1 st2. config_options xs (config_entry_start n st) = Some st1 \<and> menuconfig_end st1 = Some st2 \<and>
      (\<forall>x \<in> {st1, st2}. entered x m ts fr \<and> menu_names x = menu_names st @ [Some n])"
    if "parsing st ((m, ts) # fr)" for st m ts fr
  proof -
    let ?st = "config_entry_start n st"
    note c = config_start [OF that assms]
    obtain s where s: "m_sym (menus ?st (current_entry ?st)) = Some s" "s_name (tab (ksyms ?st) s) = Some n" using c(3) by blast
    note ok = entered_ok [OF c(1)]
    obtain st1 where 1: "config_options xs ?st = Some st1" "keep ?st st1" using config_options_keep [OF ok s(1)] by blast
    have a: "in_use (ksyms ?st) s" using ok s(1) by (auto simp: opts_ok_def pok_def)
    obtain st2 where 2: "menuconfig_end st1 = Some st2" "keep st1 st2"
      using menuconfig_keep [OF keep_pok [OF 1(2)] _ conjunct2 [OF keep_named [OF 1(2) a]]] s keep_sym [OF 1(2)] by auto
    show ?thesis using 1 2 entered_keep [OF c(1) 1(2)] entered_keep [OF c(1) keep_trans [OF 1(2) 2(2)]] c(2) by auto
  qed
  then show "parses (parse_stmt (Config n xs)) [Some n]" "parses (parse_stmt (Menuconfig n xs)) [Some n]"
    unfolding parses_def entered_def by fastforce+
qed

lemma titled_depends:
  assumes "parsing st ((m, ts) # fr)" and "ty \<in> {P_MENU, P_COMMENT}"
  shows "\<exists>st1 st2. titled_entry ty t st = Some st1 \<and> depends_list ds st1 = Some st2 \<and> entered st2 m ts fr \<and>
    menu_names st2 = menu_names st @ [None]"
proof -
  from titled [OF assms] obtain st1 where 1: "titled_entry ty t st = Some st1" "entered st1 m ts fr" "menu_names st1 = menu_names st @ [None]" by blast
  from depends_list_keep [OF entered_ok [OF 1(2)]] obtain st2 where "depends_list ds st1 = Some st2" "keep st1 st2" by blast
  with entered_keep [OF 1(2)] 1 show ?thesis by auto
qed

lemma choice_opened:
  assumes "parsing st ((m, ts) # fr)" and "list_all choption_ok xs"
  shows "\<exists>st1 st2. choice_start st = Some st1 \<and> choice_options xs st1 = Some st2 \<and> entered st2 m ts fr \<and>
    menu_names st2 = menu_names st @ [None]"
proof -
  from choice_entry [OF assms(1)] obtain st1 s where 1: "choice_start st = Some st1" "entered st1 m ts fr" "menu_names st1 = menu_names st @ [None]"
    "m_sym (menus st1 (current_entry st1)) = Some s" by blast
  from choice_options_keep [OF entered_ok [OF 1(2)] 1(4) assms(2)] obtain st2 where "choice_options xs st1 = Some st2" "keep st1 st2" by blast
  with entered_keep [OF 1(2)] 1 show ?thesis by auto
qed

lemma parses_open:
  assumes "parses (parse_stmts ss) ns"
    and "\<And>st m ts fr. parsing st ((m, ts) # fr) \<Longrightarrow> \<exists>st'. g st = Some st' \<and> entered st' m ts fr \<and> menu_names st' = menu_names st @ [None]"
    and "\<And>st. f st = Option.bind (g st) (\<lambda>st. do { st \<leftarrow> parse_stmts ss (menu_add_menu st); menu_end_menu st })"
  shows "parses f (None # ns)"
  unfolding parses_def
proof (intro allI impI)
  fix st m ts fr assume "parsing st ((m, ts) # fr)"
  from assms(2) [OF this] obtain st1 where 1: "g st = Some st1" "entered st1 m ts fr" "menu_names st1 = menu_names st @ [None]" by blast
  from parses_block [OF assms(1) 1(2)] 1 show "\<exists>st' ts'. f st = Some st' \<and> parsing st' ((m, ts') # fr) \<and> menu_names st' = menu_names st @ None # ns"
    unfolding assms(3) by auto
qed

lemma parses_stmts:
  "stmt_ok s \<Longrightarrow> parses (parse_stmt s) (stmt_names s)" "stmts_ok ss \<Longrightarrow> parses (parse_stmts ss) (stmts_names ss)"
proof (induction s and ss rule: stmt_ok_stmts_ok.induct)
  case (1 n xs)
  then have "builtin n = None" by simp
  then show ?case by (simp only: stmt_names.simps parses_config)
next
  case (2 n xs)
  then have "builtin n = None" by simp
  then show ?case by (simp only: stmt_names.simps parses_config)
next
  case (3 xs ss)
  then have p: "parses (parse_stmts ss) (stmts_names ss)" and x: "list_all choption_ok xs" by simp_all
  from p have "parses (parse_stmt (Choice xs ss)) (None # stmts_names ss)"
    by (rule parses_open [where g = "\<lambda>st. do { st \<leftarrow> choice_start st; choice_options xs st }"])
      (use choice_opened [OF _ x] in \<open>fastforce, simp\<close>)
  then show ?case by (simp only: stmt_names.simps)
next
  case (4 e ss)
  then have "parses (parse_stmts ss) (stmts_names ss)" by simp
  then have "parses (parse_stmt (IfStmt e ss)) (None # stmts_names ss)"
    by (rule parses_open [where g = "if_start e"]) (use if_entry in \<open>blast, simp\<close>)
  then show ?case by (simp only: stmt_names.simps)
next
  case (5 t ds ss)
  have o: "parsing st ((m, ts) # fr) \<Longrightarrow> \<exists>st'. do { st \<leftarrow> titled_entry P_MENU t st; depends_list ds st } = Some st' \<and>
      entered st' m ts fr \<and> menu_names st' = menu_names st @ [None]" for st m ts fr
    using titled_depends [of st m ts fr P_MENU t ds] by auto
  from 5 have "parses (parse_stmts ss) (stmts_names ss)" by simp
  then have "parses (parse_stmt (Menu t ds ss)) (None # stmts_names ss)"
    by (rule parses_open [where g = "\<lambda>st. do { st \<leftarrow> titled_entry P_MENU t st; depends_list ds st }"])
      (rule o, assumption, simp)
  then show ?case by (simp only: stmt_names.simps)
next
  case (6 t ds)
  have "\<exists>st' ts'. parse_stmt (Comment t ds) st = Some st' \<and> parsing st' ((m, ts') # fr) \<and> menu_names st' = menu_names st @ [None]"
    if "parsing st ((m, ts) # fr)" for st m ts fr
    using titled_depends [OF that, of P_COMMENT t ds] unfolding entered_def by auto
  then show ?case by (simp add: parses_def)
next
  case (8 s ss)
  then have a: "parses (parse_stmt s) (stmt_names s)" and b: "parses (parse_stmts ss) (stmts_names ss)" by simp_all
  show ?case unfolding parses_def
  proof (intro allI impI)
    fix st m ts fr assume "parsing st ((m, ts) # fr)"
    with a obtain st1 ts1 where 1: "parse_stmt s st = Some st1" "parsing st1 ((m, ts1) # fr)" "menu_names st1 = menu_names st @ stmt_names s"
      unfolding parses_def by blast
    with b obtain st2 ts2 where "parse_stmts ss st1 = Some st2" "parsing st2 ((m, ts2) # fr)" "menu_names st2 = menu_names st1 @ stmts_names ss"
      unfolding parses_def by blast
    with 1 show "\<exists>st' ts'. parse_stmts (s # ss) st = Some st' \<and> parsing st' ((m, ts') # fr) \<and> menu_names st' = menu_names st @ stmts_names (s # ss)"
      by auto
  qed
qed (auto simp: parses_def)

section \<open>The whole configuration\<close>

lemma static_ktab: "ktab static_kst"
proof -
  have "\<not> s_choice (static_tab s) \<and> s_props (static_tab s) = [] \<and> s_rev_dep (static_tab s) = None \<and> unmarked (static_tab s) \<and>
      s_type (static_tab s) = S_UNKNOWN" for s
    by (cases s) (simp_all add: const_sym_def new_symbol_def unmarked_def)
  then show ?thesis
    by (simp add: ktab_def tab_wf_def consts_typed_def bound_syms_def choice_wf_def static_kst_def in_use_def blank_def)
      (simp add: const_sym_def new_symbol_def)
qed

lemma init_kstep:
  assumes "ktab k" and "builtin n = None"
  shows "kstep k (init_symbol n v k)"
proof -
  obtain s k1 where l: "sym_lookup (Some n) False k = (s, k1)" by (metis surj_pair)
  note 1 = lookup_kstep [OF assms(1) l]
  have k1: "ktab k1" "\<not> s_const (tab k1 s)" using 1(1) 1(4) [OF refl assms(2)] by (simp_all add: kstep_def)
  let ?k2 = "upd_sym s (\<lambda>x. x\<lparr>s_type := S_STRING, s_auto := True\<rparr>) k1"
  have 2: "kstep k1 ?k2" by (rule upd_kstep_flags [OF k1(1) 1(2)]) (use k1(2) in \<open>simp_all add: unmarked_def\<close>)
  note 12 = kstep_trans [OF 1(1) 2]
  have k2: "ktab ?k2" "in_use ?k2 s" using 2 kstep_alloc [OF 2 1(2)] by (simp_all add: kstep_def)
  show ?thesis
  proof (cases v)
    case None
    with 12 l show ?thesis by (simp add: init_symbol_def)
  next
    case (Some d)
    obtain c k3 where c: "sym_lookup (Some d) True ?k2 = (c, k3)" by (metis surj_pair)
    note 3 = lookup_kstep(1) [OF k2(1) c]
    have "kstep k3 (add_prop s ((prop_alloc P_DEFAULT s)\<lparr>p_expr := PExpr (ESymbol c)\<rparr>) k3)"
      by (rule add_prop_kstep) (use 3 kstep_alloc [OF 3 k2(2)] in \<open>simp_all add: kstep_def prop_wf_def prop_alloc_def\<close>)
    from kstep_trans [OF kstep_trans [OF 12 3] this] show ?thesis by (simp add: init_symbol_def sym_add_default_def l c Some)
  qed
qed

lemma sym_init_ktab: "ktab k \<Longrightarrow> ktab (snd (sym_init False arch kernelversion release k))"
proof -
  assume k: "ktab k"
  have "kstep k' (init_symbol n v k')" if "ktab k'" "n \<in> {''ARCH'', ''KERNELVERSION'', ''UNAME_RELEASE''}" for n v k'
    by (rule init_kstep [OF that(1)]) (use that(2) in \<open>auto simp: builtin_def\<close>)
  then have "ktab (init_symbol n v k')" if "ktab k'" "n \<in> {''ARCH'', ''KERNELVERSION'', ''UNAME_RELEASE''}" for n v k'
    using that unfolding kstep_def by blast
  then show ?thesis using k by (simp add: sym_init_def)
qed

lemma ktab_modules:
  assumes "ktab k" and "in_use k m"
  shows "ktab (k\<lparr>modules_sym := Some m\<rparr>)"
proof -
  have "in_use (k\<lparr>modules_sym := Some m\<rparr>) = in_use k" by (rule ext) (simp add: in_use_def split: sym.splits)
  moreover have "tab_wf (k\<lparr>modules_sym := Some m\<rparr>) = tab_wf k" by (simp add: tab_wf_def consts_typed_def bound_syms_def)
  ultimately show ?thesis using assms by (simp add: ktab_def)
qed

lemma parse_init_ok: "\<exists>st'. parse_init arch kernelversion release static_mst = Some st' \<and> parsing st' [(rootmenu, [])] \<and> menu_names st' = []"
proof -
  let ?k0 = "snd (sym_init False arch kernelversion release static_kst)"
  obtain m k1 where l: "sym_lookup None False ?k0 = (m, k1)" by (metis surj_pair)
  note 1 = lookup_kstep [OF sym_init_ktab [OF static_ktab] l]
  have c: "\<not> s_const (tab k1 m)" "ktab k1" using 1(1,5) by (simp_all add: new_symbol_def kstep_def)
  let ?k2 = "upd_sym m (\<lambda>x. x\<lparr>s_type := S_BOOLEAN, s_auto := True\<rparr>) k1"
  have 2: "kstep k1 ?k2" by (rule upd_kstep_flags [OF c(2) 1(2)]) (use c(1) in \<open>simp_all add: unmarked_def\<close>)
  then have "ktab ?k2" by (simp add: kstep_def)
  note k2 = ktab_modules [OF this kstep_alloc [OF 2 1(2)]]
  let ?st = "(menu_init static_mst)\<lparr>ksyms := ?k2\<lparr>modules_sym := Some m\<rparr>\<rparr>"
  have "pok ?st" using k2 by (simp add: pok_def menu_wf_def menu_init_def static_mst_def new_menu_def)
  then have ok: "opts_ok ?st" by (simp add: opts_ok_def)
  have "building ?st [(rootmenu, [])]"
    by (simp add: building_def menu_init_def static_mst_def root_ok_def tail_ptr_def new_menu_def)
  with ok have p: "parsing ?st [(rootmenu, [])]" by (simp add: parsing_def)
  have n: "menu_names ?st = []" by (simp add: menu_names_def menu_syms_def menu_init_def static_mst_def)
  obtain r st' where a: "menu_add_prop P_MENU (Some ''Linux Kernel Configuration'') PNone None ?st = Some (r, st')" "keep ?st st'"
    using add_prop_keep [OF \<open>pok ?st\<close>, of "Some ''Linux Kernel Configuration''" P_MENU PNone None] by (auto simp: prop_wf_def)
  have "parse_init arch kernelversion release static_mst = Some st'"
    using a(1) l by (simp add: parse_init_def lookup_sym_def menu_init_def upd_ksyms_def static_mst_def menu_add_prompt_def)
  with parsing_keep [OF p a(2)] n show ?thesis by auto
qed

lemma modules_default_keep:
  assumes "opts_ok st"
  shows "\<exists>st'. modules_default st = Some st' \<and> keep st st'"
proof -
  from assms obtain m where m: "modules_sym (ksyms st) = Some m" and p: "pok st" by (auto simp: opts_ok_def)
  then have a: "in_use (ksyms st) m" by (simp add: pok_def ktab_def)
  obtain s st1 where l: "lookup_sym (Some ''MODULES'') False st = (s, st1)" by (metis surj_pair)
  note 1 = lookup_keep(1) [OF p l]
  let ?q = "(prop_alloc P_DEFAULT m)\<lparr>p_expr := PExpr (ESymbol s)\<rparr>"
  have "in_use (ksyms st1) m" using 1 kstep_alloc a by (auto simp: keep_def)
  then have "kstep (ksyms st1) (add_prop m ?q (ksyms st1))"
    by (intro add_prop_kstep pok_ktab [OF keep_pok [OF 1]]) (simp_all add: prop_wf_def prop_alloc_def)
  then have "keep st1 (upd_ksyms (add_prop m ?q) st1)" by (rule keep_upd [OF keep_pok [OF 1]])
  from keep_trans [OF 1 this] keep_refl [OF p] m l show ?thesis
    by (simp add: modules_default_def)
qed

text \<open>The dependency check of all symbols reports a circle if there is one that they reach.\<close>

definition circle_from :: "kst \<Rightarrow> sym \<Rightarrow> bool" where
  "circle_from k s \<longleftrightarrow> (\<exists>t. (s, t) \<in> (deps k)\<^sup>* \<and> (t, t) \<in> (deps k)\<^sup>+)"

lemma check_all_found:
  assumes fin: "finite K" and cl: "deps k0 `` K \<subseteq> K" and pl: "\<And>s. plain_defaults (tab k0 s)" and d: "card K < d"
  shows "searching k0 k \<Longrightarrow> grey k = {} \<Longrightarrow> set ss \<subseteq> K \<Longrightarrow>
    \<exists>out k'. check_all d ss k = Some (out, k') \<and> searching k0 k' \<and> grey k' = {} \<and> seen k \<subseteq> seen k' \<and>
      (out \<noteq> [] \<longrightarrow> (\<exists>s \<in> set ss. circle_from k0 s)) \<and> (out = [] \<and> clean k0 k \<longrightarrow> set ss \<subseteq> seen k' \<and> clean k0 k')"
proof (induction ss arbitrary: k)
  case (Cons s ss)
  have "card (K - seen k) < d" using card_mono [OF fin, of "K - seen k"] d by auto
  with check_deps_found [OF fin cl pl Cons.prems(1), of d s] Cons.prems(3) obtain r out k1 where
    1: "sym_check_deps d s k = Some (r, out, k1)" "found k0 {s} k (r, out, k1)" by (auto simp: yields_def)
  have 2: "searching k0 k1" "grey k1 = {}" "seen k \<subseteq> seen k1" "out \<noteq> [] \<Longrightarrow> circle_from k0 s"
    "out = [] \<Longrightarrow> clean k0 k \<Longrightarrow> s \<in> seen k1 \<and> clean k0 k1"
    using 1(2) Cons.prems(2) by (auto simp: found_def circle_from_def)
  have "set ss \<subseteq> K" using Cons.prems(3) by simp
  from Cons.IH [OF 2(1,2) this] obtain out' k' where 3: "check_all d ss k1 = Some (out', k')" "searching k0 k'" "grey k' = {}" "seen k1 \<subseteq> seen k'"
    "out' \<noteq> [] \<Longrightarrow> \<exists>s \<in> set ss. circle_from k0 s" "out' = [] \<Longrightarrow> clean k0 k1 \<Longrightarrow> set ss \<subseteq> seen k' \<and> clean k0 k'" by blast
  have "check_all d (s # ss) k = Some (out @ out', k')" using 1(1) 3(1) by simp
  moreover have "out @ out' \<noteq> [] \<Longrightarrow> \<exists>x \<in> set (s # ss). circle_from k0 x" using 2(4) 3(5) by auto
  moreover have "out @ out' = [] \<Longrightarrow> clean k0 k \<Longrightarrow> set (s # ss) \<subseteq> seen k' \<and> clean k0 k'" using 2(5) 3(4,6) by auto
  moreover have "seen k \<subseteq> seen k'" using 2(3) 3(4) by blast
  ultimately show ?case using 3(2,3) by blast
qed simp

text \<open>The symbols with dependencies and those they depend on are finitely many.\<close>

lemma deps_bound: "(s, t) \<in> deps k \<Longrightarrow> s \<in> bound_syms k"
  by (cases "s_props (tab k s) = []"; cases "s_rev_dep (tab k s)") (auto simp: deps_def dep_syms_def opt_syms_def bound_syms_def)

lemma check_all_ok:
  assumes "tab_wf k"
  shows "\<exists>d0. \<forall>d \<ge> d0. \<exists>out k'. check_all d ss k = Some (out, k') \<and> (\<forall>s. unmark (tab k' s) = unmark (tab k s)) \<and> hash k' = hash k \<and>
    (out = [] \<longleftrightarrow> \<not> (\<exists>s \<in> set ss. circle_from k s))"
proof -
  let ?K = "set ss \<union> bound_syms k \<union> (\<Union>s \<in> bound_syms k. set (dep_syms (tab k s)))"
  note w = assms [unfolded tab_wf_def]
  have fin: "finite ?K" using w by simp
  have cl: "deps k `` ?K \<subseteq> ?K" using deps_bound unfolding deps_def by blast
  have pl: "plain_defaults (tab k s)" for s
    unfolding plain_defaults_def by (rule list.pred_mono_strong [of "prop_wf (tab k)"]) (use w in \<open>auto simp: prop_wf_def\<close>)
  have "s_check (tab k s) = False \<and> s_checked (tab k s) = False" for s using w by (simp add: unmarked_def)
  then have g: "grey k = {}" "seen k = {}" by (simp_all add: grey_def seen_def)
  have s: "searching k k" "clean k k" using g by (simp_all add: searching_def clean_def)
  have "\<exists>out k'. check_all d ss k = Some (out, k') \<and> (\<forall>s. unmark (tab k' s) = unmark (tab k s)) \<and> hash k' = hash k \<and> (out = [] \<longleftrightarrow> \<not> (\<exists>s \<in> set ss. circle_from k s))"
    if "Suc (card ?K) \<le> d" for d
  proof -
    have "card ?K < d" "set ss \<subseteq> ?K" using that by auto
    from check_all_found [OF fin cl pl this(1) s(1) g(1) this(2)] obtain out k' where c: "check_all d ss k = Some (out, k')" "searching k k'"
      "grey k' = {}" "out \<noteq> [] \<Longrightarrow> \<exists>s \<in> set ss. circle_from k s" "out = [] \<Longrightarrow> set ss \<subseteq> seen k' \<and> clean k k'" using s(2) by blast
    have "\<not> circle_from k x" if "out = []" "x \<in> set ss" for x
    proof -
      have cn: "clean k k'" "x \<in> seen k'" using c(5) that by auto
      have "t \<in> seen k'" if "(x, t) \<in> (deps k)\<^sup>*" for t
        using that by induction (use cn c(3) in \<open>auto simp: clean_def\<close>)
      then show ?thesis using cn(1) c(3) by (auto simp: circle_from_def clean_def)
    qed
    with c show ?thesis unfolding searching_def by blast
  qed
  then show ?thesis by blast
qed

lemma parsed_finalized:
  assumes "parsing st [(rootmenu, ts)]" and "length (menu_names st) < n"
  shows "\<exists>st'. menu_finalize n rootmenu st = Some st' \<and> tab_wf (ksyms st') \<and> menu_names st' = menu_names st \<and>
    (\<exists>ts'. root_ok (menus st') \<and> fseg (menus st') rootmenu (m_list (menus st' rootmenu)) ts' None \<and> preorders ts' = [1..<m_used st'])"
proof -
  have b: "building st [(rootmenu, ts)]" and ok: "fin_ok st" using assms(1) by (simp_all add: parsing_def opts_ok_def pok_fin)
  then have t: "root_ok (menus st)" "fseg (menus st) rootmenu (m_list (menus st rootmenu)) ts None" "rootmenu # preorders ts = [0..<m_used st]"
    by (simp_all add: building_def)
  have u: "m_used st = Suc (length (preorders ts))" using arg_cong [OF t(3), of length] by simp
  have p: "preorders ts = [1..<m_used st]" using t(3) unfolding u by (simp add: upt_conv_Cons del: upt_Suc)
  have l: "length (preorders ts) < n" using assms(2) by (simp add: menu_names_def menu_syms_def u del: upt_Suc)
  have d: "distinct (rootmenu # preorders ts)" unfolding t(3) by simp
  obtain st' ts' where f: "menu_finalize n rootmenu st = Some st'" "root_ok (menus st')"
    "fseg (menus st') rootmenu (m_list (menus st' rootmenu)) ts' None" "preorders ts' = preorders ts"
    "fin_ok st'" "m_used st' = m_used st" "\<And>m. m_sym (menus st' m) = m_sym (menus st m)"
    "\<And>s. s_name (tab (ksyms st') s) = s_name (tab (ksyms st) s)"
    by (rule finalize_root [OF ok t(1,2) d l]) blast
  have "menu_names st' = menu_names st" by (simp add: menu_names_def menu_syms_def f(6-8))
  with f p show ?thesis by (auto simp: fin_ok_def)
qed

lemma unmark_fields: "unmark x = unmark y \<Longrightarrow> s_name x = s_name y \<and> s_type x = s_type y"
  by (cases x; cases y) (simp add: unmark_def)

lemma checked_same:
  assumes "\<And>s. unmark (tab k' s) = unmark (tab k s)" and "hash k' = hash k"
  shows "circle_from k' = circle_from k" and "all_symbols k' = all_symbols k" and "s_name (tab k' s) = s_name (tab k s)"
proof -
  have "deps k' = deps k" using unmark_deps [OF assms(1)] by (simp add: deps_def)
  then show "circle_from k' = circle_from k" by (simp add: circle_from_def fun_eq_iff)
  show "all_symbols k' = all_symbols k" "s_name (tab k' s) = s_name (tab k s)"
    using unmark_fields [OF assms(1)] by (simp_all add: all_symbols_def assms(2))
qed

text \<open>Everything up to the dependency check.\<close>

lemma parse_runs:
  assumes "stmts_ok ss" and "length (stmts_names ss) < n"
  obtains st1 st2 st3 st4 ts where "parse_init arch kernelversion release static_mst = Some st1" and "parse_stmts ss st1 = Some st2"
    and "modules_default st2 = Some st3" and "menu_finalize n rootmenu st3 = Some st4" and "tab_wf (ksyms st4)"
    and "menu_names st4 = stmts_names ss" and "root_ok (menus st4)"
    and "fseg (menus st4) rootmenu (m_list (menus st4 rootmenu)) ts None" and "preorders ts = [1..<m_used st4]"
proof -
  obtain st1 where 1: "parse_init arch kernelversion release static_mst = Some st1" "parsing st1 [(rootmenu, [])]" "menu_names st1 = []"
    using parse_init_ok by blast
  obtain st2 ts where 2: "parse_stmts ss st1 = Some st2" "parsing st2 [(rootmenu, ts)]" "menu_names st2 = stmts_names ss"
    using parses_stmts(2) [OF assms(1)] 1(2,3) unfolding parses_def by fastforce
  have "opts_ok st2" using 2(2) by (simp add: parsing_def)
  then obtain st3 where 3: "modules_default st2 = Some st3" "keep st2 st3" using modules_default_keep by blast
  note p3 = parsing_keep [OF 2(2) 3(2)]
  obtain st4 ts' where "menu_finalize n rootmenu st3 = Some st4" "tab_wf (ksyms st4)" "menu_names st4 = stmts_names ss"
    "root_ok (menus st4)" "fseg (menus st4) rootmenu (m_list (menus st4 rootmenu)) ts' None" "preorders ts' = [1..<m_used st4]"
    using parsed_finalized [OF conjunct1 [OF p3], of n] assms(2) 2(3) p3 by auto
  with 1 2 3 that show thesis by blast
qed

end
