(* ===== verification/Kconf_Parse_Theorems.thy ===== *)
theory Kconf_Parse_Theorems
  imports Kconf_Parse_Tree
begin

text \<open>
  The property of the parser of \<open>Kconfig\<close> files.
\<close>

text \<open>C13: \<open>conf_parse\<close> returns, and the menus are those of the text. For every sequence of statements
  without the errors of a choice, whatever the options, the expressions and the nesting, none of the actions uses a null
  pointer and \<open>menu_finalize\<close> and the dependency check end. The menus have the symbols named in the text in its order, a walk along
  the pointers visits them in that order, and the check prints something exactly if the symbols have
  a circular dependency.\<close>

theorem conf_parse_order:
  assumes "stmts_ok ss" and "length (stmts_names ss) < n"
  shows "\<exists>d0. \<forall>d \<ge> d0. \<exists>out st. conf_parse n d arch kernelversion release ss static_mst = Some (out, st) \<and>
    menu_names st = stmts_names ss \<and>
    (\<forall>visit (a :: 'a). menu_walk visit (menus st) (m_list (menus st rootmenu)) a = visits visit [1..<m_used st] a) \<and>
    (out = [] \<longleftrightarrow> \<not> (\<exists>s \<in> set (all_symbols (ksyms st)). circle_from (ksyms st) s))"
proof -
  obtain st1 st2 st3 st4 ts' where run: "parse_init arch kernelversion release static_mst = Some st1" "parse_stmts ss st1 = Some st2"
      "modules_default st2 = Some st3" "menu_finalize n rootmenu st3 = Some st4"
    and 4: "tab_wf (ksyms st4)" "menu_names st4 = stmts_names ss"
    and t: "root_ok (menus st4)" "fseg (menus st4) rootmenu (m_list (menus st4 rootmenu)) ts' None" "preorders ts' = [1..<m_used st4]"
    by (rule parse_runs [OF assms])
  obtain d0 where d0: "\<And>d. d0 \<le> d \<Longrightarrow> \<exists>out k. check_all d (all_symbols (ksyms st4)) (ksyms st4) = Some (out, k) \<and>
      (\<forall>s. unmark (tab k s) = unmark (tab (ksyms st4) s)) \<and> hash k = hash (ksyms st4) \<and>
      (out = [] \<longleftrightarrow> \<not> (\<exists>s \<in> set (all_symbols (ksyms st4)). circle_from (ksyms st4) s))"
    using check_all_ok [OF 4(1)] by blast
  show ?thesis
  proof (intro exI [of _ d0] allI impI)
    fix d assume "d0 \<le> d"
    from d0 [OF this] obtain out k where k: "check_all d (all_symbols (ksyms st4)) (ksyms st4) = Some (out, k)"
      "\<And>s. unmark (tab k s) = unmark (tab (ksyms st4) s)" "hash k = hash (ksyms st4)"
      "out = [] \<longleftrightarrow> \<not> (\<exists>s \<in> set (all_symbols (ksyms st4)). circle_from (ksyms st4) s)" by blast
    let ?k = "k\<lparr>sym_change_count := 1\<rparr>"
    have e: "unmark (tab ?k s) = unmark (tab (ksyms st4) s)" "hash ?k = hash (ksyms st4)" for s using k(2,3) by simp_all
    note c = checked_same [OF e]
    let ?st = "st4\<lparr>ksyms := ?k\<rparr>"
    have "conf_parse n d arch kernelversion release ss static_mst = Some (out, ?st)"
      by (simp add: conf_parse_def run k(1))
    moreover have "menu_names ?st = stmts_names ss" using 4(2) by (simp add: menu_names_def menu_syms_def c(3) [simplified])
    moreover have "menu_walk visit (menus ?st) (m_list (menus ?st rootmenu)) a = visits visit [1..<m_used ?st] a" for visit and a :: 'a
      using walk_tree [OF t(1,2)] t(3) by simp
    moreover have "out = [] \<longleftrightarrow> \<not> (\<exists>s \<in> set (all_symbols (ksyms ?st)). circle_from (ksyms ?st) s)"
      using k(4) c(1,2) by simp
    ultimately show "\<exists>out st. conf_parse n d arch kernelversion release ss static_mst = Some (out, st) \<and> menu_names st = stmts_names ss \<and>
        (\<forall>visit (a :: 'a). menu_walk visit (menus st) (m_list (menus st rootmenu)) a = visits visit [1..<m_used st] a) \<and>
        (out = [] \<longleftrightarrow> \<not> (\<exists>s \<in> set (all_symbols (ksyms st)). circle_from (ksyms st) s))" by blast
  qed
qed

definition parsed_text :: "kstmt list" where
  "parsed_text =
     [Config ''MODULES'' [OType S_BOOLEAN (Some (''Modules'', None)), OOption [Some T_OPT_MODULES]],
      Menu ''Network'' [KSym (Word ''NET'')]
        [Menuconfig ''NET'' [OType S_TRISTATE (Some (''Networking'', None)), OSelect ''CRC'' None],
         IfStmt (KAnd (KSym (Word ''NET'')) (KNot (KEqual (Word ''ARCH'') (Quoted ''i386''))))
           [Config ''MTU'' [OType S_INT None, ORange (Word ''68'') (Word ''1500'') None, ODefault S_UNKNOWN (KSym (Quoted ''1500'')) None]]],
      Choice [CPrompt ''Size'' None, CDefault S_UNKNOWN ''SMALL'' None]
        [Config ''SMALL'' [OType S_BOOLEAN None], Config ''LARGE'' [OType S_BOOLEAN None, OHelp ''No.'']],
      Comment ''End'' []]"

theorem conf_parse_order_witness:
  "\<exists>d out st. conf_parse 11 d None (Some ''2.6.19'') ''2.6.19'' parsed_text static_mst = Some (out, st) \<and>
    menu_names st = [Some ''MODULES'', None, Some ''NET'', None, Some ''MTU'', None, Some ''SMALL'', Some ''LARGE'', None] \<and>
    menu_walk (\<lambda>m ms. Some (ms @ [m])) (menus st) (m_list (menus st rootmenu)) [] = Some [1, 2, 3, 4, 5, 6, 7, 8, 9]"
proof -
  have s: "stmts_names parsed_text = [Some ''MODULES'', None, Some ''NET'', None, Some ''MTU'', None, Some ''SMALL'', Some ''LARGE'', None]"
    by (simp add: parsed_text_def)
  have o: "stmts_ok parsed_text" "length (stmts_names parsed_text) < 11" unfolding s by (simp_all add: parsed_text_def builtin_def)
  obtain d out st where p: "conf_parse 11 d None (Some ''2.6.19'') ''2.6.19'' parsed_text static_mst = Some (out, st)"
    "menu_names st = stmts_names parsed_text"
    "\<forall>visit (a :: nat list). menu_walk visit (menus st) (m_list (menus st rootmenu)) a = visits visit [1..<m_used st] a"
    using conf_parse_order [OF o, of None "Some ''2.6.19''" "''2.6.19''", where 'a = "nat list"] by blast
  have "length (menu_names st) = 9" unfolding p(2) s by simp
  then have "m_used st = 10" by (simp add: menu_names_def menu_syms_def)
  then have "[1..<m_used st] = [1, 2, 3, 4, 5, 6, 7, 8, 9]" by (simp add: upt_rec)
  then have "menu_walk (\<lambda>m ms. Some (ms @ [m])) (menus st) (m_list (menus st rootmenu)) [] = Some [1, 2, 3, 4, 5, 6, 7, 8, 9]"
    using p(3) by simp
  with p(1,2) s show ?thesis by auto
qed

end
