(* ===== verification/Md4.thy ===== *)
theory Md4
  imports Prelude
begin

text \<open>
  The message digest of \<open>scripts/mod/sumversion.c\<close>: the compression function, the context that
  collects the bytes of a message, and the printed digest. The block of the context is modelled as
  the 64 bytes in memory, which the code also reads as 16 words; \<open>le\<close> says whether the host is
  little-endian.
\<close>

unbundle bit_operations_syntax

section \<open>The compression function\<close>

definition lshift :: "32 word \<Rightarrow> nat \<Rightarrow> 32 word" where
  "lshift x s = (let x = x AND 0xFFFFFFFF in (push_bit s x AND 0xFFFFFFFF) OR drop_bit (32 - s) x)"

definition md4_F :: "32 word \<Rightarrow> 32 word \<Rightarrow> 32 word \<Rightarrow> 32 word" where
  "md4_F x y z = (x AND y) OR (NOT x AND z)"

definition md4_G :: "32 word \<Rightarrow> 32 word \<Rightarrow> 32 word \<Rightarrow> 32 word" where
  "md4_G x y z = (x AND y) OR (x AND z) OR (y AND z)"

definition md4_H :: "32 word \<Rightarrow> 32 word \<Rightarrow> 32 word \<Rightarrow> 32 word" where
  "md4_H x y z = x XOR y XOR z"

definition ROUND1 :: "32 word \<Rightarrow> 32 word \<Rightarrow> 32 word \<Rightarrow> 32 word \<Rightarrow> 32 word \<Rightarrow> nat \<Rightarrow> 32 word" where
  "ROUND1 a b c d k s = lshift (a + md4_F b c d + k) s"

definition ROUND2 :: "32 word \<Rightarrow> 32 word \<Rightarrow> 32 word \<Rightarrow> 32 word \<Rightarrow> 32 word \<Rightarrow> nat \<Rightarrow> 32 word" where
  "ROUND2 a b c d k s = lshift (a + md4_G b c d + k + 0x5A827999) s"

definition ROUND3 :: "32 word \<Rightarrow> 32 word \<Rightarrow> 32 word \<Rightarrow> 32 word \<Rightarrow> 32 word \<Rightarrow> nat \<Rightarrow> 32 word" where
  "ROUND3 a b c d k s = lshift (a + md4_H b c d + k + 0x6ED9EBA1) s"

definition md4_transform :: "32 word list \<Rightarrow> 32 word list \<Rightarrow> 32 word list" where
  "md4_transform h inp =
     (let a = h ! 0; b = h ! 1; c = h ! 2; d = h ! 3;
         a = ROUND1 a b c d (inp ! 0) 3;
         d = ROUND1 d a b c (inp ! 1) 7;
         c = ROUND1 c d a b (inp ! 2) 11;
         b = ROUND1 b c d a (inp ! 3) 19;
         a = ROUND1 a b c d (inp ! 4) 3;
         d = ROUND1 d a b c (inp ! 5) 7;
         c = ROUND1 c d a b (inp ! 6) 11;
         b = ROUND1 b c d a (inp ! 7) 19;
         a = ROUND1 a b c d (inp ! 8) 3;
         d = ROUND1 d a b c (inp ! 9) 7;
         c = ROUND1 c d a b (inp ! 10) 11;
         b = ROUND1 b c d a (inp ! 11) 19;
         a = ROUND1 a b c d (inp ! 12) 3;
         d = ROUND1 d a b c (inp ! 13) 7;
         c = ROUND1 c d a b (inp ! 14) 11;
         b = ROUND1 b c d a (inp ! 15) 19;
         a = ROUND2 a b c d (inp ! 0) 3;
         d = ROUND2 d a b c (inp ! 4) 5;
         c = ROUND2 c d a b (inp ! 8) 9;
         b = ROUND2 b c d a (inp ! 12) 13;
         a = ROUND2 a b c d (inp ! 1) 3;
         d = ROUND2 d a b c (inp ! 5) 5;
         c = ROUND2 c d a b (inp ! 9) 9;
         b = ROUND2 b c d a (inp ! 13) 13;
         a = ROUND2 a b c d (inp ! 2) 3;
         d = ROUND2 d a b c (inp ! 6) 5;
         c = ROUND2 c d a b (inp ! 10) 9;
         b = ROUND2 b c d a (inp ! 14) 13;
         a = ROUND2 a b c d (inp ! 3) 3;
         d = ROUND2 d a b c (inp ! 7) 5;
         c = ROUND2 c d a b (inp ! 11) 9;
         b = ROUND2 b c d a (inp ! 15) 13;
         a = ROUND3 a b c d (inp ! 0) 3;
         d = ROUND3 d a b c (inp ! 8) 9;
         c = ROUND3 c d a b (inp ! 4) 11;
         b = ROUND3 b c d a (inp ! 12) 15;
         a = ROUND3 a b c d (inp ! 2) 3;
         d = ROUND3 d a b c (inp ! 10) 9;
         c = ROUND3 c d a b (inp ! 6) 11;
         b = ROUND3 b c d a (inp ! 14) 15;
         a = ROUND3 a b c d (inp ! 1) 3;
         d = ROUND3 d a b c (inp ! 9) 9;
         c = ROUND3 c d a b (inp ! 5) 11;
         b = ROUND3 b c d a (inp ! 13) 15;
         a = ROUND3 a b c d (inp ! 3) 3;
         d = ROUND3 d a b c (inp ! 11) 9;
         c = ROUND3 c d a b (inp ! 7) 11;
         b = ROUND3 b c d a (inp ! 15) 15
      in [h ! 0 + a, h ! 1 + b, h ! 2 + c, h ! 3 + d])"

text \<open>The reference of RFC 1320: 48 operations, each given by its round, the word it adds and the
  rotation, on four registers that rotate.\<close>

definition md4_op :: "nat \<Rightarrow> 32 word \<Rightarrow> 32 word \<Rightarrow> 32 word \<Rightarrow> 32 word" where
  "md4_op r x y z =
     (if r = 1 then (x AND y) OR (NOT x AND z)
      else if r = 2 then ((x AND y) OR (x AND z) OR (y AND z)) + 0x5A827999
      else (x XOR y XOR z) + 0x6ED9EBA1)"

fun md4_step :: "32 word list \<Rightarrow> nat \<times> nat \<times> nat \<Rightarrow> 32 word \<times> 32 word \<times> 32 word \<times> 32 word \<Rightarrow>
    32 word \<times> 32 word \<times> 32 word \<times> 32 word" where
  "md4_step xs (r, k, s) (a, b, c, d) = (d, word_rotl s (a + md4_op r b c d + xs ! k), b, c)"

definition md4_schedule :: "(nat \<times> nat \<times> nat) list" where
  "md4_schedule =
     map2 (\<lambda>k s. (1, k, s)) [0..<16] (concat (replicate 4 [3, 7, 11, 19])) @
     map2 (\<lambda>k s. (2, k, s)) [0, 4, 8, 12, 1, 5, 9, 13, 2, 6, 10, 14, 3, 7, 11, 15] (concat (replicate 4 [3, 5, 9, 13])) @
     map2 (\<lambda>k s. (3, k, s)) [0, 8, 4, 12, 2, 10, 6, 14, 1, 9, 5, 13, 3, 11, 7, 15] (concat (replicate 4 [3, 9, 11, 15]))"

fun md4_add :: "32 word list \<Rightarrow> 32 word \<times> 32 word \<times> 32 word \<times> 32 word \<Rightarrow> 32 word list" where
  "md4_add h (a, b, c, d) = [h ! 0 + a, h ! 1 + b, h ! 2 + c, h ! 3 + d]"

definition md4_rfc :: "32 word list \<Rightarrow> 32 word list \<Rightarrow> 32 word list" where
  "md4_rfc h xs = md4_add h (fold (md4_step xs) md4_schedule (h ! 0, h ! 1, h ! 2, h ! 3))"

lemma and_all_ones: "(x :: 32 word) AND 0xFFFFFFFF = x"
proof -
  have ones: "(0xFFFFFFFF :: 32 word) = - 1" by simp
  show ?thesis unfolding ones by (rule bit.conj_one_right)
qed

lemma lshift_rotl:
  assumes "0 < s" and "s < 32"
  shows "lshift x s = word_rotl s x"
  unfolding lshift_def Let_def and_all_ones
proof (rule bit_word_eqI)
  fix n assume n: "n < LENGTH(32)"
  show "bit (push_bit s x OR drop_bit (32 - s) x) n = bit (word_rotl s x) n"
  proof (cases "n < s")
    case True
    then have "(n + (32 - s)) mod 32 = 32 - s + n" using assms by simp
    with True n assms show ?thesis by (simp add: bit_or_iff bit_push_bit_iff bit_drop_bit_eq bit_word_rotl_iff)
  next
    case False
    then have "(n + (32 - s)) mod 32 = n - s" using assms n by (simp add: mod_if)
    moreover have "\<not> bit x (32 - s + n)" using False n bit_imp_le_length [of x "32 - s + n"] by auto
    ultimately show ?thesis using False n assms by (simp add: bit_or_iff bit_push_bit_iff bit_drop_bit_eq bit_word_rotl_iff)
  qed
qed

lemma let_nth: "body (h ! i) = r \<Longrightarrow> Let (h ! i) body = r"
  by simp

lemma let_step:
  assumes "0 < s" "s < 32"
  shows "(\<And>x. body x = md4_add h (fold (md4_step xs) ks (d, x, b, c))) \<Longrightarrow>
      Let (ROUND1 a b c d (xs ! k) s) body = md4_add h (fold (md4_step xs) ((1, k, s) # ks) (a, b, c, d))"
    "(\<And>x. body x = md4_add h (fold (md4_step xs) ks (d, x, b, c))) \<Longrightarrow>
      Let (ROUND2 a b c d (xs ! k) s) body = md4_add h (fold (md4_step xs) ((2, k, s) # ks) (a, b, c, d))"
    "(\<And>x. body x = md4_add h (fold (md4_step xs) ks (d, x, b, c))) \<Longrightarrow>
      Let (ROUND3 a b c d (xs ! k) s) body = md4_add h (fold (md4_step xs) ((3, k, s) # ks) (a, b, c, d))"
  using assms
  by (simp_all add: ROUND1_def ROUND2_def ROUND3_def lshift_rotl md4_op_def md4_F_def md4_G_def md4_H_def add_ac)

lemma schedule_list:
  "md4_schedule = [(1, 0, 3), (1, 1, 7), (1, 2, 11), (1, 3, 19), (1, 4, 3), (1, 5, 7), (1, 6, 11), (1, 7, 19),
    (1, 8, 3), (1, 9, 7), (1, 10, 11), (1, 11, 19), (1, 12, 3), (1, 13, 7), (1, 14, 11), (1, 15, 19),
    (2, 0, 3), (2, 4, 5), (2, 8, 9), (2, 12, 13), (2, 1, 3), (2, 5, 5), (2, 9, 9), (2, 13, 13),
    (2, 2, 3), (2, 6, 5), (2, 10, 9), (2, 14, 13), (2, 3, 3), (2, 7, 5), (2, 11, 9), (2, 15, 13),
    (3, 0, 3), (3, 8, 9), (3, 4, 11), (3, 12, 15), (3, 2, 3), (3, 10, 9), (3, 6, 11), (3, 14, 15),
    (3, 1, 3), (3, 9, 9), (3, 5, 11), (3, 13, 15), (3, 3, 3), (3, 11, 9), (3, 7, 11), (3, 15, 15)]"
  by (simp add: md4_schedule_def upt_rec numeral_eq_Suc)

lemma transform_rfc: "md4_transform h xs = md4_rfc h xs"
  unfolding md4_transform_def md4_rfc_def schedule_list
  by (rule let_nth, rule let_nth, rule let_nth, rule let_nth, (rule let_step, (simp; fail), (simp; fail))+) simp

section \<open>Bytes and words in memory\<close>

definition word_of_bytes :: "bool \<Rightarrow> 8 word list \<Rightarrow> 32 word" where
  "word_of_bytes le bs = of_nat (foldl (\<lambda>x b. 256 * x + unat b) 0 (if le then rev bs else bs))"

definition bytes_of_word :: "bool \<Rightarrow> 32 word \<Rightarrow> 8 word list" where
  "bytes_of_word le w =
     (let bs = map (\<lambda>i. of_nat (unat w div 256 ^ i)) [3, 2, 1, 0] in if le then rev bs else bs)"

text \<open>The array of \<open>n\<close> words that starts at the first of some bytes.\<close>

definition words :: "bool \<Rightarrow> nat \<Rightarrow> 8 word list \<Rightarrow> 32 word list" where
  "words le n bs = map (\<lambda>i. word_of_bytes le (take 4 (drop (4 * i) bs))) [0..<n]"

definition unwords :: "bool \<Rightarrow> 32 word list \<Rightarrow> 8 word list" where
  "unwords le ws = concat (map (bytes_of_word le) ws)"

text \<open>\<open>ntohl\<close> and \<open>htonl\<close>: the identity on a big-endian host, otherwise the bytes are reversed.\<close>

definition ntohl :: "bool \<Rightarrow> 32 word \<Rightarrow> 32 word" where
  "ntohl le w = (if le then word_of_bytes False (bytes_of_word True w) else w)"

definition le32_to_cpu_array :: "bool \<Rightarrow> nat \<Rightarrow> 8 word list \<Rightarrow> 8 word list" where
  "le32_to_cpu_array le n bs = unwords le (map (ntohl le) (words le n bs)) @ drop (4 * n) bs"

definition cpu_to_le32_array :: "bool \<Rightarrow> 32 word list \<Rightarrow> 32 word list" where
  "cpu_to_le32_array le ws = map (ntohl le) ws"

definition memcpy :: "nat \<Rightarrow> 8 word list \<Rightarrow> 8 word list \<Rightarrow> 8 word list" where
  "memcpy off src bs = take off bs @ src @ drop (off + length src) bs"

section \<open>The context\<close>

record md4_ctx =
  m_hash :: "32 word list"
  m_block :: "8 word list"
  byte_count :: "64 word"

definition md4_transform_helper :: "bool \<Rightarrow> md4_ctx \<Rightarrow> md4_ctx" where
  "md4_transform_helper le ctx =
     (let blk = le32_to_cpu_array le 16 (m_block ctx) in
      ctx\<lparr>m_block := blk, m_hash := md4_transform (m_hash ctx) (words le 16 blk)\<rparr>)"

text \<open>The block of a fresh context is not initialised.\<close>

definition md4_init :: "md4_ctx \<Rightarrow> md4_ctx" where
  "md4_init ctx = ctx\<lparr>m_hash := [0x67452301, 0xefcdab89, 0x98badcfe, 0x10325476], byte_count := 0\<rparr>"

function md4_blocks :: "bool \<Rightarrow> 8 word list \<Rightarrow> md4_ctx \<Rightarrow> md4_ctx" where
  "md4_blocks le data ctx =
     (if length data \<ge> 64
      then md4_blocks le (drop 64 data) (md4_transform_helper le (ctx\<lparr>m_block := memcpy 0 (take 64 data) (m_block ctx)\<rparr>))
      else ctx\<lparr>m_block := memcpy 0 data (m_block ctx)\<rparr>)"
  by pat_completeness auto
termination
  by (relation "measure (\<lambda>(le, data, ctx). length data)") auto

definition md4_update :: "bool \<Rightarrow> 8 word list \<Rightarrow> md4_ctx \<Rightarrow> md4_ctx" where
  "md4_update le data ctx =
     (let avail = 64 - unat (byte_count ctx AND 0x3f);
          ctx = ctx\<lparr>byte_count := byte_count ctx + of_nat (length data)\<rparr> in
      if avail > length data then ctx\<lparr>m_block := memcpy (64 - avail) data (m_block ctx)\<rparr>
      else md4_blocks le (drop avail data)
        (md4_transform_helper le (ctx\<lparr>m_block := memcpy (64 - avail) (take avail data) (m_block ctx)\<rparr>)))"

text \<open>\<open>%08X\<close>.\<close>

definition hex8 :: "32 word \<Rightarrow> string" where
  "hex8 w = map (\<lambda>i. ''0123456789ABCDEF'' ! (unat w div 16 ^ i mod 16)) [7, 6, 5, 4, 3, 2, 1, 0]"

text \<open>The padding, up to the two words for the length.\<close>

definition md4_padded :: "bool \<Rightarrow> nat \<Rightarrow> md4_ctx \<Rightarrow> md4_ctx" where
  "md4_padded le offset ctx =
     (let padding = 56 - (int offset + 1);
          ctx = ctx\<lparr>m_block := memcpy offset [0x80] (m_block ctx)\<rparr>;
          ctx = (if padding < 0
                 then (md4_transform_helper le (ctx\<lparr>m_block := memcpy (offset + 1) (replicate (nat (padding + 8)) 0) (m_block ctx)\<rparr>))
                 else ctx) in
      if padding < 0 then ctx\<lparr>m_block := memcpy 0 (replicate 56 0) (m_block ctx)\<rparr>
      else ctx\<lparr>m_block := memcpy (offset + 1) (replicate (nat padding) 0) (m_block ctx)\<rparr>)"

definition md4_final_ascii :: "bool \<Rightarrow> nat \<Rightarrow> md4_ctx \<Rightarrow> md4_ctx \<times> string" where
  "md4_final_ascii le len ctx =
     (let ctx = md4_padded le (unat (byte_count ctx AND 0x3f)) ctx;
          blk = memcpy 56 (bytes_of_word le (ucast (push_bit 3 (byte_count ctx))) @
                           bytes_of_word le (ucast (drop_bit 29 (byte_count ctx)))) (m_block ctx);
          blk = le32_to_cpu_array le 14 blk;
          h = cpu_to_le32_array le (md4_transform (m_hash ctx) (words le 16 blk)) in
      (ctx\<lparr>m_block := blk, m_hash := h\<rparr>, take (len - 1) (concat (map hex8 h))))"

definition add_char :: "bool \<Rightarrow> 8 word \<Rightarrow> md4_ctx \<Rightarrow> md4_ctx" where
  "add_char le c ctx = md4_update le [c] ctx"

section \<open>What the digest depends on\<close>

text \<open>The words of a block are the big-endian words of its bytes on every host.\<close>

lemma byte_of_nat: "(of_nat (256 * m + unat b) :: 8 word) = b"
proof -
  have z: "(256 :: 8 word) = 0" by simp
  have "(256 * of_nat m :: 8 word) = 0" unfolding z by simp
  then show ?thesis by simp
qed

lemma bytes_of_number:
  fixes a b c d :: "8 word"
  defines "n \<equiv> 256 * (256 * (256 * unat a + unat b) + unat c) + unat d"
  shows "bytes_of_word False (of_nat n) = [a, b, c, d]" and "n < 2 ^ 32"
proof -
  have l: "unat x < 256" for x :: "8 word" using unsigned_less [of x] by simp
  have d: "(256 * m + unat x) div 256 = m" for m and x :: "8 word" using l [of x] by simp
  show n: "n < 2 ^ 32" using l [of a] l [of b] l [of c] l [of d] by (simp add: n_def)
  then have u: "unat (of_nat n :: 32 word) = n" by (simp only: unat_of_nat) simp
  have "n div 256 ^ 1 = 256 * (256 * unat a + unat b) + unat c" "n div 256 ^ 2 = 256 * unat a + unat b"
    "n div 256 ^ 3 = 256 * 0 + unat a"
    by (simp_all only: power2_eq_square power3_eq_cube power_one_right div_mult2_eq n_def d mult_0_right add_0)
  then show "bytes_of_word False (of_nat n) = [a, b, c, d]"
    unfolding bytes_of_word_def u Let_def by (simp only: if_False list.map power_0 div_by_1 n_def byte_of_nat)
qed

lemma bytes_word_bytes:
  assumes "length bs = 4"
  shows "bytes_of_word le (word_of_bytes le bs) = bs"
proof -
  have four: "bytes_of_word False (word_of_bytes False [a, b, c, d]) = [a, b, c, d]" for a b c d
    unfolding word_of_bytes_def using bytes_of_number(1) [of a b c d] by (simp only: if_False foldl.simps mult_0_right add_0)
  from assms obtain a b c d where bs: "bs = [a, b, c, d]" by (auto simp: length_Suc_conv numeral_eq_Suc)
  have "word_of_bytes True bs = word_of_bytes False [d, c, b, a]" by (simp only: word_of_bytes_def bs if_True if_False rev.simps append.simps)
  then have "bytes_of_word True (word_of_bytes True bs) = rev (bytes_of_word False (word_of_bytes False [d, c, b, a]))"
    by (simp only: bytes_of_word_def Let_def if_True if_False)
  then show ?thesis by (cases le) (simp_all add: four bs)
qed

lemma digits_256: "(n :: nat) < 2 ^ 32 \<Longrightarrow>
    256 * (256 * (256 * (n div 256 ^ 3 mod 256) + n div 256 ^ 2 mod 256) + n div 256 mod 256) + n mod 256 = n"
proof -
  assume n: "n < 2 ^ 32"
  have d: "n div 256 ^ 2 = n div 256 div 256" "n div 256 ^ 3 = n div 256 div 256 div 256"
    by (simp_all only: power2_eq_square power3_eq_cube div_mult2_eq)
  have "n div 256 div 256 div 256 < 256" using n by (simp add: div_mult2_eq [symmetric] less_mult_imp_div_less)
  then show ?thesis unfolding d by (simp add: mult_div_mod_eq)
qed

lemma unat_byte: "unat (of_nat m :: 8 word) = m mod 256"
  by (simp add: unat_of_nat)

lemma word_bytes_word: "word_of_bytes le (bytes_of_word le w) = w"
proof -
  have n: "unat w < 2 ^ 32" using unsigned_less [of w] by simp
  have "foldl (\<lambda>x b. 256 * x + unat b) 0 (bytes_of_word False w) = unat w"
    using digits_256 [OF n]
    by (simp only: bytes_of_word_def Let_def if_False list.map foldl.simps unat_byte mult_0_right add_0 power_one_right power_0 div_by_1)
  then have f: "word_of_bytes False (bytes_of_word False w) = w"
    by (simp only: word_of_bytes_def if_False) simp
  have "word_of_bytes True (bytes_of_word True w) = word_of_bytes False (bytes_of_word False w)"
    by (simp only: word_of_bytes_def bytes_of_word_def Let_def if_True if_False rev_rev_ident)
  with f show ?thesis by (cases le) simp_all
qed

lemma length_bytes_of_word [simp]: "length (bytes_of_word le w) = 4"
  by (simp add: bytes_of_word_def Let_def)

lemma ntohl_word: "length bs = 4 \<Longrightarrow> ntohl le (word_of_bytes le bs) = word_of_bytes False bs"
  using bytes_word_bytes [of bs True] by (cases le) (simp_all add: ntohl_def)

lemma length_unwords: "length (unwords le ws) = 4 * length ws"
  by (induction ws) (simp_all add: unwords_def)

lemma take_drop_unwords: "i < length ws \<Longrightarrow> take 4 (drop (4 * i) (unwords le ws @ bs)) = bytes_of_word le (ws ! i)"
proof (induction ws arbitrary: i)
  case (Cons w ws)
  then show ?case by (cases i) (simp_all add: unwords_def)
qed simp

lemma length_words [simp]: "length (words le n bs) = n"
  by (simp add: words_def)

lemma words_nth: "i < n \<Longrightarrow> words le n bs ! i = word_of_bytes le (take 4 (drop (4 * i) bs))"
  by (simp add: words_def)

lemma ntohl_words: "4 * n \<le> length bs \<Longrightarrow> map (ntohl le) (words le n bs) = words False n bs"
  by (auto simp: words_def intro!: ntohl_word)

lemma cpu_array_words:
  assumes "4 * n \<le> length bs" and "n \<le> m"
  shows "words le m (le32_to_cpu_array le n bs) = words False n bs @ words le (m - n) (drop (4 * n) bs)"
proof (rule nth_equalityI)
  let ?ws = "words False n bs"
  have a: "le32_to_cpu_array le n bs = unwords le ?ws @ drop (4 * n) bs"
    by (simp add: le32_to_cpu_array_def ntohl_words assms(1))
  show "length (words le m (le32_to_cpu_array le n bs)) = length (?ws @ words le (m - n) (drop (4 * n) bs))"
    using assms(2) by simp
  fix i assume "i < length (words le m (le32_to_cpu_array le n bs))"
  then have i: "i < m" by simp
  show "words le m (le32_to_cpu_array le n bs) ! i = (?ws @ words le (m - n) (drop (4 * n) bs)) ! i"
  proof (cases "i < n")
    case True
    have "words le m (le32_to_cpu_array le n bs) ! i = word_of_bytes le (take 4 (drop (4 * i) (unwords le ?ws @ drop (4 * n) bs)))"
      by (simp only: a words_nth [OF i])
    also have "\<dots> = ?ws ! i" using True by (simp only: take_drop_unwords length_words word_bytes_word)
    finally show ?thesis using True by (simp add: nth_append)
  next
    case False
    then have d: "drop (4 * i) (unwords le ?ws @ drop (4 * n) bs) = drop (4 * (i - n)) (drop (4 * n) bs)"
      by (simp add: length_unwords diff_mult_distrib2)
    have "words le m (le32_to_cpu_array le n bs) ! i = word_of_bytes le (take 4 (drop (4 * (i - n)) (drop (4 * n) bs)))"
      by (simp only: a words_nth [OF i] d)
    then show ?thesis using False i by (simp add: nth_append words_nth)
  qed
qed

section \<open>The context holds the message\<close>

definition md4_compress :: "32 word list \<Rightarrow> 8 word list \<Rightarrow> 32 word list" where
  "md4_compress h blk = md4_rfc h (words False 16 blk)"

text \<open>The hash after the whole blocks of a message, and the rest of the message.\<close>

function absorb :: "32 word list \<Rightarrow> 8 word list \<Rightarrow> 32 word list \<times> 8 word list" where
  "absorb h msg = (if length msg \<ge> 64 then absorb (md4_compress h (take 64 msg)) (drop 64 msg) else (h, msg))"
  by pat_completeness auto
termination
  by (relation "measure (\<lambda>(h, msg). length msg)") auto

declare absorb.simps [simp del] md4_blocks.simps [simp del]

definition md4_iv :: "32 word list" where
  "md4_iv = [0x67452301, 0xefcdab89, 0x98badcfe, 0x10325476]"

definition holds :: "md4_ctx \<Rightarrow> 32 word list \<times> 8 word list \<Rightarrow> bool" where
  "holds ctx hr \<longleftrightarrow> length (m_block ctx) = 64 \<and> m_hash ctx = fst hr \<and> take (length (snd hr)) (m_block ctx) = snd hr"

definition md4_abs :: "md4_ctx \<Rightarrow> 8 word list \<Rightarrow> bool" where
  "md4_abs ctx msg \<longleftrightarrow> holds ctx (absorb md4_iv msg) \<and> byte_count ctx = of_nat (length msg)"

lemma absorb_rest: "length (snd (absorb h msg)) = length msg mod 64"
proof (induction h msg rule: absorb.induct)
  case (1 h msg)
  then show ?case by (subst absorb.simps) (auto simp: le_mod_geq)
qed

lemma absorb_append: "absorb h (msg @ data) = absorb (fst (absorb h msg)) (snd (absorb h msg) @ data)"
proof (induction h msg rule: absorb.induct)
  case (1 h msg)
  show ?case
  proof (cases "64 \<le> length msg")
    case True
    then have "absorb h (msg @ data) = absorb (md4_compress h (take 64 msg)) (drop 64 msg @ data)"
      "absorb h msg = absorb (md4_compress h (take 64 msg)) (drop 64 msg)"
      by (subst absorb.simps, simp)+
    with 1 [OF True] show ?thesis by simp
  next
    case False
    then have "absorb h msg = (h, msg)" by (subst absorb.simps) simp
    then show ?thesis by simp
  qed
qed

lemma length_cpu_array: "4 * n \<le> length bs \<Longrightarrow> length (le32_to_cpu_array le n bs) = length bs"
  by (simp add: le32_to_cpu_array_def length_unwords)

lemma helper_compress:
  assumes "length (m_block ctx) = 64"
  shows "m_hash (md4_transform_helper le ctx) = md4_compress (m_hash ctx) (m_block ctx)"
    "length (m_block (md4_transform_helper le ctx)) = 64" "byte_count (md4_transform_helper le ctx) = byte_count ctx"
proof -
  have "words le 16 (le32_to_cpu_array le 16 (m_block ctx)) = words False 16 (m_block ctx)"
    using cpu_array_words [of 16 "m_block ctx" 16 le] assms by (simp add: words_def [of le 0])
  then show "m_hash (md4_transform_helper le ctx) = md4_compress (m_hash ctx) (m_block ctx)"
    by (simp add: md4_transform_helper_def Let_def transform_rfc md4_compress_def)
qed (simp_all add: md4_transform_helper_def Let_def length_cpu_array assms)

lemma length_memcpy: "off + length src \<le> length bs \<Longrightarrow> length (memcpy off src bs) = length bs"
  by (simp add: memcpy_def)

lemma memcpy_all: "length bs = off + length src \<Longrightarrow> memcpy off src bs = take off bs @ src"
  by (simp add: memcpy_def)

lemma blocks_hold:
  "length (m_block ctx) = 64 \<Longrightarrow> holds (md4_blocks le data ctx) (absorb (m_hash ctx) data) \<and> byte_count (md4_blocks le data ctx) = byte_count ctx"
proof (induction le data ctx rule: md4_blocks.induct)
  case (1 le data ctx)
  show ?case
  proof (cases "64 \<le> length data")
    case True
    let ?c = "ctx\<lparr>m_block := memcpy 0 (take 64 data) (m_block ctx)\<rparr>"
    have b: "m_block ?c = take 64 data" using True 1(2) by (simp add: memcpy_all)
    then have l: "length (m_block ?c) = 64" using True by simp
    note h = helper_compress [OF l, of le]
    have "absorb (m_hash ctx) data = absorb (md4_compress (m_hash ctx) (take 64 data)) (drop 64 data)"
      using True by (subst absorb.simps) simp
    moreover have "md4_blocks le data ctx = md4_blocks le (drop 64 data) (md4_transform_helper le ?c)"
      using True by (subst md4_blocks.simps) simp
    ultimately show ?thesis using 1(1) [OF True h(2)] h b by simp
  next
    case False
    then have "md4_blocks le data ctx = ctx\<lparr>m_block := memcpy 0 data (m_block ctx)\<rparr>" "absorb (m_hash ctx) data = (m_hash ctx, data)"
      by (subst md4_blocks.simps, simp, subst absorb.simps, simp)
    with False 1(2) show ?thesis by (simp add: holds_def length_memcpy) (simp add: memcpy_def)
  qed
qed

lemma count_mod: "unat ((of_nat n :: 64 word) AND 0x3f) = n mod 64"
proof -
  have "(of_nat n :: 64 word) AND 0x3f = take_bit 6 (of_nat n)" by (simp add: take_bit_eq_mask mask_eq_exp_minus_1)
  then have "unat ((of_nat n :: 64 word) AND 0x3f) = take_bit 6 (n mod 2 ^ 64)"
    by (simp add: unsigned_take_bit_eq unat_of_nat)
  also have "\<dots> = n mod 64" by (simp add: take_bit_eq_mod mod_mod_cancel)
  finally show ?thesis .
qed

lemma update_abs:
  assumes "md4_abs ctx msg"
  shows "md4_abs (md4_update le data ctx) (msg @ data)"
proof -
  obtain h r where a: "absorb md4_iv msg = (h, r)" by (cases "absorb md4_iv msg")
  have r: "length r = length msg mod 64" using absorb_rest [of md4_iv msg] a by simp
  then have r64: "length r < 64" by simp
  from assms a have c: "length (m_block ctx) = 64" "m_hash ctx = h" "take (length r) (m_block ctx) = r"
    "byte_count ctx = of_nat (length msg)" by (simp_all add: md4_abs_def holds_def)
  have av: "64 - unat (byte_count ctx AND 0x3f) = 64 - length r" by (simp add: c(4) count_mod r)
  have ab: "absorb md4_iv (msg @ data) = absorb h (r @ data)" by (simp add: absorb_append [of md4_iv msg] a)
  let ?c = "ctx\<lparr>byte_count := byte_count ctx + of_nat (length data)\<rparr>"
  have cnt: "byte_count ?c = of_nat (length (msg @ data))" by (simp add: c(4))
  show ?thesis
  proof (cases "64 - length r > length data")
    case True
    then have "\<not> 64 \<le> length (r @ data)" by simp
    then have "absorb h (r @ data) = (h, r @ data)" by (subst absorb.simps) (simp only: if_False)
    moreover have "md4_update le data ctx = ?c\<lparr>m_block := memcpy (length r) data (m_block ctx)\<rparr>"
      using True r64 by (simp add: md4_update_def Let_def av)
    ultimately show ?thesis using True c cnt by (simp add: md4_abs_def holds_def ab length_memcpy) (simp add: memcpy_def)
  next
    case False
    let ?k = "64 - length r"
    let ?b = "?c\<lparr>m_block := memcpy (length r) (take ?k data) (m_block ctx)\<rparr>"
    have b: "m_block ?b = r @ take ?k data" using False r64 c by (simp add: memcpy_all)
    then have l: "length (m_block ?b) = 64" using False r64 by simp
    note hc = helper_compress [OF l, of le]
    have u: "md4_update le data ctx = md4_blocks le (drop ?k data) (md4_transform_helper le ?b)"
      using False r64 by (simp add: md4_update_def Let_def av)
    have "64 \<le> length r + length data" using False by simp
    then have "absorb h (r @ data) = absorb (md4_compress h (r @ take ?k data)) (drop ?k data)"
      using r64 by (subst absorb.simps) simp
    then show ?thesis using blocks_hold [OF hc(2), of le "drop ?k data"] hc b c cnt by (simp add: md4_abs_def ab u)
  qed
qed

lemma init_abs: "length (m_block ctx) = 64 \<Longrightarrow> md4_abs (md4_init ctx) []"
  by (subst (asm) eq_commute) (simp add: md4_abs_def holds_def md4_init_def md4_iv_def absorb.simps)

section \<open>The digest\<close>

text \<open>The digest of a message, as RFC 1320 has it except that the words of a block are big-endian: the
  padding, and in the last two words the length of the message in bits.\<close>

definition md4_pad :: "32 word list \<Rightarrow> 8 word list \<Rightarrow> 32 word list \<times> 8 word list" where
  "md4_pad h r =
     (if length r < 56 then (h, r @ 0x80 # replicate (55 - length r) 0)
      else (md4_compress h (r @ 0x80 # replicate (63 - length r) 0), replicate 56 0))"

definition md4_digest :: "8 word list \<Rightarrow> 32 word list" where
  "md4_digest msg =
     (let (h, r) = absorb md4_iv msg; (h, p) = md4_pad h r; bits = 8 * (of_nat (length msg) :: 64 word) in
      md4_rfc h (words False 14 p @ [ucast bits, ucast (drop_bit 32 bits)]))"

lemma words_prefix: "4 * n \<le> length bs \<Longrightarrow> words le n (bs @ cs) = words le n bs"
  by (auto simp: words_def)

lemma words_two: "words le 2 (bytes_of_word le v @ bytes_of_word le w) = [v, w]"
  by (simp add: words_def upt_rec numeral_eq_Suc word_bytes_word)

lemma low_bits: "(ucast (push_bit 3 c) :: 32 word) = ucast (8 * (c :: 64 word))"
  by (simp add: push_bit_eq_mult mult.commute)

lemma high_bits: "(ucast (drop_bit 29 c) :: 32 word) = ucast (drop_bit 32 (8 * (c :: 64 word)))"
proof (rule bit_word_eqI)
  fix n assume n: "n < LENGTH(32)"
  have "8 * c = push_bit 3 c" by (simp add: push_bit_eq_mult mult.commute)
  then show "bit (ucast (drop_bit 29 c) :: 32 word) n = bit (ucast (drop_bit 32 (8 * c)) :: 32 word) n"
    using n by (simp add: bit_ucast_iff bit_drop_bit_eq bit_push_bit_iff)
qed

text \<open>The last block.\<close>

lemma last_block:
  assumes "length p = 56" and "blk = memcpy 56 (bytes_of_word le v @ bytes_of_word le w) (p @ q)" and "length q = 8"
  shows "words le 16 (le32_to_cpu_array le 14 blk) = words False 14 p @ [v, w]"
proof -
  have blk: "blk = p @ bytes_of_word le v @ bytes_of_word le w" using assms by (simp add: memcpy_def)
  then show ?thesis
    using cpu_array_words [of 14 blk 16 le] assms(1) by (simp add: words_prefix words_two)
qed

lemma split_block: "length bs = 64 \<Longrightarrow> \<exists>p q. bs = p @ q \<and> length p = 56 \<and> length q = 8"
  by (intro exI [of _ "take 56 bs"] exI [of _ "drop 56 bs"]) simp

lemma padded_block:
  assumes "md4_abs ctx msg" and "absorb md4_iv msg = (h, r)"
  shows "\<exists>q. m_block (md4_padded le (unat (byte_count ctx AND 0x3f)) ctx) = snd (md4_pad h r) @ q \<and> length q = 8"
    "m_hash (md4_padded le (unat (byte_count ctx AND 0x3f)) ctx) = fst (md4_pad h r)" "byte_count (md4_padded le (unat (byte_count ctx AND 0x3f)) ctx) = of_nat (length msg)"
    "length (snd (md4_pad h r)) = 56"
proof -
  have r: "length r = length msg mod 64" using absorb_rest [of md4_iv msg] assms(2) by simp
  then have r64: "length r < 64" by simp
  from assms have c: "length (m_block ctx) = 64" "m_hash ctx = h" "take (length r) (m_block ctx) = r"
    "byte_count ctx = of_nat (length msg)" by (simp_all add: md4_abs_def holds_def)
  have off: "unat (byte_count ctx AND 0x3f) = length r" by (simp add: c(4) count_mod r)
  have m: "memcpy (length r) [0x80] (m_block ctx) = r @ 0x80 # drop (Suc (length r)) (m_block ctx)"
    by (simp add: memcpy_def c(3))
  have len: "length (r @ 0x80 # drop (Suc (length r)) (m_block ctx)) = 64" using c(1) r64 by simp
  show "length (snd (md4_pad h r)) = 56" by (simp add: md4_pad_def)
  have "(\<exists>q. m_block (md4_padded le (length r) ctx) = snd (md4_pad h r) @ q \<and> length q = 8) \<and>
    m_hash (md4_padded le (length r) ctx) = fst (md4_pad h r) \<and> byte_count (md4_padded le (length r) ctx) = of_nat (length msg)"
  proof (cases "length r < 56")
    case True
    then have k: "56 - length r = Suc (55 - length r)" by simp
    have "memcpy (length r + 1) (replicate (55 - length r) 0) (r @ 0x80 # drop (Suc (length r)) (m_block ctx)) =
        (r @ 0x80 # replicate (55 - length r) 0) @ drop 56 (m_block ctx)"
      using True c(1) by (simp add: memcpy_def k)
    moreover have "nat (56 - (int (length r) + 1)) = 55 - length r" using True by simp
    ultimately show ?thesis using True c by (simp add: md4_padded_def Let_def m md4_pad_def)
  next
    case False
    let ?b = "r @ 0x80 # replicate (63 - length r) 0"
    let ?c = "ctx\<lparr>m_block := ?b\<rparr>"
    have "memcpy (length r + 1) (replicate (63 - length r) 0) (r @ 0x80 # drop (Suc (length r)) (m_block ctx)) = ?b"
      using False r64 c(1) by (simp add: memcpy_def)
    moreover have "nat (56 - (int (length r) + 1) + 8) = 63 - length r" using r64 by simp
    ultimately have p: "md4_padded le (length r) ctx =
        (md4_transform_helper le ?c)\<lparr>m_block := memcpy 0 (replicate 56 0) (m_block (md4_transform_helper le ?c))\<rparr>"
      using False by (simp add: md4_padded_def Let_def m)
    have "length (m_block ?c) = 64" using r64 by simp
    note hc = helper_compress [OF this, of le]
    then show ?thesis using False c by (simp add: p md4_pad_def memcpy_def)
  qed
  then show "\<exists>q. m_block (md4_padded le (unat (byte_count ctx AND 0x3f)) ctx) = snd (md4_pad h r) @ q \<and> length q = 8"
    "m_hash (md4_padded le (unat (byte_count ctx AND 0x3f)) ctx) = fst (md4_pad h r)" "byte_count (md4_padded le (unat (byte_count ctx AND 0x3f)) ctx) = of_nat (length msg)"
    unfolding off by blast+
qed

lemma final_digest:
  assumes "md4_abs ctx msg"
  shows "snd (md4_final_ascii le len ctx) = take (len - 1) (concat (map hex8 (map (ntohl le) (md4_digest msg))))"
proof -
  obtain h r where a: "absorb md4_iv msg = (h, r)" by (cases "absorb md4_iv msg")
  obtain h' p where p: "md4_pad h r = (h', p)" by (cases "md4_pad h r")
  note pb = padded_block(1-3) [OF assms a, of le, unfolded p prod.sel] padded_block(4) [OF assms a, unfolded p prod.sel]
  from pb(1) obtain q where q: "m_block (md4_padded le (unat (byte_count ctx AND 0x3f)) ctx) = p @ q" "length q = 8" by blast
  note lb = last_block [where le = le, OF pb(4) refl q(2)]
  show ?thesis
    unfolding md4_final_ascii_def Let_def snd_conv pb(2,3) q(1) lb low_bits high_bits
    by (simp add: md4_digest_def a p cpu_to_le32_array_def transform_rfc Let_def)
qed

end
