(* ===== verification/Sumversion.thy ===== *)
theory Sumversion
  imports Md4
begin

text \<open>
  The checksum of the sources of a module, \<open>scripts/mod/sumversion.c\<close>: which bytes of a source
  file are summed, which files belong to a module, and the cleaning of a version string. The file
  system is an argument, the function \<open>grab_file\<close> that maps a name to the contents of the file. A
  file is mapped into memory, so that the byte after its end can be read, and is zero, unless the
  length is a multiple of the page size.
\<close>

section \<open>Source files\<close>

definition PAGE_SIZE :: nat where
  "PAGE_SIZE = 4096"

definition add_chr :: "bool \<Rightarrow> char \<Rightarrow> md4_ctx \<Rightarrow> md4_ctx" where
  "add_chr le c = add_char le (of_char c)"

text \<open>\<open>file + i\<close> is the rest of the file. The loops return the index at which they stop.\<close>

fun string_loop :: "bool \<Rightarrow> char \<Rightarrow> string \<Rightarrow> nat \<Rightarrow> md4_ctx \<Rightarrow> nat \<times> md4_ctx" where
  "string_loop le prev [] i md = (i, md)"
| "string_loop le prev (c # cs) i md =
     (let md = add_chr le c md in
      if c = CHR 0x22 \<and> prev \<noteq> CHR 0x5C then (i, md) else string_loop le c cs (i + 1) md)"

definition parse_string :: "bool \<Rightarrow> string \<Rightarrow> md4_ctx \<Rightarrow> nat \<times> md4_ctx" where
  "parse_string le file md = string_loop le (hd file) (tl file) 1 (add_chr le (hd file) md)"

fun comment_loop :: "char \<Rightarrow> string \<Rightarrow> nat \<Rightarrow> nat" where
  "comment_loop prev [] i = i"
| "comment_loop prev (c # cs) i = (if prev = CHR ''*'' \<and> c = CHR ''/'' then i else comment_loop c cs (i + 1))"

definition parse_comment :: "string \<Rightarrow> nat" where
  "parse_comment file = comment_loop (file ! 1) (drop 2 file) 2"

text \<open>The loop of \<open>parse_file\<close>; \<open>tail\<close> says whether the byte after the file can be read.\<close>

function parse_loop :: "bool \<Rightarrow> bool \<Rightarrow> string \<Rightarrow> md4_ctx \<Rightarrow> md4_ctx res" where
  "parse_loop le tail [] md = Inr md"
| "parse_loop le tail (c # cs) md =
     (if c = CHR 0x5C \<and> cs \<noteq> [] \<and> hd cs = CHR 0x0A then parse_loop le tail (drop 2 (c # cs)) md
      else if isspace c then parse_loop le tail cs md
      else if c = CHR 0x22 then
        (case parse_string le (c # cs) md of (i, md) \<Rightarrow> parse_loop le tail (drop (i + 1) (c # cs)) md)
      else if c = CHR ''/'' \<and> cs = [] \<and> \<not> tail then Inl OutOfBounds
      else if c = CHR ''/'' \<and> cs \<noteq> [] \<and> hd cs = CHR ''*''
      then parse_loop le tail (drop (parse_comment (c # cs) + 1) (c # cs)) md
      else parse_loop le tail cs (add_chr le c md))"
  by pat_completeness auto
termination
  by (relation "measure (\<lambda>(le, tail, cs, md). length cs)") auto

type_synonym files = "string \<Rightarrow> string option"

definition parse_file :: "bool \<Rightarrow> files \<Rightarrow> string \<Rightarrow> md4_ctx \<Rightarrow> (bool \<times> md4_ctx) res" where
  "parse_file le grab_file fname md =
     (case grab_file fname of
        None \<Rightarrow> Inr (False, md)
      | Some file \<Rightarrow> rbind (parse_loop le (length file mod PAGE_SIZE \<noteq> 0) file md) (\<lambda>md. Inr (True, md)))"

section \<open>The source files of an object file\<close>

text \<open>\<open>get_next_line\<close> of \<open>modpost.c\<close>: the line, and what is left of the file from \<open>*pos\<close> on.\<close>

fun line_loop :: "bool \<Rightarrow> string \<Rightarrow> string \<Rightarrow> string option \<times> string" where
  "line_loop skip s [] = (None, [])"
| "line_loop skip s (p # ps) =
     (if skip \<and> isspace p then line_loop True s ps
      else if p \<noteq> CHR 0x0A
      then (if length s + 1 > 4095 then (None, p # ps) else line_loop False (s @ [p]) ps)
      else (Some s, p # ps))"

definition get_next_line :: "string \<Rightarrow> string option \<times> string" where
  "get_next_line rest = line_loop True [] rest"

lemma line_loop_shorter:
  "line_loop skip s xs = (Some l, ys) \<Longrightarrow> length ys \<le> length xs \<and> (skip \<longrightarrow> length ys < length xs)"
  by (induction skip s xs rule: line_loop.induct) (auto simp: isspace_def split: if_splits)

lemma get_next_line_shorter: "get_next_line xs = (Some l, ys) \<Longrightarrow> length ys < length xs"
  using line_loop_shorter [of True "[]" xs l ys] by (simp add: get_next_line_def)

text \<open>C strings: what precedes the terminator, the directory of a path with its slash, and its last
  part.\<close>

definition c_string :: "string \<Rightarrow> string" where
  "c_string s = takeWhile (\<lambda>c. c \<noteq> CHR 0x00) s"

definition dir_part :: "string \<Rightarrow> string" where
  "dir_part s = rev (dropWhile (\<lambda>c. c \<noteq> CHR ''/'') (rev s))"

definition base_part :: "string \<Rightarrow> string" where
  "base_part s = rev (takeWhile (\<lambda>c. c \<noteq> CHR ''/'') (rev s))"

text \<open>\<open>strstr\<close> and \<open>strrchr\<close> as the index of what they find.\<close>

fun strstr :: "string \<Rightarrow> string \<Rightarrow> nat option" where
  "strstr s t =
     (if take (length t) s = t then Some 0
      else case s of [] \<Rightarrow> None | _ # s' \<Rightarrow> map_option Suc (strstr s' t))"

definition strrchr :: "string \<Rightarrow> char \<Rightarrow> nat option" where
  "strrchr s c = (if c \<in> set s then Some (length s - 1 - length (takeWhile (\<lambda>x. x \<noteq> c) (rev s))) else None)"

text \<open>\<open>strstr(line, dir) + strlen(dir) - 1 == strrchr(line, '/')\<close>: a comparison of pointers into the
  line, or of null pointers.\<close>

definition same_dir :: "string \<Rightarrow> string \<Rightarrow> bool" where
  "same_dir line dir =
     (case (strstr line dir, strrchr line CHR ''/'') of
        (Some i, Some j) \<Rightarrow> int i + int (length dir) - 1 = int j
      | (None, None) \<Rightarrow> length dir = 1
      | _ \<Rightarrow> False)"

function dep_lines :: "bool \<Rightarrow> files \<Rightarrow> string \<Rightarrow> bool \<Rightarrow> string \<Rightarrow> md4_ctx \<Rightarrow> (bool \<times> md4_ctx) res" where
  "dep_lines le grab_file dir check_files rest md =
     (case get_next_line rest of
        (None, _) \<Rightarrow> Inr (True, md)
      | (Some l, rest') \<Rightarrow>
          let line = c_string l in
          if take 5 line = ''deps_'' then dep_lines le grab_file dir True rest' md
          else if \<not> check_files then dep_lines le grab_file dir check_files rest' md
          else if line = [] then Inl OutOfBounds
          else if last line \<noteq> CHR 0x5C then Inr (True, md)
          else let fname = takeWhile (\<lambda>c. \<not> isspace c) line in
            if same_dir fname dir
            then rbind (parse_file le grab_file fname md)
                   (\<lambda>(ok, md). if ok then dep_lines le grab_file dir check_files rest' md else Inr (False, md))
            else dep_lines le grab_file dir check_files rest' md)"
  by pat_completeness auto
termination
  by (relation "measure (\<lambda>(le, files, dir, check, rest, md). length rest)") (auto dest!: sym [THEN get_next_line_shorter])

definition parse_source_files :: "bool \<Rightarrow> files \<Rightarrow> string \<Rightarrow> md4_ctx \<Rightarrow> (bool \<times> md4_ctx) res" where
  "parse_source_files le grab_file objfile md =
     (case grab_file (dir_part objfile @ ''.'' @ base_part objfile @ ''.cmd'') of
        None \<Rightarrow> Inr (False, md)
      | Some file \<Rightarrow> dep_lines le grab_file (dir_part objfile) False file md)"

section \<open>The checksum of a module\<close>

text \<open>The arguments of \<open>strsep\<close> with a space.\<close>

fun strsep_fields :: "string \<Rightarrow> string list" where
  "strsep_fields [] = [[]]"
| "strsep_fields (c # cs) =
     (if c = CHR '' '' then [] # strsep_fields cs
      else case strsep_fields cs of f # fs \<Rightarrow> (c # f) # fs | [] \<Rightarrow> [[c]])"

fun sum_objects :: "bool \<Rightarrow> files \<Rightarrow> string list \<Rightarrow> md4_ctx \<Rightarrow> (bool \<times> md4_ctx) res" where
  "sum_objects le grab_file [] md = Inr (True, md)"
| "sum_objects le grab_file (f # fs) md =
     (if f = [] then sum_objects le grab_file fs md
      else rbind (parse_source_files le grab_file f md)
             (\<lambda>(ok, md). if ok then sum_objects le grab_file fs md else Inr (False, md)))"

abbreviation PATH_MAX :: nat where "PATH_MAX \<equiv> 4096"

text \<open>The name of the file with the list of objects: the precision of \<open>%.*s\<close> is the length without
  the last two characters, and a negative one prints the whole name.\<close>

definition list_name :: "string option \<Rightarrow> string \<Rightarrow> string" where
  "list_name modverdir modname =
     (case modverdir of Some d \<Rightarrow> d | None \<Rightarrow> ''.'') @ ''/'' @
     (let base = base_part modname in if length base < 2 then base else take (length base - 2) base) @ ''.mod''"

text \<open>The list is the second line of its file. The result is the new checksum, if one was written;
  \<open>md\<close> is the uninitialised context.\<close>

definition get_src_version :: "bool \<Rightarrow> files \<Rightarrow> string option \<Rightarrow> string \<Rightarrow> nat \<Rightarrow> md4_ctx \<Rightarrow> string option res" where
  "get_src_version le grab_file modverdir modname sumlen md =
     (let filelist = list_name modverdir modname in
      if length filelist > PATH_MAX then Inl OutOfBounds
      else case grab_file filelist of
        None \<Rightarrow> Inr None
      | Some file \<Rightarrow>
          let text = c_string file in
          if CHR 0x0A \<notin> set text then (if text = file \<and> length file mod PAGE_SIZE = 0 then Inl OutOfBounds else Inr None)
          else
            let sources = tl (dropWhile (\<lambda>c. c \<noteq> CHR 0x0A) text) in
            if CHR 0x0A \<notin> set sources then (if text = file \<and> length file mod PAGE_SIZE = 0 then Inl OutOfBounds else Inr None)
            else
              rbind (sum_objects le grab_file (strsep_fields (takeWhile (\<lambda>c. c \<noteq> CHR 0x0A) sources)) (md4_init md))
                (\<lambda>(ok, md). Inr (if ok then Some (snd (md4_final_ascii le sumlen md)) else None)))"

section \<open>Version strings\<close>

text \<open>\<open>strip_rcs_crap\<close> works in place on the memory that starts with the version string; a second
  string follows it.\<close>

definition memmove :: "nat \<Rightarrow> nat \<Rightarrow> nat \<Rightarrow> string \<Rightarrow> string" where
  "memmove dst src n buf = take dst buf @ take n (drop src buf) @ drop (dst + n) buf"

text \<open>The length of the keyword and of what separates it from the version.\<close>

definition keyword_len :: "string \<Rightarrow> nat" where
  "keyword_len version =
     (let len = (if version ! 9 = CHR '':'' \<or> version ! 9 = CHR ''$'' then 10 else 9) in
      len + length (takeWhile isspace (drop len version)))"

definition strip_rcs_crap :: "string \<Rightarrow> (bool \<times> string) res" where
  "strip_rcs_crap version =
     (let v = c_string version; w = c_string (drop (length v + 1) version) in
      if take 9 v \<noteq> ''$Revision'' then Inr (False, version)
      else if length v + length w + 2 > length version then Inl OutOfBounds
      else
        let full_len = length v + length w + 2;
            len = keyword_len version;
            version = memmove 0 len (full_len - len) version;
            full_len = full_len - len;
            len = length (takeWhile (\<lambda>c. c \<noteq> CHR 0x00 \<and> \<not> isspace c) version);
            n = length (c_string version) in
        Inr (True, memmove len n (full_len - n) version))"

section \<open>What is summed\<close>

text \<open>A reference that reads a file once from left to right: in code, in a string or in a comment, of
  which the last character is remembered.\<close>

datatype mode = Code | Str char | Comm char

fun scan :: "mode \<Rightarrow> string \<Rightarrow> string" where
  "scan m [] = []"
| "scan (Str prev) (c # cs) = c # scan (if c = CHR 0x22 \<and> prev \<noteq> CHR 0x5C then Code else Str c) cs"
| "scan (Comm prev) (c # cs) = scan (if prev = CHR ''*'' \<and> c = CHR ''/'' then Code else Comm c) cs"
| "scan Code (c # cs) =
     (if c = CHR 0x5C \<and> cs \<noteq> [] \<and> hd cs = CHR 0x0A then scan Code (tl cs)
      else if isspace c then scan Code cs
      else if c = CHR 0x22 then c # scan (Str c) cs
      else if c = CHR ''/'' \<and> cs \<noteq> [] \<and> hd cs = CHR ''*'' then scan (Comm CHR ''*'') (tl cs)
      else c # scan Code cs)"

text \<open>A file whose code ends in a slash, after which the code reads one more byte.\<close>

fun dangling :: "mode \<Rightarrow> string \<Rightarrow> bool" where
  "dangling m [] = False"
| "dangling (Str prev) (c # cs) = dangling (if c = CHR 0x22 \<and> prev \<noteq> CHR 0x5C then Code else Str c) cs"
| "dangling (Comm prev) (c # cs) = dangling (if prev = CHR ''*'' \<and> c = CHR ''/'' then Code else Comm c) cs"
| "dangling Code (c # cs) =
     (if c = CHR 0x5C \<and> cs \<noteq> [] \<and> hd cs = CHR 0x0A then dangling Code (tl cs)
      else if isspace c then dangling Code cs
      else if c = CHR 0x22 then dangling (Str c) cs
      else if c = CHR ''/'' \<and> cs \<noteq> [] \<and> hd cs = CHR ''*'' then dangling (Comm CHR ''*'') (tl cs)
      else c = CHR ''/'' \<and> cs = [] \<or> dangling Code cs)"

lemma string_loop_scan:
  "string_loop le prev cs i md = (j, md') \<Longrightarrow>
    i \<le> j \<and> dangling (Str prev) cs = dangling Code (drop (j + 1 - i) cs) \<and>
    fold (add_chr le) (scan (Str prev) cs) md = fold (add_chr le) (scan Code (drop (j + 1 - i) cs)) md'"
proof (induction le prev cs i md arbitrary: j md' rule: string_loop.induct)
  case (2 le prev c cs i md)
  show ?case
  proof (cases "c = CHR 0x22 \<and> prev \<noteq> CHR 0x5C")
    case True
    with 2(2) show ?thesis by (auto simp: Let_def)
  next
    case False
    with 2(2) have "string_loop le c cs (i + 1) (add_chr le c md) = (j, md')" by (auto simp: Let_def)
    from 2(1) [OF refl False this] have ih: "i + 1 \<le> j"
      "dangling (Str c) cs = dangling Code (drop (j - i) cs)"
      "fold (add_chr le) (scan (Str c) cs) (add_chr le c md) = fold (add_chr le) (scan Code (drop (j - i) cs)) md'" by auto
    from ih(1) have "j + 1 - i = Suc (j - i)" by simp
    with ih False show ?thesis by auto
  qed
qed simp

lemma comment_loop_scan:
  "i \<le> comment_loop prev cs i \<and> scan (Comm prev) cs = scan Code (drop (comment_loop prev cs i + 1 - i) cs) \<and>
    dangling (Comm prev) cs = dangling Code (drop (comment_loop prev cs i + 1 - i) cs)"
proof (induction prev cs i rule: comment_loop.induct)
  case (2 prev c cs i)
  show ?case
  proof (cases "prev = CHR ''*'' \<and> c = CHR ''/''")
    case False
    note ih = 2 [OF False]
    then have "comment_loop c cs (i + 1) + 1 - i = Suc (comment_loop c cs (i + 1) - i)"
      by (simp add: Suc_diff_le)
    with ih False show ?thesis by auto
  qed auto
qed simp

lemma parse_loop_scan:
  "parse_loop le tail xs md =
     (if dangling Code xs \<and> \<not> tail then Inl OutOfBounds else Inr (fold (add_chr le) (scan Code xs) md))"
proof (induction le tail xs md rule: parse_loop.induct)
  case (2 le tail c cs md)
  consider (nl) "c = CHR 0x5C" "cs \<noteq> []" "hd cs = CHR 0x0A" | (sp) "\<not> (c = CHR 0x5C \<and> cs \<noteq> [] \<and> hd cs = CHR 0x0A)" "isspace c"
    | (str) "c = CHR 0x22" | (comm) "c = CHR ''/''" "cs \<noteq> []" "hd cs = CHR ''*''"
    | (other) "\<not> (c = CHR 0x5C \<and> cs \<noteq> [] \<and> hd cs = CHR 0x0A)" "\<not> isspace c" "c \<noteq> CHR 0x22"
        "\<not> (c = CHR ''/'' \<and> cs \<noteq> [] \<and> hd cs = CHR ''*'')" by blast
  then show ?case
  proof cases
    case nl
    have "drop 2 (c # cs) = tl cs" by (simp add: numeral_2_eq_2 drop_Suc)
    with 2(1) [OF conjI [OF nl(1) conjI [OF nl(2,3)]]] nl show ?thesis
      by (simp only: parse_loop.simps scan.simps dangling.simps if_True simp_thms)
  next
    case sp
    show ?thesis unfolding parse_loop.simps scan.simps dangling.simps
      by (simp only: sp 2(2) [OF sp] if_True if_False)
  next
    case str
    obtain j md' where j: "string_loop le c cs 1 (add_chr le c md) = (j, md')" by (cases "string_loop le c cs 1 (add_chr le c md)")
    note s = string_loop_scan [OF j]
    have sp: "\<not> isspace c" by (simp add: str isspace_def)
    have nl: "\<not> (c = CHR 0x5C \<and> cs \<noteq> [] \<and> hd cs = CHR 0x0A)" by (simp add: str)
    have sc: "scan Code (c # cs) = c # scan (Str c) cs" "dangling Code (c # cs) = dangling (Str c) cs"
      using str sp by simp_all
    have d: "drop (j + 1) (c # cs) = drop (j + 1 - 1) cs" by simp
    from s have s2: "dangling (Str c) cs = dangling Code (drop (j + 1) (c # cs))"
      "fold (add_chr le) (scan (Str c) cs) (add_chr le c md) = fold (add_chr le) (scan Code (drop (j + 1) (c # cs))) md'"
      unfolding d by blast+
    have pj: "parse_string le (c # cs) md = (j, md')" using j by (simp add: parse_string_def)
    then have "parse_loop le tail (c # cs) md = parse_loop le tail (drop (j + 1) (c # cs)) md'"
      using str sp by simp
    also have "\<dots> = (if dangling Code (drop (j + 1) (c # cs)) \<and> \<not> tail then Inl OutOfBounds
        else Inr (fold (add_chr le) (scan Code (drop (j + 1) (c # cs))) md'))"
      by (rule 2(3) [OF nl sp str pj [symmetric]])
    finally show ?thesis by (simp only: sc s2 fold_simps)
  next
    case comm
    let ?j = "comment_loop (CHR ''*'') (tl cs) 2"
    have sp: "\<not> isspace c" by (simp add: comm(1) isspace_def)
    have p: "parse_comment (c # cs) = ?j" using comm by (cases cs) (simp_all add: parse_comment_def)
    note s = comment_loop_scan [of 2 "CHR ''*''" "tl cs"]
    then obtain k where k: "?j = 2 + k" using le_Suc_ex by blast
    have d: "drop (?j + 1) (c # cs) = drop (?j + 1 - 2) (tl cs)"
      unfolding k using comm(2) by (cases cs) simp_all
    have sc: "scan Code (c # cs) = scan (Comm CHR ''*'') (tl cs)" "dangling Code (c # cs) = dangling (Comm CHR ''*'') (tl cs)"
      using comm sp by simp_all
    from s have s2: "dangling (Comm CHR ''*'') (tl cs) = dangling Code (drop (?j + 1) (c # cs))"
      "scan (Comm CHR ''*'') (tl cs) = scan Code (drop (?j + 1) (c # cs))" unfolding d by blast+
    have "parse_loop le tail (c # cs) md = parse_loop le tail (drop (?j + 1) (c # cs)) md"
      using comm sp p by simp
    also have "\<dots> = (if dangling Code (drop (?j + 1) (c # cs)) \<and> \<not> tail then Inl OutOfBounds
        else Inr (fold (add_chr le) (scan Code (drop (?j + 1) (c # cs))) md))"
      using 2(4) [OF _ sp, unfolded p] comm by auto
    finally show ?thesis by (simp only: sc s2)
  next
    case other
    show ?thesis
    proof (cases "c = CHR ''/'' \<and> cs = [] \<and> \<not> tail")
      case True
      then show ?thesis by (simp add: isspace_def)
    next
      case False
      have "parse_loop le tail (c # cs) md = parse_loop le tail cs (add_chr le c md)"
        by (simp only: parse_loop.simps other False if_False)
      also note 2(5) [OF other(1-3) False other(4)]
      finally show ?thesis using False
        by (simp only: scan.simps dangling.simps other if_False fold_simps) (cases tail; auto)
    qed
  qed
qed simp

end
