(* ===== verification/Sumversion_Theorems.thy ===== *)
theory Sumversion_Theorems
  imports Sumversion
begin

text \<open>
  What the checksum of the sources of a module guarantees.
\<close>

text \<open>C23: the unrolled compression function is the one of RFC 1320: 48 operations in three rounds, each
  with its order of the words and its rotations.\<close>

theorem md4_transform_is_rfc:
  "md4_transform h xs = md4_rfc h xs"
  by (rule transform_rfc)

text \<open>C9: however a message is cut into pieces, what is printed after the last piece is the digest of the
  whole message. It does not depend on what the block held before, and on the byte order of the host only in the
  order in which the bytes of a word are printed.\<close>

theorem md4_streaming:
  assumes "length (m_block ctx) = 64"
  shows "snd (md4_final_ascii le len (fold (md4_update le) pieces (md4_init ctx))) =
    take (len - 1) (concat (map hex8 (map (ntohl le) (md4_digest (concat pieces)))))"
proof -
  have "md4_abs c msg \<Longrightarrow> md4_abs (fold (md4_update le) ps c) (msg @ concat ps)" for c msg ps
  proof (induction ps arbitrary: c msg)
    case (Cons p ps)
    from Cons.IH [OF update_abs [OF Cons.prems]] show ?case by simp
  qed simp
  from this [OF init_abs [OF assms], of pieces] show ?thesis by (simp only: final_digest append_Nil)
qed

theorem md4_streaming_witness:
  "snd (md4_final_ascii True 25 (fold (md4_update True) [[97], [], [98, 99]]
     (md4_init \<lparr>m_hash = [], m_block = replicate 64 7, byte_count = 5\<rparr>))) =
   take 24 (concat (map hex8 (map (ntohl True) (md4_digest [97, 98, 99]))))"
  using md4_streaming [of "\<lparr>m_hash = [], m_block = replicate 64 7, byte_count = 5\<rparr>" True 25 "[[97], [], [98, 99]]"]
  by simp

section \<open>The checksum depends on the code only\<close>












section \<open>Version strings\<close>

lemma c_string_app: "CHR 0x00 \<notin> set v \<Longrightarrow> c_string (v @ CHR 0x00 # r) = v"
  by (induction v) (auto simp: c_string_def)

lemma not_space_NUL: "\<not> isspace CHR 0x00"
  by (simp add: isspace_def)

definition after_revision :: "string \<Rightarrow> string" where
  "after_revision x = dropWhile isspace (case x of c # cs \<Rightarrow> if c = CHR '':'' \<or> c = CHR ''$'' then cs else x | [] \<Rightarrow> [])"

lemma drop_takeWhile: "drop (length (takeWhile P xs)) xs = dropWhile P xs"
  by (simp add: dropWhile_eq_drop)

lemma dropWhile_NUL: "dropWhile isspace (y @ CHR 0x00 # r) = dropWhile isspace y @ CHR 0x00 # r"
  by (induction y) (auto simp: not_space_NUL)

lemma drop_keyword:
  "drop (keyword_len (''$Revision'' @ x @ CHR 0x00 # r)) (''$Revision'' @ x @ CHR 0x00 # r) = after_revision x @ CHR 0x00 # r"
proof -
  let ?b = "''$Revision'' @ x @ CHR 0x00 # r"
  define len :: nat where "len = (if ?b ! 9 = CHR '':'' \<or> ?b ! 9 = CHR ''$'' then 10 else 9)"
  have "drop len ?b = (case x of c # cs \<Rightarrow> if c = CHR '':'' \<or> c = CHR ''$'' then cs else x | [] \<Rightarrow> []) @ CHR 0x00 # r"
    unfolding len_def by (cases x) simp_all
  moreover have "keyword_len ?b = len + length (takeWhile isspace (drop len ?b))"
    unfolding keyword_len_def len_def Let_def ..
  then have "drop (keyword_len ?b) ?b = dropWhile isspace (drop len ?b)"
    by (simp only: add.commute [of len] drop_drop [symmetric] drop_takeWhile)
  ultimately show ?thesis by (simp only: dropWhile_NUL after_revision_def)
qed

lemma word_then_NUL:
  assumes "CHR 0x00 \<notin> set z"
  shows "takeWhile (\<lambda>c. c \<noteq> CHR 0x00 \<and> \<not> isspace c) (z @ CHR 0x00 # r) = takeWhile (\<lambda>c. \<not> isspace c) z"
  using assms by (induction z) auto

text \<open>A version string of the form \<open>$Revision: 1.5 $\<close> is replaced by its number, the first word after the
  keyword.\<close>

theorem strip_rcs_word:
  assumes v: "v = ''$Revision'' @ x" and n: "CHR 0x00 \<notin> set v" "CHR 0x00 \<notin> set w"
  shows "\<exists>buf. strip_rcs_crap (v @ CHR 0x00 # w @ CHR 0x00 # rest) = Inr (True, buf) \<and>
    c_string buf = takeWhile (\<lambda>c. \<not> isspace c) (after_revision x)"
proof -
  let ?b = "v @ CHR 0x00 # w @ CHR 0x00 # rest" and ?z = "after_revision x"
  define len where "len = keyword_len ?b"
  have d: "drop len ?b = ?z @ CHR 0x00 # w @ CHR 0x00 # rest"
    unfolding len_def v using drop_keyword [of x "w @ CHR 0x00 # rest"] by simp
  have z: "CHR 0x00 \<notin> set ?z"
    using n(1) unfolding v after_revision_def by (auto dest!: set_dropWhileD split: list.splits if_splits)
  from arg_cong [OF d, of length]
  have k: "length v + length w + 2 - len = length (?z @ CHR 0x00 # w @ [CHR 0x00])" by simp
  let ?m = "length v + length w + 2 - len"
  define b1 where "b1 = memmove 0 len ?m ?b"
  have b1: "b1 = ?z @ CHR 0x00 # w @ CHR 0x00 # drop ?m ?b" unfolding b1_def memmove_def d k by simp
  have len1: "takeWhile (\<lambda>c. c \<noteq> CHR 0x00 \<and> \<not> isspace c) b1 = takeWhile (\<lambda>c. \<not> isspace c) ?z"
    unfolding b1 by (rule word_then_NUL [OF z])
  have n1: "c_string b1 = ?z" unfolding b1 by (rule c_string_app [OF z])
  let ?l = "length (takeWhile (\<lambda>c. \<not> isspace c) ?z)"
  have t: "take ?l b1 = takeWhile (\<lambda>c. \<not> isspace c) ?z" unfolding b1 by (simp add: length_takeWhile_le takeWhile_eq_take [symmetric])
  have cs: "c_string ?b = v" "c_string (drop (length v + 1) ?b) = w" using c_string_app n by simp_all
  have "\<not> take 9 v \<noteq> ''$Revision''" "\<not> length v + length w + 2 > length ?b" by (simp_all add: v)
  then have "strip_rcs_crap ?b = Inr (True, memmove ?l (length ?z) (?m - length ?z) b1)"
    unfolding strip_rcs_crap_def Let_def cs len_def [symmetric] b1_def [symmetric] len1 n1 by (simp only: if_False)
  moreover have "memmove ?l (length ?z) (?m - length ?z) b1 =
      takeWhile (\<lambda>c. \<not> isspace c) ?z @ CHR 0x00 # (w @ [CHR 0x00]) @ drop (?l + (?m - length ?z)) b1"
    unfolding memmove_def t k by (simp add: b1)
  moreover have "CHR 0x00 \<notin> set (takeWhile (\<lambda>c. \<not> isspace c) ?z)" using z by (auto dest: set_takeWhileD)
  ultimately show ?thesis using c_string_app by auto
qed

section \<open>Where it goes wrong\<close>

text \<open>Nothing is summed for an object file without a directory in its name: the test for files of the same directory
  then compares with the character before the line.\<close>

lemma same_dir_empty: "\<not> same_dir line []"
  by (simp add: same_dir_def split: option.split)

theorem top_directory_not_summed:
  assumes "CHR ''/'' \<notin> set objfile" and "parse_source_files le grab_file objfile md = Inr (ok, md')"
  shows "md' = md"
proof -
  have d: "dir_part objfile = []" using assms(1) by (simp add: dir_part_def dropWhile_eq_Nil_conv) blast
  have "dep_lines le grab_file [] c rest md = Inr (ok, md') \<Longrightarrow> md' = md" for c rest
  proof (induction "length rest" arbitrary: c rest rule: less_induct)
    case less
    obtain l rest' where r: "get_next_line rest = (l, rest')" by (cases "get_next_line rest")
    show ?case
    proof (cases l)
      case None
      with less.prems r show ?thesis by (simp add: dep_lines.simps [of le _ _ _ rest])
    next
      case (Some line)
      note ih = less.hyps [OF get_next_line_shorter [OF r [unfolded Some]]]
      show ?thesis
        using less.prems unfolding dep_lines.simps [of le _ _ c rest] r Some prod.case option.case Let_def
        using same_dir_empty ih by (auto split: if_splits)
    qed
  qed
  with assms(2) d show ?thesis by (auto simp: parse_source_files_def split: option.splits)
qed

text \<open>A comment that starts with \<open>/*/\<close> is taken to end there, and a string that ends in an escaped backslash is
  taken to go on.\<close>

theorem comment_ends_early: "scan Code ''/*/x*/'' = ''x*/''"
  by code_simp

theorem string_ends_late:
  "scan Code ([CHR 0x22, CHR 0x5C, CHR 0x5C, CHR 0x22] @ ''/* a */'') = [CHR 0x22, CHR 0x5C, CHR 0x5C, CHR 0x22] @ ''/* a */''"
  by code_simp

end
