(* ===== verification/Spec2Isabelle.thy ===== *)
theory Spec2Isabelle
  imports Device_Theorems Writer_Theorems Reader_Theorems Kconf_Theorems Kconf_Conf_Theorems Kconf_Parse_Theorems Sumversion_Theorems
begin

text \<open>
  This development verifies a system of three programs and parts of the kernel tree they are built
  against. \<open>Module/\<close> is a Linux kernel module: a character device \<open>/dev/mydev\<close> that buffers
  strings between processes, with two kernel threads, one that gathers statistics and one that
  adapts the maximal size of the buffer. \<open>Writer/\<close> is a process whose threads generate strings,
  convert them and write them to the device; \<open>Reader/\<close> is a process whose threads read strings from
  the device, convert them back and print them. \<open>Vm/linux-2.6.19/\<close> is the kernel's build tree, of
  which the configurator (\<open>scripts/kconfig/\<close>) and the source checksum of \<open>modpost\<close>
  (\<open>scripts/mod/sumversion.c\<close>) are modelled.

  \<^bold>\<open>Foundations.\<close> \<open>Prelude\<close> has the generic lemmas and the result type: \<open>'a res\<close> is a fault or a
  value. \<open>CMem\<close> is the heap of C blocks, with faults for null, freed, uninitialised and
  out-of-bounds accesses, and the locales \<open>allocator\<close> and \<open>kernel_allocator\<close> for \<open>malloc\<close> and
  \<open>kmalloc\<close>, which may fail and return fresh blocks of the size asked for; \<open>first_fit\<close> is an
  instance. \<open>Chain\<close> has linked lists in the heap, and \<open>Fifo\<close> the locale \<open>linked_fifo\<close> that states
  what a linked queue promises. Both queues of the system are instances.

  \<^bold>\<open>The module.\<close> \<open>Kbuf\<close> models \<open>Module/kbuf.c\<close> and interprets the queue locale; \<open>Stat\<close> models
  \<open>Module/stat.c\<close> at the width of \<open>int\<close>, its properties being the snapshot of lengths and the bounds
  on the new maximal size. \<open>Device\<close> models the handlers and threads of \<open>Module/main.c\<close> up to their
  next blocking point, \<open>Device_Sys\<close> the system of all threads as a step relation, with the mutex,
  the wait queues, loading and unloading. \<open>Device_Props\<close> and \<open>Device_Safety\<close> prove the
  invariants, and \<open>Device_Theorems\<close> states the properties: the device refines a bounded queue,
  keeps the order, keeps mutual exclusion and loses no wake-up of a reader, which faults can occur
  and when none can, and the errors that the code does have.

  \<^bold>\<open>The clients.\<close> \<open>Wbuf\<close> models \<open>buffer.c\<close> and \<open>Client_Fun\<close> \<open>fun.c\<close> of both clients.
  \<open>Pipeline\<close> is what \<open>write.c\<close> and \<open>read.c\<close> have in common, three stages of threads with two
  buffers, condition variables and the handler of SIGINT, as a step function over a \<open>program\<close>;
  \<open>Pipeline_Inv\<close>, \<open>Pipeline_Steps\<close>, \<open>Pipeline_Safety\<close> and \<open>Pipeline_Props\<close> prove in the locale
  \<open>pipeline\<close> that a program which meets its laws does not fault, conserves its data and can always
  go on. \<open>Writer\<close> and \<open>Reader\<close> give the two programs and their \<open>main\<close> functions and interpret the
  locale; \<open>Writer_Theorems\<close> and \<open>Reader_Theorems\<close> have their properties. The theorem
  \<open>end_to_end\<close> below joins the three programs.

  \<^bold>\<open>The configurator.\<close> \<open>Kconf_Expr\<close> models the expressions of \<open>expr.c\<close> and their three-valued
  meaning; \<open>Kconf_Eq\<close> the comparison and cancellation of common parts, \<open>Kconf_Dups\<close> the
  elimination of duplicates, \<open>Kconf_Trans\<close> the normal form, \<open>Kconf_Extract\<close> the extraction of
  common parts, \<open>Kconf_Print\<close> printing together with the grammar of \<open>zconf.y\<close>. \<open>Kconf_Theorems\<close>
  states which of the rewritings keep the value, that their loops end, and the round trip through
  the grammar. \<open>Kconf_Num\<close> has the text of numbers (\<open>strtol\<close>, \<open>sprintf\<close>), \<open>Kconf_Symbol\<close> and
  \<open>Kconf_Symbol_Ops\<close> the symbol table of \<open>symbol.c\<close> and all its operations.
  \<open>Kconf_Symbol_Props\<close> proves in the locale \<open>evaluator\<close> that evaluation keeps the types,
  \<open>Kconf_Deps\<close> treats the search for circular dependencies as a depth-first search, \<open>Kconf_Table\<close>
  the hash table, and \<open>Kconf_Symbol_Theorems\<close> has the properties.

  \<^bold>\<open>Configuration files.\<close> \<open>Kconf_Util\<close> models the growable strings and the list of files of \<open>util.c\<close>,
  \<open>Kconf_Menu\<close> the menus of \<open>menu.c\<close>, a store of records with pointers, \<open>Kconf_Conf\<close> the reading of
  \<open>.config\<close> and \<open>auto.conf\<close> by \<open>confdata.c\<close> and \<open>Kconf_Conf_Write\<close> the check of the values read, the writing of
  \<open>.config\<close>, \<open>auto.conf\<close> and \<open>autoconf.h\<close>, and the touching of the files that stand for the symbols.
  \<open>Kconf_Finalize\<close> models \<open>menu_finalize\<close>, which passes dependencies on and makes submenus.
  \<open>Kconf_Menu_Tree\<close> shows that the pointers of menus form a tree and what the walk of \<open>conf_write\<close> visits,
  \<open>Kconf_Finalize_Props\<close> and \<open>Kconf_Finalize_Tree\<close>, in the locale \<open>finalizer\<close>, that \<open>menu_finalize\<close> returns and
  keeps this order;
  \<open>Kconf_Conf_Props\<close> and \<open>Kconf_Conf_Read\<close> what reading a line changes and that it keeps the table
  well-formed, \<open>Kconf_Conf_Round\<close> that a line is read as it was written, \<open>Kconf_Build\<close>, with the locale
  \<open>build_fs\<close> for files and directories, which files a build touches. \<open>Kconf_Conf_Theorems\<close> has the
  properties: the round trip through \<open>.config\<close>, safety of reading any text, the walk over the menus that
  the parser builds before and after \<open>menu_finalize\<close>, and that a build touches the files of the changed symbols and only those.

  \<^bold>\<open>The parser of the configurator.\<close> \<open>Kconf_Parse\<close> models the actions of \<open>zconf.y\<close> on a tree of statements, and
  \<open>conf_parse\<close>. \<open>Kconf_Parse_Props\<close> shows for every option that its action returns and keeps the table
  well-formed and the links of the menus, \<open>Kconf_Parse_Tree\<close> the same for whole texts, and what the dependency check of
  all symbols reports. \<open>Kconf_Parse_Theorems\<close> has the property: \<open>conf_parse\<close> returns and the menus are those of
  the text in its order.

  \<^bold>\<open>The source checksum.\<close> \<open>Md4\<close> models the digest of \<open>sumversion.c\<close> and relates it to a digest of
  whole messages, \<open>Sumversion\<close> the scanner of source files and the reading of dependency files,
  \<open>Sumversion_Theorems\<close> the properties.

  \<^bold>\<open>Abstractions and bounds.\<close> A critical section of the module, and a stretch of a client thread
  between two operations on mutexes or condition variables, is one step; loading the module is one
  step, unloading can come at any time. A block of the heap has exactly the size asked for. The
  arrays of thread identifiers are not in the heap, \<open>usleep\<close> has no effect, and condition variables
  can wake without a cause. In the configurator the value \<open>None\<close> stands for a null pointer that is
  used and for a recursion that is deeper than its bound. The bound of \<open>sym_calc_value\<close> is enough
  when it is larger than the number of symbols that have no valid value, that of \<open>sym_check_deps\<close>
  when it is larger than the number of symbols, that of \<open>menu_finalize\<close> when it is larger than the number of menus, and that of the loop of \<open>expr_eliminate_dups\<close> is
  the number of nodes; the theorems prove that the functions return with these bounds. The nodes
  \<open>E_CHOICE\<close> and \<open>E_RANGE\<close>, which occur only at the top of a property's expression, are constructors
  of their own, and a changed value is recognised by its contents. Warnings are values without the position
  in the file, and \<open>gettext\<close> is the identity. What earlier lines left in the line buffer of
  \<open>conf_read_simple\<close> is an argument. The theorems on values assume that a string or
  number symbol has had a value; \<open>string_compares_null\<close> shows what happens otherwise. In the
  checksum the bytes of a mapped file behind its end are zero up to the end of the page.

  What the programs use of the kernel and the C library and cannot be read here is an argument:
  the allocators, the results of \<open>copy_to_user\<close> and of the device, \<open>rand\<close>, \<open>regcomp\<close>, \<open>getenv\<close>,
  \<open>uname\<close>, the contents of files and the results of operations on files.

  \<^bold>\<open>Not modelled.\<close> The messages of the programs on the terminal apart from what the Reader prints,
  \<open>write_version\<close> (it seeks and writes in an object file), the rest of \<open>modpost\<close>, which works on ELF
  files, the user interfaces of the configurator, its generated parser and the recovery from errors in
  \<open>Kconfig\<close> files, the other tools of the build, the kernel headers, makefiles and shell scripts.
\<close>

section \<open>From the Writer through the device to the Reader\<close>

text \<open>What a process sees of a block that the kernel copied to it: the bytes that were written, and
  any value where the kernel block was never written.\<close>

definition user_copy :: "byte option list \<Rightarrow> byte list \<Rightarrow> bool" where
  "user_copy out bs \<longleftrightarrow> list_all2 (\<lambda>c b. c = None \<or> c = Some b) out bs"

lemma user_copy_string:
  assumes "user_copy (map Some s @ Some 0 # replicate n None) bs"
  obtains rest where "bs = s @ 0 # rest" and "length rest = n"
proof -
  from assms obtain us r where bs: "bs = us @ 0 # r" and us: "list_all2 (\<lambda>c b. c = None \<or> c = Some b) (map Some s) us"
    and r: "list_all2 (\<lambda>c b. c = None \<or> c = Some b) (replicate n None) r"
    by (auto simp: user_copy_def list_all2_append1 list_all2_Cons1)
  from us have "us = s" by (auto simp: list_all2_conv_all_nth intro: nth_equalityI)
  with bs r show thesis by (intro that [of r]) (auto dest: list_all2_lengthD)
qed

lemma shift_read:
  assumes "h a = Some (Chars (cstr s))" and "0 \<notin> set s"
  obtains h' where "shift_loop k (Some a) 0 h = Inr h'" and "read_str (Some a) h' = Inr (shift_str k s)"
proof -
  from assms obtain cs where "shift_loop k (Some a) 0 h = Inr (h(a \<mapsto> Chars cs))"
    and "read_cells cs = Inr (shift_str k s)" by (rule shift_string)
  then show thesis using that [of "h(a \<mapsto> Chars cs)"] by (simp add: read_str_def get_chars_def)
qed

text \<open>C5: a string that the Writer generates, converts to lower case and writes to an empty device
  reaches the Reader whole: the bytes that a read of \<open>READ_BYTE\<close> bytes delivers meet what the
  Reader relies on, they are not its end marker, and \<open>to_upper\<close> turns them back into the
  string that was generated.\<close>

theorem end_to_end:
  assumes "allocator alloc" and "kb_rep (mem d) (kb_fifo d) []" and "capitals w"
    and "hw p = Some (Chars (cstr w))" and "to_lower (Some p) hw = Inr hw'"
    and "read_str (Some p) hw' = Inr s"
    and "my_write alloc 0 (s @ [0]) d = Inr (Return 0 x True, d')"
    and "alloc READ_BYTE (mem d') = Some v"
    and "my_read alloc 0 READ_BYTE d' = Inr (Return r out True, d'')"
    and "dev_res e 0 = r" and "user_copy out (dev_bytes e)"
    and "hr q = Some (Chars (map Some (dev_bytes e)))"
  shows "read_ok e \<and> strcmp_eq (Some q) [48, 48] hr = Inr False \<and>
    (\<exists>hr'. to_upper (Some q) hr = Inr hr' \<and> read_str (Some q) hr' = Inr w)"
proof -
  have w0: "0 \<notin> set w" using assms(3) capital_shift(4) by (auto simp: capitals_def)
  have s: "s = shift_str 32 w"
    using shift_read [of hw p w 32] assms(4-6) w0 by (auto simp: to_lower_def)
  have s0: "0 \<notin> set s" unfolding s by (rule shift_str_nonzero)
  have len: "length s = length w" using s shift_capitals [OF assms(3)] by simp
  with assms(3) have lt: "length s < READ_BYTE" by (simp add: capitals_def)
  from write_then_read [OF assms(1,2,7) s0 assms(8) lt]
  have out: "out = map Some s @ Some 0 # replicate (READ_BYTE - Suc (length s)) None" and r: "r = 0"
    using assms(9) by auto
  from user_copy_string [OF assms(11) [unfolded out]] obtain rest where
    bs: "dev_bytes e = s @ 0 # rest" "length rest = READ_BYTE - Suc (length s)" by blast
  have ok: "read_ok e" using bs lt by (simp add: read_ok_def)
  have rd: "read_str (Some q) hr = Inr s" using assms(12) bs s0 by (simp add: read_str_def get_chars_def)
  have "s \<noteq> [48, 48]"
  proof
    assume "s = [48, 48]"
    then have "\<exists>c \<in> set w. c + 32 = 48" using s shift_capitals [OF assms(3)] by (cases w) auto
    with assms(3) capital_shift(2) show False by (fastforce simp: capitals_def)
  qed
  with rd have cmp: "strcmp_eq (Some q) [48, 48] hr = Inr False" by (simp add: strcmp_eq_def)
  let ?h = "hr(q \<mapsto> Chars (map Some (map (\<lambda>c. c + word_of_int (- 32)) s) @ Some 0 # map Some rest))"
  have up: "to_upper (Some q) hr = Inr ?h"
    using shift_loop_ok [of hr q "[]" s "map Some rest" "- 32"] assms(12) bs(1) s0 by (simp add: to_upper_def)
  have "read_str (Some q) ?h = Inr (shift_str (- 32) s)"
    unfolding shift_str_def by (simp add: read_str_def get_chars_def del: map_map) (rule read_cells_takeWhile)
  then have "read_str (Some q) ?h = Inr w" unfolding s shift_back [OF assms(3)] .
  with ok cmp up show ?thesis by blast
qed

theorem end_to_end_witness:
  "\<exists>d' d'' (e :: env) q hr hr'. my_write (first_fit 64) 0 ([98, 99] @ [0]) (devs init_sys) = Inr (Return 0 [] True, d') \<and>
    my_read (first_fit 64) 0 READ_BYTE d' =
      Inr (Return 0 (map Some [98, 99] @ Some 0 # replicate 37 None) True, d'') \<and>
    dev_bytes e = [98, 99] @ 0 # replicate 37 7 \<and> hr q = Some (Chars (map Some (dev_bytes e))) \<and>
    to_upper (Some q) hr = Inr hr' \<and> read_str (Some q) hr' = Inr [66, 67]"
proof -
  let ?w = "my_write (first_fit 64) 0 ([98, 99] @ [0]) (devs init_sys)"
  let ?hw = "Map.empty(0 \<mapsto> Chars (cstr [66, 67])) :: heap"
  let ?e = "\<lparr>rnd = \<lambda>_. 0, dev_res = \<lambda>_. 0, dev_bytes = [98, 99] @ 0 # replicate 37 7\<rparr>"
  have "case ?w of Inr (x, d') \<Rightarrow> x = Return 0 [] True \<and> first_fit 64 READ_BYTE (mem d') = Some 0 | _ \<Rightarrow> False"
    by (simp add: device_eval)
  then obtain d' where w: "?w = Inr (Return 0 [] True, d')" and v: "first_fit 64 READ_BYTE (mem d') = Some 0"
    by (auto split: sum.splits prod.splits)
  have rep: "kb_rep (mem (devs init_sys)) (kb_fifo (devs init_sys)) []"
    by (simp add: init_sys_eq kb_rep_def)
  have len: "length [98, 99 :: byte] < READ_BYTE" and z: "0 \<notin> set [98, 99 :: byte]" by simp_all
  from write_then_read [OF ff.allocator_axioms rep w z v len] obtain d'' where
    r: "my_read (first_fit 64) 0 READ_BYTE d' =
      Inr (Return 0 (map Some [98, 99] @ Some 0 # replicate (READ_BYTE - Suc (length [98, 99 :: byte])) None) True, d'')" by blast
  have cap: "capitals [66, 67]" by (simp add: capitals_def)
  have cp: "user_copy (map Some [98, 99] @ Some 0 # replicate (READ_BYTE - Suc (length [98, 99 :: byte])) None) (dev_bytes ?e)"
    by (auto simp: user_copy_def list_all2_conv_all_nth nth_Cons split: nat.splits)
  let ?hr = "Map.empty(0 \<mapsto> Chars (map Some (dev_bytes ?e))) :: heap"
  have "shift_str 32 [66, 67] = [98, 99]" by (simp add: shift_str_def)
  then obtain hw' where "to_lower (Some 0) ?hw = Inr hw'" "read_str (Some 0) hw' = Inr [98, 99]"
    using shift_read [of ?hw 0 "[66, 67]" 32] by (auto simp: to_lower_def)
  from end_to_end [OF ff.allocator_axioms rep cap _ this w v r, of ?e ?hr 0] cp
  obtain hr' where u: "to_upper (Some 0) ?hr = Inr hr'" "read_str (Some 0) hr' = Inr [66, 67]" by auto
  have "READ_BYTE - Suc (length [98, 99 :: byte]) = 37" by simp
  with r have r': "my_read (first_fit 64) 0 READ_BYTE d' =
      Inr (Return 0 (map Some [98, 99] @ Some 0 # replicate 37 None) True, d'')" by (simp only:)
  have e: "dev_bytes ?e = [98, 99] @ 0 # replicate 37 7" and hr: "?hr 0 = Some (Chars (map Some (dev_bytes ?e)))"
    by simp_all
  show ?thesis by (intro exI conjI) (rule w r' e hr u)+
qed

end
